(* ===== verification/Prelude.thy ===== *)
theory Prelude
  imports Main
begin

text \<open>
  Shared vocabulary of the development: the exceptions the Python code raises, results that are
  either an exception or a value, the sequencing of fallible steps, and the generic facts about
  lists, indices and integer division that every component uses.

  A Python function that may raise is a HOL function into \<open>'a result\<close>; \<open>Inl\<close> carries the
  exception. An \<open>assert\<close> statement of the source is a branch to \<open>AssertionError\<close>. Where a
  function mutates its object before it raises, the model returns the object's state next to the
  result, so that nothing the caller can observe is lost.
\<close>

section \<open>Exceptions and results\<close>

datatype py_error =
    AssertionError
  | IndexError
  | KeyError
  | ValueError
  | RuntimeError
  | StopIteration
  | LogicError
  | OutOfPagesError
  | OverflowError
  | ZeroDivisionError
  | TypeError
  | AttributeError
  | NotImplementedError

type_synonym 'a result = "py_error + 'a"

definition rbind :: "'a result \<Rightarrow> ('a \<Rightarrow> 'b result) \<Rightarrow> 'b result" where
  "rbind m f = (case m of Inl e \<Rightarrow> Inl e | Inr x \<Rightarrow> f x)"

definition py_assert :: "bool \<Rightarrow> 'a result \<Rightarrow> 'a result" where
  "py_assert c k = (if c then k else Inl AssertionError)"

primrec rfold :: "('a \<Rightarrow> 's \<Rightarrow> 's result) \<Rightarrow> 'a list \<Rightarrow> 's \<Rightarrow> 's result" where
  "rfold f [] s = Inr s"
| "rfold f (x # xs) s = rbind (f x s) (rfold f xs)"

named_theorems result_simps \<open>rewriting of sequenced fallible steps\<close>
named_theorems inv_intros \<open>preservation of component invariants\<close>

lemma rbind_Inl [simp, result_simps]: "rbind (Inl e) f = Inl e"
  by (simp add: rbind_def)

lemma rbind_Inr [simp, result_simps]: "rbind (Inr x) f = f x"
  by (simp add: rbind_def)

lemma rbind_cong [fundef_cong]:
  "m = m' \<Longrightarrow> (\<And>x. m' = Inr x \<Longrightarrow> f x = f' x) \<Longrightarrow> rbind m f = rbind m' f'"
  by (auto simp: rbind_def split: sum.split)

lemma rbind_eq_Inr [result_simps]: "rbind m f = Inr y \<longleftrightarrow> (\<exists>x. m = Inr x \<and> f x = Inr y)"
  by (cases m) auto

lemma rbind_eq_Inl [result_simps]:
  "rbind m f = Inl e \<longleftrightarrow> m = Inl e \<or> (\<exists>x. m = Inr x \<and> f x = Inl e)"
  by (cases m) auto

lemma py_assert_True [simp, result_simps]: "c \<Longrightarrow> py_assert c k = k"
  by (simp add: py_assert_def)

lemma py_assert_False [simp, result_simps]: "\<not> c \<Longrightarrow> py_assert c k = Inl AssertionError"
  by (simp add: py_assert_def)

lemma py_assert_eq_Inr [result_simps]: "py_assert c k = Inr y \<longleftrightarrow> c \<and> k = Inr y"
  by (simp add: py_assert_def)

lemma rfold_append: "rfold f (xs @ ys) s = rbind (rfold f xs s) (rfold f ys)"
proof (induction xs arbitrary: s)
  case (Cons x xs)
  then show ?case by (cases "f x s") auto
qed simp

text \<open>An invariant that every step keeps holds after the whole loop.\<close>

lemma rfold_invariant:
  assumes "rfold f xs s = Inr s'" and "P s"
    and "\<And>x s s'. x \<in> set xs \<Longrightarrow> P s \<Longrightarrow> f x s = Inr s' \<Longrightarrow> P s'"
  shows "P s'"
  using assms
proof (induction xs arbitrary: s)
  case (Cons x xs)
  then obtain t where "f x s = Inr t" and "rfold f xs t = Inr s'"
    by (auto simp: rbind_eq_Inr)
  with Cons show ?case by (meson list.set_intros(1) list.set_intros(2))
qed simp

text \<open>A loop whose every step succeeds under an invariant succeeds.\<close>

lemma rfold_succeeds:
  assumes "P s" and "\<And>x s. x \<in> set xs \<Longrightarrow> P s \<Longrightarrow> \<exists>s'. f x s = Inr s' \<and> P s'"
  shows "\<exists>s'. rfold f xs s = Inr s' \<and> P s'"
  using assms
proof (induction xs arbitrary: s)
  case (Cons x xs)
  then obtain t where t: "f x s = Inr t" "P t" by (meson list.set_intros(1))
  then have "\<exists>s'. rfold f xs t = Inr s' \<and> P s'"
    using Cons by (meson list.set_intros(2))
  with t show ?case by simp
qed simp

section \<open>Lists and indices\<close>

lemma sum_list_update_nat:
  fixes xs :: "nat list"
  assumes "i < length xs"
  shows "sum_list (xs[i := v]) + xs ! i = sum_list xs + v"
  using assms
proof (induction xs arbitrary: i)
  case (Cons x xs)
  then show ?case by (cases i) auto
qed simp

lemma set_take_le: "set (take n xs) \<subseteq> set xs"
  by (rule set_take_subset)

lemma filter_take_drop: "filter P xs = filter P (take n xs) @ filter P (drop n xs)"
  by (metis append_take_drop_id filter_append)

lemma takeWhile_eq_all: "(\<forall>x\<in>set xs. P x) \<Longrightarrow> takeWhile P xs = xs"
  by (induction xs) auto

lemma length_takeWhile_less: "\<not> (\<forall>x\<in>set xs. P x) \<Longrightarrow> length (takeWhile P xs) < length xs"
  by (induction xs) auto

lemma take_prefix_nth: "i < n \<Longrightarrow> take n xs ! i = xs ! i"
  by (rule nth_take)

text \<open>Python's list index: a negative one counts from the back.\<close>

definition py_index :: "nat \<Rightarrow> int \<Rightarrow> nat result" where
  "py_index n k =
     (if 0 \<le> k \<and> k < int n then Inr (nat k)
      else if - int n \<le> k \<and> k < 0 then Inr (nat (int n + k))
      else Inl IndexError)"

lemma py_index_nat [simp]: "k < n \<Longrightarrow> py_index n (int k) = Inr k"
  by (simp add: py_index_def)

section \<open>Integer division\<close>

lemma div_le_iff:
  fixes a b n :: int
  assumes "0 < b"
  shows "n \<le> a div b \<longleftrightarrow> n * b \<le> a"
proof
  assume "n \<le> a div b"
  then have "n * b \<le> a div b * b" using assms by (simp add: mult_right_mono)
  also have "\<dots> \<le> a" using assms pos_mod_sign [of b a] by (simp add: minus_mod_eq_div_mult [symmetric])
  finally show "n * b \<le> a" .
next
  assume "n * b \<le> a"
  then have "n * b div b \<le> a div b" using assms by (rule zdiv_mono1)
  then show "n \<le> a div b" using assms by simp
qed

lemma div_less_iff:
  fixes a b n :: int
  assumes "0 < b"
  shows "a div b < n \<longleftrightarrow> a < n * b"
  using div_le_iff [OF assms, of n a] by (simp add: not_le [symmetric])

end
