(* ===== verification/KvUtils.thy ===== *)
theory KvUtils
  imports Prelude "HOL-Library.Multiset"
begin

text \<open>
  The pure helpers of \<^verbatim>\<open>runtime/kv_cache_manager_v2/_utils.py\<close>: rounding, half-open ranges,
  in-place removal, chunking, grouping by a classifier, searching, and the row-major
  two-dimensional array. Python integers are unbounded, so quantities that may be negative are
  \<open>int\<close>; lengths and indices are \<open>nat\<close>.
\<close>

section \<open>Definitions\<close>

definition div_up :: "int \<Rightarrow> int \<Rightarrow> int" where
  "div_up x y = (x + y - 1) div y"

definition round_up :: "int \<Rightarrow> int \<Rightarrow> int" where
  "round_up x y = div_up x y * y"

definition round_down :: "int \<Rightarrow> int \<Rightarrow> int" where
  "round_down x y = x div y * y"

definition exact_div :: "int \<Rightarrow> int \<Rightarrow> int result" where
  "exact_div x y = (if y = 0 then Inl ZeroDivisionError else py_assert (x mod y = 0) (Inr (x div y)))"

text \<open>\<open>HalfOpenRange\<close> is a pair \<open>(beg, end)\<close>; it is empty (falsy) when \<open>beg \<ge> end\<close>.\<close>

type_synonym half_open_range = "int \<times> int"

definition range_bool :: "half_open_range \<Rightarrow> bool" where
  "range_bool r = (fst r < snd r)"

definition range_len :: "half_open_range \<Rightarrow> int" where
  "range_len r = max 0 (snd r - fst r)"

definition range_contains :: "half_open_range \<Rightarrow> int \<Rightarrow> bool" where
  "range_contains r x = (fst r \<le> x \<and> x < snd r)"

definition intersect :: "half_open_range \<Rightarrow> half_open_range \<Rightarrow> half_open_range" where
  "intersect a b = (max (fst a) (fst b), min (snd a) (snd b))"

definition value_or :: "'a option \<Rightarrow> 'a \<Rightarrow> 'a" where
  "value_or opt d = (case opt of None \<Rightarrow> d | Some x \<Rightarrow> x)"

text \<open>
  \<open>remove_if\<close> compacts the list it is given: position \<open>idx\<close> of the list being rewritten is read,
  and the item is either collected in \<open>removed\<close> or moved down by the number of items removed so
  far; the tail is deleted at the end. The model returns the rewritten list and the removed items.
\<close>

definition remove_if_step :: "('a \<Rightarrow> bool) \<Rightarrow> 'a list \<times> 'a list \<Rightarrow> nat \<Rightarrow> 'a list \<times> 'a list" where
  "remove_if_step p st idx =
     (case st of (original, removed) \<Rightarrow>
        if p (original ! idx) then (original, removed @ [original ! idx])
        else (original[idx - length removed := original ! idx], removed))"

definition remove_if :: "'a list \<Rightarrow> ('a \<Rightarrow> bool) \<Rightarrow> 'a list \<times> 'a list" where
  "remove_if original p =
     (case foldl (remove_if_step p) (original, []) [0..<length original] of
        (o', removed) \<Rightarrow> (take (length o' - length removed) o', removed))"

function chunked :: "'a list \<Rightarrow> nat \<Rightarrow> 'a list list" where
  "chunked xs n =
     (let chunk = take n xs in
      if chunk = [] then [] else chunk # chunked (drop n xs) n)"
  by pat_completeness auto
termination
  by (relation "measure (\<lambda>(xs, n). length xs)") auto

declare chunked.simps [simp del]

text \<open>A \<open>defaultdict(list)\<close> keeps its keys in the order of first insertion.\<close>

fun dict_append :: "('k \<times> 'a list) list \<Rightarrow> 'k \<Rightarrow> 'a \<Rightarrow> ('k \<times> 'a list) list" where
  "dict_append [] k x = [(k, [x])]"
| "dict_append ((k', xs) # d) k x =
     (if k' = k then (k', xs @ [x]) # d else (k', xs) # dict_append d k x)"

definition partition_by :: "'a list \<Rightarrow> ('a \<Rightarrow> 'k) \<Rightarrow> ('k \<times> 'a list) list" where
  "partition_by original classifier =
     foldl (\<lambda>ret item. dict_append ret (classifier item) item) [] original"

text \<open>
  \<open>find_index\<close> returns the index of the first hit and otherwise one more than the last index
  looked at; its counter starts at 0, so an empty sequence gives 1.
\<close>

fun find_index_loop :: "nat \<Rightarrow> nat \<Rightarrow> 'a list \<Rightarrow> ('a \<Rightarrow> bool) \<Rightarrow> nat" where
  "find_index_loop i j [] p = i + 1"
| "find_index_loop i j (x # xs) p = (if p x then j else find_index_loop j (Suc j) xs p)"

definition find_index :: "'a list \<Rightarrow> ('a \<Rightarrow> bool) \<Rightarrow> nat" where
  "find_index xs p = find_index_loop 0 0 xs p"

record 'a array2d =
  a2_data :: "'a list"
  a2_cols :: nat

definition filled_array2d :: "nat \<Rightarrow> nat \<Rightarrow> 'a \<Rightarrow> 'a array2d" where
  "filled_array2d rows cols val = \<lparr>a2_data = replicate (rows * cols) val, a2_cols = cols\<rparr>"

definition a2_get :: "'a array2d \<Rightarrow> nat \<Rightarrow> nat \<Rightarrow> 'a result" where
  "a2_get a r c =
     (let k = r * a2_cols a + c in
      if k < length (a2_data a) then Inr (a2_data a ! k) else Inl IndexError)"

definition a2_set :: "'a array2d \<Rightarrow> nat \<Rightarrow> nat \<Rightarrow> 'a \<Rightarrow> 'a array2d result" where
  "a2_set a r c v =
     (let k = r * a2_cols a + c in
      if k < length (a2_data a) then Inr (a\<lparr>a2_data := (a2_data a)[k := v]\<rparr>) else Inl IndexError)"

section \<open>Rounding\<close>

text \<open>\<open>div_up\<close> is the least quotient that covers its argument.\<close>

lemma div_up_le_iff: "0 < y \<Longrightarrow> div_up x y \<le> n \<longleftrightarrow> x \<le> n * y"
  using div_less_iff [of y "x + y - 1" "n + 1"]
  by (auto simp: div_up_def algebra_simps)

lemma div_up_mult_ge: "0 < y \<Longrightarrow> x \<le> div_up x y * y"
  using div_up_le_iff [of y x "div_up x y"] by simp

lemma div_up_gt: "0 < y \<Longrightarrow> (div_up x y - 1) * y < x"
  using div_up_le_iff [of y x "div_up x y - 1"] by auto

lemma div_up_mono: "0 < y \<Longrightarrow> x \<le> x' \<Longrightarrow> div_up x y \<le> div_up x' y"
  by (simp add: div_up_def zdiv_mono1)

lemma div_up_nonneg: "0 < y \<Longrightarrow> 0 \<le> x \<Longrightarrow> 0 \<le> div_up x y"
  by (simp add: div_up_def pos_imp_zdiv_nonneg_iff)

lemma div_up_pos: "0 < y \<Longrightarrow> 0 < x \<Longrightarrow> 0 < div_up x y"
  using div_up_le_iff [of y x 0] by auto

lemma div_up_0 [simp]: "0 < y \<Longrightarrow> div_up 0 y = 0"
  by (simp add: div_up_def)

lemma div_up_ge_div: "0 < y \<Longrightarrow> x div y \<le> div_up x y"
  by (simp add: div_up_def zdiv_mono1)

lemma round_up_least:
  assumes "0 < y"
  shows "x \<le> round_up x y" and "round_up x y < x + y" and "y dvd round_up x y"
    and "y dvd z \<Longrightarrow> x \<le> z \<Longrightarrow> round_up x y \<le> z"
proof -
  show "x \<le> round_up x y" using assms by (simp add: round_up_def div_up_mult_ge)
  show "round_up x y < x + y" using div_up_gt [OF assms, of x] by (simp add: round_up_def algebra_simps)
  show "y dvd round_up x y" by (simp add: round_up_def)
  assume "y dvd z" and "x \<le> z"
  then obtain k where k: "z = k * y" by (metis dvd_def mult.commute)
  with \<open>x \<le> z\<close> have "div_up x y \<le> k" using div_up_le_iff [OF assms] by simp
  then show "round_up x y \<le> z" using assms k by (simp add: round_up_def)
qed

lemma round_down_greatest:
  assumes "0 < y"
  shows "round_down x y \<le> x" and "x < round_down x y + y" and "y dvd round_down x y"
proof -
  show "round_down x y \<le> x"
    using assms div_le_iff [of y "x div y" x] by (simp add: round_down_def)
  show "x < round_down x y + y"
    using assms div_less_iff [of y x "x div y + 1"] by (simp add: round_down_def algebra_simps)
  show "y dvd round_down x y" by (simp add: round_down_def)
qed

section \<open>Ranges\<close>

lemma range_contains_intersect [simp]:
  "range_contains (intersect a b) x \<longleftrightarrow> range_contains a x \<and> range_contains b x"
  by (auto simp: range_contains_def intersect_def)

lemma range_bool_iff: "range_bool r \<longleftrightarrow> (\<exists>x. range_contains r x)"
  by (auto simp: range_bool_def range_contains_def intro: exI [of _ "fst r"])

lemma range_set_eq: "{x. range_contains r x} = {fst r..<snd r}"
  by (auto simp: range_contains_def)

lemma range_len_card: "range_len r = int (card {x. range_contains r x})"
  by (simp add: range_set_eq range_len_def)

section \<open>In-place removal\<close>

lemma remove_if_step_Pair:
  "remove_if_step p (original, removed) idx =
     (if p (original ! idx) then (original, removed @ [original ! idx])
      else (original[idx - length removed := original ! idx], removed))"
  by (simp add: remove_if_step_def)

lemma remove_if_loop:
  assumes "k \<le> length xs"
  shows "\<exists>ys. foldl (remove_if_step p) (xs, []) [0..<k] =
              (filter (\<lambda>x. \<not> p x) (take k xs) @ ys @ drop k xs, filter p (take k xs)) \<and>
              length ys = length (filter p (take k xs))"
  using assms
proof (induction k)
  case 0
  show ?case by simp
next
  case (Suc k)
  then obtain ys where fold: "foldl (remove_if_step p) (xs, []) [0..<k] =
        (filter (\<lambda>x. \<not> p x) (take k xs) @ ys @ drop k xs, filter p (take k xs))"
      and len: "length ys = length (filter p (take k xs))" by auto
  let ?kept = "filter (\<lambda>x. \<not> p x) (take k xs)" and ?rem = "filter p (take k xs)"
  have lens: "length ?kept + length ys = k"
    using sum_length_filter_compl [of p "take k xs"] Suc.prems len by simp
  have at_k: "(?kept @ ys @ drop k xs) ! k = xs ! k"
    using lens Suc.prems nth_append [of "?kept @ ys" "drop k xs" k] by simp
  have step: "take (Suc k) xs = take k xs @ [xs ! k]" "drop k xs = xs ! k # drop (Suc k) xs"
    using Suc.prems by (simp_all add: take_Suc_conv_app_nth Cons_nth_drop_Suc)
  show ?case
  proof (cases "p (xs ! k)")
    case True
    then show ?thesis
      using fold at_k step len
      by (intro exI [of _ "ys @ [xs ! k]"]) (simp add: remove_if_step_Pair)
  next
    case False
    have "k - length ?rem = length ?kept" using lens len by simp
    then have "(?kept @ ys @ drop k xs)[k - length ?rem := xs ! k] =
               ?kept @ (ys @ drop k xs)[0 := xs ! k]" by (simp add: list_update_append)
    also have "\<dots> = (?kept @ [xs ! k]) @ tl (ys @ [xs ! k]) @ drop (Suc k) xs"
      using step(2) by (cases ys) auto
    finally show ?thesis
      using fold at_k step len False
      by (intro exI [of _ "tl (ys @ [xs ! k])"]) (simp add: remove_if_step_Pair)
  qed
qed

lemma remove_if_filter: "remove_if xs p = (filter (\<lambda>x. \<not> p x) xs, filter p xs)"
proof -
  obtain ys where fold: "foldl (remove_if_step p) (xs, []) [0..<length xs] =
        (filter (\<lambda>x. \<not> p x) xs @ ys, filter p xs)"
      and len: "length ys = length (filter p xs)"
    using remove_if_loop [of "length xs" xs p] by auto
  then show ?thesis by (simp add: remove_if_def)
qed

section \<open>Chunking\<close>

lemma chunked_Nil [simp]: "chunked [] n = []"
  by (simp add: chunked.simps)

lemma chunked_Cons: "xs \<noteq> [] \<Longrightarrow> 0 < n \<Longrightarrow> chunked xs n = take n xs # chunked (drop n xs) n"
  by (subst chunked.simps) (simp add: Let_def)

lemma concat_chunked: "0 < n \<Longrightarrow> concat (chunked xs n) = xs"
proof (induction xs n rule: chunked.induct)
  case (1 xs n)
  then show ?case
    by (cases "xs = []") (simp_all add: chunked_Cons)
qed

lemma chunked_lengths:
  assumes "0 < n" "c \<in> set (chunked xs n)"
  shows "0 < length c \<and> length c \<le> n"
  using assms
proof (induction xs n rule: chunked.induct)
  case (1 xs n)
  then show ?case
    by (cases "xs = []") (auto simp: chunked_Cons)
qed

lemma chunked_full_but_last:
  assumes "0 < n" "c \<in> set (butlast (chunked xs n))"
  shows "length c = n"
  using assms
proof (induction xs n rule: chunked.induct)
  case (1 xs n)
  show ?case
  proof (cases "xs = []")
    case True
    with "1.prems" show ?thesis by simp
  next
    case False
    show ?thesis
    proof (cases "drop n xs = []")
      case True
      with "1.prems" False show ?thesis by (simp add: chunked_Cons)
    next
      case more: False
      then have "chunked (drop n xs) n \<noteq> []" using "1.prems"(1) by (simp add: chunked_Cons)
      then have "c = take n xs \<or> c \<in> set (butlast (chunked (drop n xs) n))"
        using "1.prems" False by (auto simp: chunked_Cons)
      then show ?thesis using "1.IH" "1.prems"(1) False more by auto
    qed
  qed
qed

section \<open>Grouping\<close>

lemma map_of_dict_append:
  "map_of (dict_append d k x) j =
     (if j = k then Some (value_or (map_of d k) [] @ [x]) else map_of d j)"
  by (induction d k x rule: dict_append.induct) (auto simp: value_or_def)

lemma keys_dict_append: "fst ` set (dict_append d k x) = insert k (fst ` set d)"
  by (induction d k x rule: dict_append.induct) auto

lemma distinct_dict_append: "distinct (map fst d) \<Longrightarrow> distinct (map fst (dict_append d k x))"
  by (induction d k x rule: dict_append.induct) (auto simp: keys_dict_append [simplified] image_iff)

lemma partition_by_snoc:
  "partition_by (xs @ [x]) f = dict_append (partition_by xs f) (f x) x"
  by (simp add: partition_by_def)

lemma partition_by_distinct: "distinct (map fst (partition_by xs f))"
  by (induction xs rule: rev_induct) (auto simp: partition_by_snoc distinct_dict_append, simp add: partition_by_def)

lemma partition_by_groups:
  "map_of (partition_by xs f) k = (if k \<in> f ` set xs then Some (filter (\<lambda>x. f x = k) xs) else None)"
proof (induction xs rule: rev_induct)
  case Nil
  show ?case by (simp add: partition_by_def)
next
  case (snoc x xs)
  then show ?case
    by (auto simp: partition_by_snoc map_of_dict_append value_or_def)
      (metis (mono_tags, lifting) filter_False image_eqI)
qed

lemma mset_concat_perm: "mset xs = mset ys \<Longrightarrow> mset (concat (map f xs)) = mset (concat (map f ys))"
  unfolding mset_concat by (metis (no_types, lifting) mset_map sum_mset_sum_list)

lemma dict_append_values: "mset (concat (map snd (dict_append d k x))) = add_mset x (mset (concat (map snd d)))"
  by (induction d k x rule: dict_append.induct) auto

lemma partition_by_values: "mset (concat (map snd (partition_by xs f))) = mset xs"
  by (induction xs rule: rev_induct) (simp_all add: partition_by_snoc dict_append_values, simp add: partition_by_def)

section \<open>Searching\<close>

lemma find_index_loop_eq:
  "xs \<noteq> [] \<Longrightarrow> find_index_loop i j xs p = j + length (takeWhile (\<lambda>x. \<not> p x) xs)"
proof (induction xs arbitrary: i j)
  case (Cons x xs)
  then show ?case by (cases xs) auto
qed simp

lemma find_index_eq:
  "find_index xs p = (if xs = [] then 1 else length (takeWhile (\<lambda>x. \<not> p x) xs))"
  by (simp add: find_index_def find_index_loop_eq)

section \<open>Two-dimensional arrays\<close>

definition a2_wf :: "nat \<Rightarrow> 'a array2d \<Rightarrow> bool" where
  "a2_wf rows a \<longleftrightarrow> length (a2_data a) = rows * a2_cols a"

lemma a2_index_less: "r < rows \<Longrightarrow> c < cols \<Longrightarrow> r * cols + c < rows * (cols :: nat)"
proof -
  assume "r < rows" and c: "c < cols"
  then have "Suc r * cols \<le> rows * cols" by (intro mult_le_mono1) simp
  with c show ?thesis by simp
qed

lemma a2_index_inj:
  fixes c c' cols :: nat
  assumes "c < cols" "c' < cols" "r * cols + c = r' * cols + c'"
  shows "r = r' \<and> c = c'"
proof -
  have "r = (r * cols + c) div cols" using assms(1) by (subst div_mult_self3) auto
  also have "\<dots> = r'" using assms(2) unfolding assms(3) by (subst div_mult_self3) auto
  finally show ?thesis using assms(3) by auto
qed

lemma a2_get_set:
  assumes "a2_wf rows a" "r < rows" "c < a2_cols a" "r' < rows" "c' < a2_cols a"
  shows "\<exists>a'. a2_set a r c v = Inr a' \<and> a2_wf rows a' \<and> a2_cols a' = a2_cols a \<and>
              a2_get a' r' c' = (if r' = r \<and> c' = c then Inr v else a2_get a r' c')"
proof -
  have "r * a2_cols a + c < length (a2_data a)" "r' * a2_cols a + c' < length (a2_data a)"
    using assms a2_index_less by (auto simp: a2_wf_def)
  moreover have "r * a2_cols a + c = r' * a2_cols a + c' \<longleftrightarrow> r = r' \<and> c = c'"
    using a2_index_inj assms by blast
  ultimately show ?thesis
    using assms by (auto simp: a2_set_def a2_get_def Let_def a2_wf_def nth_list_update)
qed

lemma filled_array2d_wf [simp]: "a2_wf rows (filled_array2d rows cols v)"
  by (simp add: a2_wf_def filled_array2d_def)

end
