(* ===== verification/Bitset.thy ===== *)
theory Bitset
  imports KvUtils "HOL-Library.Word"
begin

unbundle bit_operations_syntax

text \<open>
  \<open>DynamicBitset\<close> of \<^verbatim>\<open>runtime/kv_cache_manager_v2/_utils.py\<close>: an \<open>array('Q')\<close> of 64-bit words
  with a cached population count. Words are \<open>64 word\<close>; an access past the array is an
  \<open>IndexError\<close>. A mask that Python builds with an unbounded shift is only ever combined by
  \<open>&\<close> with a word of the array, so its low 64 bits are all that matters.

  The bitset refines a finite set of indices. That contract is the locale \<open>index_set\<close>, which is
  what the slot allocator relies on.
\<close>

section \<open>Definitions\<close>

record dynamic_bitset =
  bits :: "64 word list"
  num_set_bits :: nat

definition dbs_init :: "nat \<Rightarrow> dynamic_bitset" where
  "dbs_init capacity = \<lparr>bits = replicate (nat (div_up (int capacity) 64)) 0, num_set_bits = 0\<rparr>"

definition dbs_get :: "dynamic_bitset \<Rightarrow> nat \<Rightarrow> bool result" where
  "dbs_get b index =
     (if index div 64 < length (bits b)
      then Inr ((bits b ! (index div 64)) AND push_bit (index mod 64) 1 \<noteq> 0)
      else Inl IndexError)"

definition dbs_set :: "dynamic_bitset \<Rightarrow> nat \<Rightarrow> dynamic_bitset result" where
  "dbs_set b index =
     rbind (dbs_get b index) (\<lambda>g.
       if \<not> g
       then Inr (b\<lparr>bits := (bits b)[index div 64 :=
                     (bits b ! (index div 64)) OR push_bit (index mod 64) 1],
                   num_set_bits := num_set_bits b + 1\<rparr>)
       else Inr b)"

definition dbs_clear :: "dynamic_bitset \<Rightarrow> nat \<Rightarrow> dynamic_bitset result" where
  "dbs_clear b index =
     rbind (dbs_get b index) (\<lambda>g.
       if g
       then Inr (b\<lparr>bits := (bits b)[index div 64 :=
                     (bits b ! (index div 64)) AND NOT (push_bit (index mod 64) 1)],
                   num_set_bits := num_set_bits b - 1\<rparr>)
       else Inr b)"

definition dbs_resize :: "dynamic_bitset \<Rightarrow> nat \<Rightarrow> dynamic_bitset" where
  "dbs_resize b new_capacity =
     (let new_len = nat (div_up (int new_capacity) 64) in
      if length (bits b) < new_len
      then b\<lparr>bits := bits b @ replicate (new_len - length (bits b)) 0\<rparr>
      else if new_len < length (bits b)
      then let kept = take new_len (bits b) in
           b\<lparr>bits := (if new_capacity mod 64 \<noteq> 0
                      then kept[new_len - 1 :=
                             (kept ! (new_len - 1)) AND drop_bit (64 - new_capacity mod 64) (- 1)]
                      else kept)\<rparr>
      else b)"

definition dbs_word :: "dynamic_bitset \<Rightarrow> nat \<Rightarrow> 64 word result" where
  "dbs_word b k = (if k < length (bits b) then Inr (bits b ! k) else Inl IndexError)"

fun dbs_any_word :: "dynamic_bitset \<Rightarrow> nat list \<Rightarrow> bool result" where
  "dbs_any_word b [] = Inr False"
| "dbs_any_word b (k # ks) =
     rbind (dbs_word b k) (\<lambda>w. if w \<noteq> 0 then Inr True else dbs_any_word b ks)"

definition dbs_any_set :: "dynamic_bitset \<Rightarrow> nat \<Rightarrow> nat \<Rightarrow> bool result" where
  "dbs_any_set b start stop =
     (if start \<ge> stop then Inr False
      else
        let start_word_mask = push_bit (start mod 64) (- 1);
            end_word_mask = drop_bit (64 - stop mod 64) (- 1);
            rest = dbs_any_word b [start div 64 + 1..<stop div 64]
        in rbind (dbs_word b (start div 64)) (\<lambda>ws.
             if start div 64 = stop div 64
             then if start_word_mask AND end_word_mask AND ws \<noteq> 0 then Inr True else rest
             else if start_word_mask AND ws \<noteq> 0 then Inr True
             else if stop mod 64 = 0 then rest
             else rbind (dbs_word b (stop div 64)) (\<lambda>we.
                    if end_word_mask AND we \<noteq> 0 then Inr True else rest)))"

section \<open>The contract: a finite set of indices\<close>

locale index_set =
  fixes get :: "'s \<Rightarrow> nat \<Rightarrow> bool result"
    and ins :: "'s \<Rightarrow> nat \<Rightarrow> 's result"
    and del :: "'s \<Rightarrow> nat \<Rightarrow> 's result"
    and count :: "'s \<Rightarrow> nat"
    and elems :: "'s \<Rightarrow> nat set"
    and room :: "'s \<Rightarrow> nat"
    and invar :: "'s \<Rightarrow> bool"
  assumes elems_room: "invar s \<Longrightarrow> elems s \<subseteq> {..<room s}"
    and get_elems: "invar s \<Longrightarrow> i < room s \<Longrightarrow> get s i = Inr (i \<in> elems s)"
    and ins_elems: "invar s \<Longrightarrow> i < room s \<Longrightarrow>
          \<exists>s'. ins s i = Inr s' \<and> invar s' \<and> room s' = room s \<and> elems s' = insert i (elems s)"
    and del_elems: "invar s \<Longrightarrow> i < room s \<Longrightarrow>
          \<exists>s'. del s i = Inr s' \<and> invar s' \<and> room s' = room s \<and> elems s' = elems s - {i}"
    and count_elems: "invar s \<Longrightarrow> count s = card (elems s)"
begin

lemma finite_elems: "invar s \<Longrightarrow> finite (elems s)"
  using elems_room finite_subset by blast

lemma ins_result:
  assumes "invar s" "i < room s" "ins s i = Inr s'"
  shows "invar s'" "room s' = room s" "elems s' = insert i (elems s)"
  using ins_elems [OF assms(1,2)] assms(3) by auto

lemma del_result:
  assumes "invar s" "i < room s" "del s i = Inr s'"
  shows "invar s'" "room s' = room s" "elems s' = elems s - {i}"
  using del_elems [OF assms(1,2)] assms(3) by auto

lemma count_ins:
  assumes "invar s" "i < room s" "i \<notin> elems s" "ins s i = Inr s'"
  shows "count s' = Suc (count s)"
  using ins_result [OF assms(1,2,4)] assms(1,3) by (simp add: count_elems finite_elems)

lemma count_del:
  assumes "invar s" "i < room s" "i \<in> elems s" "del s i = Inr s'"
  shows "Suc (count s') = count s"
  using del_result [OF assms(1,2,4)] assms(1,3) card_Suc_Diff1 [OF finite_elems [OF assms(1)] assms(3)]
  by (simp add: count_elems)

lemma ins_del_roundtrip:
  assumes "invar s" "i < room s" "i \<notin> elems s" "ins s i = Inr s'" "del s' i = Inr s''"
  shows "elems s'' = elems s \<and> count s'' = count s"
  using ins_result [OF assms(1,2,4)] del_result [of s' i s''] assms by (simp add: count_elems)

end

section \<open>The bitset satisfies it\<close>

definition bs_room :: "dynamic_bitset \<Rightarrow> nat" where
  "bs_room b = 64 * length (bits b)"

definition bs_elems :: "dynamic_bitset \<Rightarrow> nat set" where
  "bs_elems b = {i. i < bs_room b \<and> bit (bits b ! (i div 64)) (i mod 64)}"

definition bs_invar :: "dynamic_bitset \<Rightarrow> bool" where
  "bs_invar b \<longleftrightarrow> num_set_bits b = card (bs_elems b)"

lemma bs_elems_finite [simp]: "finite (bs_elems b)"
  by (rule finite_subset [of _ "{..<bs_room b}"]) (auto simp: bs_elems_def)

lemma room_div: "i < bs_room b \<longleftrightarrow> i div 64 < length (bits b)"
  unfolding bs_room_def by (metis less_mult_imp_div_less mult.commute div_less_iff_less_mult zero_less_numeral)

lemma word_and_nonzero: "(v :: 64 word) AND w \<noteq> 0 \<longleftrightarrow> (\<exists>n<64. bit v n \<and> bit w n)"
  by (auto simp: bit_eq_iff bit_and_iff dest: bit_imp_le_length)

lemma bit_single: "bit (2 ^ k :: 64 word) n \<longleftrightarrow> n < 64 \<and> n = k"
  by (auto simp: bit_exp_iff possible_bit_word)

lemma word_and_bit_nonzero: "(w :: 64 word) AND 2 ^ n \<noteq> 0 \<longleftrightarrow> n < 64 \<and> bit w n"
  by (auto simp: word_and_nonzero bit_single)

lemma dbs_get_elems: "i < bs_room b \<Longrightarrow> dbs_get b i = Inr (i \<in> bs_elems b)"
  by (simp add: dbs_get_def room_div bs_elems_def word_and_bit_nonzero)

lemma index_split: "(i :: nat) div 64 = j div 64 \<Longrightarrow> i mod 64 = j mod 64 \<Longrightarrow> i = j"
  by (metis div_mult_mod_eq)

text \<open>Both updates change the count exactly when they change the set, whatever the count was before.\<close>

lemma dbs_set_bits:
  assumes "i < bs_room b"
  shows "\<exists>b'. dbs_set b i = Inr b' \<and> bs_room b' = bs_room b \<and> bs_elems b' = insert i (bs_elems b) \<and>
     num_set_bits b' = num_set_bits b + (if i \<in> bs_elems b then 0 else 1)"
proof (cases "i \<in> bs_elems b")
  case True
  with assms show ?thesis by (auto simp: dbs_set_def dbs_get_elems)
next
  case False
  let ?w = "bits b ! (i div 64) OR push_bit (i mod 64) 1"
  let ?b' = "b\<lparr>bits := (bits b)[i div 64 := ?w], num_set_bits := num_set_bits b + 1\<rparr>"
  have "bs_elems ?b' = insert i (bs_elems b)"
    using assms
    by (auto simp: bs_elems_def room_div nth_list_update bit_or_iff bit_single
        split: if_splits intro: index_split)
  moreover have "dbs_set b i = Inr ?b'"
    using assms False by (simp add: dbs_set_def dbs_get_elems)
  ultimately show ?thesis using False by (auto simp: bs_room_def)
qed

lemma dbs_clear_bits:
  assumes "i < bs_room b"
  shows "\<exists>b'. dbs_clear b i = Inr b' \<and> bs_room b' = bs_room b \<and> bs_elems b' = bs_elems b - {i} \<and>
     num_set_bits b' = num_set_bits b - (if i \<in> bs_elems b then 1 else 0)"
proof (cases "i \<in> bs_elems b")
  case False
  with assms show ?thesis by (auto simp: dbs_clear_def dbs_get_elems)
next
  case True
  let ?w = "bits b ! (i div 64) AND NOT (push_bit (i mod 64) 1)"
  let ?b' = "b\<lparr>bits := (bits b)[i div 64 := ?w], num_set_bits := num_set_bits b - 1\<rparr>"
  have "bs_elems ?b' = bs_elems b - {i}"
    using assms
    by (auto simp: bs_elems_def room_div nth_list_update bit_and_iff bit_not_iff bit_single
        split: if_splits intro: index_split)
  moreover have "dbs_clear b i = Inr ?b'"
    using assms True by (simp add: dbs_clear_def dbs_get_elems)
  ultimately show ?thesis using True by (auto simp: bs_room_def)
qed

lemma dbs_set_elems:
  assumes "bs_invar b" "i < bs_room b"
  shows "\<exists>b'. dbs_set b i = Inr b' \<and> bs_invar b' \<and> bs_room b' = bs_room b \<and>
              bs_elems b' = insert i (bs_elems b)"
  using dbs_set_bits [OF assms(2)] assms(1) by (auto simp: bs_invar_def insert_absorb)

lemma dbs_clear_elems:
  assumes "bs_invar b" "i < bs_room b"
  shows "\<exists>b'. dbs_clear b i = Inr b' \<and> bs_invar b' \<and> bs_room b' = bs_room b \<and>
              bs_elems b' = bs_elems b - {i}"
  using dbs_clear_bits [OF assms(2)] assms(1) by (auto simp: bs_invar_def)

interpretation occ: index_set dbs_get dbs_set dbs_clear num_set_bits bs_elems bs_room bs_invar
proof unfold_locales
  fix s i
  show "bs_elems s \<subseteq> {..<bs_room s}" by (auto simp: bs_elems_def)
  show "i < bs_room s \<Longrightarrow> dbs_get s i = Inr (i \<in> bs_elems s)" by (rule dbs_get_elems)
  assume "bs_invar s"
  then show "num_set_bits s = card (bs_elems s)" by (simp add: bs_invar_def)
  assume "i < bs_room s"
  with \<open>bs_invar s\<close>
  show "\<exists>s'. dbs_set s i = Inr s' \<and> bs_invar s' \<and> bs_room s' = bs_room s \<and>
          bs_elems s' = insert i (bs_elems s)"
    and "\<exists>s'. dbs_clear s i = Inr s' \<and> bs_invar s' \<and> bs_room s' = bs_room s \<and>
          bs_elems s' = bs_elems s - {i}"
    by (rule dbs_set_elems, rule dbs_clear_elems)
qed

section \<open>Creation and resizing\<close>

lemma words_for: "nat (div_up (int n) 64) = (n + 63) div 64"
  by (simp add: div_up_def nat_div_distrib zdiv_int [symmetric] flip: of_nat_add)

lemma dbs_init_elems [simp]: "bs_elems (dbs_init n) = {}" "bs_invar (dbs_init n)"
  by (auto simp: bs_elems_def dbs_init_def bs_room_def bs_invar_def less_mult_imp_div_less mult.commute)

lemma dbs_init_room: "n \<le> bs_room (dbs_init n)"
  by (simp add: bs_room_def dbs_init_def words_for)

text \<open>Comparing indices through their word and their position in it.\<close>

lemma index_ge_split:
  "(a :: nat) \<le> i \<longleftrightarrow> a div 64 < i div 64 \<or> i div 64 = a div 64 \<and> a mod 64 \<le> i mod 64"
proof -
  have "a = 64 * (a div 64) + a mod 64" "i = 64 * (i div 64) + i mod 64" by simp_all
  moreover have "a mod 64 < 64" "i mod 64 < 64" by simp_all
  ultimately show ?thesis by linarith
qed

lemma index_less_split:
  "(i :: nat) < a \<longleftrightarrow> i div 64 < a div 64 \<or> i div 64 = a div 64 \<and> i mod 64 < a mod 64"
  using index_ge_split [of a i] by (auto simp: not_le [symmetric])

lemma index_between_words:
  "64 * (s + 1) \<le> i \<and> i < 64 * e \<longleftrightarrow> s < i div 64 \<and> i div 64 < (e :: nat)"
  by (auto simp: div_less_iff_less_mult less_eq_div_iff_mult_less_eq less_eq_Suc_le mult.commute
      simp flip: Suc_eq_plus1)

text \<open>
  Resizing to fewer words drops the members past the new capacity; with the same number of words or more every
  member stays, also one past the new capacity. The cached count is not touched.
\<close>

lemma end_mask_bit: "n < 64 \<Longrightarrow> e < 64 \<Longrightarrow> bit (drop_bit (64 - e) (- 1) :: 64 word) n \<longleftrightarrow> n < e"
  by (auto simp: bit_mask_iff possible_bit_word)

lemma resize_length: "length (bits (dbs_resize b n)) = (n + 63) div 64"
  by (auto simp: dbs_resize_def words_for Let_def)

lemma resize_word:
  assumes "k < (n + 63) div 64" "j < 64"
  shows "bit (bits (dbs_resize b n) ! k) j \<longleftrightarrow>
     k < length (bits b) \<and> bit (bits b ! k) j \<and>
     ((n + 63) div 64 < length (bits b) \<and> n mod 64 \<noteq> 0 \<and> k = n div 64 \<longrightarrow> j < n mod 64)"
proof -
  consider "length (bits b) < (n + 63) div 64" | "(n + 63) div 64 = length (bits b)"
    | "(n + 63) div 64 < length (bits b)" by linarith
  then show ?thesis
  proof cases
    case 3
    show ?thesis
    proof (cases "n mod 64 = 0")
      case True
      with 3 assms show ?thesis by (simp add: dbs_resize_def words_for Let_def)
    next
      case False
      then have last: "(n + 63) div 64 - 1 = n div 64"
        by (simp add: div_add1_eq [of n 63])
      then have pos: "n div 64 < (n + 63) div 64" using assms(1) by linarith
      have "bits (dbs_resize b n) = (take ((n + 63) div 64) (bits b))[n div 64 :=
          bits b ! (n div 64) AND drop_bit (64 - n mod 64) (- 1)]"
        using 3 False last assms(1) unfolding dbs_resize_def words_for Let_def
        by (simp del: One_nat_def)
      then show ?thesis
        using 3 False assms pos end_mask_bit [of j "n mod 64"]
        by (simp add: nth_list_update bit_and_iff)
    qed
  qed (use assms in \<open>auto simp: dbs_resize_def words_for Let_def nth_append\<close>)
qed

lemma dbs_resize_members:
  "bs_elems (dbs_resize b n) = (if (n + 63) div 64 < length (bits b) then bs_elems b \<inter> {..<n} else bs_elems b)"
proof (rule set_eqI)
  fix i
  show "i \<in> bs_elems (dbs_resize b n) \<longleftrightarrow>
      i \<in> (if (n + 63) div 64 < length (bits b) then bs_elems b \<inter> {..<n} else bs_elems b)"
  proof (cases "i div 64 < (n + 63) div 64")
    case True
    have "i < n \<longleftrightarrow> (n mod 64 \<noteq> 0 \<and> i div 64 = n div 64 \<longrightarrow> i mod 64 < n mod 64)"
      using True index_less_split [of i n] by (cases "n mod 64 = 0") (auto simp: div_add1_eq [of n 63] split: if_splits)
    then show ?thesis
      using resize_word [OF True, of "i mod 64" b] True
      unfolding bs_elems_def room_div resize_length by auto
  next
    case False
    then have "\<not> i < n" by (simp add: div_less_iff_less_mult)
    then show ?thesis
      using False unfolding bs_elems_def room_div resize_length by auto
  qed
qed

lemma dbs_resize_count [simp]: "num_set_bits (dbs_resize b n) = num_set_bits b"
  by (simp add: dbs_resize_def Let_def)

lemma dbs_resize_elems:
  assumes "bs_invar b" "bs_elems b \<subseteq> {..<n}"
  shows "bs_elems (dbs_resize b n) = bs_elems b" "bs_invar (dbs_resize b n)"
    "n \<le> bs_room (dbs_resize b n)"
proof -
  show el: "bs_elems (dbs_resize b n) = bs_elems b" using assms(2) by (auto simp: dbs_resize_members)
  show "bs_invar (dbs_resize b n)" using assms(1) el by (simp add: bs_invar_def)
  show "n \<le> bs_room (dbs_resize b n)" by (simp add: bs_room_def resize_length)
qed

section \<open>Range queries\<close>

lemma dbs_any_word_range:
  assumes "n \<le> length (bits b)"
  shows "dbs_any_word b [m..<n] = Inr (\<exists>i\<in>bs_elems b. 64 * m \<le> i \<and> i < 64 * n)"
  using assms
proof (induction "n - m" arbitrary: m)
  case 0
  then show ?case by auto
next
  case (Suc d)
  then have mn: "m < n" and IH: "dbs_any_word b [Suc m..<n] =
      Inr (\<exists>i\<in>bs_elems b. 64 * Suc m \<le> i \<and> i < 64 * n)" by auto
  have word: "bits b ! m \<noteq> 0 \<longleftrightarrow> (\<exists>i\<in>bs_elems b. 64 * m \<le> i \<and> i < 64 * Suc m)"
  proof
    assume "bits b ! m \<noteq> 0"
    then obtain k where k: "bit (bits b ! m) k" by (auto simp: bit_eq_iff)
    then have "k < 64" using bit_imp_le_length by fastforce
    with k mn Suc.prems have "64 * m + k \<in> bs_elems b" by (auto simp: bs_elems_def bs_room_def)
    with \<open>k < 64\<close> show "\<exists>i\<in>bs_elems b. 64 * m \<le> i \<and> i < 64 * Suc m"
      by (intro bexI [of _ "64 * m + k"]) auto
  next
    assume "\<exists>i\<in>bs_elems b. 64 * m \<le> i \<and> i < 64 * Suc m"
    then obtain i where i: "i \<in> bs_elems b" "64 * m \<le> i" "i < 64 * Suc m" by auto
    then have "i div 64 = m" by (simp add: div_nat_eqI)
    with i show "bits b ! m \<noteq> 0" by (auto simp: bs_elems_def)
  qed
  have "(\<exists>i\<in>bs_elems b. 64 * m \<le> i \<and> i < 64 * n) \<longleftrightarrow>
      (\<exists>i\<in>bs_elems b. 64 * m \<le> i \<and> i < 64 * Suc m) \<or>
      (\<exists>i\<in>bs_elems b. 64 * Suc m \<le> i \<and> i < 64 * n)" (is "?all \<longleftrightarrow> ?first \<or> ?later")
  proof
    assume ?all
    then obtain i where "i \<in> bs_elems b" "64 * m \<le> i" "i < 64 * n" by auto
    then show "?first \<or> ?later" by (cases "i < 64 * Suc m") (auto simp: not_less)
  next
    assume "?first \<or> ?later"
    then obtain i where "i \<in> bs_elems b" "64 * m \<le> i" "i < 64 * Suc m \<or> i < 64 * n" by auto
    moreover have "64 * Suc m \<le> 64 * n" using mn by simp
    ultimately show ?all by (intro bexI [of _ i]) auto
  qed
  moreover have "dbs_any_word b [m..<n] = Inr (bits b ! m \<noteq> 0 \<or> ?later)"
    using mn Suc.prems IH by (simp add: upt_conv_Cons dbs_word_def del: upt_Suc)
  ultimately show ?case by (simp only: word)
qed

lemma start_mask_bit: "n < 64 \<Longrightarrow> bit (push_bit k (- 1) :: 64 word) n \<longleftrightarrow> k \<le> n"
  by (simp add: bit_not_iff bit_mask_iff possible_bit_word not_less)

text \<open>The indices of one word that a mask selects.\<close>

lemma masked_word:
  assumes "k < length (bits b)"
    and "\<And>n. n < 64 \<Longrightarrow> bit msk n \<longleftrightarrow> P n"
  shows "msk AND bits b ! k \<noteq> 0 \<longleftrightarrow> (\<exists>i\<in>bs_elems b. i div 64 = k \<and> P (i mod 64))"
proof
  assume "msk AND bits b ! k \<noteq> 0"
  then obtain n where "n < 64" "P n" "bit (bits b ! k) n"
    using assms(2) by (auto simp: word_and_nonzero)
  with assms(1) show "\<exists>i\<in>bs_elems b. i div 64 = k \<and> P (i mod 64)"
    by (intro bexI [of _ "64 * k + n"]) (auto simp: bs_elems_def bs_room_def)
next
  assume "\<exists>i\<in>bs_elems b. i div 64 = k \<and> P (i mod 64)"
  then obtain i where i: "i \<in> bs_elems b" "i div 64 = k" "P (i mod 64)" by auto
  then have "bit msk (i mod 64) \<and> bit (bits b ! k) (i mod 64)"
    using assms(2) [of "i mod 64"] by (auto simp: bs_elems_def)
  then show "msk AND bits b ! k \<noteq> 0"
    by (auto simp: word_and_nonzero intro!: exI [of _ "i mod 64"])
qed

text \<open>The branches of \<open>any_set\<close>, one equation each.\<close>

lemma dbs_any_set_same_word:
  assumes "start < stop" "start div 64 = stop div 64" "start div 64 < length (bits b)"
  shows "dbs_any_set b start stop =
     Inr (push_bit (start mod 64) (- 1) AND drop_bit (64 - stop mod 64) (- 1) AND
          bits b ! (start div 64) \<noteq> 0)"
  using assms unfolding dbs_any_set_def dbs_word_def Let_def by simp

lemma dbs_any_set_two_words:
  assumes "start < stop" "start div 64 \<noteq> stop div 64" "start div 64 < length (bits b)"
    and "stop mod 64 \<noteq> 0 \<Longrightarrow> stop div 64 < length (bits b)"
    and "dbs_any_word b [start div 64 + 1..<stop div 64] = Inr inner"
  shows "dbs_any_set b start stop =
     Inr (push_bit (start mod 64) (- 1) AND bits b ! (start div 64) \<noteq> 0 \<or>
          stop mod 64 \<noteq> 0 \<and> drop_bit (64 - stop mod 64) (- 1) AND bits b ! (stop div 64) \<noteq> 0 \<or>
          inner)"
  using assms unfolding dbs_any_set_def dbs_word_def Let_def by simp

lemma dbs_any_set_elems:
  assumes "stop \<le> bs_room b"
  shows "dbs_any_set b start stop = Inr (\<exists>i\<in>bs_elems b. start \<le> i \<and> i < stop)"
proof (cases "start < stop")
  case False
  then show ?thesis by (auto simp: dbs_any_set_def)
next
  case True
  let ?s = "start div 64" and ?e = "stop div 64"
  have s_in: "?s < length (bits b)" using True assms by (simp add: room_div [symmetric])
  have e_le: "?e \<le> length (bits b)" using assms by (simp add: bs_room_def)
  have e_in: "stop mod 64 \<noteq> 0 \<Longrightarrow> ?e < length (bits b)"
    using assms index_less_split [of "64 * length (bits b)" stop] by (auto simp: bs_room_def not_less)
  show ?thesis
  proof (cases "?s = ?e")
    case same: True
    have "(push_bit (start mod 64) (- 1) AND drop_bit (64 - stop mod 64) (- 1)) AND bits b ! ?s \<noteq> 0
      \<longleftrightarrow> (\<exists>i\<in>bs_elems b. i div 64 = ?s \<and> (start mod 64 \<le> i mod 64 \<and> i mod 64 < stop mod 64))"
      by (rule masked_word [OF s_in])
        (simp only: bit_and_iff start_mask_bit end_mask_bit mod_less_divisor zero_less_numeral)
    also have "\<dots> \<longleftrightarrow> (\<exists>i\<in>bs_elems b. start \<le> i \<and> i < stop)"
      unfolding index_ge_split [of start] index_less_split [of _ stop] same by (metis less_asym)
    finally show ?thesis
      by (simp only: dbs_any_set_same_word [OF True same s_in] and.assoc)
  next
    case False
    then have lt: "?s < ?e" using div_le_mono [of start stop 64] True by simp
    have "push_bit (start mod 64) (- 1) AND bits b ! ?s \<noteq> 0 \<longleftrightarrow>
        (\<exists>i\<in>bs_elems b. i div 64 = ?s \<and> start mod 64 \<le> i mod 64)"
      by (rule masked_word [OF s_in]) (rule start_mask_bit)
    moreover have "stop mod 64 \<noteq> 0 \<Longrightarrow> drop_bit (64 - stop mod 64) (- 1) AND bits b ! ?e \<noteq> 0 \<longleftrightarrow>
        (\<exists>i\<in>bs_elems b. i div 64 = ?e \<and> i mod 64 < stop mod 64)"
      by (rule masked_word [OF e_in])
        (auto simp only: end_mask_bit mod_less_divisor zero_less_numeral)
    moreover have "start \<le> i \<and> i < stop \<longleftrightarrow>
        i div 64 = ?s \<and> start mod 64 \<le> i mod 64 \<or>
        stop mod 64 \<noteq> 0 \<and> i div 64 = ?e \<and> i mod 64 < stop mod 64 \<or>
        64 * (?s + 1) \<le> i \<and> i < 64 * ?e" for i
      unfolding index_between_words index_ge_split [of start] index_less_split [of _ stop]
      using lt by auto
    then have "(\<exists>i\<in>bs_elems b. start \<le> i \<and> i < stop) \<longleftrightarrow>
        (\<exists>i\<in>bs_elems b. i div 64 = ?s \<and> start mod 64 \<le> i mod 64) \<or>
        stop mod 64 \<noteq> 0 \<and> (\<exists>i\<in>bs_elems b. i div 64 = ?e \<and> i mod 64 < stop mod 64) \<or>
        (\<exists>i\<in>bs_elems b. 64 * (?s + 1) \<le> i \<and> i < 64 * ?e)"
      by blast
    ultimately show ?thesis
      by (subst dbs_any_set_two_words [OF True False s_in e_in dbs_any_word_range [OF e_le]]) blast+
  qed
qed

section \<open>Histories\<close>

text \<open>
  A bitset, the set of indices that the calls made so far leave in it, and the number of set bits that \<open>resize\<close>
  has dropped. A \<open>resize\<close> to fewer words drops the indices past the new capacity.
\<close>

inductive bitset_history :: "dynamic_bitset \<Rightarrow> nat set \<Rightarrow> nat \<Rightarrow> bool" where
  bh_init: "bitset_history (dbs_init n) {} 0"
| bh_set: "bitset_history b S k \<Longrightarrow> dbs_set b i = Inr b' \<Longrightarrow> bitset_history b' (insert i S) k"
| bh_clear: "bitset_history b S k \<Longrightarrow> dbs_clear b i = Inr b' \<Longrightarrow> bitset_history b' (S - {i}) k"
| bh_grow: "bitset_history b S k \<Longrightarrow> length (bits b) \<le> (n + 63) div 64 \<Longrightarrow> bitset_history (dbs_resize b n) S k"
| bh_shrink: "bitset_history b S k \<Longrightarrow> (n + 63) div 64 < length (bits b) \<Longrightarrow>
    bitset_history (dbs_resize b n) (S \<inter> {..<n}) (k + card (S - {..<n}))"

lemma dbs_get_raises: "bs_room b \<le> i \<Longrightarrow> dbs_get b i = Inl IndexError"
  using room_div [of i b] by (simp add: dbs_get_def)

lemma update_within_room:
  "dbs_set b i = Inr b' \<Longrightarrow> i < bs_room b" "dbs_clear b i = Inr b' \<Longrightarrow> i < bs_room b"
  using dbs_get_raises [of b i] by (cases "i < bs_room b"; simp add: dbs_set_def dbs_clear_def)+

lemma history_members: "bitset_history b S k \<Longrightarrow> bs_elems b = S \<and> num_set_bits b = card S + k"
proof (induction rule: bitset_history.induct)
  case (bh_set b S k i b')
  then show ?case using dbs_set_bits [of i b] update_within_room(1) [of b i b'] bs_elems_finite [of b]
    by (auto simp: insert_absorb)
next
  case (bh_clear b S k i b')
  have "i \<in> S \<Longrightarrow> Suc (card (S - {i})) = card S" using bh_clear.IH bs_elems_finite [of b] card_Suc_Diff1 by metis
  then show ?case using bh_clear dbs_clear_bits [of i b] update_within_room(2) [of b i b'] by (auto split: if_splits)
next
  case (bh_shrink b S k n)
  have "card S = card (S \<inter> {..<n}) + card (S - {..<n})"
    using bh_shrink.IH bs_elems_finite [of b] card_Int_Diff by metis
  then show ?case using bh_shrink by (simp add: dbs_resize_members)
next
  case (bh_init n)
  show ?case using dbs_init_elems [of n] by (simp add: bs_invar_def)
qed (simp add: dbs_resize_members)

text \<open>
  C33. After any calls of \<open>set\<close>, \<open>clear\<close> and \<open>resize\<close> a \<open>DynamicBitset\<close> holds the set of indices the calls describe:
  \<open>get\<close> tells membership and raises \<open>IndexError\<close> past the array, and \<open>any_set\<close> tells whether a range meets the set,
  all computed on 64-bit words. The cached number of set bits is the size of the set plus the number of set
  bits that calls of \<open>resize\<close> have dropped, so it is the size of the set as long as no set bit was dropped.
\<close>

theorem bitset_represents_set:
  assumes "bitset_history b S dropped"
  shows "num_set_bits b = card S + dropped \<and> S \<subseteq> {..<64 * length (bits b)} \<and>
    (\<forall>i. dbs_get b i = (if i < 64 * length (bits b) then Inr (i \<in> S) else Inl IndexError)) \<and>
    (\<forall>start stop. stop \<le> 64 * length (bits b) \<longrightarrow> dbs_any_set b start stop = Inr (\<exists>i \<in> S. start \<le> i \<and> i < stop))"
proof -
  have "bs_elems b = S" "num_set_bits b = card S + dropped" using history_members [OF assms] by auto
  then show ?thesis
    using dbs_get_elems [of _ b] dbs_get_raises [of b] dbs_any_set_elems [of _ b]
    by (auto simp: bs_room_def [symmetric] bs_elems_def)
qed

theorem bitset_represents_set_witness:
  "\<exists>b. dbs_set (dbs_init 70) 65 = Inr b \<and> num_set_bits b = 1 \<and> dbs_any_set b 3 70 = Inr True \<and>
     num_set_bits (dbs_resize b 64) = 1 \<and> dbs_any_set (dbs_resize b 64) 0 64 = Inr False"
proof -
  have "case dbs_set (dbs_init 70) 65 of Inl _ \<Rightarrow> False | Inr b \<Rightarrow> length (bits b) = 2" by code_simp
  then obtain b where b: "dbs_set (dbs_init 70) 65 = Inr b" "length (bits b) = 2" by (auto split: sum.splits)
  have one: "bitset_history b {65} 0" using bh_set [OF bh_init b(1)] by simp
  have "{65} \<inter> {..<64} = ({} :: nat set)" "{65} - {..<64} = ({65} :: nat set)" by auto
  then have "bitset_history (dbs_resize b 64) {} 1" using bh_shrink [OF one, of 64] b(2) by simp
  then show ?thesis
    using bitset_represents_set [OF one] bitset_represents_set [of "dbs_resize b 64" "{}" 1] b
    by (auto simp: resize_length)
qed

end
