(* ===== verification/SlotAllocator.thy ===== *)
theory SlotAllocator
  imports Bitset
begin

text \<open>
  \<open>Slot\<close> and \<open>SlotAllocator\<close> of
  \<^verbatim>\<open>runtime/kv_cache_manager_v2/_storage/_core.py\<close>: the allocator of slot numbers of one pool
  group, with recycling, readiness of the recycled slots (CUDA events) and a two-phase shrink.

  CUDA is not modelled: \<open>drv e\<close> is the driver's answer to a query of event \<open>e\<close>, an argument of
  every operation that queries. \<open>CachedCudaEvent.NULL\<close> is \<open>NullEvent\<close>, which is always complete.
\<close>

section \<open>Slots\<close>

datatype cuda_event = NullEvent | Event nat

definition query_complete :: "(nat \<Rightarrow> bool) \<Rightarrow> cuda_event \<Rightarrow> bool" where
  "query_complete drv ev = (case ev of NullEvent \<Rightarrow> True | Event e \<Rightarrow> drv e)"

record slot =
  raw_slot_id :: "nat option"
  ready_event :: cuda_event

definition has_valid_slot :: "slot \<Rightarrow> bool" where
  "has_valid_slot s = (raw_slot_id s \<noteq> None)"

definition get_slot_id :: "slot \<Rightarrow> nat result" where
  "get_slot_id s = (case raw_slot_id s of None \<Rightarrow> Inl AssertionError | Some i \<Rightarrow> Inr i)"

definition empty_slot :: slot where
  "empty_slot = \<lparr>raw_slot_id = None, ready_event = NullEvent\<rparr>"

text \<open>\<open>query_ready\<close> returns the answer and the slot, whose event is dropped once complete.\<close>

definition query_ready :: "(nat \<Rightarrow> bool) \<Rightarrow> slot \<Rightarrow> bool \<times> slot" where
  "query_ready drv s =
     (if ready_event s = NullEvent then (True, s)
      else let ret = query_complete drv (ready_event s)
           in (ret, if ret then s\<lparr>ready_event := NullEvent\<rparr> else s))"

text \<open>\<open>set_slot self slot\<close> moves the number and the event; both objects are returned.\<close>

definition set_slot :: "slot \<Rightarrow> slot \<Rightarrow> (slot \<times> slot) result" where
  "set_slot self s =
     (if has_valid_slot self then Inl LogicError
      else rbind (get_slot_id s) (\<lambda>i.
             Inr (self\<lparr>raw_slot_id := Some i, ready_event := ready_event s\<rparr>, empty_slot)))"

definition move_to_new_slot :: "slot \<Rightarrow> (slot \<times> slot) result" where
  "move_to_new_slot self = set_slot empty_slot self"

section \<open>The allocator\<close>

record slot_allocator =
  capacity :: nat
  num_active_slots :: nat
  recycled_slots :: "slot list"
  num_ready_recycled_slots :: nat
  occupied_mask :: dynamic_bitset
  target_capacity :: nat
  overflow_slots :: "slot list"

definition sa_init :: "nat \<Rightarrow> slot_allocator" where
  "sa_init cap = \<lparr>capacity = cap, num_active_slots = 0, recycled_slots = [],
     num_ready_recycled_slots = 0, occupied_mask = dbs_init cap, target_capacity = cap,
     overflow_slots = []\<rparr>"

definition num_free_slots :: "slot_allocator \<Rightarrow> nat" where
  "num_free_slots a = length (recycled_slots a) + (target_capacity a - num_active_slots a)"

definition num_occupied_slots :: "slot_allocator \<Rightarrow> nat" where
  "num_occupied_slots a = num_set_bits (occupied_mask a)"

fun scrub_events_impl :: "(nat \<Rightarrow> bool) \<Rightarrow> slot list \<Rightarrow> slot list \<times> nat" where
  "scrub_events_impl drv [] = ([], 0)"
| "scrub_events_impl drv (s # ss) =
     (if query_complete drv (ready_event s)
      then case scrub_events_impl drv ss of
             (ss', n) \<Rightarrow> (s\<lparr>ready_event := NullEvent\<rparr> # ss', Suc n)
      else (s # ss, 0))"

text \<open>
  \<open>_scrub_events_impl(slots, num_ready)\<close> walks the slots from position \<open>num_ready\<close> on; the model
  applies the walk to that tail. The assertion \<open>num_ready <= len(slots)\<close> at its head is a clause
  of the invariant below.
\<close>

definition scrub_events :: "(nat \<Rightarrow> bool) \<Rightarrow> slot_allocator \<Rightarrow> slot_allocator" where
  "scrub_events drv a =
     (let k = num_ready_recycled_slots a in
      case scrub_events_impl drv (drop k (recycled_slots a)) of
        (ss, n) \<Rightarrow> a\<lparr>recycled_slots := take k (recycled_slots a) @ ss,
                      num_ready_recycled_slots := k + n\<rparr>)"

definition mark_occupied :: "slot \<Rightarrow> slot_allocator \<Rightarrow> (slot \<times> slot_allocator) result" where
  "mark_occupied s a =
     rbind (get_slot_id s) (\<lambda>i.
     rbind (dbs_set (occupied_mask a) i) (\<lambda>m.
     Inr (s, a\<lparr>occupied_mask := m\<rparr>)))"

definition sa_allocate :: "(nat \<Rightarrow> bool) \<Rightarrow> slot_allocator \<Rightarrow> (slot \<times> slot_allocator) result" where
  "sa_allocate drv a0 =
     (if num_free_slots a0 = 0 then Inl OutOfPagesError
      else
        let a = scrub_events drv a0 in
        if num_ready_recycled_slots a > 0
        then (case recycled_slots a of
                [] \<Rightarrow> Inl AssertionError
              | s # rest \<Rightarrow>
                  py_assert (has_valid_slot s)
                    (py_assert (ready_event s = NullEvent)
                      (mark_occupied s
                        (a\<lparr>recycled_slots := rest,
                           num_ready_recycled_slots := num_ready_recycled_slots a - 1\<rparr>))))
        else if num_active_slots a < min (capacity a) (target_capacity a)
        then mark_occupied \<lparr>raw_slot_id = Some (num_active_slots a), ready_event = NullEvent\<rparr>
               (a\<lparr>num_active_slots := num_active_slots a + 1\<rparr>)
        else (case recycled_slots a of
                [] \<Rightarrow> Inl IndexError
              | s # rest \<Rightarrow>
                  py_assert (has_valid_slot s) (mark_occupied s (a\<lparr>recycled_slots := rest\<rparr>))))"

fun sa_allocate_n :: "(nat \<Rightarrow> bool) \<Rightarrow> nat \<Rightarrow> slot_allocator \<Rightarrow> (slot list \<times> slot_allocator) result" where
  "sa_allocate_n drv 0 a = Inr ([], a)"
| "sa_allocate_n drv (Suc n) a =
     rbind (sa_allocate drv a) (\<lambda>(s, a').
     rbind (sa_allocate_n drv n a') (\<lambda>(ss, a'').
     Inr (s # ss, a'')))"

definition sa_allocate_multiple ::
  "(nat \<Rightarrow> bool) \<Rightarrow> nat \<Rightarrow> slot_allocator \<Rightarrow> (slot list \<times> slot_allocator) result" where
  "sa_allocate_multiple drv n a =
     (if num_free_slots a < n then Inl OutOfPagesError else sa_allocate_n drv n a)"

text \<open>
  \<open>release\<close> takes the number out of the caller's object (\<open>move_to_new_slot\<close>) before it checks
  that the slot is occupied. The model returns the allocator; the caller's object is left empty.
\<close>

definition sa_release :: "(nat \<Rightarrow> bool) \<Rightarrow> slot \<Rightarrow> slot_allocator \<Rightarrow> slot_allocator result" where
  "sa_release drv s0 a =
     py_assert (has_valid_slot s0)
       (rbind (move_to_new_slot s0) (\<lambda>(s, _).
        rbind (get_slot_id s) (\<lambda>i.
        if i \<ge> capacity a then Inl LogicError
        else rbind (dbs_get (occupied_mask a) i) (\<lambda>occupied.
          if \<not> occupied then Inl LogicError
          else
            let a1 = (if i < target_capacity a
                      then a\<lparr>recycled_slots := recycled_slots a @ [s]\<rparr>
                      else a\<lparr>overflow_slots := overflow_slots a @ [s]\<rparr>)
            in rbind (dbs_clear (occupied_mask a1) i) (\<lambda>m.
               Inr (scrub_events drv (a1\<lparr>occupied_mask := m\<rparr>)))))))"

definition sa_expand :: "nat \<Rightarrow> slot_allocator \<Rightarrow> slot_allocator result" where
  "sa_expand new_num_slots a =
     py_assert (target_capacity a = capacity a)
       (py_assert (new_num_slots > capacity a)
         (Inr (a\<lparr>occupied_mask := dbs_resize (occupied_mask a) new_num_slots,
                 capacity := new_num_slots, target_capacity := new_num_slots\<rparr>)))"

text \<open>The loop of \<open>prepare_for_shrink\<close>: kept slots, how many of them are ready, overflow slots.\<close>

fun shrink_split :: "nat \<Rightarrow> nat \<Rightarrow> nat \<Rightarrow> slot list \<Rightarrow> (slot list \<times> nat \<times> slot list) result" where
  "shrink_split new_num old_ready i [] = Inr ([], 0, [])"
| "shrink_split new_num old_ready i (s # ss) =
     rbind (get_slot_id s) (\<lambda>j.
     rbind (shrink_split new_num old_ready (Suc i) ss) (\<lambda>(kept, ready, over).
       if j < new_num then Inr (s # kept, (if i < old_ready then Suc ready else ready), over)
       else Inr (kept, ready, s # over)))"

definition sa_prepare_for_shrink :: "nat \<Rightarrow> slot_allocator \<Rightarrow> slot_allocator result" where
  "sa_prepare_for_shrink new_num_slots a =
     py_assert (target_capacity a = capacity a)
       (py_assert (new_num_slots < capacity a)
         (rbind (shrink_split new_num_slots (num_ready_recycled_slots a) 0 (recycled_slots a))
            (\<lambda>(kept, ready, over).
               Inr (a\<lparr>recycled_slots := kept, num_ready_recycled_slots := ready,
                      overflow_slots := overflow_slots a @ over,
                      target_capacity := new_num_slots\<rparr>))))"

definition shrink_in_progress :: "slot_allocator \<Rightarrow> bool" where
  "shrink_in_progress a = (target_capacity a < capacity a)"

text \<open>
  \<open>finish_shrink\<close> waits for the events of the overflow slots before it drops them; waiting has no
  effect on the allocator's own state.
\<close>

definition sa_finish_shrink :: "(nat \<Rightarrow> bool) \<Rightarrow> slot_allocator \<Rightarrow> slot_allocator result" where
  "sa_finish_shrink drv a =
     (let expected_overflow = num_active_slots a - target_capacity a in
      if shrink_in_progress a \<and> length (overflow_slots a) = expected_overflow
      then py_assert (list_all has_valid_slot (overflow_slots a) \<and>
                      card (set (map raw_slot_id (overflow_slots a))) = length (overflow_slots a))
             (Inr (scrub_events drv
                (a\<lparr>overflow_slots := [], capacity := target_capacity a,
                   num_active_slots := min (num_active_slots a) (target_capacity a)\<rparr>)))
      else Inl RuntimeError)"

fun filter_result :: "(nat \<Rightarrow> bool result) \<Rightarrow> nat list \<Rightarrow> nat list result" where
  "filter_result p [] = Inr []"
| "filter_result p (i # is) =
     rbind (p i) (\<lambda>b. rbind (filter_result p is) (\<lambda>r. Inr (if b then i # r else r)))"

definition sa_get_slots_blocking_shrink :: "slot_allocator \<Rightarrow> nat list result" where
  "sa_get_slots_blocking_shrink a =
     filter_result (dbs_get (occupied_mask a)) [target_capacity a..<capacity a]"

definition sa_check :: "slot_allocator \<Rightarrow> bool" where
  "sa_check a =
     (num_active_slots a \<le> capacity a
      \<and> target_capacity a \<le> capacity a
      \<and> (shrink_in_progress a \<or> overflow_slots a = [])
      \<and> (\<forall>s \<in> set (overflow_slots a).
           case raw_slot_id s of None \<Rightarrow> False
           | Some i \<Rightarrow> target_capacity a \<le> i \<and> i < capacity a)
      \<and> length (recycled_slots a) + length (overflow_slots a) + num_occupied_slots a
          = num_active_slots a)"

text \<open>
  \<open>_synchronize\<close> polls until every recycled slot is ready; \<open>answers t\<close> is what the driver says at
  the \<open>t\<close>-th poll, and the fuel bounds the number of polls looked at.
\<close>

fun sa_synchronize :: "(nat \<Rightarrow> nat \<Rightarrow> bool) \<Rightarrow> nat \<Rightarrow> nat \<Rightarrow> slot_allocator \<Rightarrow> slot_allocator option" where
  "sa_synchronize answers t 0 a = None"
| "sa_synchronize answers t (Suc fuel) a =
     (if num_ready_recycled_slots a = length (recycled_slots a) then Some a
      else sa_synchronize answers (Suc t) fuel (scrub_events (answers t) a))"

section \<open>The invariant\<close>

abbreviation slot_ids :: "slot list \<Rightarrow> nat list" where
  "slot_ids ss \<equiv> map (\<lambda>s. the (raw_slot_id s)) ss"

abbreviation occupied :: "slot_allocator \<Rightarrow> nat set" where
  "occupied a \<equiv> bs_elems (occupied_mask a)"

text \<open>
  Every number below the high-water mark \<open>num_active_slots\<close> is in exactly one place: occupied,
  recycled or overflowed. This is what makes the counting in \<open>_check\<close> true.
\<close>

definition ids_partition :: "nat list \<Rightarrow> nat list \<Rightarrow> nat set \<Rightarrow> nat \<Rightarrow> bool" where
  "ids_partition rec over occ active \<longleftrightarrow>
     distinct (rec @ over) \<and> (set rec \<union> set over) \<inter> occ = {} \<and>
     set rec \<union> set over \<union> occ = {..<active}"

definition sa_inv :: "slot_allocator \<Rightarrow> bool" where
  "sa_inv a \<longleftrightarrow>
     num_active_slots a \<le> capacity a \<and> target_capacity a \<le> capacity a \<and>
     (target_capacity a = capacity a \<longrightarrow> overflow_slots a = []) \<and>
     list_all has_valid_slot (recycled_slots a) \<and> list_all has_valid_slot (overflow_slots a) \<and>
     ids_partition (slot_ids (recycled_slots a)) (slot_ids (overflow_slots a)) (occupied a)
       (num_active_slots a) \<and>
     (\<forall>i \<in> set (slot_ids (recycled_slots a)). i < target_capacity a) \<and>
     (\<forall>i \<in> set (slot_ids (overflow_slots a)). target_capacity a \<le> i) \<and>
     num_ready_recycled_slots a \<le> length (recycled_slots a) \<and>
     (\<forall>s \<in> set (take (num_ready_recycled_slots a) (recycled_slots a)). ready_event s = NullEvent) \<and>
     bs_invar (occupied_mask a) \<and> capacity a \<le> bs_room (occupied_mask a)"

text \<open>The moves of a number between the three places.\<close>

lemma partition_pop:
  "ids_partition (i # rec) over occ n \<Longrightarrow> ids_partition rec over (insert i occ) n"
  by (auto simp: ids_partition_def)

lemma partition_new: "ids_partition rec over occ n \<Longrightarrow> ids_partition rec over (insert n occ) (Suc n)"
  by (auto simp: ids_partition_def lessThan_Suc)

lemma partition_recycle:
  "ids_partition rec over occ n \<Longrightarrow> i \<in> occ \<Longrightarrow> ids_partition (rec @ [i]) over (occ - {i}) n"
  by (auto simp: ids_partition_def)

lemma partition_overflow:
  "ids_partition rec over occ n \<Longrightarrow> i \<in> occ \<Longrightarrow> ids_partition rec (over @ [i]) (occ - {i}) n"
  by (auto simp: ids_partition_def)

lemma partition_split:
  "ids_partition rec [] occ n \<Longrightarrow>
     ids_partition (filter P rec) (filter (\<lambda>i. \<not> P i) rec) occ n"
  by (auto simp: ids_partition_def)

lemma partition_count:
  assumes "ids_partition rec over occ n" "finite occ"
  shows "length rec + length over + card occ = n"
proof -
  have "card (set (rec @ over) \<union> occ) = card (set (rec @ over)) + card occ"
    using assms by (intro card_Un_disjoint) (auto simp: ids_partition_def)
  moreover have "set (rec @ over) \<union> occ = {..<n}" "card (set (rec @ over)) = length (rec @ over)"
    using assms distinct_card [of "rec @ over"] by (auto simp: ids_partition_def)
  ultimately show ?thesis by simp
qed

lemma occupied_less:
  assumes "sa_inv a" "i \<in> occupied a"
  shows "i < num_active_slots a" "i < capacity a" "i < bs_room (occupied_mask a)"
proof -
  show "i < num_active_slots a" using assms by (auto simp: sa_inv_def ids_partition_def)
  then show "i < capacity a" "i < bs_room (occupied_mask a)" using assms by (auto simp: sa_inv_def)
qed

section \<open>Slots move, they are never copied\<close>

lemma get_slot_id_valid [simp]: "has_valid_slot s \<Longrightarrow> get_slot_id s = Inr (the (raw_slot_id s))"
  by (auto simp: get_slot_id_def has_valid_slot_def)

lemma set_slot_moves:
  assumes "\<not> has_valid_slot self" "has_valid_slot s"
  shows "\<exists>self' s'. set_slot self s = Inr (self', s') \<and> raw_slot_id self' = raw_slot_id s \<and>
           ready_event self' = ready_event s \<and> \<not> has_valid_slot s' \<and> ready_event s' = NullEvent"
  using assms by (auto simp: set_slot_def empty_slot_def has_valid_slot_def)

lemma move_to_new_slot_valid:
  "has_valid_slot s \<Longrightarrow> \<exists>s'. move_to_new_slot s = Inr (s', empty_slot) \<and>
     raw_slot_id s' = raw_slot_id s \<and> ready_event s' = ready_event s \<and> has_valid_slot s'"
  by (auto simp: move_to_new_slot_def set_slot_def has_valid_slot_def empty_slot_def)

section \<open>Scrubbing\<close>

lemma scrub_impl_ids:
  "scrub_events_impl drv ss = (ss', n) \<Longrightarrow> map raw_slot_id ss' = map raw_slot_id ss"
  by (induction ss arbitrary: ss' n) (auto split: if_splits prod.splits)

lemma scrub_impl_ready:
  "scrub_events_impl drv ss = (ss', n) \<Longrightarrow>
     n \<le> length ss \<and> (\<forall>s \<in> set (take n ss'). ready_event s = NullEvent)"
  by (induction ss arbitrary: ss' n) (auto split: if_splits prod.splits)

lemma scrub_impl_all:
  "(\<forall>s \<in> set ss. query_complete drv (ready_event s)) \<Longrightarrow>
     snd (scrub_events_impl drv ss) = length ss"
  by (induction ss) (auto split: prod.splits)

lemma ids_of_raw: "map raw_slot_id ss' = map raw_slot_id ss \<Longrightarrow> slot_ids ss' = slot_ids ss"
proof -
  assume eq: "map raw_slot_id ss' = map raw_slot_id ss"
  have "slot_ids ss' = map the (map raw_slot_id ss')" by simp
  also have "\<dots> = slot_ids ss" unfolding eq by simp
  finally show ?thesis .
qed

lemma valid_of_raw:
  "map raw_slot_id ss' = map raw_slot_id ss \<Longrightarrow> list_all has_valid_slot ss' = list_all has_valid_slot ss"
proof -
  assume eq: "map raw_slot_id ss' = map raw_slot_id ss"
  have valid: "list_all has_valid_slot xs = (None \<notin> set (map raw_slot_id xs))" for xs
    by (induction xs) (auto simp: has_valid_slot_def)
  show ?thesis unfolding valid eq ..
qed

lemma scrub_events_frame [simp]:
  "capacity (scrub_events drv a) = capacity a"
  "num_active_slots (scrub_events drv a) = num_active_slots a"
  "occupied_mask (scrub_events drv a) = occupied_mask a"
  "target_capacity (scrub_events drv a) = target_capacity a"
  "overflow_slots (scrub_events drv a) = overflow_slots a"
  by (simp_all add: scrub_events_def Let_def split: prod.split)

lemma scrub_events_raw [simp]:
  "map raw_slot_id (recycled_slots (scrub_events drv a)) = map raw_slot_id (recycled_slots a)"
  by (auto simp: scrub_events_def Let_def dest!: scrub_impl_ids split: prod.split)
    (metis append_take_drop_id map_append)

lemma scrub_events_length [simp]:
  "length (recycled_slots (scrub_events drv a)) = length (recycled_slots a)"
  using scrub_events_raw [of drv a] by (metis length_map)

lemma sa_inv_recycled:
  assumes "sa_inv a" "map raw_slot_id ss = map raw_slot_id (recycled_slots a)"
    and "n \<le> length ss" "\<forall>s \<in> set (take n ss). ready_event s = NullEvent"
  shows "sa_inv (a\<lparr>recycled_slots := ss, num_ready_recycled_slots := n\<rparr>)"
  using assms(1,3,4) ids_of_raw [OF assms(2)] valid_of_raw [OF assms(2)]
  by (simp add: sa_inv_def)

lemma scrub_events_inv [inv_intros]:
  assumes "sa_inv a"
  shows "sa_inv (scrub_events drv a)"
proof -
  let ?k = "num_ready_recycled_slots a"
  obtain ss n where impl: "scrub_events_impl drv (drop ?k (recycled_slots a)) = (ss, n)"
    by (metis surj_pair)
  have k: "?k \<le> length (recycled_slots a)"
    and front: "\<forall>s \<in> set (take ?k (recycled_slots a)). ready_event s = NullEvent"
    using assms by (auto simp: sa_inv_def)
  note ids = scrub_impl_ids [OF impl] and ready = scrub_impl_ready [OF impl]
  have "length ss = length (recycled_slots a) - ?k" using ids by (metis length_drop length_map)
  moreover have "map raw_slot_id (take ?k (recycled_slots a) @ ss) = map raw_slot_id (recycled_slots a)"
    using ids by (metis append_take_drop_id map_append)
  moreover from calculation k ready have "?k + n \<le> length (take ?k (recycled_slots a) @ ss)" by auto
  moreover have "\<forall>s \<in> set (take (?k + n) (take ?k (recycled_slots a) @ ss)). ready_event s = NullEvent"
    using k front ready by auto
  ultimately show ?thesis
    using sa_inv_recycled [OF assms] by (simp add: scrub_events_def Let_def impl)
qed

section \<open>Allocation\<close>

lemma mark_occupied_result:
  assumes "has_valid_slot s" "bs_invar (occupied_mask a)"
    and "the (raw_slot_id s) < bs_room (occupied_mask a)"
  shows "\<exists>m. mark_occupied s a = Inr (s, a\<lparr>occupied_mask := m\<rparr>) \<and> bs_invar m \<and>
             bs_room m = bs_room (occupied_mask a) \<and>
             bs_elems m = insert (the (raw_slot_id s)) (occupied a)"
  using occ.ins_elems [OF assms(2,3)] assms(1) by (auto simp: mark_occupied_def)

text \<open>What an allocation achieves: a number nobody holds becomes occupied, nothing else changes.\<close>

definition allocated :: "slot_allocator \<Rightarrow> slot \<Rightarrow> slot_allocator \<Rightarrow> bool" where
  "allocated a s a' \<longleftrightarrow>
     has_valid_slot s \<and> the (raw_slot_id s) < target_capacity a \<and>
     the (raw_slot_id s) \<notin> occupied a \<and> occupied a' = insert (the (raw_slot_id s)) (occupied a) \<and>
     capacity a' = capacity a \<and> target_capacity a' = target_capacity a \<and>
     Suc (num_free_slots a') = num_free_slots a"

lemma pop_recycled_inv:
  assumes inv: "sa_inv a" and rec: "recycled_slots a = s # rest"
    and n: "n \<le> length rest" "\<forall>s \<in> set (take n rest). ready_event s = NullEvent"
    and m: "bs_invar m" "bs_room m = bs_room (occupied_mask a)"
       "bs_elems m = insert (the (raw_slot_id s)) (occupied a)"
  shows "sa_inv (a\<lparr>recycled_slots := rest, num_ready_recycled_slots := n, occupied_mask := m\<rparr>)"
  using inv rec n m partition_pop [of "the (raw_slot_id s)" "slot_ids rest"]
  by (simp add: sa_inv_def)

lemma recycled_fresh:
  assumes "sa_inv a" "recycled_slots a = s # rest"
  shows "has_valid_slot s" "the (raw_slot_id s) < target_capacity a"
    "the (raw_slot_id s) \<notin> occupied a" "the (raw_slot_id s) < bs_room (occupied_mask a)"
  using assms by (auto simp: sa_inv_def ids_partition_def)

lemma pop_recycled_allocated:
  assumes "sa_inv a" "recycled_slots a = s # rest" "n \<le> length rest"
    and "\<forall>s \<in> set (take n rest). ready_event s = NullEvent"
  shows "\<exists>a'. mark_occupied s (a\<lparr>recycled_slots := rest, num_ready_recycled_slots := n\<rparr>) = Inr (s, a')
           \<and> sa_inv a' \<and> allocated a s a'"
  using mark_occupied_result [of s "a\<lparr>recycled_slots := rest, num_ready_recycled_slots := n\<rparr>"]
    recycled_fresh [OF assms(1,2)] pop_recycled_inv [OF assms] assms
  by (auto simp: allocated_def num_free_slots_def sa_inv_def)

lemma new_slot_allocated:
  assumes inv: "sa_inv a" and room: "num_active_slots a < target_capacity a"
  shows "\<exists>a'. mark_occupied \<lparr>raw_slot_id = Some (num_active_slots a), ready_event = ev\<rparr>
                (a\<lparr>num_active_slots := num_active_slots a + 1\<rparr>)
              = Inr (\<lparr>raw_slot_id = Some (num_active_slots a), ready_event = ev\<rparr>, a') \<and>
              sa_inv a' \<and> allocated a \<lparr>raw_slot_id = Some (num_active_slots a), ready_event = ev\<rparr> a'"
proof -
  let ?s = "\<lparr>raw_slot_id = Some (num_active_slots a), ready_event = ev\<rparr>"
  have fresh: "num_active_slots a \<notin> occupied a"
    using inv by (auto simp: sa_inv_def ids_partition_def)
  obtain m where m: "mark_occupied ?s (a\<lparr>num_active_slots := num_active_slots a + 1\<rparr>) =
        Inr (?s, a\<lparr>num_active_slots := num_active_slots a + 1, occupied_mask := m\<rparr>)"
      "bs_invar m" "bs_room m = bs_room (occupied_mask a)"
      "bs_elems m = insert (num_active_slots a) (occupied a)"
    using mark_occupied_result [of ?s "a\<lparr>num_active_slots := num_active_slots a + 1\<rparr>"] inv room
    by (auto simp: has_valid_slot_def sa_inv_def)
  have "sa_inv (a\<lparr>num_active_slots := num_active_slots a + 1, occupied_mask := m\<rparr>)"
    using inv room m partition_new by (simp add: sa_inv_def)
  with m fresh room show ?thesis
    by (auto simp: allocated_def has_valid_slot_def num_free_slots_def)
qed

lemma scrub_allocated [simp]: "allocated (scrub_events drv a) s a' = allocated a s a'"
  by (simp add: allocated_def num_free_slots_def)

lemma sa_allocate_succeeds:
  assumes "sa_inv a0" "0 < num_free_slots a0"
  shows "\<exists>s a'. sa_allocate drv a0 = Inr (s, a') \<and> sa_inv a' \<and> allocated a0 s a'"
proof -
  let ?a = "scrub_events drv a0"
  have inv: "sa_inv ?a" using assms(1) by (rule scrub_events_inv)
  have free: "num_free_slots ?a = num_free_slots a0" by (simp add: num_free_slots_def)
  show ?thesis
  proof (cases "num_ready_recycled_slots ?a > 0")
    case True
    then obtain s rest where rec: "recycled_slots ?a = s # rest"
      using inv by (cases "recycled_slots ?a") (auto simp: sa_inv_def)
    let ?n = "num_ready_recycled_slots ?a - 1"
    have "?n \<le> length rest" "\<forall>s \<in> set (take ?n rest). ready_event s = NullEvent"
      "ready_event s = NullEvent"
      using inv rec True by (auto simp: sa_inv_def take_Cons')
    then show ?thesis
      using assms(2) True rec recycled_fresh(1) [OF inv rec] pop_recycled_allocated [OF inv rec, of ?n]
      by (auto simp: sa_allocate_def Let_def)
  next
    case ready: False
    show ?thesis
    proof (cases "num_active_slots ?a < min (capacity ?a) (target_capacity ?a)")
      case True
      then show ?thesis
        using assms(2) ready new_slot_allocated [OF inv, of NullEvent]
        by (auto simp: sa_allocate_def Let_def)
    next
      case False
      then have "num_active_slots ?a \<ge> target_capacity ?a" using inv by (auto simp: sa_inv_def)
      then obtain s rest where rec: "recycled_slots ?a = s # rest"
        using assms(2) free by (cases "recycled_slots ?a") (auto simp: num_free_slots_def)
      have eq: "?a\<lparr>recycled_slots := rest, num_ready_recycled_slots := 0\<rparr> = ?a\<lparr>recycled_slots := rest\<rparr>"
        using ready by simp
      have "\<exists>a'. mark_occupied s (?a\<lparr>recycled_slots := rest\<rparr>) = Inr (s, a') \<and> sa_inv a' \<and> allocated a0 s a'"
        using pop_recycled_allocated [OF inv rec, of 0] unfolding eq by simp
      then show ?thesis
        using assms(2) ready False rec recycled_fresh(1) [OF inv rec]
        by (auto simp: sa_allocate_def Let_def)
    qed
  qed
qed

lemma sa_allocate_fails: "sa_inv a \<Longrightarrow> sa_allocate drv a = Inl e \<longleftrightarrow> num_free_slots a = 0 \<and> e = OutOfPagesError"
  using sa_allocate_succeeds [of a drv] by (auto simp: sa_allocate_def)

lemma sa_allocate_result:
  assumes "sa_inv a" "sa_allocate drv a = Inr (s, a')"
  shows "sa_inv a'" "allocated a s a'"
proof -
  have "0 < num_free_slots a" using assms(2) by (auto simp: sa_allocate_def split: if_splits)
  then show "sa_inv a'" "allocated a s a'" using sa_allocate_succeeds [OF assms(1), of drv] assms(2) by auto
qed

text \<open>
  Several allocations in a row: all succeed when there is room, the numbers are pairwise distinct
  and all new.
\<close>

lemma sa_allocate_n_succeeds:
  assumes "sa_inv a" "n \<le> num_free_slots a"
  shows "\<exists>ss a'. sa_allocate_n drv n a = Inr (ss, a') \<and> sa_inv a' \<and> length ss = n \<and>
           list_all has_valid_slot ss \<and> distinct (slot_ids ss) \<and>
           set (slot_ids ss) \<inter> occupied a = {} \<and> set (slot_ids ss) \<subseteq> {..<target_capacity a} \<and>
           occupied a' = set (slot_ids ss) \<union> occupied a \<and>
           num_free_slots a' + n = num_free_slots a \<and>
           capacity a' = capacity a \<and> target_capacity a' = target_capacity a"
  using assms
proof (induction n arbitrary: a)
  case 0
  then show ?case by simp
next
  case (Suc n)
  then obtain s a1 where alloc: "sa_allocate drv a = Inr (s, a1)" "sa_inv a1" and s: "allocated a s a1"
    using sa_allocate_succeeds [of a drv] by auto
  then have "n \<le> num_free_slots a1" using Suc.prems(2) by (simp add: allocated_def)
  from Suc.IH [OF alloc(2) this] obtain ss a' where
    "sa_allocate_n drv n a1 = Inr (ss, a')" "sa_inv a'" "length ss = n"
    "list_all has_valid_slot ss" "distinct (slot_ids ss)"
    "set (slot_ids ss) \<inter> occupied a1 = {}" "set (slot_ids ss) \<subseteq> {..<target_capacity a1}"
    "occupied a' = set (slot_ids ss) \<union> occupied a1" "num_free_slots a' + n = num_free_slots a1"
    "capacity a' = capacity a1" "target_capacity a' = target_capacity a1" by blast
  then show ?case
    using alloc s by (auto simp: allocated_def)
qed

section \<open>Release\<close>

lemma sa_release_occupied:
  assumes inv: "sa_inv a" and valid: "has_valid_slot s" and occ: "the (raw_slot_id s) \<in> occupied a"
  shows "\<exists>a'. sa_release drv s a = Inr a' \<and> sa_inv a' \<and>
           occupied a' = occupied a - {the (raw_slot_id s)} \<and>
           capacity a' = capacity a \<and> target_capacity a' = target_capacity a \<and>
           num_active_slots a' = num_active_slots a \<and>
           length (recycled_slots a') = length (recycled_slots a) +
             (if the (raw_slot_id s) < target_capacity a then 1 else 0)"
proof -
  let ?i = "the (raw_slot_id s)"
  obtain s' where mv: "move_to_new_slot s = Inr (s', empty_slot)" "raw_slot_id s' = raw_slot_id s"
      "has_valid_slot s'"
    using move_to_new_slot_valid [OF valid] by blast
  note i = occupied_less [OF inv occ]
  have bi: "bs_invar (occupied_mask a)" using inv by (simp add: sa_inv_def)
  from occ.del_elems [OF bi i(3)] obtain m where m: "dbs_clear (occupied_mask a) ?i = Inr m"
      "bs_invar m" "bs_room m = bs_room (occupied_mask a)" "bs_elems m = occupied a - {?i}" by blast
  let ?a1 = "if ?i < target_capacity a
             then a\<lparr>recycled_slots := recycled_slots a @ [s'], occupied_mask := m\<rparr>
             else a\<lparr>overflow_slots := overflow_slots a @ [s'], occupied_mask := m\<rparr>"
  have "sa_inv ?a1"
    using inv mv m occ i partition_recycle partition_overflow
    by (auto simp: sa_inv_def has_valid_slot_def)
  then have "sa_inv (scrub_events drv ?a1)" by (rule scrub_events_inv)
  moreover have "sa_release drv s a = Inr (scrub_events drv ?a1)"
    using valid mv i occ m dbs_get_elems [OF i(3)] by (simp add: sa_release_def Let_def)
  ultimately show ?thesis using m(4) by simp
qed

lemma sa_release_unoccupied:
  assumes "sa_inv a" "has_valid_slot s" "the (raw_slot_id s) \<notin> occupied a"
  shows "sa_release drv s a = Inl LogicError"
proof -
  have "the (raw_slot_id s) < capacity a \<Longrightarrow> the (raw_slot_id s) < bs_room (occupied_mask a)"
    using assms(1) by (auto simp: sa_inv_def)
  then show ?thesis
    using assms(2,3) move_to_new_slot_valid [OF assms(2)]
    by (auto simp: sa_release_def dbs_get_elems)
qed

lemma sa_release_inv:
  assumes "sa_inv a" "sa_release drv s a = Inr a'"
  shows "sa_inv a' \<and> the (raw_slot_id s) \<in> occupied a \<and> has_valid_slot s \<and>
     occupied a' = occupied a - {the (raw_slot_id s)}"
proof -
  have valid: "has_valid_slot s" using assms(2) by (auto simp: sa_release_def py_assert_def split: if_splits)
  then have "the (raw_slot_id s) \<in> occupied a"
    using sa_release_unoccupied [OF assms(1)] assms(2) by fastforce
  with sa_release_occupied [OF assms(1) valid, of drv] assms(2) valid show ?thesis by auto
qed

section \<open>Resizing\<close>

lemma sa_expand_inv:
  assumes "sa_inv a" "sa_expand n a = Inr a'"
  shows "sa_inv a' \<and> occupied a' = occupied a \<and> capacity a' = n \<and>
     num_free_slots a' = num_free_slots a + (n - capacity a)"
proof -
  have a': "a' = a\<lparr>occupied_mask := dbs_resize (occupied_mask a) n, capacity := n, target_capacity := n\<rparr>"
    and n: "capacity a < n" and t: "target_capacity a = capacity a"
    using assms(2) by (auto simp: sa_expand_def py_assert_def split: if_splits)
  have "occupied a \<subseteq> {..<n}" using occupied_less(2) [OF assms(1)] n by force
  then show ?thesis
    using dbs_resize_elems [of "occupied_mask a" n] assms(1) n t a'
    by (auto simp: sa_inv_def num_free_slots_def)
qed

lemma shrink_split_spec:
  assumes "list_all has_valid_slot ss"
  shows "\<exists>kept ready over. shrink_split n r i ss = Inr (kept, ready, over) \<and>
     kept = filter (\<lambda>s. the (raw_slot_id s) < n) ss \<and>
     over = filter (\<lambda>s. \<not> the (raw_slot_id s) < n) ss \<and>
     ready = length (filter (\<lambda>s. the (raw_slot_id s) < n) (take (r - i) ss))"
  using assms
proof (induction ss arbitrary: i)
  case Nil
  show ?case by simp
next
  case (Cons s ss)
  then obtain kept ready over where
    "shrink_split n r (Suc i) ss = Inr (kept, ready, over)"
    "kept = filter (\<lambda>s. the (raw_slot_id s) < n) ss"
    "over = filter (\<lambda>s. \<not> the (raw_slot_id s) < n) ss"
    "ready = length (filter (\<lambda>s. the (raw_slot_id s) < n) (take (r - Suc i) ss))"
    using Cons.IH [of "Suc i"] by auto
  with Cons.prems show ?case
    by (auto simp: take_Cons' Suc_diff_Suc)
qed

lemma sa_prepare_for_shrink_inv:
  assumes inv: "sa_inv a" and t: "target_capacity a = capacity a" and n: "n < capacity a"
  shows "\<exists>a'. sa_prepare_for_shrink n a = Inr a' \<and> sa_inv a' \<and> occupied a' = occupied a \<and>
     target_capacity a' = n \<and> capacity a' = capacity a \<and> num_active_slots a' = num_active_slots a"
proof -
  let ?rec = "recycled_slots a" and ?r = "num_ready_recycled_slots a"
  let ?in = "\<lambda>s. the (raw_slot_id s) < n"
  obtain kept ready over where sp: "shrink_split n ?r 0 ?rec = Inr (kept, ready, over)"
      "kept = filter ?in ?rec" "over = filter (\<lambda>s. \<not> ?in s) ?rec"
      "ready = length (filter ?in (take ?r ?rec))"
    using shrink_split_spec [of ?rec n ?r 0] inv by (auto simp: sa_inv_def)
  let ?a' = "a\<lparr>recycled_slots := kept, num_ready_recycled_slots := ready,
              overflow_slots := overflow_slots a @ over, target_capacity := n\<rparr>"
  have none: "overflow_slots a = []" using inv t by (simp add: sa_inv_def)
  have ready: "take ready kept = filter ?in (take ?r ?rec)" "ready \<le> length kept"
    using filter_take_drop [of ?in ?rec ?r] sp by simp_all
  have ids: "slot_ids kept = filter (\<lambda>i. i < n) (slot_ids ?rec)"
    "slot_ids over = filter (\<lambda>i. \<not> i < n) (slot_ids ?rec)"
    using sp by (simp_all add: filter_map comp_def)
  have "ids_partition (slot_ids kept) (slot_ids over) (occupied a) (num_active_slots a)"
    unfolding ids using inv none by (intro partition_split) (simp add: sa_inv_def)
  moreover have "list_all has_valid_slot kept" "list_all has_valid_slot over"
    using inv sp by (auto simp: sa_inv_def list_all_iff)
  ultimately have "sa_inv ?a'"
    using inv n none ready sp(2,3) by (simp add: sa_inv_def)
  moreover have "sa_prepare_for_shrink n a = Inr ?a'"
    using t n sp(1) by (simp add: sa_prepare_for_shrink_def)
  ultimately show ?thesis by auto
qed

text \<open>
  While a shrink is in progress, what still blocks it is exactly the occupied numbers at or above
  the target; \<open>finish_shrink\<close> succeeds when there is none and raises otherwise.
\<close>

lemma filter_result_dbs:
  assumes "\<forall>i \<in> set is. i < bs_room b"
  shows "filter_result (dbs_get b) is = Inr (filter (\<lambda>i. i \<in> bs_elems b) is)"
  using assms by (induction "is") (auto simp: dbs_get_elems)

lemma sa_blocking:
  assumes "sa_inv a"
  shows "sa_get_slots_blocking_shrink a =
     Inr (filter (\<lambda>i. i \<in> occupied a) [target_capacity a..<capacity a])"
  unfolding sa_get_slots_blocking_shrink_def
  using assms by (intro filter_result_dbs) (auto simp: sa_inv_def)

lemma partition_high:
  assumes "ids_partition rec over occ n" "\<forall>i \<in> set rec. i < t" "\<forall>i \<in> set over. t \<le> i"
  shows "length over + card {i \<in> occ. t \<le> i} = n - t"
proof -
  have all: "set rec \<union> set over \<union> occ = {..<n}" and dist: "distinct over" "set over \<inter> occ = {}"
    using assms by (auto simp: ids_partition_def)
  have "set over \<union> {i \<in> occ. t \<le> i} = {t..<n}"
  proof (intro equalityI subsetI)
    fix x assume "x \<in> set over \<union> {i \<in> occ. t \<le> i}"
    then have "x \<in> {..<n}" "t \<le> x" using all assms(3) by blast+
    then show "x \<in> {t..<n}" by simp
  next
    fix x assume x: "x \<in> {t..<n}"
    then have "x \<in> set rec \<union> set over \<union> occ" using all by auto
    then show "x \<in> set over \<union> {i \<in> occ. t \<le> i}" using x assms(2) by fastforce
  qed
  moreover have "finite occ" using all finite_subset [of occ "{..<n}"] by auto
  then have "card (set over \<union> {i \<in> occ. t \<le> i}) = card (set over) + card {i \<in> occ. t \<le> i}"
    using dist by (intro card_Un_disjoint) auto
  ultimately show ?thesis using distinct_card [OF dist(1)] by simp
qed

lemma overflow_count:
  assumes "sa_inv a"
  shows "length (overflow_slots a) + card {i \<in> occupied a. target_capacity a \<le> i}
         = num_active_slots a - target_capacity a"
  using assms partition_high [of "slot_ids (recycled_slots a)" "slot_ids (overflow_slots a)"
      "occupied a" "num_active_slots a" "target_capacity a"]
  by (auto simp: sa_inv_def)

lemma sa_finish_shrink_iff:
  assumes inv: "sa_inv a" and shrink: "shrink_in_progress a"
  shows "(\<exists>a'. sa_finish_shrink drv a = Inr a') \<longleftrightarrow> (\<forall>i \<in> occupied a. i < target_capacity a)"
    and "\<not> (\<forall>i \<in> occupied a. i < target_capacity a) \<Longrightarrow> sa_finish_shrink drv a = Inl RuntimeError"
proof -
  let ?high = "{i \<in> occupied a. target_capacity a \<le> i}"
  have "finite ?high" using inv occ.finite_elems by (simp add: sa_inv_def)
  then have "card ?high = 0 \<longleftrightarrow> (\<forall>i \<in> occupied a. i < target_capacity a)"
    by (auto simp: not_le [symmetric])
  then have count: "length (overflow_slots a) = num_active_slots a - target_capacity a \<longleftrightarrow>
      (\<forall>i \<in> occupied a. i < target_capacity a)"
    using overflow_count [OF inv] by linarith
  have "distinct (map raw_slot_id (overflow_slots a))" "list_all has_valid_slot (overflow_slots a)"
    using inv distinct_map [of the "map raw_slot_id (overflow_slots a)"]
    by (auto simp: sa_inv_def ids_partition_def comp_def)
  then have "card (set (map raw_slot_id (overflow_slots a))) = length (overflow_slots a)"
      "list_all has_valid_slot (overflow_slots a)"
    using distinct_card [of "map raw_slot_id (overflow_slots a)"] by simp_all
  then show "(\<exists>a'. sa_finish_shrink drv a = Inr a') \<longleftrightarrow> (\<forall>i \<in> occupied a. i < target_capacity a)"
    and "\<not> (\<forall>i \<in> occupied a. i < target_capacity a) \<Longrightarrow> sa_finish_shrink drv a = Inl RuntimeError"
    using shrink count by (auto simp: sa_finish_shrink_def)
qed

lemma partition_drop_overflow:
  assumes "ids_partition rec over occ n" "\<forall>i \<in> set rec. i < t" "\<forall>i \<in> occ. i < t" "\<forall>i \<in> set over. t \<le> i"
  shows "ids_partition rec [] occ (min n t)"
proof -
  have "set rec \<union> occ = {..<n} \<inter> {..<t}"
    using assms unfolding ids_partition_def by (auto simp: not_less [symmetric])
  then show ?thesis using assms by (auto simp: ids_partition_def)
qed

lemma sa_finish_shrink_inv:
  assumes inv: "sa_inv a" and fin: "sa_finish_shrink drv a = Inr a'"
  shows "sa_inv a' \<and> capacity a' = target_capacity a \<and> target_capacity a' = target_capacity a \<and>
     occupied a' = occupied a \<and> \<not> shrink_in_progress a'"
proof -
  let ?a1 = "a\<lparr>overflow_slots := [], capacity := target_capacity a,
              num_active_slots := min (num_active_slots a) (target_capacity a)\<rparr>"
  have shrink: "shrink_in_progress a" and a': "a' = scrub_events drv ?a1"
    using fin by (auto simp: sa_finish_shrink_def py_assert_def Let_def split: if_splits)
  then have "\<forall>i \<in> occupied a. i < target_capacity a"
    using sa_finish_shrink_iff(1) [OF inv shrink] fin by auto
  then have "ids_partition (slot_ids (recycled_slots a)) [] (occupied a)
      (min (num_active_slots a) (target_capacity a))"
    using inv by (intro partition_drop_overflow) (auto simp: sa_inv_def)
  then have "sa_inv ?a1" using inv by (auto simp: sa_inv_def)
  then show ?thesis using a' by (simp add: scrub_events_inv shrink_in_progress_def)
qed

section \<open>Counting\<close>

lemma sa_inv_check: "sa_inv a \<Longrightarrow> sa_check a"
proof -
  assume inv: "sa_inv a"
  have "length (recycled_slots a) + length (overflow_slots a) + num_occupied_slots a = num_active_slots a"
    using inv partition_count [of "slot_ids (recycled_slots a)" "slot_ids (overflow_slots a)" "occupied a"]
    by (simp add: sa_inv_def num_occupied_slots_def occ.count_elems)
  moreover have "case raw_slot_id s of None \<Rightarrow> False | Some i \<Rightarrow> target_capacity a \<le> i \<and> i < capacity a"
    if "s \<in> set (overflow_slots a)" for s
  proof -
    have "has_valid_slot s" "target_capacity a \<le> the (raw_slot_id s)"
      "the (raw_slot_id s) < num_active_slots a"
      using inv that by (auto simp: sa_inv_def ids_partition_def list_all_iff)
    moreover have "num_active_slots a \<le> capacity a" using inv by (simp add: sa_inv_def)
    ultimately show ?thesis by (auto simp: has_valid_slot_def)
  qed
  ultimately show ?thesis
    using inv by (auto simp: sa_check_def sa_inv_def shrink_in_progress_def)
qed

lemma free_plus_occupied:
  assumes "sa_inv a" "\<not> shrink_in_progress a"
  shows "num_free_slots a + num_occupied_slots a = capacity a"
  using sa_inv_check [OF assms(1)] assms
  by (auto simp: sa_check_def num_free_slots_def shrink_in_progress_def sa_inv_def)

section \<open>Waiting for the recycled slots\<close>

lemma scrub_events_all_ready:
  assumes "sa_inv a" "\<forall>s \<in> set (recycled_slots a). query_complete drv (ready_event s)"
  shows "num_ready_recycled_slots (scrub_events drv a) = length (recycled_slots a)"
proof -
  have "\<forall>s \<in> set (drop (num_ready_recycled_slots a) (recycled_slots a)). query_complete drv (ready_event s)"
    using assms(2) by (auto dest: in_set_dropD)
  moreover have "num_ready_recycled_slots a \<le> length (recycled_slots a)"
    using assms(1) by (simp add: sa_inv_def)
  ultimately show ?thesis
    using scrub_impl_all [of "drop (num_ready_recycled_slots a) (recycled_slots a)" drv]
    by (cases "scrub_events_impl drv (drop (num_ready_recycled_slots a) (recycled_slots a))")
      (simp add: scrub_events_def Let_def)
qed

lemma scrub_events_slots:
  "set (recycled_slots (scrub_events drv a)) \<subseteq>
     set (recycled_slots a) \<union> {s. ready_event s = NullEvent}"
proof -
  have "set (fst (scrub_events_impl drv ss)) \<subseteq> set ss \<union> {s. ready_event s = NullEvent}" for ss
    by (induction ss) (auto split: prod.splits)
  from this [of "drop (num_ready_recycled_slots a) (recycled_slots a)"] show ?thesis
    by (auto simp: scrub_events_def Let_def dest: in_set_takeD in_set_dropD split: prod.splits)
qed

text \<open>
  Polling ends: if from some poll on the driver reports every event of the recycled slots as
  complete, enough fuel gives a result.
\<close>

lemma sa_synchronize_returns:
  assumes "sa_inv a" "\<And>s e t'. s \<in> set (recycled_slots a) \<Longrightarrow> ready_event s = Event e \<Longrightarrow> t + k \<le> t' \<Longrightarrow> answers t' e"
    and "k + 2 \<le> fuel"
  shows "\<exists>a'. sa_synchronize answers t fuel a = Some a' \<and> sa_inv a' \<and> occupied a' = occupied a \<and>
     num_ready_recycled_slots a' = length (recycled_slots a')"
  using assms
proof (induction k arbitrary: t fuel a)
  case 0
  then obtain f where fuel: "fuel = Suc (Suc f)" by (metis add_0 add_2_eq_Suc' le_Suc_ex add.commute)
  have "\<forall>s \<in> set (recycled_slots a). query_complete (answers t) (ready_event s)"
    using "0.prems"(2) [of _ _ t] by (auto simp: query_complete_def split: cuda_event.split)
  then have "num_ready_recycled_slots (scrub_events (answers t) a) = length (recycled_slots a)"
    using scrub_events_all_ready "0.prems"(1) by blast
  then show ?case using "0.prems"(1) fuel by (simp add: scrub_events_inv)
next
  case (Suc k)
  then obtain f where fuel: "fuel = Suc f" and f: "k + 2 \<le> f" by (cases fuel) auto
  let ?a1 = "scrub_events (answers t) a"
  have "answers t' e" if "s \<in> set (recycled_slots ?a1)" "ready_event s = Event e" "Suc t + k \<le> t'" for s e t'
  proof -
    have "s \<in> set (recycled_slots a)" using scrub_events_slots [of "answers t" a] that(1,2) by auto
    then show ?thesis using Suc.prems(2) that(2,3) by simp
  qed
  then show ?case
    using Suc.IH [of ?a1 "Suc t" f] Suc.prems(1) fuel f by (auto simp: scrub_events_inv)
qed

section \<open>All histories of an allocator\<close>

text \<open>
  A state is the allocator and the numbers its clients hold. Clients may return a held number with
  any event, and every step may see other answers of the driver.
\<close>

inductive sa_reach :: "nat \<Rightarrow> slot_allocator \<Rightarrow> nat list \<Rightarrow> bool" for cap where
  sa_start: "sa_reach cap (sa_init cap) []"
| sa_do_allocate:
    "sa_reach cap a held \<Longrightarrow> sa_allocate drv a = Inr (s, a') \<Longrightarrow>
     sa_reach cap a' (the (raw_slot_id s) # held)"
| sa_do_release:
    "sa_reach cap a held \<Longrightarrow> i \<in> set held \<Longrightarrow>
     sa_release drv \<lparr>raw_slot_id = Some i, ready_event = ev\<rparr> a = Inr a' \<Longrightarrow>
     sa_reach cap a' (remove1 i held)"
| sa_do_expand: "sa_reach cap a held \<Longrightarrow> sa_expand n a = Inr a' \<Longrightarrow> sa_reach cap a' held"
| sa_do_prepare: "sa_reach cap a held \<Longrightarrow> sa_prepare_for_shrink n a = Inr a' \<Longrightarrow> sa_reach cap a' held"
| sa_do_finish: "sa_reach cap a held \<Longrightarrow> sa_finish_shrink drv a = Inr a' \<Longrightarrow> sa_reach cap a' held"

lemma sa_init_inv: "sa_inv (sa_init cap)"
  using dbs_init_room [of cap] by (simp add: sa_inv_def sa_init_def ids_partition_def dbs_init_elems)

lemma sa_prepare_guard:
  "sa_prepare_for_shrink n a = Inr a' \<Longrightarrow> target_capacity a = capacity a \<and> n < capacity a"
  by (auto simp: sa_prepare_for_shrink_def py_assert_def split: if_splits)

lemma sa_reach_inv: "sa_reach cap a held \<Longrightarrow> sa_inv a \<and> distinct held \<and> set held = occupied a"
proof (induction rule: sa_reach.induct)
  case sa_start
  show ?case using sa_init_inv [of cap] by (simp add: sa_init_def dbs_init_elems)
next
  case (sa_do_allocate a held drv s a')
  then show ?case using sa_allocate_result [of a drv s a'] by (auto simp: allocated_def)
next
  case (sa_do_release a held i drv ev a')
  then show ?case using sa_release_inv [of a drv "\<lparr>raw_slot_id = Some i, ready_event = ev\<rparr>" a'] by auto
next
  case (sa_do_expand a held n a')
  then show ?case using sa_expand_inv [of a n a'] by simp
next
  case (sa_do_prepare a held n a')
  then show ?case using sa_prepare_for_shrink_inv [of a n] sa_prepare_guard [of n a a'] by auto
next
  case (sa_do_finish a held drv a')
  then show ?case using sa_finish_shrink_inv [of a drv a'] by simp
qed

section \<open>Properties\<close>

text \<open>
  C3. Exclusive ownership over every history of an allocator (allocations, releases, expansions and
  two-phase shrinks in any order, with any answers of the driver): no slot number is held twice,
  the held numbers are exactly the occupied ones and lie below the capacity, and the consistency
  check \<open>_check\<close> of the code holds.
\<close>

theorem sa_exclusive_ownership:
  assumes "sa_reach cap a held"
  shows "distinct held \<and> set held = occupied a \<and> (\<forall>i \<in> set held. i < capacity a) \<and>
         length held = num_occupied_slots a \<and> sa_check a"
proof -
  have inv: "sa_inv a" and held: "distinct held" "set held = occupied a"
    using sa_reach_inv [OF assms] by auto
  have "num_occupied_slots a = length held"
    using inv held distinct_card [OF held(1)]
    by (simp add: num_occupied_slots_def sa_inv_def occ.count_elems)
  then show ?thesis using inv held sa_inv_check occupied_less(2) [OF inv] by auto
qed

theorem sa_exclusive_ownership_witness:
  "\<exists>a. sa_reach 1 a [0] \<and> distinct [0::nat] \<and> set [0] = occupied a"
proof -
  obtain s a' where al: "sa_allocate (\<lambda>_. True) (sa_init 1) = Inr (s, a')"
    and s: "allocated (sa_init 1) s a'"
    using sa_allocate_succeeds [OF sa_init_inv [of 1], of "\<lambda>_. True"]
    by (auto simp: sa_init_def num_free_slots_def)
  have "the (raw_slot_id s) = 0" using s by (auto simp: allocated_def sa_init_def)
  then have "sa_reach 1 a' [0]" using sa_do_allocate [OF sa_start al] by simp
  then show ?thesis using sa_exclusive_ownership by blast
qed

text \<open>
  C24. \<open>allocate_multiple\<close> is all or nothing and exact: with enough free slots it returns that many
  distinct numbers, none of which was in use and all below the target capacity (so none of them
  blocks a shrink in progress), and takes exactly that many from the free count; otherwise it
  raises \<open>OutOfPagesError\<close>.
\<close>

theorem sa_allocate_multiple_exact:
  assumes "sa_inv a"
  shows "if n \<le> num_free_slots a
     then \<exists>ss a'. sa_allocate_multiple drv n a = Inr (ss, a') \<and> sa_inv a' \<and> length ss = n \<and>
            distinct (slot_ids ss) \<and> set (slot_ids ss) \<inter> occupied a = {} \<and>
            set (slot_ids ss) \<subseteq> {..<target_capacity a} \<and>
            occupied a' = set (slot_ids ss) \<union> occupied a \<and> num_free_slots a' + n = num_free_slots a
     else sa_allocate_multiple drv n a = Inl OutOfPagesError"
  using sa_allocate_n_succeeds [OF assms, of n drv] by (auto simp: sa_allocate_multiple_def)

theorem sa_allocate_multiple_exact_witness:
  "\<exists>ss a'. sa_allocate_multiple (\<lambda>_. False) 3 (sa_init 5) = Inr (ss, a') \<and> num_free_slots a' = 2"
proof -
  have "num_free_slots (sa_init 5) = 5" by (simp add: sa_init_def num_free_slots_def)
  then show ?thesis using sa_allocate_multiple_exact [OF sa_init_inv [of 5], of 3 "\<lambda>_. False"] by auto
qed

text \<open>
  The two-phase shrink: once it is prepared, \<open>finish_shrink\<close> succeeds exactly when
  \<open>get_slots_blocking_shrink\<close> reports nothing, and raises \<open>RuntimeError\<close> otherwise; on success the
  capacity is the target, nothing that is in use has moved, and every slot is free or occupied.
\<close>

theorem sa_shrink_completes:
  assumes "sa_inv a" "shrink_in_progress a"
  shows "if sa_get_slots_blocking_shrink a = Inr []
     then \<exists>a'. sa_finish_shrink drv a = Inr a' \<and> sa_inv a' \<and> capacity a' = target_capacity a \<and>
            occupied a' = occupied a \<and> \<not> shrink_in_progress a' \<and>
            num_free_slots a' + num_occupied_slots a' = target_capacity a
     else sa_finish_shrink drv a = Inl RuntimeError"
proof -
  have "sa_get_slots_blocking_shrink a = Inr [] \<longleftrightarrow>
      (\<forall>i \<in> occupied a. \<not> (target_capacity a \<le> i \<and> i < capacity a))"
    using sa_blocking [OF assms(1)] by (auto simp: filter_empty_conv)
  then have blocking: "sa_get_slots_blocking_shrink a = Inr [] \<longleftrightarrow> (\<forall>i \<in> occupied a. i < target_capacity a)"
    using occupied_less(2) [OF assms(1)] not_le by blast
  show ?thesis
  proof (cases "\<forall>i \<in> occupied a. i < target_capacity a")
    case True
    then obtain a' where a': "sa_finish_shrink drv a = Inr a'"
      using sa_finish_shrink_iff(1) [OF assms] by blast
    note fin = sa_finish_shrink_inv [OF assms(1) a']
    then have "num_free_slots a' + num_occupied_slots a' = target_capacity a"
      using free_plus_occupied [of a'] by auto
    then show ?thesis using True blocking a' fin by auto
  next
    case False
    then show ?thesis using blocking sa_finish_shrink_iff(2) [OF assms] by simp
  qed
qed

theorem sa_shrink_completes_witness:
  "\<exists>a a'. sa_prepare_for_shrink 1 (sa_init 2) = Inr a \<and>
     sa_finish_shrink (\<lambda>_. True) a = Inr a' \<and> capacity a' = 1"
proof -
  obtain a where a: "sa_prepare_for_shrink 1 (sa_init 2) = Inr a" "sa_inv a" "occupied a = {}"
      "target_capacity a = 1" "capacity a = 2"
    using sa_prepare_for_shrink_inv [OF sa_init_inv [of 2], of 1]
    by (auto simp: sa_init_def dbs_init_elems)
  then have "sa_get_slots_blocking_shrink a = Inr []" "shrink_in_progress a"
    using sa_blocking [OF a(2)] by (simp_all add: shrink_in_progress_def)
  then show ?thesis using sa_shrink_completes [OF a(2), of "\<lambda>_. True"] a by auto
qed

text \<open>
  \<open>release\<close> is exact on every branch: a number that is in use leaves the occupied set (and
  becomes free again unless a shrink in progress is to drop it); releasing a number that is not in
  use, or beyond the capacity, raises \<open>LogicError\<close>.
\<close>

theorem sa_release_exact:
  assumes "sa_inv a" "has_valid_slot s"
  shows "if the (raw_slot_id s) \<in> occupied a
     then \<exists>a'. sa_release drv s a = Inr a' \<and> sa_inv a' \<and>
            occupied a' = occupied a - {the (raw_slot_id s)} \<and>
            num_free_slots a' = num_free_slots a +
              (if the (raw_slot_id s) < target_capacity a then 1 else 0)
     else sa_release drv s a = Inl LogicError"
  using sa_release_occupied [OF assms, of drv] sa_release_unoccupied [OF assms, of drv]
  by (auto simp: num_free_slots_def)

theorem sa_release_exact_witness:
  "sa_release (\<lambda>_. True) \<lparr>raw_slot_id = Some 3, ready_event = NullEvent\<rparr> (sa_init 5) = Inl LogicError"
  using sa_release_exact [OF sa_init_inv [of 5], of "\<lparr>raw_slot_id = Some 3, ready_event = NullEvent\<rparr>"]
  by (simp add: has_valid_slot_def sa_init_def dbs_init_elems)

text \<open>
  C36. \<open>_synchronize\<close> ends: if from the \<open>k\<close>-th poll on the driver reports the events of the recycled
  slots as complete, the polling loop returns after at most \<open>k + 2\<close> rounds, with every recycled slot
  ready and no slot lost.
\<close>

theorem sa_synchronize_terminates:
  assumes "sa_inv a"
    and "\<And>s e t'. s \<in> set (recycled_slots a) \<Longrightarrow> ready_event s = Event e \<Longrightarrow> k \<le> t' \<Longrightarrow> answers t' e"
  shows "\<exists>a'. sa_synchronize answers 0 (k + 2) a = Some a' \<and> sa_inv a' \<and> occupied a' = occupied a \<and>
     num_ready_recycled_slots a' = length (recycled_slots a')"
  using sa_synchronize_returns [of a 0 k answers "k + 2"] assms by simp

theorem sa_synchronize_terminates_witness:
  "\<exists>a a'. sa_inv a \<and> recycled_slots a = [\<lparr>raw_slot_id = Some 0, ready_event = Event 7\<rparr>] \<and>
     sa_synchronize (\<lambda>t e. 4 \<le> t) 0 6 a = Some a' \<and> num_ready_recycled_slots a' = length (recycled_slots a')"
proof -
  let ?a = "(sa_init 2)\<lparr>num_active_slots := 1,
               recycled_slots := [\<lparr>raw_slot_id = Some 0, ready_event = Event 7\<rparr>]\<rparr>"
  have "sa_inv ?a" using dbs_init_room [of 2]
    by (simp add: sa_inv_def sa_init_def ids_partition_def dbs_init_elems has_valid_slot_def lessThan_Suc)
  then have "\<exists>a'. sa_synchronize (\<lambda>t e. 4 \<le> t) 0 (4 + 2) ?a = Some a' \<and> sa_inv a' \<and>
      occupied a' = occupied ?a \<and> num_ready_recycled_slots a' = length (recycled_slots a')"
    by (rule sa_synchronize_terminates)
  then obtain a' where "sa_synchronize (\<lambda>t e. 4 \<le> t) 0 6 ?a = Some a'"
      "num_ready_recycled_slots a' = length (recycled_slots a')"
    by auto
  moreover have "recycled_slots ?a = [\<lparr>raw_slot_id = Some 0, ready_event = Event 7\<rparr>]" by simp
  ultimately show ?thesis using \<open>sa_inv ?a\<close> by blast
qed

end
