(* ===== verification/RequestQueue.thy ===== *)
theory RequestQueue
  imports Prelude Complex_Main "HOL-Library.AList" "HOL-Library.Sublist"
begin

text \<open>
  How requests enter the executor: the items of \<^verbatim>\<open>_torch/pyexecutor/executor_request_queue.py\<close>, the
  identifiers they are given (\<^verbatim>\<open>llmapi/disagg_utils.py\<close>), the queue that hands them to the executor
  loop, the special items of \<^verbatim>\<open>PyExecutor._handle_special_queue_items\<close>, and the Python attributes that
  travel next to the requests to the other ranks (\<^verbatim>\<open>_torch/pyexecutor/request_utils.py\<close>).

  Clock readings are arguments, and so are the answers of a blocking \<open>get\<close> on an empty queue: \<open>Some\<close> is
  an item that another thread puts while the call waits, \<open>None\<close> is \<open>queue.Empty\<close> after the timeout. The
  bodies of the operations run under the lock of the queue, so they are atomic.
\<close>

unbundle bit_operations_syntax

section \<open>Definitions\<close>

subsection \<open>Requests and queue items\<close>

text \<open>\<open>SchedulingParams\<close> of \<^verbatim>\<open>scheduling_params.py\<close>; the agent hierarchy is not used here.\<close>

record scheduling_params =
  attention_dp_rank :: "int option"
  attention_dp_relax :: bool

text \<open>The Python-only attributes of a request; all but the scheduling parameters are opaque.\<close>

datatype py_object = SchedulingParams scheduling_params | OpaqueObject int

text \<open>
  The fields of the C++ class \<open>executor::Request\<close> that the queues read, and the attributes Python code
  sets on its objects.
\<close>

record executor_request =
  beam_width :: int
  num_return_sequences :: "int option"
  req_priority :: rat
  input_token_ids :: "int list"
  disagg_request_id :: "int option"
  lora_config_task_id :: "int option"
  py_attributes :: "(string \<times> py_object) list"

record request_item =
  req_id :: int
  req_request :: "executor_request option"
  child_req_ids :: "int list option"
  is_canceled_request :: bool
  req_query :: "int list option"

definition getattr_or_None :: "executor_request \<Rightarrow> string \<Rightarrow> py_object option" where
  "getattr_or_None r name = map_of (py_attributes r) name"

definition setattr :: "string \<Rightarrow> py_object \<Rightarrow> executor_request \<Rightarrow> executor_request" where
  "setattr name v r = r\<lparr>py_attributes := AList.update name v (py_attributes r)\<rparr>"

text \<open>\<open>getattr(req_item.request, "py_scheduling_params", None)\<close>.\<close>

definition py_scheduling_params :: "request_item \<Rightarrow> scheduling_params option" where
  "py_scheduling_params item =
     (case req_request item of
        None \<Rightarrow> None
      | Some r \<Rightarrow> (case getattr_or_None r ''py_scheduling_params'' of
                     Some (SchedulingParams p) \<Rightarrow> Some p | _ \<Rightarrow> None))"

definition SHUTDOWN_REQUEST_ID :: int where
  "SHUTDOWN_REQUEST_ID = -1"

definition CONTROL_REQUEST_ID :: int where
  "CONTROL_REQUEST_ID = -2"

definition is_shutdown_request :: "request_item \<Rightarrow> bool" where
  "is_shutdown_request item = (req_id item = SHUTDOWN_REQUEST_ID)"

definition is_control_request :: "request_item \<Rightarrow> bool" where
  "is_control_request item = (req_id item = CONTROL_REQUEST_ID)"

definition is_normal_request :: "request_item \<Rightarrow> bool" where
  "is_normal_request item =
     (\<not> (is_shutdown_request item \<or> is_canceled_request item \<or> is_control_request item))"

subsection \<open>Request identifiers\<close>

definition MIN_GLOBAL_ID :: int where
  "MIN_GLOBAL_ID = push_bit 42 1"

definition get_local_request_id :: "int \<Rightarrow> int" where
  "get_local_request_id last_id = (last_id + 1) AND (MIN_GLOBAL_ID - 1)"

text \<open>
  The millisecond clock is an argument. The counter of the module is returned updated.
\<close>

definition get_global_disagg_request_id :: "int \<Rightarrow> int \<Rightarrow> int \<Rightarrow> int result \<times> int" where
  "get_global_disagg_request_id machine_id timestamp_ms counter0 =
     (let COUNTER_BITS = 12; MACHINE_ID_BITS = 10;
          COUNTER_MASK = push_bit COUNTER_BITS 1 - 1; MAX_INT64 = push_bit 63 1 - 1 in
      if \<not> (0 \<le> machine_id \<and> machine_id < push_bit MACHINE_ID_BITS 1 - 1) then (Inl ValueError, counter0)
      else
        let counter = counter0 AND COUNTER_MASK;
            global_id = push_bit (MACHINE_ID_BITS + COUNTER_BITS) timestamp_ms OR
                        push_bit COUNTER_BITS machine_id OR counter
        in (Inr (global_id mod (MAX_INT64 - MIN_GLOBAL_ID) + MIN_GLOBAL_ID), counter0 + 1))"

definition get_num_child_requests :: "executor_request \<Rightarrow> int" where
  "get_num_child_requests r =
     (if beam_width r > 1 then 0
      else (case num_return_sequences r of None \<Rightarrow> 1 | Some n \<Rightarrow> if n = 0 then 1 else n) - 1)"

subsection \<open>The queue of the executor\<close>

record executor_request_queue =
  request_queue :: "request_item list"
  rq_max_batch_size :: int
  next_request_id :: int
  rq_enable_iter_perf_stats :: bool
  start_times :: "(int \<times> real) list"
  rq_active :: bool
  batch_wait_timeout_ms :: real
  rq_rank :: int

definition rq_init :: "int \<Rightarrow> int \<Rightarrow> bool \<Rightarrow> real \<Rightarrow> executor_request_queue" where
  "rq_init rank max_batch stats wait_ms =
     \<lparr>request_queue = [], rq_max_batch_size = max_batch, next_request_id = max_batch,
      rq_enable_iter_perf_stats = stats, start_times = [], rq_active = True,
      batch_wait_timeout_ms = wait_ms, rq_rank = rank\<rparr>"

definition get_request_id ::
  "executor_request option \<Rightarrow> executor_request_queue \<Rightarrow> int \<times> executor_request_queue" where
  "get_request_id r q =
     (case Option.bind r disagg_request_id of
        Some d \<Rightarrow> if d \<noteq> 0 then (d, q)
                  else (next_request_id q, q\<lparr>next_request_id := get_local_request_id (next_request_id q)\<rparr>)
      | None \<Rightarrow> (next_request_id q, q\<lparr>next_request_id := get_local_request_id (next_request_id q)\<rparr>))"

definition stamp :: "int \<Rightarrow> real \<Rightarrow> executor_request_queue \<Rightarrow> executor_request_queue" where
  "stamp i t q = (if rq_enable_iter_perf_stats q then q\<lparr>start_times := AList.update i t (start_times q)\<rparr> else q)"

text \<open>\<open>now i\<close> is the clock when the child identifier \<open>i\<close> is stamped.\<close>

primrec child_ids_loop ::
  "(int \<Rightarrow> real) \<Rightarrow> nat \<Rightarrow> executor_request_queue \<Rightarrow> int list \<times> executor_request_queue" where
  "child_ids_loop now 0 q = ([], q)"
| "child_ids_loop now (Suc n) q =
     (let (i, q1) = get_request_id None q; (ids, q2) = child_ids_loop now n (stamp i (now i) q1)
      in (i # ids, q2))"

definition generate_child_request_ids ::
  "(int \<Rightarrow> real) \<Rightarrow> executor_request \<Rightarrow> executor_request_queue \<Rightarrow> int list option \<times> executor_request_queue" where
  "generate_child_request_ids now r q =
     (let num_children = get_num_child_requests r in
      if num_children > 0
      then (let (ids, q') = child_ids_loop now (nat num_children) q in (Some ids, q'))
      else (None, q))"

definition enqueue_one ::
  "real \<Rightarrow> (int \<Rightarrow> real) \<Rightarrow> executor_request \<times> int list option \<Rightarrow> executor_request_queue \<Rightarrow> int \<times> executor_request_queue" where
  "enqueue_one start_time now rq q =
     (let (i, q1) = get_request_id (Some (fst rq)) q;
          (children, q2) = generate_child_request_ids now (fst rq) (stamp i start_time q1)
      in (i, q2\<lparr>request_queue := request_queue q2 @
            [\<lparr>req_id = i, req_request = Some (fst rq), child_req_ids = children,
              is_canceled_request = False, req_query = snd rq\<rparr>]\<rparr>))"

primrec enqueue_loop ::
  "real \<Rightarrow> (int \<Rightarrow> real) \<Rightarrow> (executor_request \<times> int list option) list \<Rightarrow> executor_request_queue \<Rightarrow>
     int list \<times> executor_request_queue" where
  "enqueue_loop t now [] q = ([], q)"
| "enqueue_loop t now (rq # rqs) q =
     (let (i, q1) = enqueue_one t now rq q; (ids, q2) = enqueue_loop t now rqs q1 in (i # ids, q2))"

definition enqueue_impl ::
  "real \<Rightarrow> (int \<Rightarrow> real) \<Rightarrow> (executor_request \<times> int list option) list \<Rightarrow> executor_request_queue \<Rightarrow>
     (int list \<times> executor_request_queue) result" where
  "enqueue_impl t now rqs q = py_assert (rq_active q) (Inr (enqueue_loop t now rqs q))"

definition enqueue_requests ::
  "real \<Rightarrow> (int \<Rightarrow> real) \<Rightarrow> executor_request list \<Rightarrow> executor_request_queue \<Rightarrow>
     (int list \<times> executor_request_queue) result" where
  "enqueue_requests t now rs q = enqueue_impl t now (zip rs (replicate (length rs) None)) q"

definition enqueue_request ::
  "real \<Rightarrow> (int \<Rightarrow> real) \<Rightarrow> executor_request \<Rightarrow> int list option \<Rightarrow> executor_request_queue \<Rightarrow>
     (int \<times> executor_request_queue) result" where
  "enqueue_request t now r query q =
     rbind (enqueue_impl t now [(r, query)] q) (\<lambda>(ids, q').
       case ids of [] \<Rightarrow> Inl IndexError | i # _ \<Rightarrow> Inr (i, q'))"

definition put_item :: "int \<Rightarrow> bool \<Rightarrow> executor_request_queue \<Rightarrow> executor_request_queue" where
  "put_item i canceled q = q\<lparr>request_queue := request_queue q @
     [\<lparr>req_id = i, req_request = None, child_req_ids = None, is_canceled_request = canceled, req_query = None\<rparr>]\<rparr>"

definition enqueue_cancel_request :: "int \<Rightarrow> executor_request_queue \<Rightarrow> executor_request_queue" where
  "enqueue_cancel_request i q = put_item i True q"

definition enqueue_control_request :: "executor_request_queue \<Rightarrow> executor_request_queue" where
  "enqueue_control_request q = put_item CONTROL_REQUEST_ID False q"

definition enqueue_shutdown_request :: "executor_request_queue \<Rightarrow> executor_request_queue" where
  "enqueue_shutdown_request q = (put_item SHUTDOWN_REQUEST_ID False q)\<lparr>rq_active := False\<rparr>"

definition can_enqueue_request :: "executor_request_queue \<Rightarrow> bool" where
  "can_enqueue_request q = (rq_active q \<and> rq_rank q = 0)"

definition get_request_queue_size :: "executor_request_queue \<Rightarrow> nat" where
  "get_request_queue_size q = length (request_queue q)"

subsection \<open>Fetching items\<close>

text \<open>
  The waiting loop: \<open>clock i\<close> is the monotonic clock at the \<open>i\<close>-th test, \<open>arrival i\<close> the answer of the
  \<open>i\<close>-th \<open>get\<close> if it finds the queue empty.
\<close>

function batch_wait_loop ::
  "int \<Rightarrow> real \<Rightarrow> (nat \<Rightarrow> real) \<Rightarrow> (nat \<Rightarrow> request_item option) \<Rightarrow> nat \<Rightarrow> request_item list \<Rightarrow> request_item list \<Rightarrow>
     request_item list \<times> request_item list" where
  "batch_wait_loop max_batch deadline clock arrival i items q =
     (if int (length items) < max_batch then
        if deadline - clock i \<le> 0 then (items, q)
        else (case q of
                x # q' \<Rightarrow> batch_wait_loop max_batch deadline clock arrival (Suc i) (items @ [x]) q'
              | [] \<Rightarrow> (case arrival i of
                         None \<Rightarrow> (items, q)
                       | Some x \<Rightarrow> batch_wait_loop max_batch deadline clock arrival (Suc i) (items @ [x]) []))
      else (items, q))"
  by pat_completeness auto
termination
  by (relation "measure (\<lambda>(max_batch, _, _, _, _, items, _). nat (max_batch - int (length items)))") auto

declare batch_wait_loop.simps [simp del]

text \<open>
  \<open>timeout\<close> is in seconds, \<open>None\<close> waits for ever; \<open>first\<close> is the answer of the blocking \<open>get\<close> at the start,
  \<open>now\<close> the clock when the deadline is computed.
\<close>

definition get_from_request_queue ::
  "real option \<Rightarrow> request_item option \<Rightarrow> real \<Rightarrow> (nat \<Rightarrow> real) \<Rightarrow> (nat \<Rightarrow> request_item option) \<Rightarrow>
     executor_request_queue \<Rightarrow> request_item list \<times> executor_request_queue" where
  "get_from_request_queue timeout first now clock arrival q =
     (let items = (if request_queue q = [] \<and> (case timeout of None \<Rightarrow> True | Some s \<Rightarrow> s > 0)
                   then (case first of Some x \<Rightarrow> [x] | None \<Rightarrow> [])
                   else request_queue q);
          q' = q\<lparr>request_queue := []\<rparr>
      in if batch_wait_timeout_ms q = 0 then (items, q')
         else if int (length items) \<ge> rq_max_batch_size q then (items, q')
         else let deadline = now + batch_wait_timeout_ms q / 1000;
                  (items', rest) = batch_wait_loop (rq_max_batch_size q) deadline clock arrival 0 items []
              in (items', q\<lparr>request_queue := rest\<rparr>))"

definition pop_latency :: "real \<Rightarrow> int \<Rightarrow> real \<times> (int \<times> real) list \<Rightarrow> real \<times> (int \<times> real) list" where
  "pop_latency now i st =
     (case map_of (snd st) i of
        Some t \<Rightarrow> (fst st + (now - t), AList.delete i (snd st))
      | None \<Rightarrow> st)"

definition item_ids :: "request_item \<Rightarrow> int list" where
  "item_ids item = req_id item # (case child_req_ids item of None \<Rightarrow> [] | Some cs \<Rightarrow> cs)"

definition calculate_queue_latency ::
  "request_item list \<Rightarrow> real \<Rightarrow> executor_request_queue \<Rightarrow> real \<times> executor_request_queue" where
  "calculate_queue_latency items now q =
     (if \<not> rq_enable_iter_perf_stats q then (0, q)
      else let (l, ts) = fold (pop_latency now) (concat (map item_ids items)) (0, start_times q)
           in (l, q\<lparr>start_times := ts\<rparr>))"

subsection \<open>Special items\<close>

text \<open>The part of the state of \<open>PyExecutor\<close> that the special items change.\<close>

record intake =
  is_shutdown :: bool
  canceled_req_ids :: "int list"
  control_requests :: "request_item list"
  request_accumulated :: "request_item list"

fun handle_special_queue_items ::
  "int \<Rightarrow> request_item list \<Rightarrow> intake \<Rightarrow> request_item list \<times> intake" where
  "handle_special_queue_items rank [] st = ([], st)"
| "handle_special_queue_items rank (item # rest) st =
     (if is_shutdown_request item then ([], st\<lparr>is_shutdown := True\<rparr>)
      else if is_canceled_request item
      then handle_special_queue_items rank rest (st\<lparr>canceled_req_ids := canceled_req_ids st @ [req_id item]\<rparr>)
      else if is_control_request item
      then ([], st\<lparr>control_requests := control_requests st @ [item],
                   request_accumulated := request_accumulated st @ (if rank = 0 then rest else [])\<rparr>)
      else (let (accepted, st') = handle_special_queue_items rank rest st in (item # accepted, st')))"

subsection \<open>Python attributes on their way to the other ranks\<close>

definition collect_step ::
  "string \<Rightarrow> request_item \<Rightarrow> (int \<times> py_object) list \<Rightarrow> (int \<times> py_object) list" where
  "collect_step name item d =
     (if \<not> is_normal_request item then d
      else case req_request item of
             None \<Rightarrow> d
           | Some r \<Rightarrow> (case getattr_or_None r name of None \<Rightarrow> d | Some v \<Rightarrow> AList.update (req_id item) v d))"

definition collect_py_objects_from_requests ::
  "request_item list \<Rightarrow> string \<Rightarrow> (string \<times> (int \<times> py_object) list) option" where
  "collect_py_objects_from_requests items name =
     (let d = fold (collect_step name) items [] in if d = [] then None else Some (name, d))"

definition py_attribute_names :: "string list" where
  "py_attribute_names = [''py_logits_post_processors'', ''py_multimodal_data'', ''py_scheduling_params'',
     ''py_num_logprobs'', ''py_disaggregated_params'', ''py_lora_path'']"

definition collect_py_objects :: "request_item list \<Rightarrow> (string \<times> (int \<times> py_object) list) list" where
  "collect_py_objects items = List.map_filter (collect_py_objects_from_requests items) py_attribute_names"

definition attach_one :: "string \<times> (int \<times> py_object) list \<Rightarrow> request_item \<Rightarrow> request_item" where
  "attach_one obj item =
     (case req_request item of
        None \<Rightarrow> item
      | Some r \<Rightarrow> (case map_of (snd obj) (req_id item) of
                     None \<Rightarrow> item | Some v \<Rightarrow> item\<lparr>req_request := Some (setattr (fst obj) v r)\<rparr>))"

definition attach_py_objects_to_requests ::
  "request_item list \<Rightarrow> (string \<times> (int \<times> py_object) list) list \<Rightarrow> request_item list" where
  "attach_py_objects_to_requests items objs = fold (\<lambda>obj. map (attach_one obj)) objs items"


section \<open>Identifiers\<close>

lemma MIN_GLOBAL_ID_eq: "MIN_GLOBAL_ID = 2 ^ 42"
  by (simp add: MIN_GLOBAL_ID_def)

lemma get_local_request_id_eq: "get_local_request_id n = (n + 1) mod MIN_GLOBAL_ID"
proof -
  have "MIN_GLOBAL_ID - 1 = mask 42" by (simp only: MIN_GLOBAL_ID_eq mask_eq_exp_minus_1)
  then have "get_local_request_id n = take_bit 42 (n + 1)"
    by (simp only: get_local_request_id_def take_bit_eq_mask)
  then show ?thesis by (simp only: take_bit_eq_mod MIN_GLOBAL_ID_eq)
qed

lemma mod_add_id: "((n + int j) mod MIN_GLOBAL_ID + int i) mod MIN_GLOBAL_ID = (n + int (j + i)) mod MIN_GLOBAL_ID"
  by (simp only: mod_add_left_eq of_nat_add add.assoc)

lemma local_mod_add:
  "(get_local_request_id n + int i) mod MIN_GLOBAL_ID = (n + int (Suc i)) mod MIN_GLOBAL_ID"
  using mod_add_id [of n 1 i] by (simp add: get_local_request_id_eq)

text \<open>The identifiers that \<open>k\<close> calls of \<open>_get_request_id\<close> hand out.\<close>

definition local_ids :: "int \<Rightarrow> nat \<Rightarrow> int list" where
  "local_ids n k = map (\<lambda>i. (n + int i) mod MIN_GLOBAL_ID) [0..<k]"

lemma local_ids_Suc:
  assumes "0 \<le> n" "n < MIN_GLOBAL_ID"
  shows "local_ids n (Suc k) = n # local_ids (get_local_request_id n) k"
proof -
  have "[0..<Suc k] = 0 # map Suc [0..<k]" by (simp add: map_Suc_upt upt_conv_Cons del: upt_Suc)
  then show ?thesis
    using assms by (simp add: local_ids_def local_mod_add del: upt_Suc of_nat_Suc)
qed

lemma local_ids_add:
  "local_ids n (j + k) = local_ids n j @ local_ids ((n + int j) mod MIN_GLOBAL_ID) k"
proof -
  have "map (\<lambda>i. j + i) [0..<k] = [j..<j + k]" by (induction k) auto
  then have "[0..<j + k] = [0..<j] @ map (\<lambda>i. j + i) [0..<k]"
    using upt_add_eq_append [of 0 j k] by simp
  then show ?thesis by (simp add: local_ids_def mod_add_id del: of_nat_add)
qed

lemma local_ids_range: "x \<in> set (local_ids n k) \<Longrightarrow> 0 \<le> x \<and> x < MIN_GLOBAL_ID"
  by (auto simp: local_ids_def MIN_GLOBAL_ID_eq)

lemma distinct_local_ids:
  assumes "int k \<le> MIN_GLOBAL_ID"
  shows "distinct (local_ids n k)"
proof -
  have "i = j" if "i < k" "j < k" "(n + int i) mod MIN_GLOBAL_ID = (n + int j) mod MIN_GLOBAL_ID" for i j
  proof -
    have "MIN_GLOBAL_ID dvd int i - int j"
      using that(3) by (simp add: mod_eq_dvd_iff)
    then show ?thesis
      using zdvd_imp_le [of MIN_GLOBAL_ID "int i - int j"] zdvd_imp_le [of MIN_GLOBAL_ID "int j - int i"]
        that(1,2) assms by (cases i j rule: linorder_cases) (auto simp: dvd_diff_commute)
  qed
  then show ?thesis by (auto simp: local_ids_def distinct_map inj_on_def)
qed

definition takes_local_id :: "executor_request \<Rightarrow> bool" where
  "takes_local_id r = (disagg_request_id r = None \<or> disagg_request_id r = Some 0)"

definition local_cost :: "executor_request \<Rightarrow> nat" where
  "local_cost r = (if takes_local_id r then 1 else 0) + nat (get_num_child_requests r)"

lemma stamp_fields [simp]:
  "request_queue (stamp i t q) = request_queue q" "next_request_id (stamp i t q) = next_request_id q"
  "rq_active (stamp i t q) = rq_active q"
  by (simp_all add: stamp_def)

lemma get_request_id_local [simp]:
  "get_request_id None q = (next_request_id q, q\<lparr>next_request_id := get_local_request_id (next_request_id q)\<rparr>)"
  by (simp add: get_request_id_def)

lemma get_request_id_Some:
  "get_request_id (Some r) q =
     (if takes_local_id r
      then (next_request_id q, q\<lparr>next_request_id := get_local_request_id (next_request_id q)\<rparr>)
      else (the (disagg_request_id r), q))"
  by (auto simp: get_request_id_def takes_local_id_def split: option.splits)

lemma child_ids_loop_ids:
  assumes "0 \<le> next_request_id q" "next_request_id q < MIN_GLOBAL_ID"
  shows "\<exists>q'. child_ids_loop now n q = (local_ids (next_request_id q) n, q') \<and>
     next_request_id q' = (next_request_id q + int n) mod MIN_GLOBAL_ID \<and>
     request_queue q' = request_queue q \<and> rq_active q' = rq_active q"
  using assms
proof (induction n arbitrary: q)
  case 0
  then show ?case by (simp add: local_ids_def)
next
  case (Suc n)
  let ?i = "next_request_id q"
  let ?q = "stamp ?i (now ?i) (q\<lparr>next_request_id := get_local_request_id ?i\<rparr>)"
  have "0 \<le> next_request_id ?q" "next_request_id ?q < MIN_GLOBAL_ID"
    by (simp_all add: get_local_request_id_eq MIN_GLOBAL_ID_eq)
  from Suc.IH [OF this] obtain q' where q': "child_ids_loop now n ?q = (local_ids (get_local_request_id ?i) n, q')"
      "next_request_id q' = (get_local_request_id ?i + int n) mod MIN_GLOBAL_ID"
      "request_queue q' = request_queue q" "rq_active q' = rq_active q"
    by auto
  have "(get_local_request_id ?i + int n) mod MIN_GLOBAL_ID = (?i + int (Suc n)) mod MIN_GLOBAL_ID"
    by (rule local_mod_add)
  then show ?case using q' local_ids_Suc [OF Suc.prems] by simp
qed

lemma generate_child_ids:
  assumes "0 \<le> next_request_id q" "next_request_id q < MIN_GLOBAL_ID"
  shows "\<exists>cs q'. generate_child_request_ids now r q = (cs, q') \<and>
     (case cs of None \<Rightarrow> [] | Some l \<Rightarrow> l) = local_ids (next_request_id q) (nat (get_num_child_requests r)) \<and>
     next_request_id q' = (next_request_id q + int (nat (get_num_child_requests r))) mod MIN_GLOBAL_ID \<and>
     request_queue q' = request_queue q \<and> rq_active q' = rq_active q"
proof (cases "get_num_child_requests r > 0")
  case True
  then show ?thesis
    using child_ids_loop_ids [OF assms, of now "nat (get_num_child_requests r)"]
    by (auto simp: generate_child_request_ids_def)
next
  case False
  then show ?thesis using assms by (simp add: generate_child_request_ids_def local_ids_def)
qed

text \<open>What enqueueing one request adds: an item whose identifiers are the next local ones, after its own.\<close>

lemma enqueue_one_item:
  assumes "0 \<le> next_request_id q" "next_request_id q < MIN_GLOBAL_ID"
  shows "\<exists>item q'. enqueue_one t now rq q = (req_id item, q') \<and> request_queue q' = request_queue q @ [item] \<and>
     req_request item = Some (fst rq) \<and> req_query item = snd rq \<and> \<not> is_canceled_request item \<and>
     item_ids item = (if takes_local_id (fst rq) then [] else [the (disagg_request_id (fst rq))]) @
       local_ids (next_request_id q) (local_cost (fst rq)) \<and>
     next_request_id q' = (next_request_id q + int (local_cost (fst rq))) mod MIN_GLOBAL_ID \<and> rq_active q' = rq_active q"
proof -
  let ?n = "next_request_id q" and ?l = "takes_local_id (fst rq)"
  let ?q1 = "stamp (fst (get_request_id (Some (fst rq)) q)) t (snd (get_request_id (Some (fst rq)) q))"
  have n1: "next_request_id ?q1 = (if ?l then get_local_request_id ?n else ?n)"
    by (simp add: get_request_id_Some)
  have "0 \<le> next_request_id ?q1" "next_request_id ?q1 < MIN_GLOBAL_ID"
    using assms n1 by (auto simp: get_local_request_id_eq MIN_GLOBAL_ID_eq)
  from generate_child_ids [OF this, of now "fst rq"] obtain cs q2 where
    c: "generate_child_request_ids now (fst rq) ?q1 = (cs, q2)"
      "(case cs of None \<Rightarrow> [] | Some l \<Rightarrow> l) = local_ids (next_request_id ?q1) (nat (get_num_child_requests (fst rq)))"
      "next_request_id q2 = (next_request_id ?q1 + int (nat (get_num_child_requests (fst rq)))) mod MIN_GLOBAL_ID"
      "request_queue q2 = request_queue ?q1" "rq_active q2 = rq_active ?q1"
    by blast
  let ?item = "\<lparr>req_id = fst (get_request_id (Some (fst rq)) q), req_request = Some (fst rq), child_req_ids = cs,
      is_canceled_request = False, req_query = snd rq\<rparr>"
  have one: "enqueue_one t now rq q = (req_id ?item, q2\<lparr>request_queue := request_queue q2 @ [?item]\<rparr>)"
    using c(1) by (simp add: enqueue_one_def split_beta)
  have q2: "request_queue q2 = request_queue q" "rq_active q2 = rq_active q" using c(4,5) by (simp_all add: get_request_id_Some)
  have "item_ids ?item = (if ?l then [] else [the (disagg_request_id (fst rq))]) @ local_ids ?n (local_cost (fst rq))"
    using c(2) n1 local_ids_Suc [OF assms] by (simp add: item_ids_def get_request_id_Some local_cost_def)
  moreover have "next_request_id q2 = (?n + int (local_cost (fst rq))) mod MIN_GLOBAL_ID"
    using c(3) n1 local_mod_add [of ?n "nat (get_num_child_requests (fst rq))"]
    by (simp only: local_cost_def if_True if_False split: if_split) simp
  ultimately show ?thesis
    using one q2 by (intro exI [of _ ?item] exI [of _ "q2\<lparr>request_queue := request_queue q2 @ [?item]\<rparr>"]) simp
qed


lemma distinct_split: "distinct (filter P xs) \<Longrightarrow> distinct (filter (\<lambda>x. \<not> P x) xs) \<Longrightarrow> distinct xs"
  by (induction xs) (auto split: if_splits)

lemma filter_none: "(\<And>x. x \<in> set xs \<Longrightarrow> \<not> P x) \<Longrightarrow> filter P xs = []"
  by simp

text \<open>
  Enqueueing a list of requests: the items in order, the local identifiers without gaps, and the
  disaggregation identifiers as they came.
\<close>

lemma enqueue_loop_items:
  assumes "0 \<le> next_request_id q" "next_request_id q < MIN_GLOBAL_ID"
    and "\<forall>rq \<in> set rqs. \<not> takes_local_id (fst rq) \<longrightarrow> MIN_GLOBAL_ID \<le> the (disagg_request_id (fst rq))"
  shows "\<exists>items q'. enqueue_loop t now rqs q = (map req_id items, q') \<and>
     request_queue q' = request_queue q @ items \<and>
     map req_request items = map (Some \<circ> fst) rqs \<and> map req_query items = map snd rqs \<and>
     (\<forall>item \<in> set items. \<not> is_canceled_request item) \<and>
     filter (\<lambda>i. i < MIN_GLOBAL_ID) (concat (map item_ids items)) =
       local_ids (next_request_id q) (\<Sum>rq\<leftarrow>rqs. local_cost (fst rq)) \<and>
     filter (\<lambda>i. \<not> i < MIN_GLOBAL_ID) (concat (map item_ids items)) =
       map (\<lambda>rq. the (disagg_request_id (fst rq))) (filter (\<lambda>rq. \<not> takes_local_id (fst rq)) rqs) \<and>
     map (\<lambda>item. length (item_ids item)) items = map (\<lambda>rq. Suc (nat (get_num_child_requests (fst rq)))) rqs \<and>
     next_request_id q' = (next_request_id q + int (\<Sum>rq\<leftarrow>rqs. local_cost (fst rq))) mod MIN_GLOBAL_ID \<and> rq_active q' = rq_active q"
  using assms
proof (induction rqs arbitrary: q)
  case Nil
  then show ?case by (intro exI [of _ "[]"]) (simp add: local_ids_def)
next
  case (Cons rq rqs)
  obtain item q1 where one: "enqueue_one t now rq q = (req_id item, q1)" "request_queue q1 = request_queue q @ [item]"
      "req_request item = Some (fst rq)" "req_query item = snd rq" "\<not> is_canceled_request item"
      "item_ids item = (if takes_local_id (fst rq) then [] else [the (disagg_request_id (fst rq))]) @
         local_ids (next_request_id q) (local_cost (fst rq))"
      "next_request_id q1 = (next_request_id q + int (local_cost (fst rq))) mod MIN_GLOBAL_ID" "rq_active q1 = rq_active q"
    using enqueue_one_item [OF Cons.prems(1,2)] by blast
  have "0 \<le> next_request_id q1" "next_request_id q1 < MIN_GLOBAL_ID"
    using one(7) by (simp_all add: MIN_GLOBAL_ID_eq)
  then obtain items q' where ih: "enqueue_loop t now rqs q1 = (map req_id items, q')"
      "request_queue q' = request_queue q1 @ items" "map req_request items = map (Some \<circ> fst) rqs"
      "map req_query items = map snd rqs" "\<forall>item \<in> set items. \<not> is_canceled_request item"
      "filter (\<lambda>i. i < MIN_GLOBAL_ID) (concat (map item_ids items)) =
         local_ids (next_request_id q1) (\<Sum>rq\<leftarrow>rqs. local_cost (fst rq))"
      "filter (\<lambda>i. \<not> i < MIN_GLOBAL_ID) (concat (map item_ids items)) =
         map (\<lambda>rq. the (disagg_request_id (fst rq))) (filter (\<lambda>rq. \<not> takes_local_id (fst rq)) rqs)"
      "map (\<lambda>item. length (item_ids item)) items = map (\<lambda>rq. Suc (nat (get_num_child_requests (fst rq)))) rqs"
      "next_request_id q' = (next_request_id q1 + int (\<Sum>rq\<leftarrow>rqs. local_cost (fst rq))) mod MIN_GLOBAL_ID" "rq_active q' = rq_active q1"
    using Cons.IH [of q1] Cons.prems(3) by auto
  let ?loc = "local_ids (next_request_id q) (local_cost (fst rq))"
  have loc: "filter (\<lambda>i. i < MIN_GLOBAL_ID) ?loc = ?loc" "filter (\<lambda>i. \<not> i < MIN_GLOBAL_ID) ?loc = []"
    using local_ids_range by (auto intro!: filter_True filter_none)
  have d: "\<not> takes_local_id (fst rq) \<Longrightarrow> \<not> the (disagg_request_id (fst rq)) < MIN_GLOBAL_ID"
    using Cons.prems(3) by auto
  have lt: "filter (\<lambda>i. i < MIN_GLOBAL_ID) (item_ids item) = ?loc"
    and ge: "filter (\<lambda>i. \<not> i < MIN_GLOBAL_ID) (item_ids item) =
      (if takes_local_id (fst rq) then [] else [the (disagg_request_id (fst rq))])"
    using one(6) loc d by (auto simp del: not_less)
  have len: "length (item_ids item) = Suc (nat (get_num_child_requests (fst rq)))"
    using one(6) by (simp add: local_ids_def local_cost_def)
  show ?case
  proof (intro exI conjI)
    show "enqueue_loop t now (rq # rqs) q = (map req_id (item # items), q')" using one(1) ih(1) by simp
    show "request_queue q' = request_queue q @ item # items" using one(2) ih(2) by simp
    show "filter (\<lambda>i. i < MIN_GLOBAL_ID) (concat (map item_ids (item # items))) =
        local_ids (next_request_id q) (\<Sum>rq\<leftarrow>rq # rqs. local_cost (fst rq))"
      using lt ih(6) one(7) by (simp add: local_ids_add)
    show "filter (\<lambda>i. \<not> i < MIN_GLOBAL_ID) (concat (map item_ids (item # items))) =
        map (\<lambda>rq. the (disagg_request_id (fst rq))) (filter (\<lambda>rq. \<not> takes_local_id (fst rq)) (rq # rqs))"
      using ge ih(7) by (simp del: not_less)
    show "next_request_id q' = (next_request_id q + int (\<Sum>rq\<leftarrow>rq # rqs. local_cost (fst rq))) mod MIN_GLOBAL_ID"
      using ih(9) one(7) mod_add_id [of "next_request_id q" "local_cost (fst rq)" "\<Sum>rq\<leftarrow>rqs. local_cost (fst rq)"] by simp
  qed (use one ih len in \<open>simp_all\<close>)
qed

lemma push_or_take: "push_bit n a OR take_bit n b = a * 2 ^ n + b mod 2 ^ n" for a b :: int
proof -
  have "push_bit n a OR take_bit n b = push_bit n a + take_bit n b"
    by (rule disjunctive_add [symmetric]) (auto simp: bit_push_bit_iff bit_take_bit_iff)
  then show ?thesis by (simp add: push_bit_eq_mult take_bit_eq_mod)
qed

lemma global_id_fields:
  fixes t m c :: int
  assumes "0 \<le> m" "m < 2 ^ 10"
  shows "push_bit 22 t OR push_bit 12 m OR (c AND (push_bit 12 1 - 1)) = t * 2 ^ 22 + m * 2 ^ 12 + c mod 2 ^ 12"
proof -
  let ?low = "m * 2 ^ 12 + c mod 2 ^ 12"
  have "push_bit 12 1 - 1 = (mask 12 :: int)" by (simp add: mask_eq_exp_minus_1)
  then have low: "push_bit 12 m OR (c AND (push_bit 12 1 - 1)) = ?low"
    using push_or_take [of 12 m c] by (simp only: take_bit_eq_mask)
  have "0 \<le> c mod 2 ^ 12" "c mod 2 ^ 12 < 2 ^ 12" by simp_all
  then have "?low mod 2 ^ 22 = ?low" using assms by (intro mod_pos_pos_trivial) auto
  then have "?low = take_bit 22 ?low" by (simp only: take_bit_eq_mod)
  then have "push_bit 22 t OR ?low = t * 2 ^ 22 + ?low"
    using push_or_take [of 22 t ?low] \<open>?low mod 2 ^ 22 = ?low\<close> by metis
  then show ?thesis using low by (simp only: or.assoc add.assoc)
qed

lemma global_id_value:
  assumes "0 \<le> t" "t < 2 ^ 41 - 2 ^ 20 - 1" "get_global_disagg_request_id m t c = (Inr i, c')"
  shows "0 \<le> m \<and> m < 2 ^ 10 \<and> c' = c + 1 \<and> i = t * 2 ^ 22 + m * 2 ^ 12 + c mod 2 ^ 12 + MIN_GLOBAL_ID"
proof -
  let ?g = "t * 2 ^ 22 + m * 2 ^ 12 + c mod 2 ^ 12"
  have m: "0 \<le> m" "m < 2 ^ 10" and c': "c' = c + 1"
    using assms(3) by (auto simp: get_global_disagg_request_id_def Let_def split: if_splits)
  have i: "i = ?g mod (2 ^ 63 - 1 - 2 ^ 42) + MIN_GLOBAL_ID"
    using assms(3) global_id_fields [OF m, of t c] m
    by (simp add: get_global_disagg_request_id_def Let_def MIN_GLOBAL_ID_eq split: if_splits)
  have "0 \<le> c mod 2 ^ 12" "c mod 2 ^ 12 < 2 ^ 12" by simp_all
  then have "0 \<le> ?g" "?g < 2 ^ 63 - 1 - 2 ^ 42" using assms(1,2) m by simp_all
  then show ?thesis using i m c' by (simp only: mod_pos_pos_trivial)
qed

lemma digit_unique:
  fixes a b n :: int
  assumes "a * n + b = a' * n + b'" "0 \<le> b" "b < n" "0 \<le> b'" "b' < n"
  shows "a = a' \<and> b = b'"
proof -
  have "(a * n + b) div n = a" "(a' * n + b') div n = a'" using assms(2-5) by simp_all
  then show ?thesis using assms(1) by simp
qed

lemma fields_unique:
  fixes t1 t2 m1 m2 x1 x2 :: int
  assumes "t1 * 2 ^ 22 + m1 * 2 ^ 12 + x1 = t2 * 2 ^ 22 + m2 * 2 ^ 12 + x2"
    and "0 \<le> m1" "m1 < 2 ^ 10" "0 \<le> m2" "m2 < 2 ^ 10" "0 \<le> x1" "x1 < 2 ^ 12" "0 \<le> x2" "x2 < 2 ^ 12"
  shows "t1 = t2 \<and> m1 = m2 \<and> x1 = x2"
proof -
  have "t1 = t2 \<and> m1 * 2 ^ 12 + x1 = m2 * 2 ^ 12 + x2"
    using assms by (intro digit_unique [of _ "2 ^ 22"]) (simp_all add: add.assoc)
  then show ?thesis using digit_unique [of m1 "2 ^ 12" x1 m2 x2] assms(6-9) by blast
qed

text \<open>
  The identifiers of disaggregated requests never collide with local ones, and two of them are equal only if
  they were made in the same millisecond by the same machine with counters that agree modulo 4096.
  The millisecond clock has to be below \<open>2\<^sup>4\<^sup>1 - 2\<^sup>2\<^sup>0 - 1\<close>, some 69 years.
\<close>

theorem disagg_request_ids_unique:
  assumes "0 \<le> t1" "t1 < 2 ^ 41 - 2 ^ 20 - 1" "0 \<le> t2" "t2 < 2 ^ 41 - 2 ^ 20 - 1"
    and "get_global_disagg_request_id m1 t1 c1 = (Inr i1, c1')" "get_global_disagg_request_id m2 t2 c2 = (Inr i2, c2')"
  shows "MIN_GLOBAL_ID \<le> i1 \<and> i1 < 2 ^ 63 - 1 \<and> get_local_request_id n \<noteq> i1 \<and>
     (i1 = i2 \<longleftrightarrow> t1 = t2 \<and> m1 = m2 \<and> c1 mod 4096 = c2 mod 4096)"
proof -
  obtain x1 x2 where x: "x1 = c1 mod 2 ^ 12" "x2 = c2 mod 2 ^ 12" by simp
  have xb: "0 \<le> x1" "x1 < 2 ^ 12" "0 \<le> x2" "x2 < 2 ^ 12" unfolding x by simp_all
  note v1 = global_id_value [OF assms(1,2,5), folded x(1)] and v2 = global_id_value [OF assms(3,4,6), folded x(2)]
  have "MIN_GLOBAL_ID \<le> i1" "i1 < 2 ^ 63 - 1" using v1 xb assms(1,2) by (simp_all add: MIN_GLOBAL_ID_eq)
  moreover have "get_local_request_id n < MIN_GLOBAL_ID" by (simp add: get_local_request_id_eq MIN_GLOBAL_ID_eq)
  moreover have "t1 = t2 \<and> m1 = m2 \<and> x1 = x2" if "i1 = i2"
    by (rule fields_unique) (use that v1 v2 xb in simp_all)
  then have "i1 = i2 \<longleftrightarrow> t1 = t2 \<and> m1 = m2 \<and> x1 = x2" using v1 v2 by auto
  ultimately show ?thesis unfolding x by simp
qed

theorem disagg_request_ids_unique_witness:
  "\<exists>i1 i2. get_global_disagg_request_id 3 5000 4100 = (Inr i1, 4101) \<and>
     get_global_disagg_request_id 3 5000 4 = (Inr i2, 5) \<and> i1 = i2 \<and> get_local_request_id 7 \<noteq> i1"
proof -
  have "get_global_disagg_request_id 3 5000 4100 = (Inr 4419018043396, 4101)"
    "get_global_disagg_request_id 3 5000 4 = (Inr 4419018043396, 5)" by code_simp+
  then show ?thesis
    using disagg_request_ids_unique [of 5000 5000 3 4100 "4419018043396" 4101 3 4 "4419018043396" 5 7] by simp
qed

text \<open>
  The life of a queue: the requests put so far, in order, and the identifiers that were given to them and to their
  children. What another thread puts while a fetch waits is a step of its own.
\<close>

inductive queue_history ::
  "executor_request_queue \<Rightarrow> (executor_request \<times> int list option) list \<Rightarrow> int list \<Rightarrow> bool" where
  qh_init: "0 \<le> max_batch \<Longrightarrow> max_batch < MIN_GLOBAL_ID \<Longrightarrow> queue_history (rq_init rank max_batch stats wait_ms) [] []"
| qh_enqueue: "queue_history q rqs ids \<Longrightarrow> enqueue_impl t now new q = Inr (req_ids, q') \<Longrightarrow>
    queue_history q' (rqs @ new) (ids @ concat (map item_ids (drop (length (request_queue q)) (request_queue q'))))"
| qh_cancel: "queue_history q rqs ids \<Longrightarrow> queue_history (enqueue_cancel_request i q) rqs ids"
| qh_control: "queue_history q rqs ids \<Longrightarrow> queue_history (enqueue_control_request q) rqs ids"
| qh_shutdown: "queue_history q rqs ids \<Longrightarrow> queue_history (enqueue_shutdown_request q) rqs ids"
| qh_fetch: "queue_history q rqs ids \<Longrightarrow> get_from_request_queue timeout None now clock (\<lambda>_. None) q = (items, q') \<Longrightarrow> queue_history q' rqs ids"
| qh_latency: "queue_history q rqs ids \<Longrightarrow> calculate_queue_latency items now q = (l, q') \<Longrightarrow> queue_history q' rqs ids"

definition global_ids :: "(executor_request \<times> int list option) list \<Rightarrow> int list" where
  "global_ids rqs = map (\<lambda>rq. the (disagg_request_id (fst rq))) (filter (\<lambda>rq. \<not> takes_local_id (fst rq)) rqs)"

definition local_total :: "(executor_request \<times> int list option) list \<Rightarrow> nat" where
  "local_total rqs = (\<Sum>rq\<leftarrow>rqs. local_cost (fst rq))"

lemma ids_append [simp]: "global_ids (xs @ ys) = global_ids xs @ global_ids ys" "local_total (xs @ ys) = local_total xs + local_total ys"
  by (simp_all add: global_ids_def local_total_def)

text \<open>The items of requests in the queue.\<close>

definition queued_ids :: "executor_request_queue \<Rightarrow> int list" where
  "queued_ids q = concat (map item_ids (filter (\<lambda>item. req_request item \<noteq> None) (request_queue q)))"

text \<open>
  The invariant: the local identifiers handed out are consecutive from where the counter started, the counter has moved
  past them, and the queue holds the last of the identifiers.
\<close>

definition queue_inv :: "executor_request_queue \<Rightarrow> (executor_request \<times> int list option) list \<Rightarrow> int list \<Rightarrow> int \<Rightarrow> bool" where
  "queue_inv q rqs ids n \<longleftrightarrow>
     next_request_id q = (n + int (local_total rqs)) mod MIN_GLOBAL_ID \<and>
     filter (\<lambda>i. i < MIN_GLOBAL_ID) ids = local_ids n (local_total rqs) \<and>
     filter (\<lambda>i. \<not> i < MIN_GLOBAL_ID) ids = global_ids rqs \<and>
     length ids = (\<Sum>rq\<leftarrow>rqs. Suc (nat (get_num_child_requests (fst rq)))) \<and> suffix (queued_ids q) ids"

lemma wait_loop_empty: "batch_wait_loop m d clock (\<lambda>_. None) i items [] = (items, [])"
  by (simp add: batch_wait_loop.simps [of m d clock _ i items])

lemma fetch_fields:
  "get_from_request_queue timeout None now clock (\<lambda>_. None) q = (items, q') \<Longrightarrow>
    next_request_id q' = next_request_id q \<and> request_queue q' = [] \<and> rq_active q' = rq_active q"
  by (auto simp: get_from_request_queue_def Let_def wait_loop_empty split: if_splits)

lemma latency_fields:
  "calculate_queue_latency items now q = (l, q') \<Longrightarrow>
    next_request_id q' = next_request_id q \<and> request_queue q' = request_queue q \<and> rq_active q' = rq_active q"
  by (auto simp: calculate_queue_latency_def Let_def split: if_splits prod.splits)

lemma put_item_fields [simp]:
  "next_request_id (put_item i c q) = next_request_id q" "queued_ids (put_item i c q) = queued_ids q" "rq_active (put_item i c q) = rq_active q"
  by (simp_all add: put_item_def queued_ids_def)

lemma enqueue_keeps_inv:
  assumes "queue_inv q rqs ids n" "enqueue_impl t now new q = Inr (req_ids, q')"
    and "\<forall>rq \<in> set new. \<not> takes_local_id (fst rq) \<longrightarrow> MIN_GLOBAL_ID \<le> the (disagg_request_id (fst rq))"
  shows "queue_inv q' (rqs @ new) (ids @ concat (map item_ids (drop (length (request_queue q)) (request_queue q')))) n"
proof -
  let ?n = "next_request_id q"
  have n: "?n = (n + int (local_total rqs)) mod MIN_GLOBAL_ID" using assms(1) by (simp add: queue_inv_def)
  then have "0 \<le> ?n" "?n < MIN_GLOBAL_ID" by (simp_all add: MIN_GLOBAL_ID_eq)
  from enqueue_loop_items [OF this assms(3), of t now] obtain items where
    it: "request_queue q' = request_queue q @ items" "map req_request items = map (Some \<circ> fst) new"
      "filter (\<lambda>i. i < MIN_GLOBAL_ID) (concat (map item_ids items)) = local_ids ?n (local_total new)"
      "filter (\<lambda>i. \<not> i < MIN_GLOBAL_ID) (concat (map item_ids items)) = global_ids new"
      "map (\<lambda>item. length (item_ids item)) items = map (\<lambda>rq. Suc (nat (get_num_child_requests (fst rq)))) new"
      "next_request_id q' = (?n + int (local_total new)) mod MIN_GLOBAL_ID"
    using assms(2) by (auto simp: enqueue_impl_def py_assert_eq_Inr local_total_def global_ids_def)
  have "req_request item \<in> set (map (Some \<circ> fst) new)" if "item \<in> set items" for item
    using that unfolding it(2) [symmetric] by simp
  then have "filter (\<lambda>item. req_request item \<noteq> None) items = items" by (intro filter_True) auto
  then have queued: "queued_ids q' = queued_ids q @ concat (map item_ids items)" by (simp add: queued_ids_def it(1))
  have count: "length (concat (map item_ids items)) = (\<Sum>rq\<leftarrow>new. Suc (nat (get_num_child_requests (fst rq))))"
    using arg_cong [OF it(5), of sum_list] by (simp add: length_concat o_def)
  have counter: "next_request_id q' = (n + int (local_total (rqs @ new))) mod MIN_GLOBAL_ID"
    using it(6) mod_add_id [of n "local_total rqs" "local_total new"] by (simp add: n)
  have new: "drop (length (request_queue q)) (request_queue q') = items" by (simp add: it(1))
  note inv = assms(1) [unfolded queue_inv_def]
  show ?thesis
    unfolding queue_inv_def new filter_append it(3,4) ids_append length_append queued
  proof (intro conjI)
    show "next_request_id q' = (n + int (local_total rqs + local_total new)) mod MIN_GLOBAL_ID" using counter by simp
    show "filter (\<lambda>i. i < MIN_GLOBAL_ID) ids @ local_ids ?n (local_total new) = local_ids n (local_total rqs + local_total new)"
      using inv by (simp add: local_ids_add)
    show "filter (\<lambda>i. \<not> i < MIN_GLOBAL_ID) ids @ global_ids new = global_ids rqs @ global_ids new" using inv by (simp only:)
    show "length ids + length (concat (map item_ids items)) = (\<Sum>rq\<leftarrow>rqs @ new. Suc (nat (get_num_child_requests (fst rq))))"
      using inv count by simp
    obtain xs where "ids = xs @ queued_ids q" using inv by (auto simp only: suffix_def)
    then show "suffix (queued_ids q @ concat (map item_ids items)) (ids @ concat (map item_ids items))" by (simp add: suffix_def)
  qed
qed

lemma queue_history_inv:
  "queue_history q rqs ids \<Longrightarrow> \<forall>rq \<in> set rqs. \<not> takes_local_id (fst rq) \<longrightarrow> MIN_GLOBAL_ID \<le> the (disagg_request_id (fst rq)) \<Longrightarrow>
    \<exists>n. queue_inv q rqs ids n"
proof (induction rule: queue_history.induct)
  case (qh_init b rank stats wait_ms)
  then show ?case by (intro exI [of _ b]) (simp add: queue_inv_def rq_init_def local_total_def global_ids_def local_ids_def queued_ids_def)
next
  case (qh_enqueue q rqs ids t now new req_ids q')
  then show ?case using enqueue_keeps_inv [of q rqs ids _ t now new req_ids q'] by auto
next
  case (qh_fetch q rqs ids timeout now clock items q')
  then show ?case using fetch_fields [of timeout now clock q items q'] by (auto simp: queue_inv_def queued_ids_def)
next
  case (qh_latency q rqs ids items now l q')
  then show ?case using latency_fields [of items now q l q'] by (auto simp: queue_inv_def queued_ids_def)
qed (auto simp: queue_inv_def enqueue_cancel_request_def enqueue_control_request_def enqueue_shutdown_request_def queued_ids_def put_item_def)

text \<open>
  C18. Over the whole life of a queue no identifier is given twice: whatever calls of \<open>enqueue\<close>, \<open>cancel\<close>, \<open>control\<close>, \<open>shutdown\<close> and
  fetches were made, and whatever mix of local and disaggregation identifiers was put, every request and every child has
  an identifier of its own, among all that were ever handed out, and so have those still in the queue. The
  disaggregation identifiers that come with requests have to be distinct and at least \<open>MIN_GLOBAL_ID\<close>, and no more
  than \<open>MIN_GLOBAL_ID\<close> local ones may have been taken. A call of \<open>enqueue\<close> succeeds exactly while the queue is open.
\<close>

theorem request_ids_unique:
  assumes "queue_history q rqs ids"
    and "\<forall>rq \<in> set rqs. \<not> takes_local_id (fst rq) \<longrightarrow> MIN_GLOBAL_ID \<le> the (disagg_request_id (fst rq))"
    and "distinct (global_ids rqs)" "int (local_total rqs) \<le> MIN_GLOBAL_ID"
  shows "distinct ids \<and> length ids = (\<Sum>rq\<leftarrow>rqs. Suc (nat (get_num_child_requests (fst rq)))) \<and>
     distinct (queued_ids q) \<and> set (queued_ids q) \<subseteq> set ids \<and>
     ((\<exists>res. enqueue_impl t now new q = Inr res) \<longleftrightarrow> rq_active q)"
proof -
  obtain n where inv: "queue_inv q rqs ids n" using queue_history_inv [OF assms(1,2)] ..
  have "distinct ids"
    using distinct_split [of "\<lambda>i. i < MIN_GLOBAL_ID" ids] inv assms(3) distinct_local_ids [OF assms(4), of n]
    by (simp add: queue_inv_def)
  moreover obtain xs where "ids = xs @ queued_ids q" using inv by (auto simp: queue_inv_def suffix_def)
  ultimately show ?thesis using inv by (auto simp: queue_inv_def enqueue_impl_def py_assert_def)
qed

abbreviation demo_executor_request :: "int option \<Rightarrow> int option \<Rightarrow> executor_request" where
  "demo_executor_request n d \<equiv> \<lparr>beam_width = 1, num_return_sequences = n, req_priority = 1 / 2, input_token_ids = [5, 6, 7],
     disagg_request_id = d, lora_config_task_id = None,
     py_attributes = [(''py_scheduling_params'', SchedulingParams \<lparr>attention_dp_rank = Some 0, attention_dp_relax = False\<rparr>)]\<rparr>"

theorem request_ids_unique_witness:
  "\<exists>q1 q2 ids1 ids2. enqueue_impl 0 (\<lambda>_. 0) [(demo_executor_request (Some 3) None, None)] (rq_init 0 8 True 0) = Inr (ids1, q1) \<and>
     enqueue_impl 0 (\<lambda>_. 0) [(demo_executor_request None (Some 4398046511200), None), (demo_executor_request None None, None)] q1 = Inr (ids2, q2) \<and>
     distinct (queued_ids q2)"
proof -
  let ?a = "[(demo_executor_request (Some 3) None, None :: int list option)]"
  let ?b = "[(demo_executor_request None (Some 4398046511200), None :: int list option), (demo_executor_request None None, None)]"
  obtain ids1 q1 where one: "enqueue_impl 0 (\<lambda>_. 0) ?a (rq_init 0 8 True 0) = Inr (ids1, q1)" "rq_active q1"
    by (simp add: enqueue_impl_def rq_init_def py_assert_def enqueue_one_def get_request_id_def generate_child_request_ids_def
        get_num_child_requests_def stamp_def numeral_2_eq_2)
  then obtain ids2 q2 where two: "enqueue_impl 0 (\<lambda>_. 0) ?b q1 = Inr (ids2, q2)"
    by (cases "enqueue_loop 0 (\<lambda>_. 0) ?b q1") (simp add: enqueue_impl_def py_assert_def)
  have "queue_history (rq_init 0 8 True 0) [] []" by (rule qh_init) (simp_all add: MIN_GLOBAL_ID_eq)
  from qh_enqueue [OF qh_enqueue [OF this one(1)] two] obtain ids where "queue_history q2 (([] @ ?a) @ ?b) ids" by blast
  then have "distinct (queued_ids q2)"
    using request_ids_unique [of q2 "([] @ ?a) @ ?b" ids]
    by (simp add: global_ids_def local_total_def takes_local_id_def local_cost_def get_num_child_requests_def MIN_GLOBAL_ID_eq)
  then show ?thesis using one two by blast
qed

section \<open>Special items and attributes\<close>

definition stops_intake :: "request_item \<Rightarrow> bool" where
  "stops_intake item = (is_shutdown_request item \<or> \<not> is_canceled_request item \<and> is_control_request item)"

lemma handle_special_exact:
  "handle_special_queue_items rank items st =
     (filter is_normal_request (takeWhile (\<lambda>x. \<not> stops_intake x) items),
      let st' = st\<lparr>canceled_req_ids := canceled_req_ids st @
            map req_id (filter is_canceled_request (takeWhile (\<lambda>x. \<not> stops_intake x) items))\<rparr>
      in case dropWhile (\<lambda>x. \<not> stops_intake x) items of
           [] \<Rightarrow> st'
         | x # rest \<Rightarrow>
             if is_shutdown_request x then st'\<lparr>is_shutdown := True\<rparr>
             else st'\<lparr>control_requests := control_requests st @ [x],
                      request_accumulated := request_accumulated st @ (if rank = 0 then rest else [])\<rparr>)"
proof (induction items arbitrary: st)
  case (Cons x xs)
  note ih = Cons.IH [unfolded Let_def]
  consider "stops_intake x" | "\<not> stops_intake x" "is_canceled_request x" | "\<not> stops_intake x" "\<not> is_canceled_request x"
    by blast
  then show ?case
  proof cases
    case 1
    then show ?thesis by (auto simp: stops_intake_def Let_def)
  next
    case 2
    then have "\<not> is_shutdown_request x" "\<not> is_normal_request x" by (auto simp: stops_intake_def is_normal_request_def)
    then show ?thesis using 2 by (simp add: ih Let_def del: dropWhile_eq_Nil_conv split: list.split)
  next
    case 3
    then have "\<not> is_shutdown_request x" "\<not> is_control_request x" "is_normal_request x"
      by (auto simp: stops_intake_def is_normal_request_def)
    then show ?thesis using 3 by (simp add: ih Let_def)
  qed
qed simp

lemma attach_map: "attach_py_objects_to_requests items objs = map (fold attach_one objs) items"
  unfolding attach_py_objects_to_requests_def
  by (induction objs arbitrary: items) (simp_all add: o_def)

lemma attach_id [simp]: "req_id (attach_one obj item) = req_id item"
  by (simp add: attach_one_def split: option.splits)

lemma collect_step_other: "req_id x \<noteq> i \<Longrightarrow> map_of (collect_step name x d) i = map_of d i"
  by (simp add: collect_step_def update_conv' split: option.splits)

lemma collect_fold_other:
  "i \<notin> req_id ` set items \<Longrightarrow> map_of (fold (collect_step name) items d) i = map_of d i"
  by (induction items arbitrary: d) (auto simp: collect_step_other)

lemma collect_fold_lookup:
  assumes "distinct (map req_id items)" "x \<in> set items" "is_normal_request x" "req_request x = Some r"
  shows "map_of (fold (collect_step name) items []) (req_id x) = getattr_or_None r name"
proof -
  obtain pre post where split: "items = pre @ x # post" using assms(2) split_list by metis
  let ?d = "fold (collect_step name) pre []"
  have "req_id x \<notin> req_id ` set pre" "req_id x \<notin> req_id ` set post" using assms(1) split by auto
  then have "map_of (fold (collect_step name) items []) (req_id x) = map_of (collect_step name x ?d) (req_id x)"
    and "map_of ?d (req_id x) = None"
    using split collect_fold_other [of "req_id x" pre name "[]"] by (simp_all add: collect_fold_other)
  then show ?thesis
    using assms(3,4) by (simp add: collect_step_def update_conv' split: option.splits)
qed

lemma attach_names:
  assumes "distinct (map req_id items)" "x \<in> set items" "is_normal_request x" "req_request x = Some r"
    and "req_request y = Some s" "req_id y = req_id x"
  shows "\<exists>s'. fold attach_one (List.map_filter (collect_py_objects_from_requests items) names) y =
       y\<lparr>req_request := Some s'\<rparr> \<and> s' = s\<lparr>py_attributes := py_attributes s'\<rparr> \<and>
     (\<forall>n. getattr_or_None s' n =
       (if n \<in> set names \<and> getattr_or_None r n \<noteq> None then getattr_or_None r n else getattr_or_None s n))"
  using assms(5,6)
proof (induction names arbitrary: y s)
  case Nil
  then show ?case by (intro exI [of _ s]) (simp add: map_filter_simps)
next
  case (Cons name names)
  let ?d = "fold (collect_step name) items []"
  note look = collect_fold_lookup [OF assms(1-4), of name]
  show ?case
  proof (cases "getattr_or_None r name")
    case None
    have skip: "attach_one (name, ?d) y = y" using look None Cons.prems by (simp add: attach_one_def)
    have "fold attach_one (List.map_filter (collect_py_objects_from_requests items) (name # names)) y =
        fold attach_one (List.map_filter (collect_py_objects_from_requests items) names) y"
      using skip by (simp add: map_filter_simps collect_py_objects_from_requests_def Let_def)
    then show ?thesis using Cons.IH [OF Cons.prems] None by auto
  next
    case (Some v)
    let ?s = "setattr name v s" and ?y = "y\<lparr>req_request := Some (setattr name v s)\<rparr>"
    have "?d \<noteq> []" using look Some by auto
    then have "fold attach_one (List.map_filter (collect_py_objects_from_requests items) (name # names)) y =
        fold attach_one (List.map_filter (collect_py_objects_from_requests items) names) ?y"
      using look Some Cons.prems by (simp add: map_filter_simps collect_py_objects_from_requests_def Let_def attach_one_def)
    moreover obtain s' where "fold attach_one (List.map_filter (collect_py_objects_from_requests items) names) ?y =
        ?y\<lparr>req_request := Some s'\<rparr>" "s' = ?s\<lparr>py_attributes := py_attributes s'\<rparr>"
        "\<And>n. getattr_or_None s' n =
          (if n \<in> set names \<and> getattr_or_None r n \<noteq> None then getattr_or_None r n else getattr_or_None ?s n)"
      using Cons.IH [of ?y ?s] Cons.prems(2) by auto
    moreover have "getattr_or_None ?s n = (if n = name then Some v else getattr_or_None s n)" for n
      by (simp add: setattr_def getattr_or_None_def update_conv')
    ultimately show ?thesis using Some by (intro exI [of _ s']) (auto simp: setattr_def)
  qed
qed

text \<open>What arrives on another rank: the request object is rebuilt without its Python attributes.\<close>

definition without_attributes :: "request_item \<Rightarrow> request_item" where
  "without_attributes item = item\<lparr>req_request := map_option (\<lambda>r. r\<lparr>py_attributes := []\<rparr>) (req_request item)\<rparr>"

text \<open>
  The Python attributes survive the way to the other ranks: when the objects collected on rank 0 are attached
  to the requests that arrive without them, every normal request has the listed attributes it had
  on rank 0, with the same values and no others, and is otherwise unchanged. In particular all ranks see the
  same scheduling parameters.
\<close>

theorem py_objects_round_trip:
  assumes "distinct (map req_id items)" "i < length items" "is_normal_request (items ! i)" "req_request (items ! i) = Some r"
  shows "\<exists>item r'. item = attach_py_objects_to_requests (map without_attributes items) (collect_py_objects items) ! i \<and>
     item = (items ! i)\<lparr>req_request := Some r'\<rparr> \<and> r' = r\<lparr>py_attributes := py_attributes r'\<rparr> \<and>
     (\<forall>n. getattr_or_None r' n = (if n \<in> set py_attribute_names then getattr_or_None r n else None)) \<and>
     py_scheduling_params item = py_scheduling_params (items ! i)"
proof -
  let ?x = "items ! i" and ?y = "without_attributes (items ! i)" and ?s = "r\<lparr>py_attributes := []\<rparr>"
  have "?x \<in> set items" using assms(2) by simp
  then obtain r' where r': "fold attach_one (collect_py_objects items) ?y = ?y\<lparr>req_request := Some r'\<rparr>"
      "r' = ?s\<lparr>py_attributes := py_attributes r'\<rparr>"
      "\<And>n. getattr_or_None r' n = (if n \<in> set py_attribute_names \<and> getattr_or_None r n \<noteq> None
         then getattr_or_None r n else getattr_or_None ?s n)"
    using attach_names [OF assms(1) _ assms(3,4), of ?y ?s py_attribute_names] assms(4)
    by (auto simp: collect_py_objects_def without_attributes_def)
  have attrs: "getattr_or_None r' n = (if n \<in> set py_attribute_names then getattr_or_None r n else None)" for n
    using r'(3) by (simp add: getattr_or_None_def)
  have "''py_scheduling_params'' \<in> set py_attribute_names" by (simp add: py_attribute_names_def)
  then have "py_scheduling_params (?x\<lparr>req_request := Some r'\<rparr>) = py_scheduling_params ?x"
    using assms(4) attrs by (simp add: py_scheduling_params_def)
  moreover have "attach_py_objects_to_requests (map without_attributes items) (collect_py_objects items) ! i =
      ?x\<lparr>req_request := Some r'\<rparr>"
    using assms(2) r'(1) by (simp add: attach_map without_attributes_def)
  moreover have "r' = r\<lparr>py_attributes := py_attributes r'\<rparr>" using r'(2) by simp
  ultimately show ?thesis
    using attrs by (intro exI [of _ "?x\<lparr>req_request := Some r'\<rparr>"] exI [of _ r']) simp
qed


theorem py_objects_round_trip_witness:
  "py_scheduling_params (attach_py_objects_to_requests (map without_attributes
       [\<lparr>req_id = 4, req_request = Some (demo_executor_request None None), child_req_ids = None, is_canceled_request = False, req_query = None\<rparr>])
     (collect_py_objects
       [\<lparr>req_id = 4, req_request = Some (demo_executor_request None None), child_req_ids = None, is_canceled_request = False, req_query = None\<rparr>]) ! 0) =
   Some \<lparr>attention_dp_rank = Some 0, attention_dp_relax = False\<rparr>"
  using py_objects_round_trip [of
      "[\<lparr>req_id = 4, req_request = Some (demo_executor_request None None), child_req_ids = None, is_canceled_request = False, req_query = None\<rparr>]"
      0 "demo_executor_request None None"]
  by (auto simp: is_normal_request_def is_shutdown_request_def is_control_request_def SHUTDOWN_REQUEST_ID_def
      CONTROL_REQUEST_ID_def py_scheduling_params_def getattr_or_None_def)

section \<open>What a fetch returns\<close>

lemma batch_wait_loop_arrivals:
  "\<exists>k. batch_wait_loop m deadline clock arrival i items [] = (items @ map (\<lambda>j. the (arrival (i + j))) [0..<k], []) \<and>
     (\<forall>j < k. arrival (i + j) \<noteq> None \<and> clock (i + j) < deadline) \<and>
     int (length items + k) \<le> max (int (length items)) m \<and>
     (int (length items + k) < m \<longrightarrow> arrival (i + k) = None \<or> deadline \<le> clock (i + k))"
proof (induction "nat (m - int (length items))" arbitrary: i items)
  case 0
  then show ?case by (intro exI [of _ 0]) (simp add: batch_wait_loop.simps)
next
  case (Suc n)
  have lt: "int (length items) < m" using Suc.hyps(2) by simp
  show ?case
  proof (cases "deadline \<le> clock i \<or> arrival i = None")
    case True
    then show ?thesis by (intro exI [of _ 0]) (auto simp: batch_wait_loop.simps [of m deadline clock arrival i items "[]"])
  next
    case False
    then obtain x where x: "arrival i = Some x" "clock i < deadline" by auto
    have "n = nat (m - int (length (items @ [x])))" using Suc.hyps(2) by simp
    from Suc.hyps(1) [OF this, of "Suc i"] obtain k where
      k: "batch_wait_loop m deadline clock arrival (Suc i) (items @ [x]) [] =
          (items @ [x] @ map (\<lambda>j. the (arrival (Suc i + j))) [0..<k], [])"
        "\<forall>j < k. arrival (Suc i + j) \<noteq> None \<and> clock (Suc i + j) < deadline"
        "int (length (items @ [x]) + k) \<le> max (int (length (items @ [x]))) m"
        "int (length (items @ [x]) + k) < m \<longrightarrow> arrival (Suc i + k) = None \<or> deadline \<le> clock (Suc i + k)"
      by auto
    have step: "batch_wait_loop m deadline clock arrival i items [] =
        batch_wait_loop m deadline clock arrival (Suc i) (items @ [x]) []"
      using x lt by (simp add: batch_wait_loop.simps [of m deadline clock arrival i items "[]"])
    have "map (\<lambda>j. the (arrival (i + j))) [0..<Suc k] = x # map (\<lambda>j. the (arrival (Suc i + j))) [0..<k]"
      using x(1) by (simp add: upt_conv_Cons map_Suc_upt [symmetric] del: upt_Suc)
    moreover have "\<forall>j < Suc k. arrival (i + j) \<noteq> None \<and> clock (i + j) < deadline"
      using x k(2) by (auto simp: less_Suc_eq_0_disj)
    ultimately show ?thesis using step k(1,3,4) lt by (intro exI [of _ "Suc k"]) auto
  qed
qed

text \<open>
  \<open>get_from_request_queue\<close> empties the queue and loses nothing: it returns what was queued, in order, followed
  by the items that arrive while it waits. It waits for more only until the batch is full, the
  deadline has passed or nothing comes any more.
\<close>

lemma get_from_request_queue_exact:
  assumes "get_from_request_queue timeout first now clock arrival q = (items, q')"
  shows "q' = q\<lparr>request_queue := []\<rparr> \<and>
     (\<exists>head k. items = head @ map (\<lambda>j. the (arrival j)) [0..<k] \<and>
        head = (if request_queue q = [] \<and> (timeout = None \<or> 0 < the timeout)
                then (case first of Some x \<Rightarrow> [x] | None \<Rightarrow> []) else request_queue q) \<and>
        (\<forall>j < k. arrival j \<noteq> None \<and> clock j < now + batch_wait_timeout_ms q / 1000) \<and>
        (batch_wait_timeout_ms q = 0 \<longrightarrow> k = 0) \<and>
        int (length items) \<le> max (int (length head)) (rq_max_batch_size q) \<and>
        (batch_wait_timeout_ms q \<noteq> 0 \<and> int (length items) < rq_max_batch_size q \<longrightarrow>
           arrival k = None \<or> now + batch_wait_timeout_ms q / 1000 \<le> clock k))"
proof -
  let ?head = "if request_queue q = [] \<and> (timeout = None \<or> 0 < the timeout)
                then (case first of Some x \<Rightarrow> [x] | None \<Rightarrow> []) else request_queue q"
  let ?d = "now + batch_wait_timeout_ms q / 1000"
  have head: "(if request_queue q = [] \<and> (case timeout of None \<Rightarrow> True | Some s \<Rightarrow> s > 0)
                   then (case first of Some x \<Rightarrow> [x] | None \<Rightarrow> []) else request_queue q) = ?head"
    by (cases timeout) auto
  show ?thesis
  proof (cases "batch_wait_timeout_ms q = 0 \<or> rq_max_batch_size q \<le> int (length ?head)")
    case True
    then have "items = ?head \<and> q' = q\<lparr>request_queue := []\<rparr>"
      using assms unfolding get_from_request_queue_def head Let_def by (auto split: if_splits)
    then show ?thesis using True by (intro conjI exI [of _ ?head] exI [of _ 0]) auto
  next
    case False
    obtain k where k: "batch_wait_loop (rq_max_batch_size q) ?d clock arrival 0 ?head [] =
          (?head @ map (\<lambda>j. the (arrival j)) [0..<k], [])"
        "\<forall>j < k. arrival j \<noteq> None \<and> clock j < ?d"
        "int (length ?head + k) \<le> max (int (length ?head)) (rq_max_batch_size q)"
        "int (length ?head + k) < rq_max_batch_size q \<longrightarrow> arrival k = None \<or> ?d \<le> clock k"
      using batch_wait_loop_arrivals [of "rq_max_batch_size q" ?d clock arrival 0 ?head] by auto
    have "items = ?head @ map (\<lambda>j. the (arrival j)) [0..<k] \<and> q' = q\<lparr>request_queue := []\<rparr>"
      using assms False k(1) unfolding get_from_request_queue_def head Let_def by auto
    then show ?thesis using k False by (intro conjI exI [of _ ?head] exI [of _ k]) simp_all
  qed
qed

end
