(* ===== verification/WaitingQueue.thy ===== *)
theory WaitingQueue
  imports RequestQueue "HOL-Library.Product_Lexorder" "HOL-Library.Multiset"
begin

text \<open>
  The queues of requests that wait to be scheduled,
  \<^verbatim>\<open>_torch/pyexecutor/scheduler/waiting_queue.py\<close>: first come first served, and by priority.

  A float priority is a rational number: the code only negates and compares it. The heap of
  \<open>PriorityWaitingQueue\<close> is kept as the sorted list of its entries: entries never have equal
  \<open>(neg_priority, counter)\<close> keys, so the operations of \<open>heapq\<close> (\<open>heappush\<close>, \<open>heappop\<close>, \<open>heap[0]\<close>,
  \<open>heapify\<close>) and \<open>sorted\<close> cannot be told apart from the ones on that list. The log messages are
  left out.
\<close>

section \<open>Definitions\<close>

definition DEFAULT_REQUEST_PRIORITY :: rat where
  "DEFAULT_REQUEST_PRIORITY = 1 / 2"

subsection \<open>First come, first served\<close>

definition fcfs_add_request :: "request_item \<Rightarrow> request_item list \<Rightarrow> request_item list" where
  "fcfs_add_request r q = q @ [r]"

definition fcfs_add_requests :: "request_item list \<Rightarrow> request_item list \<Rightarrow> request_item list" where
  "fcfs_add_requests rs q = q @ rs"

definition fcfs_pop_request :: "request_item list \<Rightarrow> (request_item \<times> request_item list) result" where
  "fcfs_pop_request q = (case q of [] \<Rightarrow> Inl IndexError | r # q' \<Rightarrow> Inr (r, q'))"

definition fcfs_peek_request :: "request_item list \<Rightarrow> request_item result" where
  "fcfs_peek_request q = (case q of [] \<Rightarrow> Inl IndexError | r # _ \<Rightarrow> Inr r)"

definition fcfs_prepend_request :: "request_item \<Rightarrow> request_item list \<Rightarrow> request_item list" where
  "fcfs_prepend_request r q = r # q"

text \<open>\<open>extendleft(reversed(...))\<close> pushes to the left one by one.\<close>

definition fcfs_prepend_requests :: "request_item list \<Rightarrow> request_item list \<Rightarrow> request_item list" where
  "fcfs_prepend_requests rs q = fold (\<lambda>r q. r # q) (rev rs) q"

definition fcfs_remove_by_ids :: "int list \<Rightarrow> request_item list \<Rightarrow> request_item list" where
  "fcfs_remove_by_ids ids q = filter (\<lambda>r. req_id r \<notin> set ids) q"

subsection \<open>By priority\<close>

type_synonym pq_entry = "rat \<times> int \<times> request_item"

record priority_queue =
  pq_heap :: "pq_entry list"
  pq_counter :: int
  pq_prepend_counter :: int

definition entry_key :: "pq_entry \<Rightarrow> rat \<times> int" where
  "entry_key e = (fst e, fst (snd e))"

definition entry_item :: "pq_entry \<Rightarrow> request_item" where
  "entry_item e = snd (snd e)"

definition pq_init :: priority_queue where
  "pq_init = \<lparr>pq_heap = [], pq_counter = 0, pq_prepend_counter = -1\<rparr>"

definition get_priority :: "request_item \<Rightarrow> rat" where
  "get_priority r = (case req_request r of Some q \<Rightarrow> req_priority q | None \<Rightarrow> DEFAULT_REQUEST_PRIORITY)"

definition heappush :: "pq_entry list \<Rightarrow> pq_entry \<Rightarrow> pq_entry list" where
  "heappush h e = insort_key entry_key e h"

definition pq_push :: "request_item \<Rightarrow> priority_queue \<Rightarrow> priority_queue" where
  "pq_push r q = q\<lparr>pq_heap := heappush (pq_heap q) (- get_priority r, pq_counter q, r),
                   pq_counter := pq_counter q + 1\<rparr>"

definition pq_push_front :: "request_item \<Rightarrow> priority_queue \<Rightarrow> priority_queue" where
  "pq_push_front r q = q\<lparr>pq_heap := heappush (pq_heap q) (- get_priority r, pq_prepend_counter q, r),
                         pq_prepend_counter := pq_prepend_counter q - 1\<rparr>"

definition pq_add_request :: "request_item \<Rightarrow> priority_queue \<Rightarrow> priority_queue" where
  "pq_add_request r q = pq_push r q"

definition pq_add_requests :: "request_item list \<Rightarrow> priority_queue \<Rightarrow> priority_queue" where
  "pq_add_requests rs q = fold pq_push rs q"

definition pq_pop_request :: "priority_queue \<Rightarrow> (request_item \<times> priority_queue) result" where
  "pq_pop_request q =
     (case pq_heap q of [] \<Rightarrow> Inl IndexError | e # h \<Rightarrow> Inr (entry_item e, q\<lparr>pq_heap := h\<rparr>))"

definition pq_peek_request :: "priority_queue \<Rightarrow> request_item result" where
  "pq_peek_request q = (case pq_heap q of [] \<Rightarrow> Inl IndexError | e # _ \<Rightarrow> Inr (entry_item e))"

definition pq_prepend_request :: "request_item \<Rightarrow> priority_queue \<Rightarrow> priority_queue" where
  "pq_prepend_request r q = pq_push_front r q"

definition pq_prepend_requests :: "request_item list \<Rightarrow> priority_queue \<Rightarrow> priority_queue" where
  "pq_prepend_requests rs q = fold pq_push_front (rev rs) q"

definition pq_remove_by_ids :: "int list \<Rightarrow> priority_queue \<Rightarrow> priority_queue" where
  "pq_remove_by_ids ids q =
     q\<lparr>pq_heap := sort_key entry_key (filter (\<lambda>e. req_id (entry_item e) \<notin> set ids) (pq_heap q))\<rparr>"

definition pq_iter :: "priority_queue \<Rightarrow> request_item list" where
  "pq_iter q = map entry_item (sort_key entry_key (pq_heap q))"

subsection \<open>Choice of the policy\<close>

datatype waiting_queue_policy = FCFS | PRIORITY

datatype waiting_queue = FCFSWaitingQueue "request_item list" | PriorityWaitingQueue priority_queue

definition create_waiting_queue :: "waiting_queue_policy \<Rightarrow> waiting_queue" where
  "create_waiting_queue p =
     (case p of FCFS \<Rightarrow> FCFSWaitingQueue [] | PRIORITY \<Rightarrow> PriorityWaitingQueue pq_init)"

text \<open>The operations of the abstract class \<open>WaitingQueue\<close>, dispatched on the policy.\<close>

fun wq_add_request :: "request_item \<Rightarrow> waiting_queue \<Rightarrow> waiting_queue" where
  "wq_add_request r (FCFSWaitingQueue q) = FCFSWaitingQueue (fcfs_add_request r q)"
| "wq_add_request r (PriorityWaitingQueue q) = PriorityWaitingQueue (pq_add_request r q)"

fun wq_add_requests :: "request_item list \<Rightarrow> waiting_queue \<Rightarrow> waiting_queue" where
  "wq_add_requests rs (FCFSWaitingQueue q) = FCFSWaitingQueue (fcfs_add_requests rs q)"
| "wq_add_requests rs (PriorityWaitingQueue q) = PriorityWaitingQueue (pq_add_requests rs q)"

fun wq_pop_request :: "waiting_queue \<Rightarrow> (request_item \<times> waiting_queue) result" where
  "wq_pop_request (FCFSWaitingQueue q) =
     rbind (fcfs_pop_request q) (\<lambda>(r, q'). Inr (r, FCFSWaitingQueue q'))"
| "wq_pop_request (PriorityWaitingQueue q) =
     rbind (pq_pop_request q) (\<lambda>(r, q'). Inr (r, PriorityWaitingQueue q'))"

fun wq_peek_request :: "waiting_queue \<Rightarrow> request_item result" where
  "wq_peek_request (FCFSWaitingQueue q) = fcfs_peek_request q"
| "wq_peek_request (PriorityWaitingQueue q) = pq_peek_request q"

fun wq_prepend_request :: "request_item \<Rightarrow> waiting_queue \<Rightarrow> waiting_queue" where
  "wq_prepend_request r (FCFSWaitingQueue q) = FCFSWaitingQueue (fcfs_prepend_request r q)"
| "wq_prepend_request r (PriorityWaitingQueue q) = PriorityWaitingQueue (pq_prepend_request r q)"

fun wq_prepend_requests :: "request_item list \<Rightarrow> waiting_queue \<Rightarrow> waiting_queue" where
  "wq_prepend_requests rs (FCFSWaitingQueue q) = FCFSWaitingQueue (fcfs_prepend_requests rs q)"
| "wq_prepend_requests rs (PriorityWaitingQueue q) = PriorityWaitingQueue (pq_prepend_requests rs q)"

fun wq_remove_by_ids :: "int list \<Rightarrow> waiting_queue \<Rightarrow> waiting_queue" where
  "wq_remove_by_ids ids (FCFSWaitingQueue q) = FCFSWaitingQueue (fcfs_remove_by_ids ids q)"
| "wq_remove_by_ids ids (PriorityWaitingQueue q) = PriorityWaitingQueue (pq_remove_by_ids ids q)"

fun wq_len :: "waiting_queue \<Rightarrow> nat" where
  "wq_len (FCFSWaitingQueue q) = length q"
| "wq_len (PriorityWaitingQueue q) = length (pq_heap q)"

fun wq_iter :: "waiting_queue \<Rightarrow> request_item list" where
  "wq_iter (FCFSWaitingQueue q) = q"
| "wq_iter (PriorityWaitingQueue q) = pq_iter q"

subsection \<open>Taking requests to be scheduled\<close>

text \<open>
  \<^verbatim>\<open>_torch/pyexecutor/request_utils.py\<close>. \<open>can_process_attention_dp_request\<close> counts the request on
  its target rank in the list it is given, so the list is returned with the answer.
\<close>

definition can_process_attention_dp_request ::
  "request_item \<Rightarrow> nat list \<Rightarrow> nat \<Rightarrow> (bool \<times> nat list) result" where
  "can_process_attention_dp_request r ranks max_active =
     (case py_scheduling_params r of
        None \<Rightarrow> Inr (True, ranks)
      | Some p \<Rightarrow>
          (case attention_dp_rank p of
             None \<Rightarrow> Inr (True, ranks)
           | Some k \<Rightarrow>
               if attention_dp_relax p then Inr (True, ranks)
               else rbind (py_index (length ranks) k) (\<lambda>i.
                 if ranks ! i < max_active then Inr (True, ranks[i := ranks ! i + 1])
                 else Inr (False, ranks))))"

definition num_children :: "request_item \<Rightarrow> int" where
  "num_children r = (case child_req_ids r of None \<Rightarrow> 0 | Some cs \<Rightarrow> int (length cs))"

lemma wq_pop_len: "wq_pop_request q = Inr (r, q') \<Longrightarrow> wq_len q' < wq_len q"
  by (cases q) (auto simp: fcfs_pop_request_def pq_pop_request_def split: list.splits)

function gfq_loop ::
  "bool \<Rightarrow> nat \<Rightarrow> int \<Rightarrow> int \<Rightarrow> request_item list \<Rightarrow> request_item list \<Rightarrow> nat list \<Rightarrow> waiting_queue
     \<Rightarrow> (request_item list \<times> request_item list \<times> nat list \<times> waiting_queue) result" where
  "gfq_loop dp max_active max_count req_count taken pending ranks q =
     (if req_count < max_count \<and> 0 < wq_len q
      then rbind (wq_peek_request q) (\<lambda>r.
           if req_count + 1 + num_children r > max_count then Inr (taken, pending, ranks, q)
           else rbind (wq_pop_request q) (\<lambda>(r, q').
             rbind (if dp then can_process_attention_dp_request r ranks max_active
                    else Inr (True, ranks)) (\<lambda>(can_process, ranks').
               if can_process
               then gfq_loop dp max_active max_count (req_count + 1 + num_children r) (taken @ [r])
                      pending ranks' q'
               else gfq_loop dp max_active max_count req_count taken (pending @ [r]) ranks' q')))
      else Inr (taken, pending, ranks, q))"
  by pat_completeness auto
termination
  by (relation "measure (\<lambda>(_, _, _, _, _, _, _, q). wq_len q)") (auto dest: wq_pop_len)

declare gfq_loop.simps [simp del]

definition get_from_waiting_queue ::
  "waiting_queue \<Rightarrow> int \<Rightarrow> bool \<Rightarrow> nat \<Rightarrow> nat list \<Rightarrow> (request_item list \<times> waiting_queue) result" where
  "get_from_waiting_queue q max_count dp max_active ranks =
     (if max_count \<le> 0 then Inr ([], q)
      else rbind (gfq_loop dp max_active max_count 0 [] [] ranks q) (\<lambda>(taken, pending, _, q').
           Inr (taken, wq_prepend_requests pending q')))"

definition derive_attention_dp_per_rank_request_cap :: "int \<Rightarrow> int option \<Rightarrow> int \<Rightarrow> int" where
  "derive_attention_dp_per_rank_request_cap base_cap max_num_tokens draft =
     (case max_num_tokens of
        None \<Rightarrow> base_cap
      | Some m \<Rightarrow> min base_cap (m div (1 + max draft 0)))"

section \<open>Stable sorting\<close>

lemma sort_key_unique:
  assumes "sorted (map f xs)" "mset xs = mset ys"
    and "\<And>k. filter (\<lambda>x. f x = k) xs = filter (\<lambda>x. f x = k) ys"
  shows "sort_key f ys = xs"
  using assms by (intro properties_for_sort_key) (auto simp: eq_commute)

lemma sort_key_sort_append [simp]: "sort_key f (sort_key f xs @ ys) = sort_key f (xs @ ys)"
  by (rule sort_key_unique) (auto simp: sort_key_stable)

lemma sort_key_append_sort [simp]: "sort_key f (xs @ sort_key f ys) = sort_key f (xs @ ys)"
  by (rule sort_key_unique) (auto simp: sort_key_stable)

lemma sort_key_idem: "sorted (map f xs) \<Longrightarrow> sort_key f xs = xs"
  by (rule sort_key_unique) auto

lemma insort_key_last:
  "\<forall>y \<in> set xs. f y < f x \<Longrightarrow> insort_key f x xs = xs @ [x]"
  by (induction xs) auto

lemma append_in_shuffles: "xs @ ys \<in> shuffles xs ys"
  by (induction xs) (auto intro: Cons_in_shuffles_leftI)

lemma shuffles_append_right: "zs \<in> shuffles xs ys \<Longrightarrow> zs @ rest \<in> shuffles xs (ys @ rest)"
proof (induction xs ys arbitrary: zs rule: shuffles.induct)
  case (2 xs)
  then show ?case using append_in_shuffles by simp
next
  case (3 x xs y ys)
  then consider zs' where "zs = x # zs'" "zs' \<in> shuffles xs (y # ys)"
    | zs' where "zs = y # zs'" "zs' \<in> shuffles (x # xs) ys" by auto
  then show ?case
  proof cases
    case 1
    then show ?thesis using "3.IH"(1) [of zs'] by (simp add: Cons_in_shuffles_leftI)
  next
    case 2
    then show ?thesis using "3.IH"(2) [of zs'] by (simp add: Cons_in_shuffles_rightI)
  qed
qed simp

section \<open>The contract of a waiting queue\<close>

text \<open>
  The contract is stated on the order in which requests come out. With \<open>rank q\<close> the negated
  priority the queue goes by, adding sorts the new request in behind its equals and prepending in
  front of them: \<open>sort_key\<close> is stable.
\<close>

locale waiting_queue_laws =
  fixes rank :: "'q \<Rightarrow> request_item \<Rightarrow> rat"
    and add :: "request_item \<Rightarrow> 'q \<Rightarrow> 'q"
    and prepend :: "request_item \<Rightarrow> 'q \<Rightarrow> 'q"
    and pop :: "'q \<Rightarrow> (request_item \<times> 'q) result"
    and remove :: "int list \<Rightarrow> 'q \<Rightarrow> 'q"
    and items :: "'q \<Rightarrow> request_item list"
    and invar :: "'q \<Rightarrow> bool"
  assumes items_sorted: "invar q \<Longrightarrow> sorted (map (rank q) (items q))"
    and add_law: "invar q \<Longrightarrow> invar (add r q) \<and> rank (add r q) = rank q \<and>
      items (add r q) = sort_key (rank q) (items q @ [r])"
    and prepend_law: "invar q \<Longrightarrow> invar (prepend r q) \<and> rank (prepend r q) = rank q \<and>
      items (prepend r q) = sort_key (rank q) (r # items q)"
    and remove_law: "invar q \<Longrightarrow> invar (remove ids q) \<and> rank (remove ids q) = rank q \<and>
      items (remove ids q) = filter (\<lambda>r. req_id r \<notin> set ids) (items q)"
    and pop_law: "invar q \<Longrightarrow>
      (case items q of [] \<Rightarrow> pop q = Inl IndexError
       | r # rs \<Rightarrow> \<exists>q'. pop q = Inr (r, q') \<and> invar q' \<and> rank q' = rank q \<and> items q' = rs)"
begin

lemma add_all:
  "invar q \<Longrightarrow> invar (fold add rs q) \<and> rank (fold add rs q) = rank q \<and>
     items (fold add rs q) = sort_key (rank q) (items q @ rs)"
proof (induction rs arbitrary: q)
  case Nil
  then show ?case by (simp add: sort_key_idem items_sorted)
next
  case (Cons r rs)
  have "sort_key (rank q) (sort_key (rank q) (items q @ [r]) @ rs) = sort_key (rank q) (items q @ r # rs)"
    using sort_key_sort_append [of "rank q" "items q @ [r]" rs] by simp
  then show ?case using Cons.IH [of "add r q"] Cons.prems by (simp add: add_law)
qed

lemma prepend_all:
  "invar q \<Longrightarrow> invar (fold prepend (rev rs) q) \<and> rank (fold prepend (rev rs) q) = rank q \<and>
     items (fold prepend (rev rs) q) = sort_key (rank q) (rs @ items q)"
proof (induction rs)
  case Nil
  then show ?case by (simp add: sort_key_idem items_sorted)
next
  case (Cons r rs)
  let ?q = "fold prepend (rev rs) q"
  have "sort_key (rank q) (r # sort_key (rank q) (rs @ items q)) = sort_key (rank q) (r # rs @ items q)"
    using sort_key_append_sort [of "rank q" "[r]" "rs @ items q"] by simp
  then show ?case using Cons prepend_law [of ?q r] by simp
qed

text \<open>A request that was popped and could not be scheduled gets its place back.\<close>

lemma pop_prepend:
  assumes "invar q" "pop q = Inr (r, q')"
  shows "items (prepend r q') = items q"
proof -
  have "items q = r # items q' \<and> invar q' \<and> rank q' = rank q"
    using pop_law [OF assms(1)] assms(2) by (auto split: list.splits)
  then show ?thesis
    using prepend_law [of q' r] sort_key_idem [OF items_sorted [OF assms(1)]] by simp
qed

end

section \<open>The queues keep the contract\<close>

definition pq_inv :: "priority_queue \<Rightarrow> bool" where
  "pq_inv q \<longleftrightarrow>
     sorted_wrt (<) (map entry_key (pq_heap q)) \<and> pq_prepend_counter q < pq_counter q \<and>
     (\<forall>e \<in> set (pq_heap q). fst e = - get_priority (entry_item e) \<and>
        pq_prepend_counter q < fst (snd e) \<and> fst (snd e) < pq_counter q)"

fun wq_inv :: "waiting_queue \<Rightarrow> bool" where
  "wq_inv (FCFSWaitingQueue q) = True"
| "wq_inv (PriorityWaitingQueue q) = pq_inv q"

fun wq_rank :: "waiting_queue \<Rightarrow> request_item \<Rightarrow> rat" where
  "wq_rank (FCFSWaitingQueue q) = (\<lambda>r. 0)"
| "wq_rank (PriorityWaitingQueue q) = (\<lambda>r. - get_priority r)"

lemma keys_sorted: "pq_inv q \<Longrightarrow> sorted (map entry_key (pq_heap q))"
  using strict_sorted_iff by (auto simp: pq_inv_def)

lemma pq_iter_heap: "pq_inv q \<Longrightarrow> pq_iter q = map entry_item (pq_heap q)"
  by (simp add: pq_iter_def sort_key_idem keys_sorted)

lemma pq_ranks:
  assumes "pq_inv q"
  shows "map (\<lambda>r. - get_priority r) (pq_iter q) = map fst (pq_heap q)"
  using assms by (auto simp: pq_iter_heap pq_inv_def)

lemma pq_iter_sorted:
  assumes "pq_inv q" shows "sorted (map (\<lambda>r. - get_priority r) (pq_iter q))"
proof -
  have "sorted_wrt (\<lambda>e e'. entry_key e \<le> entry_key e') (pq_heap q)"
    using keys_sorted [OF assms] by (simp add: sorted_map)
  then have "sorted_wrt (\<lambda>e e'. fst e \<le> fst e') (pq_heap q)"
    by (rule sorted_wrt_mono_rel [rotated]) (auto simp: entry_key_def)
  then show ?thesis by (simp add: pq_ranks [OF assms] sorted_map)
qed

lemma strict_sorted_insort:
  fixes f :: "'a \<Rightarrow> 'k::linorder"
  assumes "sorted_wrt (<) (map f xs)" "f x \<notin> f ` set xs"
  shows "sorted_wrt (<) (map f (insort_key f x xs))"
  using assms by (auto simp: strict_sorted_iff sorted_insort_key distinct_map distinct_insort
      set_insort_key inj_on_insert)

lemma pq_push_inv: "pq_inv q \<Longrightarrow> pq_inv (pq_push r q)"
  unfolding pq_inv_def pq_push_def heappush_def
  by (auto simp: set_insort_key entry_key_def entry_item_def intro!: strict_sorted_insort)

lemma pq_push_front_inv: "pq_inv q \<Longrightarrow> pq_inv (pq_push_front r q)"
  unfolding pq_inv_def pq_push_front_def heappush_def
  by (auto simp: set_insort_key entry_key_def entry_item_def intro!: strict_sorted_insort)

lemma filter_entry:
  "pq_inv q \<Longrightarrow> filter (\<lambda>r. - get_priority r = k) (map entry_item (pq_heap q)) =
     map entry_item (filter (\<lambda>e. fst e = k) (pq_heap q))"
  by (auto simp: pq_inv_def filter_map o_def intro!: arg_cong [of _ _ "map entry_item"] filter_cong)

lemma pq_push_iter:
  assumes inv: "pq_inv q"
  shows "pq_iter (pq_push r q) = sort_key (\<lambda>r. - get_priority r) (pq_iter q @ [r])"
proof (rule sort_key_unique [symmetric])
  let ?e = "(- get_priority r, pq_counter q, r)" and ?rank = "\<lambda>r. - get_priority r"
  have heap: "pq_heap (pq_push r q) = insort_key entry_key ?e (pq_heap q)"
    by (simp add: pq_push_def heappush_def)
  show "sorted (map ?rank (pq_iter (pq_push r q)))"
    by (rule pq_iter_sorted) (rule pq_push_inv [OF inv])
  show "mset (pq_iter (pq_push r q)) = mset (pq_iter q @ [r])"
    by (simp add: pq_iter_heap pq_push_inv inv heap entry_item_def)
  fix k
  have "filter (\<lambda>e. fst e = k) (insort_key entry_key ?e (pq_heap q)) =
      filter (\<lambda>e. fst e = k) (pq_heap q) @ (if ?rank r = k then [?e] else [])"
    using inv by (auto simp: filter_insort keys_sorted filter_insort_triv entry_key_def pq_inv_def
        intro!: insort_key_last dest: bspec)
  then show "filter (\<lambda>x. ?rank x = k) (pq_iter (pq_push r q)) = filter (\<lambda>x. ?rank x = k) (pq_iter q @ [r])"
    using filter_entry [OF pq_push_inv [OF inv], of k r] filter_entry [OF inv, of k]
    by (simp add: pq_iter_heap pq_push_inv inv heap entry_item_def)
qed

lemma pq_push_front_iter:
  assumes inv: "pq_inv q"
  shows "pq_iter (pq_push_front r q) = sort_key (\<lambda>r. - get_priority r) (r # pq_iter q)"
proof (rule sort_key_unique [symmetric])
  let ?e = "(- get_priority r, pq_prepend_counter q, r)" and ?rank = "\<lambda>r. - get_priority r"
  have heap: "pq_heap (pq_push_front r q) = insort_key entry_key ?e (pq_heap q)"
    by (simp add: pq_push_front_def heappush_def)
  show "sorted (map ?rank (pq_iter (pq_push_front r q)))"
    by (rule pq_iter_sorted) (rule pq_push_front_inv [OF inv])
  show "mset (pq_iter (pq_push_front r q)) = mset (r # pq_iter q)"
    by (simp add: pq_iter_heap pq_push_front_inv inv heap entry_item_def)
  fix k
  have "filter (\<lambda>e. fst e = k) (insort_key entry_key ?e (pq_heap q)) =
      (if ?rank r = k then [?e] else []) @ filter (\<lambda>e. fst e = k) (pq_heap q)"
    using inv by (auto simp: filter_insort keys_sorted filter_insort_triv entry_key_def pq_inv_def
        intro!: insort_is_Cons dest: bspec)
  then show "filter (\<lambda>x. ?rank x = k) (pq_iter (pq_push_front r q)) = filter (\<lambda>x. ?rank x = k) (r # pq_iter q)"
    using filter_entry [OF pq_push_front_inv [OF inv], of k r] filter_entry [OF inv, of k]
    by (simp add: pq_iter_heap pq_push_front_inv inv heap entry_item_def)
qed

lemma pq_remove:
  assumes "pq_inv q"
  shows "pq_inv (pq_remove_by_ids ids q) \<and>
     pq_iter (pq_remove_by_ids ids q) = filter (\<lambda>r. req_id r \<notin> set ids) (pq_iter q)"
proof -
  let ?h = "filter (\<lambda>e. req_id (entry_item e) \<notin> set ids) (pq_heap q)"
  have "sorted_wrt (<) (map entry_key ?h)"
    using assms by (simp add: pq_inv_def sorted_wrt_map sorted_wrt_filter)
  moreover from this have "sort_key entry_key ?h = ?h"
    by (intro sort_key_idem) (simp add: strict_sorted_iff)
  ultimately have "pq_inv (pq_remove_by_ids ids q)" "pq_heap (pq_remove_by_ids ids q) = ?h"
    using assms by (auto simp: pq_inv_def pq_remove_by_ids_def)
  then show ?thesis using assms by (simp add: pq_iter_heap filter_map o_def)
qed

lemma pq_pop:
  assumes "pq_inv q"
  shows "case pq_iter q of [] \<Rightarrow> pq_pop_request q = Inl IndexError
     | r # rs \<Rightarrow> \<exists>q'. pq_pop_request q = Inr (r, q') \<and> pq_inv q' \<and> pq_iter q' = rs"
proof (cases "pq_heap q")
  case Nil
  then show ?thesis using assms by (simp add: pq_iter_heap pq_pop_request_def)
next
  case (Cons e h)
  then have "pq_inv (q\<lparr>pq_heap := h\<rparr>)" using assms by (simp add: pq_inv_def)
  then show ?thesis using assms Cons by (simp add: pq_iter_heap pq_pop_request_def)
qed

interpretation wq: waiting_queue_laws wq_rank wq_add_request wq_prepend_request wq_pop_request
  wq_remove_by_ids wq_iter wq_inv
proof
  fix q r ids
  assume inv: "wq_inv q"
  have const: "sort_key (\<lambda>_. 0 :: rat) xs = xs" for xs :: "request_item list"
    by (rule sort_key_idem) (simp add: sorted_wrt_iff_nth_less)
  show "sorted (map (wq_rank q) (wq_iter q))"
    using inv pq_iter_sorted by (cases q) (auto simp: sorted_wrt_iff_nth_less)
  show "wq_inv (wq_add_request r q) \<and> wq_rank (wq_add_request r q) = wq_rank q \<and>
      wq_iter (wq_add_request r q) = sort_key (wq_rank q) (wq_iter q @ [r])"
    using inv by (cases q) (simp_all add: fcfs_add_request_def pq_add_request_def
        pq_push_inv pq_push_iter const)
  show "wq_inv (wq_prepend_request r q) \<and> wq_rank (wq_prepend_request r q) = wq_rank q \<and>
      wq_iter (wq_prepend_request r q) = sort_key (wq_rank q) (r # wq_iter q)"
    using inv by (cases q) (simp_all add: fcfs_prepend_request_def pq_prepend_request_def
        pq_push_front_inv pq_push_front_iter const)
  show "wq_inv (wq_remove_by_ids ids q) \<and> wq_rank (wq_remove_by_ids ids q) = wq_rank q \<and>
      wq_iter (wq_remove_by_ids ids q) = filter (\<lambda>r. req_id r \<notin> set ids) (wq_iter q)"
    using inv pq_remove by (cases q) (simp_all add: fcfs_remove_by_ids_def)
  show "case wq_iter q of [] \<Rightarrow> wq_pop_request q = Inl IndexError
      | r # rs \<Rightarrow> \<exists>q'. wq_pop_request q = Inr (r, q') \<and> wq_inv q' \<and> wq_rank q' = wq_rank q \<and> wq_iter q' = rs"
  proof (cases q)
    case (FCFSWaitingQueue q)
    then show ?thesis by (auto simp: fcfs_pop_request_def split: list.splits)
  next
    case (PriorityWaitingQueue q)
    then show ?thesis using pq_pop [of q] inv by (cases "pq_iter q") auto
  qed
qed

section \<open>Taking requests\<close>

lemma prepend_requests_law:
  "wq_inv q \<Longrightarrow> wq_inv (wq_prepend_requests rs q) \<and>
     wq_iter (wq_prepend_requests rs q) = sort_key (wq_rank q) (rs @ wq_iter q)"
proof -
  have "wq_prepend_requests rs q = fold wq_prepend_request (rev rs) q"
  proof (cases q)
    case (FCFSWaitingQueue q)
    have "fold wq_prepend_request xs (FCFSWaitingQueue q) = FCFSWaitingQueue (fold Cons xs q)" for xs q
      by (induction xs arbitrary: q) (simp_all add: fcfs_prepend_request_def)
    then show ?thesis using FCFSWaitingQueue by (simp add: fcfs_prepend_requests_def)
  next
    case (PriorityWaitingQueue q)
    have "fold wq_prepend_request xs (PriorityWaitingQueue q) = PriorityWaitingQueue (fold pq_push_front xs q)"
      for xs q
      by (induction xs arbitrary: q) (simp_all add: pq_prepend_request_def)
    then show ?thesis using PriorityWaitingQueue by (simp add: pq_prepend_requests_def)
  qed
  then show "wq_inv q \<Longrightarrow> ?thesis" using wq.prepend_all by simp
qed

lemma add_requests_law:
  "wq_inv q \<Longrightarrow> wq_inv (wq_add_requests rs q) \<and>
     wq_iter (wq_add_requests rs q) = sort_key (wq_rank q) (wq_iter q @ rs)"
proof -
  have "wq_add_requests rs q = fold wq_add_request rs q"
  proof (cases q)
    case (FCFSWaitingQueue q)
    have "fold wq_add_request xs (FCFSWaitingQueue q) = FCFSWaitingQueue (q @ xs)" for xs q
      by (induction xs arbitrary: q) (simp_all add: fcfs_add_request_def)
    then show ?thesis using FCFSWaitingQueue by (simp add: fcfs_add_requests_def)
  next
    case (PriorityWaitingQueue q)
    have "fold wq_add_request xs (PriorityWaitingQueue q) = PriorityWaitingQueue (fold pq_push xs q)" for xs q
      by (induction xs arbitrary: q) (simp_all add: pq_add_request_def)
    then show ?thesis using PriorityWaitingQueue by (simp add: pq_add_requests_def)
  qed
  then show "wq_inv q \<Longrightarrow> ?thesis" using wq.add_all by simp
qed

lemma wq_len_iter: "wq_len q = length (wq_iter q)"
  by (cases q) (simp_all add: pq_iter_def)

lemma wq_peek_iter:
  "wq_inv q \<Longrightarrow> wq_peek_request q = (case wq_iter q of [] \<Rightarrow> Inl IndexError | r # _ \<Rightarrow> Inr r)"
  by (cases q) (auto simp: fcfs_peek_request_def pq_peek_request_def pq_iter_heap split: list.splits)

text \<open>The number of requests that a list of queue items stands for.\<close>

abbreviation weight :: "request_item list \<Rightarrow> int" where
  "weight rs \<equiv> (\<Sum>r\<leftarrow>rs. 1 + num_children r)"

text \<open>
  \<open>pinned k r\<close>: the request has to run on rank \<open>k\<close>. The loop counts exactly the pinned requests.
\<close>

definition pinned :: "nat \<Rightarrow> request_item \<Rightarrow> bool" where
  "pinned k r = (py_scheduling_params r = Some \<lparr>attention_dp_rank = Some (int k), attention_dp_relax = False\<rparr>)"

definition rank_ok :: "nat \<Rightarrow> request_item \<Rightarrow> bool" where
  "rank_ok n r = (case py_scheduling_params r of
     None \<Rightarrow> True
   | Some p \<Rightarrow> (case attention_dp_rank p of None \<Rightarrow> True | Some k \<Rightarrow> 0 \<le> k \<and> k < int n))"

lemma sched_cases:
  obtains "py_scheduling_params r = None"
  | b where "py_scheduling_params r = Some \<lparr>attention_dp_rank = None, attention_dp_relax = b\<rparr>"
  | k where "py_scheduling_params r = Some \<lparr>attention_dp_rank = Some k, attention_dp_relax = True\<rparr>"
  | k where "py_scheduling_params r = Some \<lparr>attention_dp_rank = Some k, attention_dp_relax = False\<rparr>"
proof (cases "py_scheduling_params r")
  case (Some p)
  obtain k b where "p = \<lparr>attention_dp_rank = k, attention_dp_relax = b\<rparr>" by (cases p) simp
  then show thesis using Some that by (cases k; cases b) auto
qed (use that in blast)

lemma can_process_result:
  assumes "rank_ok (length ranks) r"
  shows "\<exists>ok ranks'. can_process_attention_dp_request r ranks m = Inr (ok, ranks') \<and>
     length ranks' = length ranks \<and>
     (\<forall>k < length ranks. ranks' ! k = ranks ! k + (if ok \<and> pinned k r then 1 else 0)) \<and>
     (ok \<longleftrightarrow> (\<forall>k. pinned k r \<longrightarrow> ranks ! k < m))"
proof (cases r rule: sched_cases)
  case (4 k)
  then obtain n where "k = int n" "n < length ranks"
    using assms by (auto simp: rank_ok_def dest!: zero_le_imp_eq_int)
  then show ?thesis
    using 4 by (auto simp: can_process_attention_dp_request_def pinned_def nth_list_update)
qed (auto simp: can_process_attention_dp_request_def pinned_def)

text \<open>What one run of the loop does, from any intermediate state.\<close>

definition gfq_post where
  "gfq_post dp m max_count req_count taken pending ranks q res \<longleftrightarrow>
     (\<exists>tk pd ranks' q' front. res = Inr (taken @ tk, pending @ pd, ranks', q') \<and> wq_inv q' \<and>
        wq_rank q' = wq_rank q \<and> wq_iter q = front @ wq_iter q' \<and> front \<in> shuffles tk pd \<and>
        sorted (map (wq_rank q) (pending @ pd @ wq_iter q')) \<and>
        req_count + weight tk \<le> max_count \<and> (\<not> dp \<longrightarrow> pd = []) \<and>
        length ranks' = length ranks \<and>
        (dp \<longrightarrow> (\<forall>k < length ranks. ranks' ! k = ranks ! k + length (filter (pinned k) tk) \<and>
                   (ranks ! k \<le> m \<longrightarrow> ranks' ! k \<le> m))))"

lemma gfq_stop:
  assumes "wq_inv q" "sorted (map (wq_rank q) (pending @ wq_iter q))" "req_count \<le> max_count"
  shows "gfq_post dp m max_count req_count taken pending ranks q (Inr (taken, pending, ranks, q))"
  using assms unfolding gfq_post_def by (intro exI [of _ "[]"] exI [of _ ranks] exI [of _ q]) auto

lemma gfq_take:
  assumes "gfq_post dp m max_count (req_count + 1 + num_children r) (taken @ [r]) pending ranks1 q1 res"
    and "wq_iter q = r # wq_iter q1" "wq_rank q1 = wq_rank q"
    and "length ranks1 = length ranks"
    and "dp \<Longrightarrow> \<forall>k < length ranks. ranks1 ! k = ranks ! k + (if pinned k r then 1 else 0)"
    and "dp \<Longrightarrow> \<forall>k. pinned k r \<longrightarrow> ranks ! k < m"
  shows "gfq_post dp m max_count req_count taken pending ranks q res"
proof -
  obtain tk pd ranks' q' front where res: "res = Inr ((taken @ [r]) @ tk, pending @ pd, ranks', q')"
      "wq_inv q'" "wq_rank q' = wq_rank q1" "wq_iter q1 = front @ wq_iter q'" "front \<in> shuffles tk pd"
      "sorted (map (wq_rank q1) (pending @ pd @ wq_iter q'))"
      "req_count + 1 + num_children r + weight tk \<le> max_count" "\<not> dp \<longrightarrow> pd = []"
      "length ranks' = length ranks1"
    and cnt: "dp \<Longrightarrow> \<forall>k < length ranks1. ranks' ! k = ranks1 ! k + length (filter (pinned k) tk) \<and>
                   (ranks1 ! k \<le> m \<longrightarrow> ranks' ! k \<le> m)"
    using assms(1) unfolding gfq_post_def by blast
  have shuffle: "r # front \<in> shuffles (r # tk) pd" using res(5) by (simp add: Cons_in_shuffles_leftI)
  have count: "ranks' ! k = ranks ! k + length (filter (pinned k) (r # tk)) \<and>
      (ranks ! k \<le> m \<longrightarrow> ranks' ! k \<le> m)" if "dp" "k < length ranks" for k
  proof -
    have fin: "ranks' ! k = ranks1 ! k + length (filter (pinned k) tk) \<and> (ranks1 ! k \<le> m \<longrightarrow> ranks' ! k \<le> m)"
      using spec [OF cnt [OF that(1)], of k] that(2) unfolding assms(4) by blast
    have now: "ranks1 ! k = ranks ! k + (if pinned k r then 1 else 0)" "pinned k r \<longrightarrow> ranks ! k < m"
      using assms(5,6) [OF that(1)] that(2) by simp_all
    have "ranks ! k \<le> m \<longrightarrow> ranks' ! k \<le> m" using fin now by (cases "pinned k r") (auto simp only: if_True if_False)
    moreover have "ranks' ! k = ranks ! k + length (filter (pinned k) (r # tk))"
      using conjunct1 [OF fin] now(1) by simp
    ultimately show ?thesis by blast
  qed
  show ?thesis
    unfolding gfq_post_def
  proof (intro exI conjI)
    show "res = Inr (taken @ (r # tk), pending @ pd, ranks', q')" using res(1) by simp
    show "wq_iter q = (r # front) @ wq_iter q'" using res(4) assms(2) by simp
    show "req_count + weight (r # tk) \<le> max_count" using res(7) by simp
    show "dp \<longrightarrow> (\<forall>k < length ranks. ranks' ! k = ranks ! k + length (filter (pinned k) (r # tk)) \<and>
        (ranks ! k \<le> m \<longrightarrow> ranks' ! k \<le> m))"
      using count by blast
  qed (use shuffle res assms(3,4) in simp_all)
qed

lemma gfq_defer:
  assumes "gfq_post dp m max_count req_count taken (pending @ [r]) ranks q1 res"
    and "wq_iter q = r # wq_iter q1" "wq_rank q1 = wq_rank q" "dp"
  shows "gfq_post dp m max_count req_count taken pending ranks q res"
proof -
  obtain tk pd ranks' q' front where res: "res = Inr (taken @ tk, (pending @ [r]) @ pd, ranks', q')"
      "wq_inv q'" "wq_rank q' = wq_rank q1" "wq_iter q1 = front @ wq_iter q'" "front \<in> shuffles tk pd"
      "sorted (map (wq_rank q1) ((pending @ [r]) @ pd @ wq_iter q'))"
      "req_count + weight tk \<le> max_count" "length ranks' = length ranks"
      "\<forall>k < length ranks. ranks' ! k = ranks ! k + length (filter (pinned k) tk) \<and>
                   (ranks ! k \<le> m \<longrightarrow> ranks' ! k \<le> m)"
    using assms(1,4) unfolding gfq_post_def by blast
  have "r # front \<in> shuffles tk (r # pd)" using res(5) by (simp add: Cons_in_shuffles_rightI)
  then show ?thesis
    unfolding gfq_post_def
  proof (intro exI conjI)
    show "res = Inr (taken @ tk, pending @ (r # pd), ranks', q')" using res(1) by simp
    show "wq_iter q = (r # front) @ wq_iter q'" using res(4) assms(2) by simp
    show "dp \<longrightarrow> (\<forall>k < length ranks. ranks' ! k = ranks ! k + length (filter (pinned k) tk) \<and>
        (ranks ! k \<le> m \<longrightarrow> ranks' ! k \<le> m))"
      using res(9) by blast
  qed (use res assms(3,4) in simp_all)
qed

lemma gfq_loop_post:
  assumes "wq_inv q" "sorted (map (wq_rank q) (pending @ wq_iter q))" "req_count \<le> max_count"
    and "\<forall>r \<in> set (wq_iter q). rank_ok (length ranks) r"
  shows "gfq_post dp m max_count req_count taken pending ranks q
     (gfq_loop dp m max_count req_count taken pending ranks q)"
  using assms
proof (induction "wq_iter q" arbitrary: q req_count taken pending ranks)
  case Nil
  then show ?case using gfq_stop [of q] by (simp add: gfq_loop.simps wq_len_iter)
next
  case (Cons r rs)
  have iter: "wq_iter q = r # rs" using Cons.hyps(2) by simp
  have peek: "wq_peek_request q = Inr r" using wq_peek_iter [OF Cons.prems(1)] iter by simp
  obtain q1 where pop: "wq_pop_request q = Inr (r, q1)" and q1: "wq_inv q1" "wq_rank q1 = wq_rank q" "wq_iter q1 = rs"
    using wq.pop_law [OF Cons.prems(1)] iter by auto
  show ?case
  proof (cases "req_count < max_count \<and> req_count + 1 + num_children r \<le> max_count")
    case False
    then show ?thesis
      using gfq_stop [OF Cons.prems(1-3)] peek pop by (auto simp: gfq_loop.simps [of dp m] wq_len_iter iter)
  next
    case room: True
    obtain ok ranks1 where can: "(if dp then can_process_attention_dp_request r ranks m else Inr (True, ranks))
          = Inr (ok, ranks1)" "length ranks1 = length ranks" "\<not> dp \<Longrightarrow> ok"
        "dp \<Longrightarrow> \<forall>k < length ranks. ranks1 ! k = ranks ! k + (if ok \<and> pinned k r then 1 else 0)"
        "dp \<Longrightarrow> ok \<longleftrightarrow> (\<forall>k. pinned k r \<longrightarrow> ranks ! k < m)"
      using can_process_result [of ranks r m] Cons.prems(4) iter by (cases dp) auto
    have step: "gfq_loop dp m max_count req_count taken pending ranks q =
        (if ok then gfq_loop dp m max_count (req_count + 1 + num_children r) (taken @ [r]) pending ranks1 q1
         else gfq_loop dp m max_count req_count taken (pending @ [r]) ranks1 q1)"
      using room peek pop can(1) by (simp add: gfq_loop.simps [of dp m _ _ _ _ _ q] wq_len_iter iter)
    have sub: "sorted (map (wq_rank q1) (pending @ wq_iter q1))"
        "sorted (map (wq_rank q1) ((pending @ [r]) @ wq_iter q1))"
        "\<forall>r \<in> set (wq_iter q1). rank_ok (length ranks1) r"
      using Cons.prems(2,4) iter q1 can(2) by (auto simp: sorted_append)
    show ?thesis
    proof (cases ok)
      case True
      then show ?thesis
        using Cons.hyps(1) [OF q1(3) [symmetric] q1(1) sub(1) _ sub(3),
            of "req_count + 1 + num_children r" "taken @ [r]"] room step can iter q1
        by (intro gfq_take [of dp m max_count req_count r taken pending ranks1 q1]) auto
    next
      case False
      then have "dp" using can(3) by blast
      moreover from this False have "ranks1 = ranks" using can(2,4) by (intro nth_equalityI) auto
      ultimately show ?thesis
        using Cons.hyps(1) [OF q1(3) [symmetric] q1(1) sub(2) _ sub(3), of req_count taken] room step iter q1 False
        by (intro gfq_defer [of dp m max_count req_count taken pending r ranks q1]) auto
    qed
  qed
qed

lemma create_add:
  "wq_inv (wq_add_requests rs (create_waiting_queue p)) \<and>
   wq_iter (wq_add_requests rs (create_waiting_queue p)) = sort_key (wq_rank (create_waiting_queue p)) rs"
  using add_requests_law [of "create_waiting_queue p" rs]
  by (cases p) (simp_all add: create_waiting_queue_def pq_inv_def pq_init_def pq_iter_def)

section \<open>Properties\<close>

text \<open>
  C37. The priority queue serves by priority and, among equals, first come first served: after
  any sequence of requests was added, iterating gives the stable sort of the arrivals by descending
  priority, and the FCFS queue gives the arrivals themselves.
\<close>

theorem waiting_queue_service_order:
  "wq_iter (wq_add_requests rs (create_waiting_queue PRIORITY)) = sort_key (\<lambda>r. - get_priority r) rs \<and>
   wq_iter (wq_add_requests rs (create_waiting_queue FCFS)) = rs"
  using create_add [of rs PRIORITY] create_add [of rs FCFS]
  by (simp add: create_waiting_queue_def fcfs_add_requests_def)

lemma get_from_waiting_queue_post:
  assumes "wq_inv q" "\<forall>r \<in> set (wq_iter q). rank_ok (length ranks) r" "0 < n"
    and "\<forall>a \<in> set ranks. a \<le> m"
  shows "\<exists>taken q'. get_from_waiting_queue q n dp m ranks = Inr (taken, q') \<and> wq_inv q' \<and>
     wq_iter q \<in> shuffles taken (wq_iter q') \<and> weight taken \<le> n \<and>
     (dp \<longrightarrow> (\<forall>k < length ranks. ranks ! k + length (filter (pinned k) taken) \<le> m))"
proof -
  have sorted: "sorted (map (wq_rank q) ([] @ wq_iter q))" using wq.items_sorted [OF assms(1)] by simp
  obtain tk pd ranks' q1 front where res: "gfq_loop dp m n 0 [] [] ranks q = Inr (tk, pd, ranks', q1)"
      "wq_inv q1" "wq_rank q1 = wq_rank q" "wq_iter q = front @ wq_iter q1" "front \<in> shuffles tk pd"
      "sorted (map (wq_rank q) (pd @ wq_iter q1))" "weight tk \<le> n"
      "dp \<longrightarrow> (\<forall>k < length ranks. ranks' ! k = ranks ! k + length (filter (pinned k) tk) \<and>
                   (ranks ! k \<le> m \<longrightarrow> ranks' ! k \<le> m))"
    using gfq_loop_post [OF assms(1) sorted less_imp_le [OF assms(3)] assms(2), of dp m "[]"]
    unfolding gfq_post_def append_Nil add_0 by blast
  have "wq_inv (wq_prepend_requests pd q1)" "wq_iter (wq_prepend_requests pd q1) = pd @ wq_iter q1"
    using prepend_requests_law [OF res(2), of pd] res(3) sort_key_idem [OF res(6)] by auto
  moreover have "front @ wq_iter q1 \<in> shuffles tk (pd @ wq_iter q1)"
    using res(5) by (rule shuffles_append_right)
  then have "wq_iter q \<in> shuffles tk (wq_iter (wq_prepend_requests pd q1))"
    using calculation res(4) by simp
  moreover have "get_from_waiting_queue q n dp m ranks = Inr (tk, wq_prepend_requests pd q1)"
    using res(1) assms(3) by (simp add: get_from_waiting_queue_def)
  moreover have "dp \<longrightarrow> (\<forall>k < length ranks. ranks ! k + length (filter (pinned k) tk) \<le> m)"
    using res(8) assms(4) nth_mem [of _ ranks] by metis
  ultimately show ?thesis using res(7) by blast
qed

text \<open>
  C14. \<open>get_from_waiting_queue\<close> loses, duplicates and reorders nothing, with either policy: the
  requests it takes and the ones it leaves are interleaved in the queue's order before the call, the
  queue afterwards serves the left ones in that order, and what is taken counts (with children) at
  most \<open>max_req_count\<close> and never brings a rank above its limit.
\<close>

theorem get_from_waiting_queue_correct:
  assumes "wq_inv q" "\<forall>r \<in> set (wq_iter q). rank_ok (length ranks) r" "0 < n"
    and "\<forall>a \<in> set ranks. a \<le> m"
  shows "\<exists>taken q'. get_from_waiting_queue q n dp m ranks = Inr (taken, q') \<and> wq_inv q' \<and>
     wq_iter q \<in> shuffles taken (wq_iter q') \<and> weight taken \<le> n \<and>
     (dp \<longrightarrow> (\<forall>k < length ranks. ranks ! k + length (filter (pinned k) taken) \<le> m))"
  using get_from_waiting_queue_post [OF assms] .

text \<open>The queue of the witness: an urgent request, one pinned to a full rank, and one with two children.\<close>

abbreviation demo_item :: "int \<Rightarrow> rat \<Rightarrow> int list option \<Rightarrow> scheduling_params option \<Rightarrow> request_item" where
  "demo_item i pr cs p \<equiv> \<lparr>req_id = i,
     req_request = Some \<lparr>beam_width = 1, num_return_sequences = None, req_priority = pr, input_token_ids = [1, 2, 3],
       disagg_request_id = None, lora_config_task_id = None,
       py_attributes = (case p of None \<Rightarrow> [] | Some x \<Rightarrow> [(''py_scheduling_params'', SchedulingParams x)])\<rparr>,
     child_req_ids = cs, is_canceled_request = False, req_query = None\<rparr>"

abbreviation demo_requests :: "request_item list" where
  "demo_requests \<equiv>
     [demo_item 1 (1 / 4) None (Some \<lparr>attention_dp_rank = Some 0, attention_dp_relax = False\<rparr>),
      demo_item 2 (1 / 2) (Some [7, 8]) None,
      demo_item 3 (3 / 4) None (Some \<lparr>attention_dp_rank = None, attention_dp_relax = True\<rparr>)]"

theorem get_from_waiting_queue_correct_witness:
  "\<exists>taken q'. get_from_waiting_queue (FCFSWaitingQueue demo_requests) 4 True 2 [2, 0] = Inr (taken, q') \<and>
     demo_requests \<in> shuffles taken (wq_iter q') \<and> weight taken \<le> 4"
proof -
  have "\<forall>r \<in> set demo_requests. rank_ok (length [2, 0 :: nat]) r" "\<forall>a \<in> set [2, 0 :: nat]. a \<le> 2"
    by (simp_all add: rank_ok_def py_scheduling_params_def getattr_or_None_def)
  then show ?thesis
    using get_from_waiting_queue_correct [of "FCFSWaitingQueue demo_requests" "[2, 0]" 4 2 True] by auto
qed

text \<open>
  A request that was popped but could not be scheduled keeps its place: prepending what was
  popped restores the order of service exactly, with either policy.
\<close>

theorem pop_prepend_restores:
  assumes "wq_inv q" "wq_pop_request q = Inr (r, q')"
  shows "wq_iter (wq_prepend_request r q') = wq_iter q \<and> wq_inv (wq_prepend_request r q')"
proof -
  have "wq_inv q'" using wq.pop_law [OF assms(1)] assms(2) by (auto split: list.splits)
  then show ?thesis using wq.pop_prepend [OF assms] wq.prepend_law by blast
qed

theorem pop_prepend_restores_witness:
  "\<exists>r q'. wq_pop_request (wq_add_requests demo_requests (create_waiting_queue PRIORITY)) = Inr (r, q') \<and>
     wq_iter (wq_prepend_request r q') = wq_iter (wq_add_requests demo_requests (create_waiting_queue PRIORITY))"
proof -
  obtain rs where rs: "rs = demo_requests" by blast
  let ?q = "wq_add_requests rs (create_waiting_queue PRIORITY)"
  have inv: "wq_inv ?q" and iter: "length (wq_iter ?q) = length rs"
    using create_add [of rs PRIORITY] by simp_all
  have "wq_iter ?q \<noteq> []" using iter rs by force
  then obtain r q' where "wq_pop_request ?q = Inr (r, q')"
    using wq.pop_law [OF inv] by (cases "wq_iter ?q") auto
  then show ?thesis using pop_prepend_restores [OF inv] rs by blast
qed

end
