(* ===== verification/AdpRouter.thy ===== *)
theory AdpRouter
  imports WaitingQueue "HOL-Library.List_Lexorder"
begin

text \<open>
  Distribution of new requests over the ranks of attention data parallelism,
  \<^verbatim>\<open>_torch/pyexecutor/scheduler/adp_router.py\<close>: the states the ranks exchange, the load-balancing
  \<open>DefaultADPRouter\<close> and the cache-aware \<open>KVCacheAwareADPRouter\<close>.

  The dictionary from ranks to requests is an association list in insertion order. The heap of
  \<open>_balance_requests_across_ranks\<close> is the sorted list of its entries, which differ in the rank; the
  request lists that the entries carry are the values of \<open>all_ranks_new_scheduled_requests\<close>, so they are kept
  there only. Floats are real numbers, \<open>float("inf")\<close> is \<open>None\<close>. The collective \<open>tp_allgather\<close>, the probe of
  the radix tree and the seeded shuffle of \<open>random.Random\<close> are arguments. Log messages are left out.
\<close>

section \<open>Definitions\<close>

subsection \<open>The states that the ranks exchange\<close>

record rank_iter_stats_payload =
  has_iter_stats :: int
  iter_stats_iter :: int
  num_context_requests :: int
  num_ctx_tokens :: int
  num_ctx_kv_tokens :: int
  num_gen_requests :: int
  num_gen_kv_tokens :: int
  num_paused_requests :: int
  num_paused_kv_tokens :: int

text \<open>The defaults of the fields, in their order.\<close>

definition payload_defaults :: "int list" where
  "payload_defaults = [0, -1, 0, 0, 0, 0, 0, 0, 0]"

definition payload_serialize :: "rank_iter_stats_payload \<Rightarrow> int list" where
  "payload_serialize p =
     [has_iter_stats p, iter_stats_iter p, num_context_requests p, num_ctx_tokens p, num_ctx_kv_tokens p,
      num_gen_requests p, num_gen_kv_tokens p, num_paused_requests p, num_paused_kv_tokens p]"

text \<open>The constructor applied to the nine values.\<close>

definition payload_of_list :: "int list \<Rightarrow> rank_iter_stats_payload" where
  "payload_of_list v =
     \<lparr>has_iter_stats = v ! 0, iter_stats_iter = v ! 1, num_context_requests = v ! 2, num_ctx_tokens = v ! 3,
      num_ctx_kv_tokens = v ! 4, num_gen_requests = v ! 5, num_gen_kv_tokens = v ! 6,
      num_paused_requests = v ! 7, num_paused_kv_tokens = v ! 8\<rparr>"

definition payload_deserialize :: "int list \<Rightarrow> rank_iter_stats_payload result" where
  "payload_deserialize data =
     (if length data > length payload_defaults then Inl ValueError
      else Inr (payload_of_list (data @ drop (length data) payload_defaults)))"

record rank_state =
  rs_rank :: int
  num_active_requests :: int
  num_active_tokens :: int
  iter_stats :: rank_iter_stats_payload

definition copy_iter_stats_from :: "rank_iter_stats_payload option \<Rightarrow> rank_state \<Rightarrow> rank_state" where
  "copy_iter_stats_from payload s = (case payload of None \<Rightarrow> s | Some p \<Rightarrow> s\<lparr>iter_stats := p\<rparr>)"

definition rs_serialize :: "rank_state \<Rightarrow> int list" where
  "rs_serialize s = [rs_rank s, num_active_requests s, num_active_tokens s] @ payload_serialize (iter_stats s)"

text \<open>\<open>rank\<close> has no default; the two counts default to 0.\<close>

definition rs_deserialize :: "int list \<Rightarrow> rank_state result" where
  "rs_deserialize data =
     (if length data < 1 then Inl ValueError
      else if length data > 3 + length payload_defaults then Inl ValueError
      else let v = take 3 data @ drop (length (take 3 data)) [0, 0, 0] in
           rbind (payload_deserialize (drop 3 data)) (\<lambda>p.
             Inr \<lparr>rs_rank = v ! 0, num_active_requests = v ! 1, num_active_tokens = v ! 2, iter_stats = p\<rparr>))"

text \<open>The attributes of an active \<open>LlmRequest\<close> that count as load.\<close>

record active_request =
  py_orig_prompt_len :: int
  total_input_len_cp :: int
  cached_tokens :: int

definition default_create_rank_state :: "bool \<Rightarrow> int \<Rightarrow> active_request list \<Rightarrow> rank_state" where
  "default_create_rank_state has_cp_helix tp_rank active =
     \<lparr>rs_rank = tp_rank, num_active_requests = int (length active),
      num_active_tokens =
        (if has_cp_helix then (\<Sum>r\<leftarrow>active. total_input_len_cp r) else (\<Sum>r\<leftarrow>active. py_orig_prompt_len r)),
      iter_stats = payload_of_list payload_defaults\<rparr>"

definition active_tokens :: "bool \<Rightarrow> active_request \<Rightarrow> int" where
  "active_tokens has_cp_helix r =
     (if has_cp_helix then max (total_input_len_cp r - cached_tokens r) 0
      else max (py_orig_prompt_len r - cached_tokens r) 0)"

text \<open>\<open>in_transfer\<close> holds the requests that the transfer manager still sends, if there is a manager.\<close>

definition kv_create_rank_state ::
  "bool \<Rightarrow> int \<Rightarrow> active_request list option \<Rightarrow> active_request list \<Rightarrow> rank_state" where
  "kv_create_rank_state has_cp_helix tp_rank in_transfer active =
     (let counted = active @ (case in_transfer of None \<Rightarrow> [] | Some rs \<Rightarrow> rs) in
      \<lparr>rs_rank = tp_rank, num_active_requests = int (length counted),
       num_active_tokens = (\<Sum>r\<leftarrow>counted. active_tokens has_cp_helix r),
       iter_stats = payload_of_list payload_defaults\<rparr>)"

primrec rmap :: "('a \<Rightarrow> 'b result) \<Rightarrow> 'a list \<Rightarrow> 'b list result" where
  "rmap f [] = Inr []"
| "rmap f (x # xs) = rbind (f x) (\<lambda>y. rbind (rmap f xs) (\<lambda>ys. Inr (y # ys)))"

definition gather_all_rank_states ::
  "(int list \<Rightarrow> int list list) \<Rightarrow> rank_iter_stats_payload option \<Rightarrow> rank_state \<Rightarrow> rank_state list result" where
  "gather_all_rank_states tp_allgather payload local_state =
     rmap rs_deserialize (tp_allgather (rs_serialize (copy_iter_stats_from payload local_state)))"

subsection \<open>Targets and the dictionary of assignments\<close>

type_synonym assignment = "(int \<times> request_item list) list"

definition get_relax_value :: "request_item \<Rightarrow> bool" where
  "get_relax_value item =
     (case py_scheduling_params item of
        None \<Rightarrow> True
      | Some p \<Rightarrow> (case attention_dp_rank p of None \<Rightarrow> True | Some _ \<Rightarrow> attention_dp_relax p))"

definition target_dp_rank :: "request_item \<Rightarrow> int option" where
  "target_dp_rank item = (case py_scheduling_params item of None \<Rightarrow> None | Some p \<Rightarrow> attention_dp_rank p)"

definition req_tokens :: "request_item \<Rightarrow> int" where
  "req_tokens item = (case req_request item of None \<Rightarrow> 0 | Some r \<Rightarrow> int (length (input_token_ids r)))"

definition new_assignment :: "rank_state list \<Rightarrow> assignment" where
  "new_assignment states = fold (\<lambda>s. AList.update (rs_rank s) []) states []"

text \<open>\<open>d[rank].extend(items)\<close>.\<close>

definition extend_rank :: "int \<Rightarrow> request_item list \<Rightarrow> assignment \<Rightarrow> assignment result" where
  "extend_rank rank items d =
     (case map_of d rank of
        None \<Rightarrow> Inl KeyError
      | Some old \<Rightarrow> Inr (AList.update rank (old @ items) d))"

definition py_max :: "int list \<Rightarrow> int result" where
  "py_max xs = (case xs of [] \<Rightarrow> Inl ValueError | _ \<Rightarrow> Inr (Max (set xs)))"

subsection \<open>The default router\<close>

type_synonym target_state = "int list \<times> assignment \<times> request_item list"

definition default_target_step :: "int \<Rightarrow> request_item \<Rightarrow> target_state \<Rightarrow> target_state result" where
  "default_target_step max_active item st =
     (let (counts, d, remaining) = st in
      case target_dp_rank item of
        None \<Rightarrow> Inr (counts, d, remaining @ [item])
      | Some k \<Rightarrow>
          rbind (py_index (length counts) k) (\<lambda>i.
            if counts ! i < max_active
            then rbind (extend_rank k [item] d) (\<lambda>d'. Inr (counts[i := counts ! i + 1], d', remaining))
            else Inr (counts, d, remaining @ [item])))"

type_synonym heap_val = "int \<times> int \<times> nat"

definition balance_step ::
  "int \<Rightarrow> request_item \<Rightarrow> heap_val list \<times> assignment \<Rightarrow> (heap_val list \<times> assignment) result" where
  "balance_step expected item st =
     (case fst st of
        [] \<Rightarrow> Inl IndexError
      | (tokens, n, rank) # heap \<Rightarrow>
          rbind (extend_rank (int rank) [item] (snd st)) (\<lambda>sched.
            Inr (if n + 1 < expected then insort (tokens + req_tokens item, n + 1, rank) heap else heap, sched)))"

definition balance_requests_across_ranks ::
  "request_item list \<Rightarrow> assignment \<Rightarrow> int list \<Rightarrow> int list \<Rightarrow> int \<Rightarrow> assignment result" where
  "balance_requests_across_ranks new_requests d counts tokens expected =
     (if new_requests = [] then Inr d
      else
        let heap = filter (\<lambda>(_, n, _). n < expected) (map (\<lambda>r. (tokens ! r, counts ! r, r)) [0..<length counts]);
            sched = map (\<lambda>(_, _, r). (int r, [])) heap;
            ordered = sort_key (\<lambda>x. - req_tokens x) new_requests
        in rbind (rfold (balance_step expected) ordered (sort heap, sched)) (\<lambda>(_, sched').
             rfold (\<lambda>(rank, reqs). extend_rank rank reqs) sched' d))"

definition default_route_requests ::
  "rank_state list \<Rightarrow> request_item list \<Rightarrow> int \<Rightarrow> (assignment \<times> int) result" where
  "default_route_requests states new_requests max_active =
     rbind (rfold (default_target_step max_active) (sort_key get_relax_value new_requests)
         (map num_active_requests states, new_assignment states, [])) (\<lambda>(counts, d, remaining).
       if states = [] then Inl ZeroDivisionError
       else rbind (py_max counts) (\<lambda>busiest.
         let tp_size = int (length states);
             expected = min (max ((sum_list counts + int (length remaining) + tp_size - 1) div tp_size) busiest) max_active
         in rbind (balance_requests_across_ranks remaining d counts (map num_active_tokens states) expected) (\<lambda>d'.
              Inr (d', expected))))"

subsection \<open>The cache-aware router\<close>

record kv_router =
  load_balance_weight :: real
  match_rate_threshold :: real
  fair_share_multiplier :: real
  all_ranks_prefix_matches :: "(int \<times> int) list list"
  pending_warmup_ranks :: "int list"

definition kv_router_init :: "nat \<Rightarrow> real \<Rightarrow> real \<Rightarrow> real \<Rightarrow> bool \<Rightarrow> kv_router" where
  "kv_router_init dp_size beta threshold multiplier warmup =
     \<lparr>load_balance_weight = beta, match_rate_threshold = threshold, fair_share_multiplier = multiplier,
      all_ranks_prefix_matches = [], pending_warmup_ranks = (if warmup then map int [0..<dp_size] else [])\<rparr>"

text \<open>\<open>probe tokens lora\<close> is the length of the prefix that the rank has cached.\<close>

definition local_match :: "(int list \<Rightarrow> int option \<Rightarrow> int) \<Rightarrow> request_item \<Rightarrow> int list" where
  "local_match probe item =
     (case req_request item of
        None \<Rightarrow> [req_id item, 0]
      | Some r \<Rightarrow>
          let probe_tokens = (if length (input_token_ids r) > 1 then butlast (input_token_ids r) else [])
          in [req_id item, probe probe_tokens (lora_config_task_id r)])"

fun decode_matches :: "int list \<Rightarrow> (int \<times> int) list \<Rightarrow> (int \<times> int) list result" where
  "decode_matches [] d = Inr d"
| "decode_matches [i] d = Inl IndexError"
| "decode_matches (i # m # rest) d = decode_matches rest (AList.update i m d)"

definition gather_prefix_matches ::
  "(int list \<Rightarrow> int option \<Rightarrow> int) \<Rightarrow> (int list \<Rightarrow> int list list) \<Rightarrow> request_item list \<Rightarrow> kv_router \<Rightarrow> kv_router result" where
  "gather_prefix_matches probe tp_allgather new_requests r =
     rbind (rmap (\<lambda>data. decode_matches data []) (tp_allgather (concat (map (local_match probe) new_requests))))
       (\<lambda>matches. Inr (r\<lparr>all_ranks_prefix_matches := matches\<rparr>))"

definition match_len :: "kv_router \<Rightarrow> int \<Rightarrow> int \<Rightarrow> int result" where
  "match_len r rank i =
     (let matches = all_ranks_prefix_matches r in
      if rank < int (length matches)
      then rbind (py_index (length matches) rank) (\<lambda>k.
             Inr (case map_of (matches ! k) i of None \<Rightarrow> 0 | Some m \<Rightarrow> m))
      else Inr 0)"

definition score_rank :: "kv_router \<Rightarrow> int \<Rightarrow> int \<Rightarrow> real \<Rightarrow> real \<Rightarrow> real result" where
  "score_rank r tokens matched rank_active_tokens load_denom =
     (if load_denom = 0 then Inl ZeroDivisionError
      else let effective = real_of_int (tokens - matched);
               normalized_load = rank_active_tokens / load_denom * of_int tokens
           in Inr (effective + load_balance_weight r * normalized_load))"

definition prefix_fingerprint :: "int list \<Rightarrow> nat \<Rightarrow> int list" where
  "prefix_fingerprint token_ids num_tokens = take num_tokens token_ids"

definition kv_sort_key :: "request_item \<Rightarrow> int list \<times> int" where
  "kv_sort_key item =
     (let tokens = (case req_request item of None \<Rightarrow> [] | Some r \<Rightarrow> input_token_ids r)
      in (prefix_fingerprint tokens 64, - int (length tokens)))"

type_synonym kv_target_state = "int list \<times> real list \<times> assignment \<times> int list \<times> request_item list"

text \<open>
  The state of the first loop: active requests and tokens per rank, the assignment, the ranks that are
  still to be warmed up, and the requests left over.
\<close>

definition kv_target_step :: "kv_router \<Rightarrow> int \<Rightarrow> request_item \<Rightarrow> kv_target_state \<Rightarrow> kv_target_state result" where
  "kv_target_step r max_active item st =
     (let (counts, tokens, d, pending, remaining) = st;
          target = (case target_dp_rank item of
                      Some k \<Rightarrow> Some k
                    | None \<Rightarrow> if pending \<noteq> [] then Some (Min (set pending)) else None)
      in case target of
           None \<Rightarrow> Inr (counts, tokens, d, pending, remaining @ [item])
         | Some k \<Rightarrow>
             rbind (py_index (length counts) k) (\<lambda>i.
               if counts ! i < max_active
               then rbind (match_len r k (req_id item)) (\<lambda>m.
                    rbind (extend_rank k [item] d) (\<lambda>d'.
                      Inr (counts[i := counts ! i + 1], tokens[i := tokens ! i + of_int (max (req_tokens item - m) 0)],
                           d', removeAll k pending, remaining)))
               else Inr (counts, tokens, d, pending, remaining @ [item])))"

text \<open>One comparison of the loop over the shuffled ranks; the best score so far is \<open>None\<close> for infinity.\<close>

definition kv_better :: "real \<Rightarrow> real \<Rightarrow> real option \<Rightarrow> real \<Rightarrow> bool" where
  "kv_better score load best best_load =
     (case best of None \<Rightarrow> True | Some b \<Rightarrow> score < b \<or> score = b \<and> load < best_load)"

definition kv_pick_step ::
  "kv_router \<Rightarrow> int \<Rightarrow> (nat \<times> int) list \<Rightarrow> bool \<Rightarrow> real list \<Rightarrow> real \<Rightarrow> nat \<Rightarrow> nat \<times> real option \<Rightarrow>
     (nat \<times> real option) result" where
  "kv_pick_step r tokens match_lens affinity loads load_denom rank st =
     (let matched = (if affinity then the (map_of match_lens rank) else 0) in
      rbind (score_rank r tokens matched (loads ! rank) load_denom) (\<lambda>score.
        Inr (if kv_better score (loads ! rank) (snd st) (loads ! fst st) then (rank, Some score) else st)))"

definition kv_pick ::
  "kv_router \<Rightarrow> (int \<Rightarrow> nat list \<Rightarrow> nat list) \<Rightarrow> request_item \<Rightarrow> nat list \<Rightarrow> (nat \<times> int) list \<Rightarrow> real list \<Rightarrow> nat result" where
  "kv_pick r shuffle item eligible match_lens loads =
     (let iter_ranks = shuffle (req_id item) eligible;
          tokens = req_tokens item;
          load_denom = max (\<Sum>k\<leftarrow>eligible. loads ! k) (of_int tokens);
          max_match = (case match_lens of [] \<Rightarrow> 0 | _ \<Rightarrow> Max (set (map snd match_lens)));
          affinity = of_int max_match / of_int (max tokens 1) > match_rate_threshold r
      in case iter_ranks of
           [] \<Rightarrow> Inl IndexError
         | first # _ \<Rightarrow>
             rbind (rfold (kv_pick_step r tokens match_lens affinity loads load_denom) iter_ranks (first, None))
               (\<lambda>(best_rank, _). Inr best_rank))"

type_synonym kv_score_state = "int list \<times> real list \<times> assignment \<times> nat list"

definition kv_route_step ::
  "kv_router \<Rightarrow> (int \<Rightarrow> nat list \<Rightarrow> nat list) \<Rightarrow> int \<Rightarrow> request_item \<Rightarrow> kv_score_state \<Rightarrow> kv_score_state result" where
  "kv_route_step r shuffle expected item st =
     (let (counts, loads, d, eligible) = st in
      rbind (rmap (\<lambda>k. rbind (match_len r (int k) (req_id item)) (\<lambda>m. Inr (k, m))) eligible) (\<lambda>match_lens.
      rbind (kv_pick r shuffle item eligible match_lens loads) (\<lambda>best.
      rbind (extend_rank (int best) [item] d) (\<lambda>d'.
        let counts' = counts[best := counts ! best + 1];
            added = max (req_tokens item - the (map_of match_lens best)) 0
        in Inr (counts', loads[best := loads ! best + of_int added], d',
                if counts' ! best \<ge> expected then remove1 best eligible else eligible)))))"

text \<open>The loop stops as soon as no rank is eligible.\<close>

fun kv_route_loop ::
  "kv_router \<Rightarrow> (int \<Rightarrow> nat list \<Rightarrow> nat list) \<Rightarrow> int \<Rightarrow> request_item list \<Rightarrow> kv_score_state \<Rightarrow> assignment result" where
  "kv_route_loop r shuffle expected [] (counts, loads, d, eligible) = Inr d"
| "kv_route_loop r shuffle expected (item # items) (counts, loads, d, eligible) =
     (if eligible = [] then Inr d
      else rbind (kv_route_step r shuffle expected item (counts, loads, d, eligible))
             (kv_route_loop r shuffle expected items))"

definition kv_route_requests ::
  "(int \<Rightarrow> nat list \<Rightarrow> nat list) \<Rightarrow> rank_state list \<Rightarrow> request_item list \<Rightarrow> int \<Rightarrow> kv_router \<Rightarrow>
     (assignment \<times> int \<times> kv_router) result" where
  "kv_route_requests shuffle states new_requests max_active r =
     rbind (rfold (kv_target_step r max_active) (sort_key get_relax_value new_requests)
         (map num_active_requests states, map (real_of_int \<circ> num_active_tokens) states, new_assignment states,
          pending_warmup_ranks r, [])) (\<lambda>(counts, loads, d, pending, remaining).
       if states = [] then Inl ZeroDivisionError
       else rbind (py_max counts) (\<lambda>busiest.
         let ordered = sort_key kv_sort_key remaining;
             tp_size = int (length states);
             fair_share = (sum_list counts + int (length ordered) + tp_size - 1) div tp_size;
             expected = min (max \<lceil>fair_share_multiplier r * of_int fair_share\<rceil> busiest) max_active;
             eligible = filter (\<lambda>k. counts ! k < expected) [0..<length states]
         in rbind (kv_route_loop r shuffle expected ordered (counts, loads, d, eligible)) (\<lambda>d'.
              Inr (d', expected, r\<lparr>pending_warmup_ranks := pending\<rparr>))))"

subsection \<open>Choice of the router\<close>

datatype adp_router = DefaultADPRouter | KVCacheAwareADPRouter kv_router

record attention_dp_config =
  enable_kv_cache_aware_routing :: bool
  kv_cache_routing_load_balance_weight :: real
  kv_cache_routing_match_rate_threshold :: real
  kv_cache_routing_fair_share_multiplier :: real
  kv_cache_routing_cold_start_warmup :: bool

text \<open>\<open>block_reuse\<close> is \<open>None\<close> without a cache manager, and its \<open>enable_block_reuse\<close> otherwise.\<close>

definition adp_router_create :: "nat \<Rightarrow> bool option \<Rightarrow> attention_dp_config option \<Rightarrow> adp_router" where
  "adp_router_create dp_size block_reuse config =
     (case config of
        None \<Rightarrow> DefaultADPRouter
      | Some c \<Rightarrow>
          if enable_kv_cache_aware_routing c \<and> block_reuse = Some True
          then KVCacheAwareADPRouter (kv_router_init dp_size (kv_cache_routing_load_balance_weight c)
                 (kv_cache_routing_match_rate_threshold c) (kv_cache_routing_fair_share_multiplier c)
                 (kv_cache_routing_cold_start_warmup c))
          else DefaultADPRouter)"

text \<open>\<open>route_requests\<close> of the abstract class.\<close>

definition route_requests ::
  "(int \<Rightarrow> nat list \<Rightarrow> nat list) \<Rightarrow> rank_state list \<Rightarrow> request_item list \<Rightarrow> int \<Rightarrow> adp_router \<Rightarrow>
     (assignment \<times> int \<times> adp_router) result" where
  "route_requests shuffle states new_requests max_active router =
     (case router of
        DefaultADPRouter \<Rightarrow>
          rbind (default_route_requests states new_requests max_active) (\<lambda>(d, expected). Inr (d, expected, router))
      | KVCacheAwareADPRouter r \<Rightarrow>
          rbind (kv_route_requests shuffle states new_requests max_active r) (\<lambda>(d, expected, r').
            Inr (d, expected, KVCacheAwareADPRouter r')))"

end
