(* ===== verification/AdpRouting.thy ===== *)
theory AdpRouting
  imports AdpRouter
begin

text \<open>
  Correctness of the routers of \<open>AdpRouter\<close>. The first loop, which serves the requests that name a rank, has
  the same contract in both routers: it is the locale \<open>target_phase\<close>, interpreted for each of them. The second
  loops, balancing with a heap and choosing by score, are shown to hand out everything that is left within
  the cap.
\<close>

section \<open>Assignments\<close>

abbreviation ranks :: "nat \<Rightarrow> int list" where
  "ranks n \<equiv> map int [0..<n]"

text \<open>The requests that a rank is given.\<close>

definition given :: "assignment \<Rightarrow> nat \<Rightarrow> request_item list" where
  "given d k = (case map_of d (int k) of None \<Rightarrow> [] | Some xs \<Rightarrow> xs)"

abbreviation all_given :: "assignment \<Rightarrow> request_item multiset" where
  "all_given d \<equiv> mset (concat (map snd d))"

lemma update_mset:
  assumes "distinct (map fst d)" "map_of d r = Some old"
  shows "all_given (AList.update r (old @ xs) d) = all_given d + mset xs"
  using assms by (induction d) (auto split: if_splits)

lemma extend_rank_law:
  assumes "distinct (map fst d)" "r \<in> fst ` set d"
  shows "\<exists>d'. extend_rank r xs d = Inr d' \<and> map fst d' = map fst d \<and> all_given d' = all_given d + mset xs \<and>
     (\<forall>k. given d' k = given d k @ (if int k = r then xs else []))"
proof -
  obtain old where old: "map_of d r = Some old"
    using assms(2) by (metis map_of_eq_None_iff option.exhaust)
  then have "extend_rank r xs d = Inr (AList.update r (old @ xs) d)" by (simp add: extend_rank_def)
  moreover have "map fst (AList.update r (old @ xs) d) = map fst d"
    using assms(2) by (simp add: update_keys)
  moreover have "given (AList.update r (old @ xs) d) k = given d k @ (if int k = r then xs else [])" for k
    using old by (simp add: given_def update_conv')
  ultimately show ?thesis using update_mset [OF assms(1) old] by blast
qed

lemma ranks_distinct: "map fst d = ranks n \<Longrightarrow> distinct (map fst d)"
  by (simp add: distinct_map inj_on_def)

lemma extend_rank_ranks:
  assumes "map fst d = ranks n" "k < n"
  shows "\<exists>d'. extend_rank (int k) xs d = Inr d' \<and> map fst d' = ranks n \<and> all_given d' = all_given d + mset xs \<and>
     (\<forall>j. given d' j = given d j @ (if j = k then xs else []))"
proof -
  have "int k \<in> set (map fst d)" using assms by simp
  then have "int k \<in> fst ` set d" by simp
  from extend_rank_law [OF ranks_distinct [OF assms(1)] this, of xs] show ?thesis using assms(1) by auto
qed

lemma new_assignment_shape:
  assumes "map rs_rank states = ranks n"
  shows "map fst (new_assignment states) = ranks n \<and> all_given (new_assignment states) = {#} \<and>
     (\<forall>k. given (new_assignment states) k = [])"
proof -
  have gen: "map fst (fold (\<lambda>s. AList.update (rs_rank s) []) ss d) = map fst d @ map rs_rank ss \<and>
      all_given (fold (\<lambda>s. AList.update (rs_rank s) []) ss d) = all_given d \<and>
      (\<forall>k. given d k = [] \<longrightarrow> given (fold (\<lambda>s. AList.update (rs_rank s) []) ss d) k = [])"
    if "distinct (map fst d @ map rs_rank ss)" for ss and d :: assignment
    using that
  proof (induction ss arbitrary: d)
    case (Cons s ss)
    then have new: "rs_rank s \<notin> fst ` set d" by auto
    then have upd: "AList.update (rs_rank s) [] d = d @ [(rs_rank s, [])]"
      by (induction d) auto
    have "given d k = [] \<Longrightarrow> given (d @ [(rs_rank s, [])]) k = []" for k
      by (auto simp: given_def map_add_def split: option.splits)
    then show ?case using Cons.IH [of "d @ [(rs_rank s, [])]"] Cons.prems upd by auto
  qed simp
  have "distinct (map rs_rank states)" using assms by (simp add: distinct_map inj_on_def)
  then show ?thesis
    using gen [of "[]" states] assms by (simp add: new_assignment_def given_def)
qed

section \<open>Requests with a target\<close>

locale target_phase =
  fixes step :: "int \<Rightarrow> request_item \<Rightarrow> 's \<Rightarrow> 's result"
    and counts_of :: "'s \<Rightarrow> int list"
    and asg_of :: "'s \<Rightarrow> assignment"
    and left_of :: "'s \<Rightarrow> request_item list"
    and ok :: "nat \<Rightarrow> 's \<Rightarrow> bool"
  assumes ok_shape: "ok n s \<Longrightarrow> length (counts_of s) = n \<and> map fst (asg_of s) = ranks n"
    and step_law: "ok n s \<Longrightarrow> rank_ok n item \<Longrightarrow> \<exists>s'. step m item s = Inr s' \<and> ok n s' \<and>
      ((\<exists>k < n. counts_of s ! k < m \<and> (\<forall>j. target_dp_rank item = Some j \<longrightarrow> j = int k) \<and>
          counts_of s' = (counts_of s)[k := counts_of s ! k + 1] \<and> left_of s' = left_of s \<and>
          all_given (asg_of s') = all_given (asg_of s) + {#item#} \<and>
          (\<forall>j. given (asg_of s') j = given (asg_of s) j @ (if j = k then [item] else []))) \<or>
       ((\<forall>k. target_dp_rank item = Some (int k) \<longrightarrow> m \<le> counts_of s ! k) \<and>
          counts_of s' = counts_of s \<and> asg_of s' = asg_of s \<and> left_of s' = left_of s @ [item]))"
begin

definition advances :: "nat \<Rightarrow> int \<Rightarrow> request_item list \<Rightarrow> 's \<Rightarrow> 's \<Rightarrow> bool" where
  "advances n m items s s' \<longleftrightarrow> ok n s' \<and>
     all_given (asg_of s') + mset (left_of s') = all_given (asg_of s) + mset (left_of s) + mset items \<and>
     (\<forall>k < n. \<exists>more. given (asg_of s') k = given (asg_of s) k @ more \<and>
        counts_of s' ! k = counts_of s ! k + int (length more) \<and>
        (more \<noteq> [] \<longrightarrow> counts_of s' ! k \<le> m))"

lemma advances_refl: "ok n s \<Longrightarrow> advances n m [] s s"
  by (simp add: advances_def)

lemma advances_trans: "advances n m xs s t \<Longrightarrow> advances n m ys t u \<Longrightarrow> advances n m (xs @ ys) s u"
  unfolding advances_def by (fastforce simp: ac_simps)

lemma step_advances:
  assumes "ok n s" "rank_ok n item"
  shows "\<exists>s'. step m item s = Inr s' \<and> advances n m [item] s s' \<and>
     (\<forall>k < n. target_dp_rank item = Some (int k) \<and> counts_of s ! k < m \<longrightarrow>
        left_of s' = left_of s \<and> item \<in> set (given (asg_of s') k) \<and>
        counts_of s' = (counts_of s)[k := counts_of s ! k + 1])"
proof -
  obtain s' where s': "step m item s = Inr s'" "ok n s'"
    and cases: "(\<exists>k < n. counts_of s ! k < m \<and> (\<forall>j. target_dp_rank item = Some j \<longrightarrow> j = int k) \<and>
          counts_of s' = (counts_of s)[k := counts_of s ! k + 1] \<and> left_of s' = left_of s \<and>
          all_given (asg_of s') = all_given (asg_of s) + {#item#} \<and>
          (\<forall>j. given (asg_of s') j = given (asg_of s) j @ (if j = k then [item] else []))) \<or>
       ((\<forall>k. target_dp_rank item = Some (int k) \<longrightarrow> m \<le> counts_of s ! k) \<and>
          counts_of s' = counts_of s \<and> asg_of s' = asg_of s \<and> left_of s' = left_of s @ [item])"
    using step_law [OF assms, of m] by blast
  have len: "length (counts_of s) = n" using ok_shape [OF assms(1)] by simp
  from cases show ?thesis
  proof
    assume "\<exists>k < n. counts_of s ! k < m \<and> (\<forall>j. target_dp_rank item = Some j \<longrightarrow> j = int k) \<and>
          counts_of s' = (counts_of s)[k := counts_of s ! k + 1] \<and> left_of s' = left_of s \<and>
          all_given (asg_of s') = all_given (asg_of s) + {#item#} \<and>
          (\<forall>j. given (asg_of s') j = given (asg_of s) j @ (if j = k then [item] else []))"
    then obtain k where k: "k < n" "counts_of s ! k < m" "\<forall>j. target_dp_rank item = Some j \<longrightarrow> j = int k"
        "counts_of s' = (counts_of s)[k := counts_of s ! k + 1]" "left_of s' = left_of s"
        "all_given (asg_of s') = all_given (asg_of s) + {#item#}"
        "\<forall>j. given (asg_of s') j = given (asg_of s) j @ (if j = k then [item] else [])"
      by blast
    then have "advances n m [item] s s'"
      using s'(2) len by (auto simp: advances_def nth_list_update)
    then show ?thesis using s'(1) k by auto
  next
    assume "(\<forall>k. target_dp_rank item = Some (int k) \<longrightarrow> m \<le> counts_of s ! k) \<and>
          counts_of s' = counts_of s \<and> asg_of s' = asg_of s \<and> left_of s' = left_of s @ [item]"
    then show ?thesis using s' by (auto simp: advances_def)
  qed
qed

lemma phase_advances:
  assumes "ok n s" "\<forall>item \<in> set items. rank_ok n item"
  shows "\<exists>s'. rfold (step m) items s = Inr s' \<and> advances n m items s s'"
  using assms
proof (induction items arbitrary: s)
  case Nil
  then show ?case using advances_refl by simp
next
  case (Cons item items)
  obtain t where t: "step m item s = Inr t" "advances n m [item] s t"
    using step_advances [of n s item m] Cons.prems by auto
  then have "ok n t" by (simp add: advances_def)
  then obtain s' where "rfold (step m) items t = Inr s'" "advances n m items t s'"
    using Cons by auto
  then show ?case using t advances_trans [OF t(2), of items s'] by auto
qed

end

lemma sort_key_bool: "sort_key f xs = filter (\<lambda>x. \<not> f x) xs @ filter f xs" for f :: "'a \<Rightarrow> bool"
proof (rule sort_key_unique)
  show "sorted (map f (filter (\<lambda>x. \<not> f x) xs @ filter f xs))"
    by (induction xs) (auto simp: sorted_wrt_append)
  show "mset (filter (\<lambda>x. \<not> f x) xs @ filter f xs) = mset xs"
    by (induction xs) auto
  show "filter (\<lambda>x. f x = k) (filter (\<lambda>x. \<not> f x) xs @ filter f xs) = filter (\<lambda>x. f x = k) xs" for k
    by (cases k) (auto simp: filter_empty_conv)
qed

lemma pinned_target: "pinned k item \<Longrightarrow> target_dp_rank item = Some (int k)"
  by (simp add: pinned_def target_dp_rank_def)

lemma pinned_rank_ok: "pinned k item \<Longrightarrow> k < n \<Longrightarrow> rank_ok n item"
  by (simp add: pinned_def rank_ok_def)

lemma pinned_unique: "pinned k item \<Longrightarrow> pinned j item \<longleftrightarrow> j = k"
  by (auto simp: pinned_def)

lemma strict_pinned:
  assumes "rank_ok n item" "\<not> get_relax_value item"
  shows "\<exists>k < n. pinned k item"
  using assms by (cases item rule: sched_cases)
    (auto simp: get_relax_value_def rank_ok_def pinned_def dest!: zero_le_imp_eq_int)

lemma pinned_strict: "pinned k item \<Longrightarrow> \<not> get_relax_value item"
  by (simp add: pinned_def get_relax_value_def)

context target_phase
begin

lemma advances_given:
  "advances n m items s s' \<Longrightarrow> k < n \<Longrightarrow> set (given (asg_of s) k) \<subseteq> set (given (asg_of s') k)"
  unfolding advances_def by fastforce

lemma strict_phase:
  assumes "ok n s" "\<forall>item \<in> set items. \<exists>k < n. pinned k item"
    and "\<forall>k < n. counts_of s ! k + int (length (filter (pinned k) items)) \<le> m"
  shows "\<exists>s'. rfold (step m) items s = Inr s' \<and> advances n m items s s' \<and>
     (\<forall>k < n. \<forall>item \<in> set items. pinned k item \<longrightarrow> item \<in> set (given (asg_of s') k))"
  using assms
proof (induction items arbitrary: s)
  case Nil
  then show ?case using advances_refl by simp
next
  case (Cons item items)
  obtain k where k: "k < n" "pinned k item" using Cons.prems(2) by auto
  then have "counts_of s ! k < m" using Cons.prems(3) by fastforce
  then obtain t where t: "step m item s = Inr t" "advances n m [item] s t" "item \<in> set (given (asg_of t) k)"
      "counts_of t = (counts_of s)[k := counts_of s ! k + 1]"
    using step_advances [OF Cons.prems(1) pinned_rank_ok [OF k(2,1)], of m] pinned_target [OF k(2)] k(1) by auto
  have ok: "ok n t" using t(2) by (simp add: advances_def)
  have "counts_of t ! j + int (length (filter (pinned j) items)) \<le> m" if "j < n" for j
    using Cons.prems(3) that t(4) k pinned_unique [OF k(2)] ok_shape [OF Cons.prems(1)]
    by (auto simp: nth_list_update)
  then obtain s' where s': "rfold (step m) items t = Inr s'" "advances n m items t s'"
      "\<forall>k < n. \<forall>item \<in> set items. pinned k item \<longrightarrow> item \<in> set (given (asg_of s') k)"
    using Cons.IH [OF ok] Cons.prems(2) by auto
  have "item \<in> set (given (asg_of s') k)" using advances_given [OF s'(2) k(1)] t(3) by blast
  then show ?case
    using s' t(1) advances_trans [OF t(2) s'(2)] pinned_unique [OF k(2)] by auto
qed

text \<open>
  The whole first loop: it returns, hands out or keeps every request once, respects the limit, and serves the
  strict requests when there is room for all of them.
\<close>

lemma targets_first:
  assumes "ok n s" "\<forall>item \<in> set items. rank_ok n item"
  shows "\<exists>s'. rfold (step m) (sort_key get_relax_value items) s = Inr s' \<and> advances n m items s s' \<and>
     ((\<forall>k < n. counts_of s ! k + int (length (filter (pinned k) items)) \<le> m) \<longrightarrow>
        (\<forall>k < n. \<forall>item \<in> set items. pinned k item \<longrightarrow> item \<in> set (given (asg_of s') k)))"
proof -
  let ?strict = "filter (\<lambda>x. \<not> get_relax_value x) items" and ?relaxed = "filter get_relax_value items"
  have order: "sort_key get_relax_value items = ?strict @ ?relaxed" by (rule sort_key_bool)
  have same: "advances n m (?strict @ ?relaxed) s u \<longleftrightarrow> advances n m items s u" for u
    unfolding advances_def order [symmetric] by simp
  obtain t where t: "rfold (step m) ?strict s = Inr t" "advances n m ?strict s t"
    using phase_advances [OF assms(1), of ?strict m] assms(2) by auto
  then have "ok n t" by (simp add: advances_def)
  then obtain u where u: "rfold (step m) ?relaxed t = Inr u" "advances n m ?relaxed t u"
    using phase_advances [of n t ?relaxed m] assms(2) by auto
  have placed: "item \<in> set (given (asg_of u) k)"
    if room: "\<forall>k < n. counts_of s ! k + int (length (filter (pinned k) items)) \<le> m"
      and item: "k < n" "item \<in> set items" "pinned k item" for k item
  proof -
    have "filter (pinned j) ?strict = filter (pinned j) items" for j
      by (auto simp: pinned_strict intro!: filter_cong)
    then have "\<forall>k < n. \<forall>item \<in> set ?strict. pinned k item \<longrightarrow> item \<in> set (given (asg_of t) k)"
      using strict_phase [OF assms(1), of ?strict m] strict_pinned assms(2) room t(1) by auto
    then show ?thesis using advances_given [OF u(2) item(1)] item pinned_strict by auto
  qed
  have "rfold (step m) (sort_key get_relax_value items) s = Inr u" using t(1) u(1) by (simp add: order rfold_append)
  moreover have "advances n m items s u" using advances_trans [OF t(2) u(2)] same by simp
  ultimately show ?thesis using placed by blast
qed

end

text \<open>The default router.\<close>

lemma target_index: "rank_ok n item \<Longrightarrow> target_dp_rank item = Some k \<Longrightarrow> \<exists>i < n. k = int i"
  by (auto simp: rank_ok_def target_dp_rank_def split: option.splits dest!: zero_le_imp_eq_int)

definition target_ok :: "nat \<Rightarrow> target_state \<Rightarrow> bool" where
  "target_ok n s \<longleftrightarrow> length (fst s) = n \<and> map fst (fst (snd s)) = ranks n"

interpretation dr: target_phase default_target_step fst "fst \<circ> snd" "snd \<circ> snd" target_ok
proof (unfold_locales, goal_cases)
  case (1 n s)
  then show ?case by (simp add: target_ok_def)
next
  case (2 n s item m)
  obtain counts d left where s: "s = (counts, d, left)" by (cases s) auto
  show ?case
  proof (cases "target_dp_rank item")
    case None
    then show ?thesis using 2 by (simp add: s default_target_step_def target_ok_def)
  next
    case (Some k)
    then obtain i where i: "i < n" "k = int i" using target_index 2(2) by blast
    then obtain d' where d': "extend_rank (int i) [item] d = Inr d'" "map fst d' = ranks n"
        "all_given d' = all_given d + mset [item]" "\<forall>j. given d' j = given d j @ (if j = i then [item] else [])"
      using extend_rank_ranks [of d n i "[item]"] 2(1) by (auto simp: s target_ok_def)
    show ?thesis
    proof (cases "counts ! i < m")
      case True
      then have "default_target_step m item s = Inr (counts[i := counts ! i + 1], d', left)"
        using Some i d'(1) 2(1) by (simp add: s default_target_step_def target_ok_def)
      then show ?thesis using True Some i d' 2(1) by (auto simp: s target_ok_def)
    next
      case False
      then have "default_target_step m item s = Inr (counts, d, left @ [item])"
        using Some i 2(1) by (simp add: s default_target_step_def target_ok_def)
      then show ?thesis using False Some i 2(1) by (auto simp: s target_ok_def)
    qed
  qed
qed

text \<open>The cache-aware router, with the ranks that are to be warmed up.\<close>

definition kv_target_ok :: "nat \<Rightarrow> kv_target_state \<Rightarrow> bool" where
  "kv_target_ok n = (\<lambda>(counts, tokens, d, pending, left). length counts = n \<and> length tokens = n \<and>
     map fst d = ranks n \<and> set pending \<subseteq> set (ranks n))"

lemma match_len_total: "\<exists>m. match_len r (int k) i = Inr m"
  by (simp add: match_len_def Let_def)

lemma kv_target_step_eq:
  "kv_target_step r m item (counts, tokens, d, pending, left) =
     (case (case target_dp_rank item of
              Some k \<Rightarrow> Some k | None \<Rightarrow> if pending \<noteq> [] then Some (Min (set pending)) else None) of
        None \<Rightarrow> Inr (counts, tokens, d, pending, left @ [item])
      | Some k \<Rightarrow>
          rbind (py_index (length counts) k) (\<lambda>i.
            if counts ! i < m
            then rbind (match_len r k (req_id item)) (\<lambda>ml.
                 rbind (extend_rank k [item] d) (\<lambda>d'.
                   Inr (counts[i := counts ! i + 1], tokens[i := tokens ! i + of_int (max (req_tokens item - ml) 0)],
                        d', removeAll k pending, left)))
            else Inr (counts, tokens, d, pending, left @ [item])))"
  by (simp add: kv_target_step_def)

interpretation kr: target_phase "kv_target_step r" fst "\<lambda>(_, _, d, _). d" "\<lambda>(_, _, _, _, left). left" kv_target_ok
  for r
proof (unfold_locales, goal_cases)
  case (1 n s)
  then show ?case by (auto simp: kv_target_ok_def)
next
  case (2 n s item m)
  obtain counts tokens d pending left where s: "s = (counts, tokens, d, pending, left)" by (cases s) auto
  define target where "target = (case target_dp_rank item of
      Some k \<Rightarrow> Some k | None \<Rightarrow> if pending \<noteq> [] then Some (Min (set pending)) else None)"
  have ok: "length counts = n" "length tokens = n" "map fst d = ranks n" "set pending \<subseteq> set (ranks n)"
    using 2(1) by (simp_all add: s kv_target_ok_def)
  note step = kv_target_step_eq [of r m item counts tokens d pending left, folded target_def s]
  show ?case
  proof (cases target)
    case None
    then show ?thesis using step ok by (auto simp: s kv_target_ok_def target_def split: option.splits if_splits)
  next
    case (Some k)
    have "\<exists>i < n. k = int i"
    proof (cases "target_dp_rank item")
      case None
      then have "k \<in> set pending" using Some Min_in [of "set pending"] by (auto simp: target_def split: if_splits)
      then show ?thesis using ok(4) by auto
    next
      case (Some j)
      then show ?thesis using \<open>target = Some k\<close> target_index [OF 2(2)] by (auto simp: target_def)
    qed
    then obtain i where i: "i < n" "k = int i" by blast
    have tgt: "\<forall>j. target_dp_rank item = Some j \<longrightarrow> j = int i" using Some i by (auto simp: target_def)
    obtain d' where d': "extend_rank (int i) [item] d = Inr d'" "map fst d' = ranks n"
        "all_given d' = all_given d + mset [item]" "\<forall>j. given d' j = given d j @ (if j = i then [item] else [])"
      using extend_rank_ranks [OF ok(3) i(1), of "[item]"] by auto
    obtain ml where ml: "match_len r (int i) (req_id item) = Inr ml" using match_len_total by blast
    show ?thesis
    proof (cases "counts ! i < m")
      case True
      then have "kv_target_step r m item s = Inr (counts[i := counts ! i + 1],
          tokens[i := tokens ! i + of_int (max (req_tokens item - ml) 0)], d', removeAll k pending, left)"
        using step Some i d'(1) ml ok(1) by simp
      then show ?thesis
        using True tgt i d' ok by (auto simp: s kv_target_ok_def)
    next
      case False
      then have "kv_target_step r m item s = Inr (counts, tokens, d, pending, left @ [item])"
        using step Some i ok(1) by simp
      then show ?thesis using False tgt i ok by (auto simp: s kv_target_ok_def)
    qed
  qed
qed

section \<open>Room for the other requests\<close>

definition capacity :: "int \<Rightarrow> int list \<Rightarrow> int" where
  "capacity e counts = (\<Sum>c\<leftarrow>counts. max 0 (e - c))"

lemma capacity_lower: "int (length counts) * e - sum_list counts \<le> capacity e counts"
proof -
  have "(\<Sum>c\<leftarrow>counts. e - c) \<le> capacity e counts" unfolding capacity_def by (rule sum_list_mono) simp
  then show ?thesis by (simp add: sum_list_subtractf sum_list_triv mult.commute)
qed

lemma capacity_update:
  assumes "k < length counts" "counts ! k < e"
  shows "capacity e (counts[k := counts ! k + 1]) = capacity e counts - 1"
  using assms
proof (induction counts arbitrary: k)
  case (Cons c counts)
  then show ?case by (cases k) (auto simp: capacity_def)
qed simp

lemma capacity_pos: "0 < capacity e counts \<longleftrightarrow> (\<exists>k < length counts. counts ! k < e)"
proof
  assume "0 < capacity e counts"
  then show "\<exists>k < length counts. counts ! k < e"
  proof (rule contrapos_pp)
    assume "\<not> (\<exists>k < length counts. counts ! k < e)"
    then have "\<forall>c \<in> set counts. e \<le> c" by (metis in_set_conv_nth not_less)
    then have "\<forall>c \<in> set counts. max 0 (e - c) = 0" by simp
    then show "\<not> 0 < capacity e counts" unfolding capacity_def by (simp cong: map_cong)
  qed
next
  assume "\<exists>k < length counts. counts ! k < e"
  then obtain k where k: "k < length counts" "counts ! k < e" by blast
  have nonneg: "0 \<le> capacity e cs" for cs unfolding capacity_def by (rule sum_list_nonneg) auto
  then show "0 < capacity e counts" using capacity_update [OF k] nonneg [of "counts[k := counts ! k + 1]"] by simp
qed

lemma ceil_div: "0 < n \<Longrightarrow> x \<le> n * ((x + n - 1) div n)" for x n :: int
  using div_le_iff [of n "(x + n - 1) div n + 1" "x + n - 1"] by (simp add: algebra_simps)

text \<open>The cap that both routers compute leaves room for everything that is left.\<close>

lemma room_for_all:
  assumes "counts \<noteq> []" "py_max counts = Inr busiest" "0 \<le> left"
    and "(sum_list counts + left + int (length counts) - 1) div int (length counts) \<le> share"
    and "sum_list counts + left \<le> int (length counts) * m"
  shows "left \<le> capacity (min (max share busiest) m) counts"
proof -
  let ?n = "int (length counts)" and ?e = "min (max share busiest) m"
  have n: "0 < ?n" using assms(1) by simp
  have "sum_list counts + left \<le> ?n * ((sum_list counts + left + ?n - 1) div ?n)" by (rule ceil_div [OF n])
  also have "\<dots> \<le> ?n * max share busiest" using assms(4) n by (intro mult_left_mono) auto
  finally have "sum_list counts + left \<le> ?n * ?e" using assms(5) by (simp add: min_def)
  then show ?thesis using capacity_lower [of counts ?e] by simp
qed

text \<open>What the second loop of a router has to do with the requests that are left.\<close>

definition distributes :: "nat \<Rightarrow> int \<Rightarrow> int list \<Rightarrow> assignment \<Rightarrow> request_item list \<Rightarrow> assignment \<Rightarrow> bool" where
  "distributes n e counts d items d' \<longleftrightarrow> map fst d' = ranks n \<and> all_given d' = all_given d + mset items \<and>
     (\<forall>k < n. \<exists>more. given d' k = given d k @ more \<and> (more \<noteq> [] \<longrightarrow> counts ! k + int (length more) \<le> e))"

section \<open>Balancing with the heap\<close>

abbreviation heap_room :: "int \<Rightarrow> heap_val list \<Rightarrow> int" where
  "heap_room e heap \<equiv> (\<Sum>(_, c, _)\<leftarrow>heap. e - c)"

lemma heap_room_mset: "mset h = mset h' \<Longrightarrow> heap_room e h = heap_room e h'"
  by (simp flip: sum_mset_sum_list)

lemma heap_room_insort: "heap_room e (insort v heap) = heap_room e (v # heap)"
  by (rule heap_room_mset) simp

lemma heap_room_filter:
  "heap_room e (filter (\<lambda>(_, c, _). c < e) (map (\<lambda>r. (tokens ! r, counts ! r, r)) xs)) =
     (\<Sum>r\<leftarrow>xs. max 0 (e - counts ! r))"
  by (induction xs) auto

lemma heap_room_start:
  "heap_room e (sort (filter (\<lambda>(_, c, _). c < e) (map (\<lambda>r. (tokens ! r, counts ! r, r)) [0..<length counts]))) =
     capacity e counts"
proof -
  have "map (\<lambda>r. max 0 (e - counts ! r)) [0..<length counts] = map (\<lambda>c. max 0 (e - c)) counts"
    by (rule nth_equalityI) auto
  then show ?thesis unfolding heap_room_mset [OF mset_sort] heap_room_filter capacity_def by (simp only:)
qed

lemma balance_loop:
  assumes "distinct (map (snd \<circ> snd) heap)" "\<forall>(t, c, r) \<in> set heap. c < e \<and> int r \<in> fst ` set sched"
    and "distinct (map fst sched)" "int (length items) \<le> heap_room e heap"
  shows "\<exists>heap' sched'. rfold (balance_step e) items (heap, sched) = Inr (heap', sched') \<and>
     map fst sched' = map fst sched \<and> all_given sched' = all_given sched + mset items \<and>
     (\<forall>k. \<exists>more. given sched' k = given sched k @ more \<and>
        (more \<noteq> [] \<longrightarrow> (\<exists>t c. (t, c, k) \<in> set heap \<and> c + int (length more) \<le> e)))"
  using assms
proof (induction items arbitrary: heap sched)
  case Nil
  then show ?case by simp
next
  case (Cons item items)
  obtain t c r h where heap: "heap = (t, c, r) # h"
    using Cons.prems(4) by (cases heap) auto
  let ?v = "(t + req_tokens item, c + 1, r)"
  let ?h = "if c + 1 < e then insort ?v h else h"
  have r: "c < e" "int r \<in> fst ` set sched" "r \<notin> (snd \<circ> snd) ` set h" using Cons.prems(1,2) heap by auto
  obtain s1 where s1: "extend_rank (int r) [item] sched = Inr s1" "map fst s1 = map fst sched"
      "all_given s1 = all_given sched + mset [item]" "\<forall>k. given s1 k = given sched k @ (if int k = int r then [item] else [])"
    using extend_rank_law [OF Cons.prems(3) r(2), of "[item]"] by auto
  have step: "balance_step e item (heap, sched) = Inr (?h, s1)" using s1(1) by (simp add: balance_step_def heap)
  have keys: "fst ` set s1 = fst ` set sched" using s1(2) by (metis set_map)
  have h: "set ?h \<subseteq> insert ?v (set h)" by (auto simp: set_insort_key)
  have "mset (map (snd \<circ> snd) (insort ?v h)) = mset (map (snd \<circ> snd) (?v # h))" by simp
  then have "distinct (map (snd \<circ> snd) (insort ?v h)) \<longleftrightarrow> distinct (map (snd \<circ> snd) (?v # h))"
    by (rule mset_eq_imp_distinct_iff)
  then have 1: "distinct (map (snd \<circ> snd) ?h)" using Cons.prems(1) heap by (auto simp: o_def)
  have 2: "\<forall>(t, c, r) \<in> set ?h. c < e \<and> int r \<in> fst ` set s1"
    using h Cons.prems(2) heap r(1) keys by (auto simp: set_insort_key)
  have "heap_room e ?h = heap_room e heap - 1" using r(1) heap by (auto simp: heap_room_insort)
  then have 3: "int (length items) \<le> heap_room e ?h" using Cons.prems(4) by simp
  obtain heap' sched' where ih: "rfold (balance_step e) items (?h, s1) = Inr (heap', sched')"
      "map fst sched' = map fst s1" "all_given sched' = all_given s1 + mset items"
      "\<forall>k. \<exists>more. given sched' k = given s1 k @ more \<and>
        (more \<noteq> [] \<longrightarrow> (\<exists>t c. (t, c, k) \<in> set ?h \<and> c + int (length more) \<le> e))"
    using Cons.IH [OF 1 2 _ 3] Cons.prems(3) s1(2) by auto
  have "\<exists>more. given sched' k = given sched k @ more \<and>
      (more \<noteq> [] \<longrightarrow> (\<exists>t c. (t, c, k) \<in> set heap \<and> c + int (length more) \<le> e))" for k
  proof -
    obtain more where more: "given sched' k = given s1 k @ more"
        "more \<noteq> [] \<longrightarrow> (\<exists>t c. (t, c, k) \<in> set ?h \<and> c + int (length more) \<le> e)"
      using ih(4) by blast
    show ?thesis
    proof (cases "k = r")
      case True
      have "c + int (length (item # more)) \<le> e"
        using more(2) True h r by (cases "more = []") (force split: if_splits)+
      then show ?thesis using more(1) s1(4) True heap by (intro exI [of _ "item # more"]) auto
    next
      case False
      then show ?thesis using more h s1(4) heap by (intro exI [of _ more]) force
    qed
  qed
  then show ?case using ih(1,2,3) step s1(2,3) by simp
qed

lemma extend_all:
  assumes "distinct (map fst sched)" "fst ` set sched \<subseteq> set (ranks n)" "map fst d = ranks n"
  shows "\<exists>d'. rfold (\<lambda>(rank, reqs). extend_rank rank reqs) sched d = Inr d' \<and> map fst d' = ranks n \<and>
     all_given d' = all_given d + all_given sched \<and> (\<forall>k. given d' k = given d k @ given sched k)"
  using assms
proof (induction sched arbitrary: d)
  case Nil
  then show ?case by (simp add: given_def)
next
  case (Cons x sched)
  obtain r reqs where x: "x = (r, reqs)" by (cases x)
  obtain k where k: "k < n" "r = int k" using Cons.prems(2) x by auto
  obtain d1 where d1: "extend_rank (int k) reqs d = Inr d1" "map fst d1 = ranks n"
      "all_given d1 = all_given d + mset reqs" "\<forall>j. given d1 j = given d j @ (if j = k then reqs else [])"
    using extend_rank_ranks [OF Cons.prems(3) k(1)] by blast
  obtain d' where d': "rfold (\<lambda>(rank, reqs). extend_rank rank reqs) sched d1 = Inr d'" "map fst d' = ranks n"
      "all_given d' = all_given d1 + all_given sched" "\<forall>k. given d' k = given d1 k @ given sched k"
    using Cons.IH [of d1] Cons.prems d1(2) by auto
  have "map_of sched (int k) = None" using Cons.prems(1) x k by (simp add: map_of_eq_None_iff)
  then have "given ((r, reqs) # sched) j = (if j = k then reqs else given sched j)" for j
    using k by (simp add: given_def)
  moreover have "given sched k = []" using \<open>map_of sched (int k) = None\<close> by (simp add: given_def)
  ultimately show ?case using d1 d' k x by (auto simp: ac_simps)
qed

lemma balance_distributes:
  assumes "length counts = n" "map fst d = ranks n" "int (length items) \<le> capacity e counts"
  shows "\<exists>d'. balance_requests_across_ranks items d counts tokens e = Inr d' \<and> distributes n e counts d items d'"
proof (cases "items = []")
  case True
  then show ?thesis using assms(2) by (simp add: balance_requests_across_ranks_def distributes_def)
next
  case False
  define heap where "heap = filter (\<lambda>(_, c, _). c < e) (map (\<lambda>r. (tokens ! r, counts ! r, r)) [0..<length counts])"
  define sched where "sched = (map (\<lambda>(_, _, r). (int r, [])) heap :: assignment)"
  let ?items = "sort_key (\<lambda>x. - req_tokens x) items"
  have mem: "(t, c, r) \<in> set heap \<longleftrightarrow> r < n \<and> t = tokens ! r \<and> c = counts ! r \<and> counts ! r < e" for t c r
    using assms(1) by (auto simp: heap_def)
  have "distinct (map (snd \<circ> snd) heap)"
    unfolding heap_def by (rule distinct_map_filter) (simp add: distinct_map inj_on_def)
  then have hd: "distinct (map (snd \<circ> snd) (sort heap))" and "distinct (map int (map (snd \<circ> snd) heap))"
    using mset_eq_imp_distinct_iff [of "map (snd \<circ> snd) (sort heap)" "map (snd \<circ> snd) heap"]
    by (simp, metis distinct_map inj_on_of_nat inj_on_subset subset_UNIV)
  moreover have fsts: "map fst sched = map int (map (snd \<circ> snd) heap)" by (simp add: sched_def case_prod_beta o_def)
  ultimately have sd: "distinct (map fst sched)" by simp
  have members: "\<forall>(t, c, r) \<in> set (sort heap). c < e \<and> int r \<in> fst ` set sched"
    using mem unfolding sched_def by force
  have room: "int (length ?items) \<le> heap_room e (sort heap)"
    using assms(3) unfolding heap_def heap_room_start by simp
  obtain heap' sched' where loop: "rfold (balance_step e) ?items (sort heap, sched) = Inr (heap', sched')"
      "map fst sched' = map fst sched" "all_given sched' = all_given sched + mset ?items"
      "\<forall>k. \<exists>more. given sched' k = given sched k @ more \<and>
        (more \<noteq> [] \<longrightarrow> (\<exists>t c. (t, c, k) \<in> set (sort heap) \<and> c + int (length more) \<le> e))"
    using balance_loop [OF hd members sd room] by blast
  have "set (map fst sched') \<subseteq> set (ranks n)" unfolding loop(2) fsts using mem by auto
  then have sub: "fst ` set sched' \<subseteq> set (ranks n)" by (simp only: set_map)
  obtain d' where d': "rfold (\<lambda>(rank, reqs). extend_rank rank reqs) sched' d = Inr d'" "map fst d' = ranks n"
      "all_given d' = all_given d + all_given sched'" "\<forall>k. given d' k = given d k @ given sched' k"
    using extend_all [OF sd [folded loop(2)] sub assms(2)] by blast
  have empty: "given sched k = []" for k
    by (auto simp: given_def sched_def split: option.splits dest!: map_of_SomeD)
  have "all_given sched = {#}" by (simp add: sched_def case_prod_beta o_def)
  then have "all_given d' = all_given d + mset items" using d'(3) loop(3) by simp
  moreover have "\<exists>more. given d' k = given d k @ more \<and> (more \<noteq> [] \<longrightarrow> counts ! k + int (length more) \<le> e)" for k
    using loop(4) [rule_format, of k] d'(4) empty mem by auto
  ultimately have "distributes n e counts d items d'" using d'(2) unfolding distributes_def by blast
  moreover have "balance_requests_across_ranks items d counts tokens e = Inr d'"
    using False loop(1) d'(1) by (simp add: balance_requests_across_ranks_def Let_def heap_def sched_def)
  ultimately show ?thesis by blast
qed

section \<open>Choosing by score\<close>

lemma rmap_map: "(\<And>x. x \<in> set xs \<Longrightarrow> f x = Inr (g x)) \<Longrightarrow> rmap f xs = Inr (map g xs)"
  by (induction xs) auto

text \<open>\<open>precedes sc ld a b\<close>: rank \<open>a\<close> has the lower score, or the same score and no more load.\<close>

definition precedes :: "(nat \<Rightarrow> real) \<Rightarrow> (nat \<Rightarrow> real) \<Rightarrow> nat \<Rightarrow> nat \<Rightarrow> bool" where
  "precedes sc ld a b \<longleftrightarrow> sc a < sc b \<or> sc a = sc b \<and> ld a \<le> ld b"

lemma precedes_refl [simp]: "precedes sc ld a a"
  by (simp add: precedes_def)

lemma precedes_trans: "precedes sc ld a b \<Longrightarrow> precedes sc ld b c \<Longrightarrow> precedes sc ld a c"
  by (auto simp: precedes_def)

lemma pick_fold:
  assumes "\<And>k st. k \<in> set ks \<Longrightarrow> step k st = Inr (if kv_better (sc k) (ld k) (snd st) (ld (fst st)) then (k, Some (sc k)) else st)"
  shows "\<exists>b'. rfold step ks (b, Some (sc b)) = Inr (b', Some (sc b')) \<and> b' \<in> insert b (set ks) \<and>
     (\<forall>k \<in> insert b (set ks). precedes sc ld b' k)"
  using assms
proof (induction ks arbitrary: b)
  case (Cons k ks)
  define c where "c = (if sc k < sc b \<or> sc k = sc b \<and> ld k < ld b then k else b)"
  have "kv_better (sc k) (ld k) (Some (sc b)) (ld b) \<longleftrightarrow> sc k < sc b \<or> sc k = sc b \<and> ld k < ld b"
    by (simp add: kv_better_def)
  then have step: "step k (b, Some (sc b)) = Inr (c, Some (sc c))" using Cons.prems [of k "(b, Some (sc b))"] c_def by simp
  obtain b' where b': "rfold step ks (c, Some (sc c)) = Inr (b', Some (sc b'))" "b' \<in> insert c (set ks)"
      "\<forall>k \<in> insert c (set ks). precedes sc ld b' k"
    using Cons.IH [of c] Cons.prems by auto
  have "precedes sc ld c k" "precedes sc ld c b" "c \<in> {b, k}" by (auto simp: precedes_def c_def)
  then have "precedes sc ld b' k" "precedes sc ld b' b" "b' \<in> insert b (set (k # ks))"
    using b'(2,3) precedes_trans [of sc ld b' c] by auto
  then show ?case using step b' by auto
qed simp

definition kv_score :: "kv_router \<Rightarrow> int \<Rightarrow> int \<Rightarrow> real \<Rightarrow> real \<Rightarrow> real" where
  "kv_score r tokens matched load denom =
     of_int (tokens - matched) + load_balance_weight r * (load / denom * of_int tokens)"

definition affinity_active :: "kv_router \<Rightarrow> request_item \<Rightarrow> (nat \<Rightarrow> int) \<Rightarrow> nat list \<Rightarrow> bool" where
  "affinity_active r item ml eligible \<longleftrightarrow>
     match_rate_threshold r < of_int (Max (ml ` set eligible)) / of_int (max (req_tokens item) 1)"

abbreviation load_denom :: "request_item \<Rightarrow> nat list \<Rightarrow> real list \<Rightarrow> real" where
  "load_denom item eligible loads \<equiv> max (\<Sum>k\<leftarrow>eligible. loads ! k) (of_int (req_tokens item))"

abbreviation rank_score :: "kv_router \<Rightarrow> request_item \<Rightarrow> (nat \<Rightarrow> int) \<Rightarrow> nat list \<Rightarrow> real list \<Rightarrow> nat \<Rightarrow> real" where
  "rank_score r item ml eligible loads k \<equiv>
     kv_score r (req_tokens item) (if affinity_active r item ml eligible then ml k else 0) (loads ! k)
       (load_denom item eligible loads)"

lemma kv_pick_result:
  assumes "0 < req_tokens item" "eligible \<noteq> []" "mset (shuffle (req_id item) eligible) = mset eligible"
  shows "\<exists>best. kv_pick r shuffle item eligible (map (\<lambda>k. (k, ml k)) eligible) loads = Inr best \<and> best \<in> set eligible \<and>
     (\<forall>k \<in> set eligible. precedes (rank_score r item ml eligible loads) (\<lambda>k. loads ! k) best k)"
proof -
  let ?order = "shuffle (req_id item) eligible" and ?ml = "map (\<lambda>k. (k, ml k)) eligible"
  let ?aff = "affinity_active r item ml eligible" and ?denom = "load_denom item eligible loads"
  let ?sc = "rank_score r item ml eligible loads"
  let ?step = "kv_pick_step r (req_tokens item) ?ml ?aff loads ?denom"
  have set: "set ?order = set eligible" using assms(3) by (metis set_mset_mset)
  obtain first rest where order: "?order = first # rest" using set assms(2) by (cases ?order) auto
  have denom: "?denom \<noteq> 0" using assms(1) by (simp add: max_def)
  have lookup: "map_of ?ml k = Some (ml k)" if "k \<in> set eligible" for k
    using that by (simp add: map_of_map_restrict)
  have step: "?step k st = Inr (if kv_better (?sc k) (loads ! k) (snd st) (loads ! fst st) then (k, Some (?sc k)) else st)"
    if "k \<in> set ?order" for k st
    using denom lookup [of k] that set
    by (simp add: kv_pick_step_def score_rank_def kv_score_def Let_def)
  have start: "?step first (first, None) = Inr (first, Some (?sc first))"
    using step [of first "(first, None)"] order by (simp add: kv_better_def)
  obtain b where b: "rfold ?step rest (first, Some (?sc first)) = Inr (b, Some (?sc b))" "b \<in> insert first (set rest)"
      "\<forall>k \<in> insert first (set rest). precedes ?sc (\<lambda>k. loads ! k) b k"
    using pick_fold [of rest ?step ?sc "\<lambda>k. loads ! k" first] step order by auto
  have members: "insert first (set rest) = set eligible" using set order by simp
  have max: "(case ?ml of [] \<Rightarrow> 0 | _ \<Rightarrow> Max (set (map snd ?ml))) = Max (ml ` set eligible)"
    using assms(2) by (cases eligible) (simp_all add: image_image)
  have "kv_pick r shuffle item eligible ?ml loads = Inr b"
    using start b(1) order max unfolding kv_pick_def Let_def affinity_active_def by (simp)
  then show ?thesis using b members by auto
qed

definition eligible_ok :: "nat \<Rightarrow> int \<Rightarrow> int list \<Rightarrow> nat list \<Rightarrow> bool" where
  "eligible_ok n e counts eligible \<longleftrightarrow> distinct eligible \<and> set eligible = {k. k < n \<and> counts ! k < e}"

lemma eligible_ok_step:
  assumes "eligible_ok n e counts eligible" "best \<in> set eligible" "length counts = n"
    and "counts' = counts[best := counts ! best + 1]"
  shows "eligible_ok n e counts' (if counts' ! best \<ge> e then remove1 best eligible else eligible)"
proof -
  have nth: "counts' ! k = (if k = best then counts ! best + 1 else counts ! k)" if "k < n" for k
    using that assms(3,4) by (simp add: nth_list_update)
  have best: "best < n" "counts ! best < e" "distinct eligible" using assms(1,2) by (auto simp: eligible_ok_def)
  show ?thesis
  proof (cases "counts' ! best \<ge> e")
    case True
    then have "{k. k < n \<and> counts' ! k < e} = {k. k < n \<and> counts ! k < e} - {best}" using nth best by (auto split: if_splits)
    then show ?thesis using True assms(1) best(3) by (simp add: eligible_ok_def)
  next
    case False
    then have "{k. k < n \<and> counts' ! k < e} = {k. k < n \<and> counts ! k < e}" using nth best by (auto split: if_splits)
    then show ?thesis using False assms(1) by (simp add: eligible_ok_def)
  qed
qed

lemma kv_route_step_result:
  assumes "length counts = n" "length loads = n" "map fst d = ranks n" "eligible_ok n e counts eligible"
    and "eligible \<noteq> []" "0 < req_tokens item" "mset (shuffle (req_id item) eligible) = mset eligible"
  shows "\<exists>best loads' d' eligible'. kv_route_step r shuffle e item (counts, loads, d, eligible) =
       Inr (counts[best := counts ! best + 1], loads', d', eligible') \<and> best \<in> set eligible \<and>
     length loads' = n \<and> map fst d' = ranks n \<and> all_given d' = all_given d + {#item#} \<and>
     (\<forall>j. given d' j = given d j @ (if j = best then [item] else [])) \<and>
     eligible_ok n e (counts[best := counts ! best + 1]) eligible'"
proof -
  have "\<exists>ml. \<forall>k. match_len r (int k) (req_id item) = Inr (ml k)" by (rule choice) (simp add: match_len_total)
  then obtain ml where ml: "\<And>k. match_len r (int k) (req_id item) = Inr (ml k)" by blast
  then have lens: "rmap (\<lambda>k. rbind (match_len r (int k) (req_id item)) (\<lambda>m. Inr (k, m))) eligible =
      Inr (map (\<lambda>k. (k, ml k)) eligible)"
    by (intro rmap_map) simp
  obtain best where best: "kv_pick r shuffle item eligible (map (\<lambda>k. (k, ml k)) eligible) loads = Inr best"
      "best \<in> set eligible"
    using kv_pick_result [of item eligible shuffle r ml loads] assms(5,6,7) by blast
  then have "best < n" using assms(4) by (auto simp: eligible_ok_def)
  then obtain d' where d': "extend_rank (int best) [item] d = Inr d'" "map fst d' = ranks n"
      "all_given d' = all_given d + mset [item]" "\<forall>j. given d' j = given d j @ (if j = best then [item] else [])"
    using extend_rank_ranks [OF assms(3)] by blast
  show ?thesis
    using lens best d' assms(2) eligible_ok_step [OF assms(4) best(2) assms(1) HOL.refl]
    by (intro exI [of _ best]) (simp add: kv_route_step_def Let_def)
qed

lemma kv_route_loop_distributes:
  assumes "length counts = n" "length loads = n" "map fst d = ranks n" "eligible_ok n e counts eligible"
    and "\<forall>item \<in> set items. 0 < req_tokens item" "\<And>i ks. mset (shuffle i ks) = mset ks"
    and "int (length items) \<le> capacity e counts"
  shows "\<exists>d'. kv_route_loop r shuffle e items (counts, loads, d, eligible) = Inr d' \<and> distributes n e counts d items d'"
  using assms
proof (induction items arbitrary: counts loads d eligible)
  case Nil
  show ?case using Nil.prems(3) by (simp add: distributes_def)
next
  case (Cons item items)
  have "0 < capacity e counts" using Cons.prems(7) by simp
  have tok: "0 < req_tokens item" using Cons.prems(5) by simp
  have "\<exists>k. k \<in> set eligible"
    using \<open>0 < capacity e counts\<close> Cons.prems(1,4) unfolding capacity_pos eligible_ok_def by blast
  then have ne: "eligible \<noteq> []" by auto
  obtain best loads' d1 eligible' where
    step: "kv_route_step r shuffle e item (counts, loads, d, eligible) =
       Inr (counts[best := counts ! best + 1], loads', d1, eligible')" "best \<in> set eligible"
      "length loads' = n" "map fst d1 = ranks n" "all_given d1 = all_given d + {#item#}"
      "\<forall>j. given d1 j = given d j @ (if j = best then [item] else [])"
      "eligible_ok n e (counts[best := counts ! best + 1]) eligible'"
    using kv_route_step_result [of counts n loads d e eligible item shuffle r, OF Cons.prems(1-4) ne tok Cons.prems(6)]
    by blast
  let ?c = "counts[best := counts ! best + 1]"
  have best: "best < n" "counts ! best < e" using step(2) Cons.prems(4) by (auto simp: eligible_ok_def)
  have cap: "int (length items) \<le> capacity e ?c" using Cons.prems(1,7) best by (simp add: capacity_update)
  have pre: "length ?c = n" "\<forall>item \<in> set items. 0 < req_tokens item" using Cons.prems(1,5) by simp_all
  obtain d' where d': "kv_route_loop r shuffle e items (?c, loads', d1, eligible') = Inr d'"
      "distributes n e ?c d1 items d'"
    using Cons.IH [OF pre(1) step(3,4,7) pre(2) Cons.prems(6) cap] by blast
  have "\<exists>more. given d' k = given d k @ more \<and> (more \<noteq> [] \<longrightarrow> counts ! k + int (length more) \<le> e)" if k: "k < n" for k
  proof -
    obtain more where more: "given d' k = given d1 k @ more" "more \<noteq> [] \<longrightarrow> ?c ! k + int (length more) \<le> e"
      using d'(2) k unfolding distributes_def by blast
    then show ?thesis
      using best step(6) Cons.prems(1) k
      by (cases "k = best") (auto intro: exI [of _ "item # more"])
  qed
  then have "distributes n e counts d (item # items) d'"
    using d'(2) step(5) unfolding distributes_def by (simp add: ac_simps)
  then show ?case using ne step(1) d'(1) by auto
qed

section \<open>Both routers\<close>

text \<open>
  What a router promises: every request goes to exactly one rank, no rank gets above \<open>m\<close> active requests
  (unless it is already), and when the strict requests fit they are where they have to be.
\<close>

definition routed :: "rank_state list \<Rightarrow> request_item list \<Rightarrow> int \<Rightarrow> assignment \<Rightarrow> bool" where
  "routed states items m d \<longleftrightarrow>
     map fst d = map rs_rank states \<and> mset (concat (map snd d)) = mset items \<and>
     (\<forall>k < length states. num_active_requests (states ! k) + int (length (given d k))
        \<le> max (num_active_requests (states ! k)) m) \<and>
     ((\<forall>k < length states. num_active_requests (states ! k) + int (length (filter (pinned k) items)) \<le> m) \<longrightarrow>
        (\<forall>k < length states. \<forall>item \<in> set items. pinned k item \<longrightarrow> item \<in> set (given d k)))"

lemma sum_list_given:
  assumes "length counts = n" "length counts' = n" "\<forall>k < n. counts' ! k = counts ! k + int (f k)"
  shows "sum_list counts' = sum_list counts + int (\<Sum>k < n. f k)"
  using assms by (simp add: sum_list_sum_nth sum.distrib atLeast0LessThan)

lemma length_all_given:
  assumes "map fst d = ranks n"
  shows "size (all_given d) = (\<Sum>k < n. length (given d k))"
proof -
  have len: "length d = n" using arg_cong [OF assms, of length] by simp
  have "given d k = snd (d ! k)" if "k < n" for k
  proof -
    have "fst (d ! k) = int k" using assms that len by (metis add_0 diff_zero length_upt nth_map nth_upt)
    moreover have "d ! k \<in> set d" using that len by simp
    ultimately have "map_of d (int k) = Some (snd (d ! k))"
      using map_of_is_SomeI [OF ranks_distinct [OF assms], of "int k" "snd (d ! k)"] by (metis prod.collapse)
    then show ?thesis by (simp add: given_def)
  qed
  moreover have "size (all_given d) = (\<Sum>k < n. length (snd (d ! k)))"
    using len by (simp add: length_concat sum_list_sum_nth atLeast0LessThan o_def)
  ultimately show ?thesis by simp
qed

lemma routed_combine:
  assumes "length states = n" "map rs_rank states = ranks n"
    and "all_given d1 + mset left = mset items"
    and "\<And>k. k < n \<Longrightarrow> c1 ! k = num_active_requests (states ! k) + int (length (given d1 k)) \<and> (given d1 k \<noteq> [] \<longrightarrow> c1 ! k \<le> m)"
    and "(\<forall>k < n. num_active_requests (states ! k) + int (length (filter (pinned k) items)) \<le> m) \<longrightarrow>
        (\<forall>k < n. \<forall>item \<in> set items. pinned k item \<longrightarrow> item \<in> set (given d1 k))"
    and "distributes n e c1 d1 left' d" "mset left' = mset left" "e \<le> m"
  shows "routed states items m d"
proof -
  have more: "\<exists>more. given d k = given d1 k @ more \<and> (more \<noteq> [] \<longrightarrow> c1 ! k + int (length more) \<le> e)" if "k < n" for k
    using assms(6) that unfolding distributes_def by blast
  have "num_active_requests (states ! k) + int (length (given d k)) \<le> max (num_active_requests (states ! k)) m"
    if k: "k < n" for k
  proof -
    obtain ms where ms: "given d k = given d1 k @ ms" "ms \<noteq> [] \<longrightarrow> c1 ! k + int (length ms) \<le> e"
      using more [OF k] by blast
    then show ?thesis using assms(4) [OF k] assms(8) by (cases "ms = []"; cases "given d1 k = []") auto
  qed
  moreover have "set (given d1 k) \<subseteq> set (given d k)" if "k < n" for k using more [OF that] by auto
  moreover have "map fst d = ranks n" "all_given d = mset items"
    using assms(3,6,7) unfolding distributes_def by (simp_all add: ac_simps)
  ultimately show ?thesis using assms(1,2,5) unfolding routed_def by (simp, blast)
qed

lemma total_after_targets:
  assumes "length c0 = n" "length c1 = n" "map fst d1 = ranks n" "all_given d1 + mset left = mset items"
    and "\<And>k. k < n \<Longrightarrow> c1 ! k = c0 ! k + int (length (given d1 k))"
  shows "sum_list c1 + int (length left) = sum_list c0 + int (length items)"
proof -
  have "size (all_given d1) + length left = length items"
    using arg_cong [OF assms(4), of size] by simp
  then have "int (length items) = int (\<Sum>k < n. length (given d1 k)) + int (length left)"
    unfolding length_all_given [OF assms(3)] by (simp only: of_nat_add [symmetric])
  moreover have "sum_list c1 = sum_list c0 + int (\<Sum>k < n. length (given d1 k))"
    using assms(5) by (intro sum_list_given [OF assms(1,2)]) simp
  ultimately show ?thesis by (simp only: add.assoc)
qed

lemma py_max_total: "xs \<noteq> [] \<Longrightarrow> \<exists>b. py_max xs = Inr b"
  by (cases xs) (simp_all add: py_max_def)

lemma default_routes:
  assumes "length states = n" "map rs_rank states = ranks n" "0 < n" "\<forall>item \<in> set items. rank_ok n item"
    and "(\<Sum>s\<leftarrow>states. num_active_requests s) + int (length items) \<le> int n * m"
  shows "\<exists>d e. default_route_requests states items m = Inr (d, e) \<and> e \<le> m \<and> routed states items m d"
proof -
  let ?c0 = "map num_active_requests states" and ?d0 = "new_assignment states"
  note d0 = new_assignment_shape [OF assms(2)]
  have ok: "target_ok n (?c0, ?d0, [])" using assms(1) d0 by (simp add: target_ok_def)
  obtain s where s: "rfold (default_target_step m) (sort_key get_relax_value items) (?c0, ?d0, []) = Inr s"
      "dr.advances n m items (?c0, ?d0, []) s"
      "(\<forall>k < n. ?c0 ! k + int (length (filter (pinned k) items)) \<le> m) \<longrightarrow>
        (\<forall>k < n. \<forall>item \<in> set items. pinned k item \<longrightarrow> item \<in> set (given (fst (snd s)) k))"
    using dr.targets_first [OF ok assms(4), of m] by auto
  obtain c1 d1 left where st: "s = (c1, d1, left)" by (cases s)
  have shape: "length c1 = n" "map fst d1 = ranks n" "all_given d1 + mset left = mset items"
    using s(2) d0 by (auto simp: dr.advances_def st target_ok_def)
  have c1: "c1 ! k = num_active_requests (states ! k) + int (length (given d1 k)) \<and> (given d1 k \<noteq> [] \<longrightarrow> c1 ! k \<le> m)"
    if "k < n" for k
    using s(2) d0 that assms(1) by (auto simp: dr.advances_def st)
  then have "c1 ! k = ?c0 ! k + int (length (given d1 k))" if "k < n" for k
    using that assms(1) by simp
  then have tot: "sum_list c1 + int (length left) = sum_list ?c0 + int (length items)"
    using total_after_targets [of ?c0 n c1 d1 left items] assms(1) shape by simp
  have ne: "c1 \<noteq> []" using shape(1) assms(3) by auto
  obtain b where b: "py_max c1 = Inr b" using py_max_total [OF ne] by blast
  define e where "e = min (max ((sum_list c1 + int (length left) + int n - 1) div int n) b) m"
  have "int (length left) \<le> capacity e c1"
    unfolding e_def using room_for_all [OF ne b, of "int (length left)" _ m] tot assms(5) shape(1) by simp
  then obtain d where d: "balance_requests_across_ranks left d1 c1 (map num_active_tokens states) e = Inr d"
      "distributes n e c1 d1 left d"
    using balance_distributes [OF shape(1,2)] by blast
  have "default_route_requests states items m = Inr (d, e)"
    using s(1) b d(1) assms(1,3) by (auto simp: default_route_requests_def st e_def Let_def)
  moreover have "e \<le> m" by (simp add: e_def)
  moreover have "routed states items m d"
    using routed_combine [OF assms(1,2) shape(3) c1 _ d(2) HOL.refl \<open>e \<le> m\<close>] s(3) assms(1) by (simp add: st)
  ultimately show ?thesis by blast
qed

lemma kv_routes:
  assumes "length states = n" "map rs_rank states = ranks n" "0 < n" "\<forall>item \<in> set items. rank_ok n item"
    and "(\<Sum>s\<leftarrow>states. num_active_requests s) + int (length items) \<le> int n * m"
    and "1 \<le> fair_share_multiplier r" "set (pending_warmup_ranks r) \<subseteq> set (ranks n)"
    and "\<forall>item \<in> set items. 0 < req_tokens item" "\<And>i ks. mset (shuffle i ks) = mset ks"
    and "\<forall>s \<in> set states. 0 \<le> num_active_requests s"
  shows "\<exists>d e r'. kv_route_requests shuffle states items m r = Inr (d, e, r') \<and> e \<le> m \<and> routed states items m d"
proof -
  let ?c0 = "map num_active_requests states" and ?l0 = "map (real_of_int \<circ> num_active_tokens) states"
  let ?s0 = "(?c0, ?l0, new_assignment states, pending_warmup_ranks r, [])"
  note d0 = new_assignment_shape [OF assms(2)]
  have ok: "kv_target_ok n ?s0" using assms(1,7) d0 by (simp add: kv_target_ok_def)
  obtain s where s: "rfold (kv_target_step r m) (sort_key get_relax_value items) ?s0 = Inr s"
      "kr.advances n m items ?s0 s"
      "(\<forall>k < n. ?c0 ! k + int (length (filter (pinned k) items)) \<le> m) \<longrightarrow>
        (\<forall>k < n. \<forall>item \<in> set items. pinned k item \<longrightarrow> item \<in> set (given ((\<lambda>(_, _, d, _). d) s) k))"
    using kr.targets_first [OF ok assms(4), of r m] unfolding fst_conv by blast
  obtain c1 l1 d1 pend left where st: "s = (c1, l1, d1, pend, left)" by (cases s)
  have shape: "length c1 = n" "map fst d1 = ranks n" "all_given d1 + mset left = mset items" "length l1 = n"
    using s(2) d0 by (auto simp: kr.advances_def st kv_target_ok_def)
  have c1: "c1 ! k = num_active_requests (states ! k) + int (length (given d1 k)) \<and> (given d1 k \<noteq> [] \<longrightarrow> c1 ! k \<le> m)"
    if "k < n" for k
    using s(2) d0 that assms(1) by (auto simp: kr.advances_def st)
  then have "c1 ! k = ?c0 ! k + int (length (given d1 k))" if "k < n" for k
    using that assms(1) by simp
  then have tot: "sum_list c1 + int (length left) = sum_list ?c0 + int (length items)"
    using total_after_targets [of ?c0 n c1 d1 left items] assms(1) shape by simp
  have ne: "c1 \<noteq> []" using shape(1) assms(3) by auto
  obtain b where b: "py_max c1 = Inr b" using py_max_total [OF ne] by blast
  let ?left = "sort_key kv_sort_key left"
  define fair where "fair = (sum_list c1 + int (length ?left) + int n - 1) div int n"
  define e where "e = min (max \<lceil>fair_share_multiplier r * of_int fair\<rceil> b) m"
  have "0 \<le> sum_list ?c0" using assms(10) by (intro sum_list_nonneg) auto
  then have "0 \<le> fair" unfolding fair_def using tot assms(3) by (intro pos_imp_zdiv_nonneg_iff [THEN iffD2]) auto
  then have "of_int fair \<le> fair_share_multiplier r * of_int fair"
    using assms(6) mult_right_mono [of 1 "fair_share_multiplier r" "of_int fair"] by simp
  then have "fair \<le> \<lceil>fair_share_multiplier r * of_int fair\<rceil>" by (simp add: le_ceiling_iff less_le_trans)
  then have cap: "int (length ?left) \<le> capacity e c1"
    unfolding e_def using room_for_all [OF ne b, of "int (length ?left)" _ m] tot assms(5) shape(1) fair_def by simp
  have left: "\<forall>item \<in> set ?left. 0 < req_tokens item"
    using assms(8) arg_cong [OF shape(3), of set_mset] by auto
  have "eligible_ok n e c1 (filter (\<lambda>k. c1 ! k < e) [0..<length states])"
    using assms(1) by (auto simp: eligible_ok_def)
  from kv_route_loop_distributes [where shuffle = shuffle and r = r, OF shape(1,4,2) this left assms(9) cap] obtain d where
    d: "kv_route_loop r shuffle e ?left (c1, l1, d1, filter (\<lambda>k. c1 ! k < e) [0..<length states]) = Inr d"
      "distributes n e c1 d1 ?left d"
    by blast
  have "kv_route_requests shuffle states items m r = Inr (d, e, r\<lparr>pending_warmup_ranks := pend\<rparr>)"
    using s(1) b d(1) assms(1,3) by (auto simp: kv_route_requests_def st e_def fair_def Let_def)
  moreover have "e \<le> m" by (simp add: e_def)
  moreover have "routed states items m d"
    using routed_combine [OF assms(1,2) shape(3) c1 _ d(2) mset_sort \<open>e \<le> m\<close>] s(3) assms(1) by (simp add: st)
  ultimately show ?thesis by blast
qed


text \<open>
  What a router needs: the cache-aware one divides by the request's tokens, may only warm up existing ranks,
  and spreads requests over a cap that is a multiple of the fair share.
\<close>

definition router_ready :: "nat \<Rightarrow> request_item list \<Rightarrow> adp_router \<Rightarrow> bool" where
  "router_ready n items router = (case router of
     DefaultADPRouter \<Rightarrow> True
   | KVCacheAwareADPRouter r \<Rightarrow> 1 \<le> fair_share_multiplier r \<and> set (pending_warmup_ranks r) \<subseteq> set (ranks n) \<and>
       (\<forall>item \<in> set items. 0 < req_tokens item))"

lemma route_requests_routed:
  assumes "map rs_rank states = ranks (length states)" "states \<noteq> []"
    and "\<forall>s \<in> set states. 0 \<le> num_active_requests s" "\<forall>item \<in> set items. rank_ok (length states) item"
    and "(\<Sum>s\<leftarrow>states. num_active_requests s) + int (length items) \<le> int (length states) * m"
    and "router_ready (length states) items router" "\<And>i ks. mset (shuffle i ks) = mset ks"
  shows "\<exists>d e router'. route_requests shuffle states items m router = Inr (d, e, router') \<and> e \<le> m \<and>
     routed states items m d"
proof (cases router)
  case DefaultADPRouter
  then show ?thesis
    using default_routes [OF HOL.refl assms(1) _ assms(4,5)] assms(2) by (auto simp: route_requests_def)
next
  case (KVCacheAwareADPRouter r)
  then show ?thesis
    using kv_routes [of states "length states" items m r shuffle] assms
    by (auto simp: route_requests_def router_ready_def)
qed

text \<open>
  C9. Both routers distribute correctly: when the new requests fit into the instance, \<open>route_requests\<close> returns,
  every request is given to exactly one rank, no rank is brought above \<open>max_num_active_requests\<close>, the cap it
  reports is at most that, and if the requests that insist on a rank fit there, each of them is on its
  rank. The cache-aware router needs a fair-share multiplier of at least one and requests with
  tokens; the shuffle is only assumed to permute the ranks.
\<close>

theorem routing_correct:
  assumes "map rs_rank states = ranks (length states)" "states \<noteq> []"
    and "\<forall>s \<in> set states. 0 \<le> num_active_requests s" "\<forall>item \<in> set items. rank_ok (length states) item"
    and "(\<Sum>s\<leftarrow>states. num_active_requests s) + int (length items) \<le> int (length states) * m"
    and "router_ready (length states) items router" "\<And>i ks. mset (shuffle i ks) = mset ks"
  shows "\<exists>d e router'. route_requests shuffle states items m router = Inr (d, e, router') \<and> e \<le> m \<and>
     map fst d = map rs_rank states \<and> mset (concat (map snd d)) = mset items \<and>
     (\<forall>k < length states. num_active_requests (states ! k) + int (length (given d k))
        \<le> max (num_active_requests (states ! k)) m) \<and>
     ((\<forall>k < length states. num_active_requests (states ! k) + int (length (filter (pinned k) items)) \<le> m) \<longrightarrow>
        (\<forall>k < length states. \<forall>item \<in> set items. pinned k item \<longrightarrow> item \<in> set (given d k)))"
  using route_requests_routed [where shuffle = shuffle, OF assms] unfolding routed_def by blast

abbreviation demo_states :: "rank_state list" where
  "demo_states \<equiv> map (\<lambda>k. \<lparr>rs_rank = k, num_active_requests = 1, num_active_tokens = 10,
     iter_stats = payload_of_list payload_defaults\<rparr>) [0, 1]"

abbreviation demo_kv_router :: "real \<Rightarrow> kv_router" where
  "demo_kv_router x \<equiv> kv_router_init 2 1 (1 / 10) x True"

theorem routing_correct_witness:
  "\<exists>d e router'. route_requests (\<lambda>_ ks. rev ks) demo_states demo_requests 3 (KVCacheAwareADPRouter (demo_kv_router 2)) =
       Inr (d, e, router') \<and> e \<le> 3 \<and> mset (concat (map snd d)) = mset demo_requests"
proof -
  obtain items states where it: "items = demo_requests" "states = demo_states" by blast
  have pre: "map rs_rank states = ranks (length states)" "states \<noteq> []" "\<forall>s \<in> set states. 0 \<le> num_active_requests s"
    "(\<Sum>s\<leftarrow>states. num_active_requests s) + int (length items) \<le> int (length states) * 3"
    by (simp_all add: it)
  have ok: "\<forall>item \<in> set items. rank_ok (length states) item"
    by (simp add: it rank_ok_def py_scheduling_params_def getattr_or_None_def)
  have ready: "router_ready (length states) items (KVCacheAwareADPRouter (demo_kv_router 2))"
    by (auto simp: it router_ready_def kv_router_init_def req_tokens_def)
  have "mset (rev ks) = mset ks" for ks :: "nat list" by simp
  from routing_correct [where shuffle = "\<lambda>_ ks. rev ks", OF pre(1,2,3) ok pre(4) ready this]
  have "\<exists>d e router'. route_requests (\<lambda>_ ks. rev ks) states items 3 (KVCacheAwareADPRouter (demo_kv_router 2)) =
       Inr (d, e, router') \<and> e \<le> 3 \<and> mset (concat (map snd d)) = mset items"
    by blast
  then show ?thesis unfolding it .
qed

text \<open>
  The cache-aware router picks the best rank: whatever the order in which it looks at the ranks, the one it
  chooses has the lowest score, and the lowest load among the ranks with that score.
\<close>

theorem kv_pick_minimal:
  assumes "0 < req_tokens item" "eligible \<noteq> []" "mset (shuffle (req_id item) eligible) = mset eligible"
  shows "\<exists>best. kv_pick r shuffle item eligible (map (\<lambda>k. (k, ml k)) eligible) loads = Inr best \<and> best \<in> set eligible \<and>
     (\<forall>k \<in> set eligible.
        rank_score r item ml eligible loads best < rank_score r item ml eligible loads k \<or>
        rank_score r item ml eligible loads best = rank_score r item ml eligible loads k \<and> loads ! best \<le> loads ! k) \<and>
     (\<forall>k \<in> set eligible. score_rank r (req_tokens item) (if affinity_active r item ml eligible then ml k else 0)
        (loads ! k) (load_denom item eligible loads) = Inr (rank_score r item ml eligible loads k))"
proof -
  have "load_denom item eligible loads \<noteq> 0" using assms(1) by (simp add: max_def)
  then show ?thesis
    using kv_pick_result [of item eligible shuffle r ml loads] assms
    unfolding precedes_def score_rank_def kv_score_def Let_def by simp
qed

theorem kv_pick_minimal_witness:
  "\<exists>best. kv_pick (demo_kv_router 2) (\<lambda>_ ks. rev ks) (hd demo_requests) [0, 1] [(0, 2), (1, 0)] [10, 10] = Inr best \<and>
     best \<in> {0, 1}"
  using kv_pick_minimal [of "hd demo_requests" "[0, 1]" "\<lambda>_ ks. rev ks" "demo_kv_router 2" "\<lambda>k. if k = 0 then 2 else 0" "[10, 10]"]
  by (simp add: req_tokens_def) blast

text \<open>
  With a fair-share multiplier below one the cache-aware router loses requests: on two idle ranks with room
  for four requests each, a multiplier of one half caps each rank at one of the four new requests, and the
  loop stops with the other two in no list.
\<close>

theorem kv_router_drops_requests:
  "rbind (route_requests (\<lambda>_ ks. ks)
       (map (\<lambda>k. \<lparr>rs_rank = k, num_active_requests = 0, num_active_tokens = 0,
          iter_stats = payload_of_list payload_defaults\<rparr>) [0, 1])
       (map (\<lambda>i. demo_item i (1 / 2) None None) [1, 2, 3, 4]) 4
       (KVCacheAwareADPRouter (kv_router_init 2 1 (1 / 10) (1 / 2) False)))
     (\<lambda>(d, _). Inr (map (\<lambda>(k, items). (k, map req_id items)) d)) = Inr [(0, [1]), (1, [2])]"
  by code_simp

text \<open>
  The state of a rank survives the exchange, and a shorter message is read with the defaults of the fields
  it leaves out.
\<close>

lemma payload_of_serialize: "payload_of_list (payload_serialize p) = p"
  by (simp add: payload_of_list_def payload_serialize_def)

lemma payload_serialize_of: "length v = 9 \<Longrightarrow> payload_serialize (payload_of_list v) = v"
  by (auto simp: payload_serialize_def payload_of_list_def eval_nat_numeral length_Suc_conv)

lemma payload_defaults_length: "length payload_defaults = 9"
  by (simp add: payload_defaults_def)

lemma payload_read:
  "length v \<le> 9 \<Longrightarrow> \<exists>p. payload_deserialize v = Inr p \<and> payload_serialize p = v @ drop (length v) payload_defaults"
  by (simp add: payload_deserialize_def payload_defaults_length payload_serialize_of)

lemma rs_read:
  assumes "1 \<le> length v" "length v \<le> 12"
  shows "\<exists>s. rs_deserialize v = Inr s \<and> rs_serialize s = v @ drop (length v) ([0, 0, 0] @ payload_defaults)"
proof -
  have "length (drop 3 v) \<le> 9" using assms(2) by simp
  then obtain p where p: "payload_deserialize (drop 3 v) = Inr p"
      "payload_serialize p = drop 3 v @ drop (length (drop 3 v)) payload_defaults"
    using payload_read by blast
  let ?h = "take 3 v @ drop (length (take 3 v)) [0, 0, 0]"
  have "length ?h = 3" using assms by simp
  moreover have "[xs ! 0, xs ! 1, xs ! 2] = xs" if "length xs = 3" for xs :: "int list"
    using that by (auto simp: eval_nat_numeral length_Suc_conv)
  ultimately have h: "[?h ! 0, ?h ! 1, ?h ! 2] = ?h" by blast
  have "\<exists>s. rs_deserialize v = Inr s \<and> rs_serialize s = ?h @ payload_serialize p"
    using p(1) assms h unfolding rs_deserialize_def payload_defaults_length rs_serialize_def Let_def by auto
  moreover have "?h @ payload_serialize p = v @ drop (length v) ([0, 0, 0] @ payload_defaults)"
    unfolding p(2) drop_append by (cases "length v \<le> 3") (simp_all add: eval_nat_numeral flip: append_assoc)
  ultimately show ?thesis by metis
qed

lemma payload_serialize_inject: "payload_serialize p = payload_serialize q \<Longrightarrow> p = q"
  by (metis payload_of_serialize)

lemma rs_serialize_inject: "rs_serialize s = rs_serialize t \<longleftrightarrow> s = t"
  by (cases s, cases t) (auto simp: rs_serialize_def dest: payload_serialize_inject)

theorem rank_state_round_trip:
  "rs_deserialize (rs_serialize s) = Inr s \<and>
   (0 < k \<longrightarrow> (\<exists>s'. rs_deserialize (take k (rs_serialize s)) = Inr s' \<and>
      rs_serialize s' = take k (rs_serialize s) @ drop k ([0, 0, 0] @ payload_defaults)))"
proof
  have len: "length (rs_serialize t) = 12" for t by (simp add: rs_serialize_def payload_serialize_def)
  obtain s' where "rs_deserialize (rs_serialize s) = Inr s'" "rs_serialize s' = rs_serialize s"
    using rs_read [of "rs_serialize s"] len by (auto simp: payload_defaults_length)
  then show "rs_deserialize (rs_serialize s) = Inr s" by (simp add: rs_serialize_inject)
  show "0 < k \<longrightarrow> (\<exists>s'. rs_deserialize (take k (rs_serialize s)) = Inr s' \<and>
      rs_serialize s' = take k (rs_serialize s) @ drop k ([0, 0, 0] @ payload_defaults))"
  proof
    assume "0 < k"
    let ?v = "take k (rs_serialize s)" and ?defaults = "[0, 0, 0] @ payload_defaults"
    have v: "1 \<le> length ?v" "length ?v \<le> 12" using \<open>0 < k\<close> len [of s] by auto
    have "length ?defaults = 12" by (simp add: payload_defaults_length)
    then have "drop (length ?v) ?defaults = drop k ?defaults" using len [of s] by (cases "k \<le> 12") auto
    then show "\<exists>s'. rs_deserialize ?v = Inr s' \<and> rs_serialize s' = ?v @ drop k ?defaults"
      using rs_read [OF v] by metis
  qed
qed

theorem rank_state_round_trip_witness:
  "rs_deserialize (rs_serialize (hd demo_states)) = Inr (hd demo_states) \<and>
   (\<exists>s'. rs_deserialize (take 2 (rs_serialize (hd demo_states))) = Inr s')"
  using rank_state_round_trip [of "hd demo_states" 2] by auto

end
