(* ===== verification/ContextPartition.thy ===== *)
theory ContextPartition
  imports RequestQueue
begin

text \<open>
  How a prompt is divided over the ranks of context parallelism, \<^verbatim>\<open>_torch/pyexecutor/request_utils.py\<close>: in
  round-robin blocks for Helix and in consecutive blocks with an anchor for Star Attention, and how the
  queue items become requests (\<open>merge_requests\<close>).

  The tensors hold one row and end up as lists (\<open>tolist\<close>), so they are lists of token numbers: \<open>torch.cat\<close> is
  concatenation, and an error for an empty sequence of tensors. The two operations of the tensor library that divide
  are arguments of the model: \<open>split n\<close> into pieces of \<open>n\<close> elements and \<open>tensor_split k\<close> into \<open>k\<close> sections.
\<close>

section \<open>Definitions\<close>

record torch_ops =
  split :: "nat \<Rightarrow> int list \<Rightarrow> int list list"
  tensor_split :: "nat \<Rightarrow> int list list \<Rightarrow> int list list list"

definition torch_cat :: "int list list \<Rightarrow> int list result" where
  "torch_cat ts = (if ts = [] then Inl RuntimeError else Inr (concat ts))"

definition arange :: "nat \<Rightarrow> int list" where
  "arange n = map int [0..<n]"

text \<open>\<open>xs[start::step]\<close> and \<open>xs[:-n]\<close>.\<close>

definition stride :: "nat \<Rightarrow> nat \<Rightarrow> 'a list \<Rightarrow> 'a list" where
  "stride start step xs = map (\<lambda>i. xs ! i) (filter (\<lambda>i. start \<le> i \<and> (i - start) mod step = 0) [0..<length xs])"

definition drop_last :: "nat \<Rightarrow> 'a list \<Rightarrow> 'a list" where
  "drop_last n xs = take (length xs - n) xs"

subsection \<open>Helix\<close>

definition partition_context_for_helix ::
  "torch_ops \<Rightarrow> int list \<Rightarrow> nat \<Rightarrow> nat \<Rightarrow> nat \<Rightarrow> (int list \<times> int list \<times> nat \<times> nat) result" where
  "partition_context_for_helix ops tokens cp_rank cp_size tokens_per_block =
     (if tokens_per_block = 0 then Inl ZeroDivisionError
      else
        let input_len = length tokens;
            num_total_blocks = (input_len + tokens_per_block - 1) div tokens_per_block
        in if num_total_blocks < cp_size then Inl ValueError
           else if cp_size = 0 then Inl ValueError
           else
             let padding_len = (if input_len mod tokens_per_block \<noteq> 0
                                then tokens_per_block - input_len mod tokens_per_block else 0);
                 all_input_ids = tokens @ replicate padding_len 0;
                 all_position_ids = arange (input_len + padding_len);
                 input_id_blocks = split ops tokens_per_block all_input_ids;
                 position_id_blocks = split ops tokens_per_block all_position_ids
             in rbind (torch_cat (stride cp_rank cp_size input_id_blocks)) (\<lambda>ids.
                rbind (torch_cat (stride cp_rank cp_size position_id_blocks)) (\<lambda>positions.
                  if cp_rank = (num_total_blocks - 1) mod cp_size \<and> padding_len > 0
                  then Inr (drop_last padding_len ids, drop_last padding_len positions, input_len, padding_len)
                  else Inr (ids, positions, input_len, padding_len))))"

subsection \<open>Star Attention\<close>

definition partition_context_for_star_attention ::
  "torch_ops \<Rightarrow> int list \<Rightarrow> nat \<Rightarrow> nat \<Rightarrow> nat option \<Rightarrow> nat option \<Rightarrow>
     (int list list \<times> int list list \<times> nat) result" where
  "partition_context_for_star_attention ops ctx_ids cp_rank cp_size block_size0 anchor0 =
     (let ctx_len = length ctx_ids in
      rbind (case block_size0 of Some b \<Rightarrow> Inr b
             | None \<Rightarrow> if cp_size = 0 then Inl ZeroDivisionError else Inr (ctx_len div cp_size)) (\<lambda>block_size.
      let anchor = (case anchor0 of Some a \<Rightarrow> a | None \<Rightarrow> block_size) in
      py_assert (anchor \<le> block_size)
       (if block_size = 0 then Inl ZeroDivisionError
        else
          let padding = (if ctx_len mod block_size \<noteq> 0 then block_size - ctx_len mod block_size else 0) in
          py_assert (padding \<le> ctx_len)
           (let ctx = ctx_ids @ replicate padding 0;
                positions = arange (length ctx);
                ctx_sections = tensor_split ops cp_size (split ops block_size ctx);
                position_sections = tensor_split ops cp_size (split ops block_size positions)
            in if cp_rank \<ge> length ctx_sections then Inl IndexError
               else rbind (if cp_rank \<noteq> 0
                           then (if ctx_sections ! 0 = [] then Inl IndexError
                                 else Inr ([take anchor (ctx_sections ! 0 ! 0)], [take anchor (position_sections ! 0 ! 0)]))
                           else Inr ([], [])) (\<lambda>(ctx_blocks, position_blocks).
                 Inr (ctx_blocks @ ctx_sections ! cp_rank, position_blocks @ position_sections ! cp_rank, padding))))))"

subsection \<open>From queue items to requests\<close>

text \<open>
  Python values that reach a parameter of \<open>executor_request_to_llm_request\<close>, whatever their type, and the fields
  of the new request that depend on them.
\<close>

datatype py_value = PyNone | PyBool bool | PyIntList "int list"

definition truthy :: "py_value \<Rightarrow> bool" where
  "truthy v = (case v of PyNone \<Rightarrow> False | PyBool b \<Rightarrow> b | PyIntList xs \<Rightarrow> xs \<noteq> [])"

record new_llm_request =
  lr_request_id :: int
  lr_input_tokens :: "int list"
  lr_position_ids :: "int list option"
  lr_exclude_last_generation_logits :: bool
  lr_child_requests :: "int list"

definition executor_request_to_llm_request ::
  "int \<Rightarrow> executor_request \<Rightarrow> py_value \<Rightarrow> py_value \<Rightarrow> int list option \<Rightarrow> int list option \<Rightarrow> new_llm_request result" where
  "executor_request_to_llm_request i r children exclude tokens positions =
     (let req = \<lparr>lr_request_id = i,
                 lr_input_tokens = (case tokens of Some ts \<Rightarrow> ts | None \<Rightarrow> input_token_ids r),
                 lr_position_ids = positions, lr_exclude_last_generation_logits = truthy exclude, lr_child_requests = []\<rparr>
      in if truthy children
         then (case children of
                 PyIntList cs \<Rightarrow> Inr (req\<lparr>lr_child_requests := cs\<rparr>)
               | _ \<Rightarrow> Inl TypeError)
         else Inr req)"

definition children_value :: "request_item \<Rightarrow> py_value" where
  "children_value item = (case child_req_ids item of None \<Rightarrow> PyNone | Some cs \<Rightarrow> PyIntList cs)"

text \<open>A request and its children, which have the same tokens; the attribute of an item without a request fails.\<close>

definition with_children :: "new_llm_request \<Rightarrow> new_llm_request list" where
  "with_children req = req # map (\<lambda>c. req\<lparr>lr_request_id := c, lr_child_requests := []\<rparr>) (lr_child_requests req)"

primrec rconcat :: "('a \<Rightarrow> 'b list result) \<Rightarrow> 'a list \<Rightarrow> 'b list result" where
  "rconcat f [] = Inr []"
| "rconcat f (x # xs) = rbind (f x) (\<lambda>ys. rbind (rconcat f xs) (\<lambda>zs. Inr (ys @ zs)))"

definition merge_requests_to_llm_requests :: "request_item list \<Rightarrow> bool \<Rightarrow> new_llm_request list result" where
  "merge_requests_to_llm_requests items exclude =
     rconcat (\<lambda>item. case req_request item of
        None \<Rightarrow> Inl AttributeError
      | Some r \<Rightarrow> rbind (executor_request_to_llm_request (req_id item) r (children_value item) (PyBool exclude) None None)
                   (\<lambda>req. Inr (with_children req))) items"

text \<open>
  \<open>total_input_len_cp\<close> and \<open>seqlen_this_rank_cp\<close> are set on the request after its children were made, so only the
  request itself has them.
\<close>

definition merge_helix_requests ::
  "torch_ops \<Rightarrow> request_item list \<Rightarrow> nat \<Rightarrow> nat \<Rightarrow> nat \<Rightarrow> bool \<Rightarrow> (new_llm_request \<times> (nat \<times> nat) option) list result" where
  "merge_helix_requests ops items cp_rank cp_size tokens_per_block exclude =
     rconcat (\<lambda>item. case req_request item of
        None \<Rightarrow> Inl AttributeError
      | Some r \<Rightarrow>
          rbind (partition_context_for_helix ops (input_token_ids r) cp_rank cp_size tokens_per_block) (\<lambda>(ids, positions, n, _).
          rbind (executor_request_to_llm_request (req_id item) r (children_value item) (PyBool exclude) (Some ids) (Some positions)) (\<lambda>req.
            Inr ((req, Some (n, length ids)) # map (\<lambda>c. (c, None)) (tl (with_children req)))))) items"

record star_request =
  sr_request :: new_llm_request
  sr_ctx_blocks :: "int list list"
  sr_position_blocks :: "int list list"
  sr_query :: "int list option"

text \<open>\<open>blocks[-1] = blocks[-1][:-padding]\<close> and \<open>blocks.insert(1, [])\<close>.\<close>

definition trim_last_block :: "nat \<Rightarrow> int list list \<Rightarrow> int list list result" where
  "trim_last_block padding blocks =
     (if blocks = [] then Inl IndexError else Inr (butlast blocks @ [drop_last padding (last blocks)]))"

definition insert_dummy :: "int list list \<Rightarrow> int list list" where
  "insert_dummy blocks = take 1 blocks @ [] # drop 1 blocks"

definition star_blocks ::
  "torch_ops \<Rightarrow> int list \<Rightarrow> int list option \<Rightarrow> nat \<Rightarrow> nat \<Rightarrow> nat \<Rightarrow> nat \<Rightarrow> (int list list \<times> int list list) result" where
  "star_blocks ops tokens query cp_rank cp_size block_size anchor =
     rbind (partition_context_for_star_attention ops tokens cp_rank cp_size (Some block_size) (Some anchor)) (\<lambda>(ctx, pos, padding).
     rbind (if int cp_rank = int cp_size - 1 \<and> padding > 0
            then rbind (trim_last_block padding ctx) (\<lambda>c. rbind (trim_last_block padding pos) (\<lambda>p. Inr (c, p)))
            else Inr (ctx, pos)) (\<lambda>(ctx, pos).
     let ctx_len0 = length tokens;
         q = (case query of None \<Rightarrow> [] | Some ts \<Rightarrow> ts);
         (ctx, pos) = (if q \<noteq> [] then (ctx @ [q], pos @ [map int [ctx_len0..<ctx_len0 + length q]]) else (ctx, pos));
         total_blocks = (ctx_len0 + block_size - 1) div block_size;
         num_blocks_per_rank = (total_blocks + cp_size - 1) div cp_size + 1
     in if length ctx = num_blocks_per_rank then Inr (insert_dummy ctx, insert_dummy pos)
        else if length ctx = num_blocks_per_rank + 1 then Inr (ctx, pos)
        else Inl ValueError))"

text \<open>The arguments of \<open>executor_request_to_llm_request\<close> are passed by position.\<close>

definition merge_star_attention_requests ::
  "torch_ops \<Rightarrow> request_item list \<Rightarrow> nat \<Rightarrow> nat \<Rightarrow> nat \<Rightarrow> nat \<Rightarrow> bool \<Rightarrow> star_request list result" where
  "merge_star_attention_requests ops items cp_rank cp_size block_size anchor exclude =
     rconcat (\<lambda>item. case req_request item of
        None \<Rightarrow> Inl AttributeError
      | Some r \<Rightarrow>
          rbind (star_blocks ops (input_token_ids r) (req_query item) cp_rank cp_size block_size anchor) (\<lambda>(ctx, pos).
          let ctx_blocks_list = replicate (block_size + anchor) 0 in
          rbind (executor_request_to_llm_request (req_id item) r (PyBool exclude) (PyIntList ctx_blocks_list) None None) (\<lambda>req.
            Inr [\<lparr>sr_request = req, sr_ctx_blocks = ctx, sr_position_blocks = pos, sr_query = req_query item\<rparr>]))) items"

datatype cp_type = ULYSSES | STAR | RING | HELIX

record cp_config =
  cfg_cp_type :: "cp_type option"
  cfg_tokens_per_block :: "nat option"
  cfg_block_size :: "nat option"
  cfg_cp_anchor_size :: "nat option"

datatype merged =
    PlainRequests "new_llm_request list"
  | HelixRequests "(new_llm_request \<times> (nat \<times> nat) option) list"
  | StarRequests "star_request list"

definition config_key :: "'a option \<Rightarrow> 'a result" where
  "config_key v = (case v of None \<Rightarrow> Inl KeyError | Some x \<Rightarrow> Inr x)"

definition merge_requests ::
  "torch_ops \<Rightarrow> request_item list \<Rightarrow> cp_config \<Rightarrow> nat \<Rightarrow> nat \<Rightarrow> bool \<Rightarrow> merged result" where
  "merge_requests ops items cfg cp_rank cp_size exclude =
     (case cfg_cp_type cfg of
        Some STAR \<Rightarrow>
          rbind (config_key (cfg_block_size cfg)) (\<lambda>block_size.
          rbind (config_key (cfg_cp_anchor_size cfg)) (\<lambda>anchor.
          rbind (merge_star_attention_requests ops items cp_rank cp_size block_size anchor exclude) (\<lambda>rs.
            Inr (StarRequests rs))))
      | Some HELIX \<Rightarrow>
          rbind (config_key (cfg_tokens_per_block cfg)) (\<lambda>tpb.
          rbind (merge_helix_requests ops items cp_rank cp_size tpb exclude) (\<lambda>rs. Inr (HelixRequests rs)))
      | Some _ \<Rightarrow> Inl NotImplementedError
      | None \<Rightarrow> rbind (merge_requests_to_llm_requests items exclude) (\<lambda>rs. Inr (PlainRequests rs)))"

section \<open>Requests without context parallelism\<close>

text \<open>Every item becomes a request followed by its children, all with the tokens of the item.\<close>

lemma merged_requests_exact:
  assumes "\<forall>item \<in> set items. req_request item \<noteq> None"
  shows "\<exists>rs. merge_requests_to_llm_requests items exclude = Inr rs \<and>
     map lr_request_id rs = concat (map item_ids items) \<and>
     map lr_input_tokens rs =
       concat (map (\<lambda>item. replicate (length (item_ids item)) (input_token_ids (the (req_request item)))) items)"
  using assms
proof (induction items)
  case Nil
  then show ?case by (simp add: merge_requests_to_llm_requests_def)
next
  case (Cons item items)
  then obtain r rs where r: "req_request item = Some r" and rs: "merge_requests_to_llm_requests items exclude = Inr rs"
      "map lr_request_id rs = concat (map item_ids items)"
      "map lr_input_tokens rs =
         concat (map (\<lambda>item. replicate (length (item_ids item)) (input_token_ids (the (req_request item)))) items)"
    by auto
  have "\<exists>req. executor_request_to_llm_request (req_id item) r (children_value item) (PyBool exclude) None None = Inr req \<and>
      lr_request_id req # lr_child_requests req = item_ids item \<and> lr_input_tokens req = input_token_ids r"
  proof (cases "child_req_ids item")
    case (Some cs)
    then show ?thesis
      by (cases cs) (simp_all add: executor_request_to_llm_request_def children_value_def truthy_def item_ids_def)
  qed (simp add: executor_request_to_llm_request_def children_value_def truthy_def item_ids_def)
  then obtain req where req: "executor_request_to_llm_request (req_id item) r (children_value item) (PyBool exclude) None None = Inr req"
      "lr_request_id req # lr_child_requests req = item_ids item" "lr_input_tokens req = input_token_ids r"
    by blast
  have "map lr_request_id (with_children req) = item_ids item"
      "map lr_input_tokens (with_children req) = replicate (length (item_ids item)) (input_token_ids r)"
    using req(3) by (simp_all add: with_children_def req(2) [symmetric] comp_def map_replicate_const)
  then show ?case using r rs req(1) by (simp add: merge_requests_to_llm_requests_def)
qed

section \<open>Blocks in turn\<close>

text \<open>The documented behaviour of \<open>split\<close> when the pieces come out even.\<close>

definition splits_evenly :: "torch_ops \<Rightarrow> bool" where
  "splits_evenly ops \<longleftrightarrow> (\<forall>n k xs. 0 < n \<and> 0 < k \<and> length xs = k * n \<longrightarrow>
     split ops n xs = map (\<lambda>i. take n (drop (i * n) xs)) [0..<k])"

lemma split_map:
  assumes "splits_evenly ops" "0 < n" "0 < k"
  shows "split ops n (map f [0..<k * n]) = map (\<lambda>i. map f [i * n..<(i + 1) * n]) [0..<k]"
proof -
  have "take n (drop (i * n) [0..<k * n]) = [i * n..<(i + 1) * n]" if "i < k" for i
  proof -
    have "i * n + n \<le> k * n" using that by (metis Suc_leI add.commute mult_Suc mult_le_mono1)
    then show ?thesis by (simp add: drop_upt take_upt add.commute)
  qed
  then show ?thesis using assms by (simp add: splits_evenly_def drop_map take_map)
qed

lemma stride_map:
  assumes "r < s"
  shows "stride r s (map g [0..<k]) = map g (filter (\<lambda>i. i mod s = r) [0..<k])"
proof -
  have "r \<le> i \<and> (i - r) mod s = 0 \<longleftrightarrow> i mod s = r" for i
    using assms mod_eq_dvd_iff_nat [of r i s] mod_less_eq_dividend [of i s]
    by (auto simp: dvd_eq_mod_eq_0)
  then show ?thesis by (simp add: stride_def) 
qed

lemma concat_blocks:
  assumes "0 < n"
  shows "concat (map (\<lambda>i. map f [i * n..<(i + 1) * n]) (filter Q [0..<k])) =
     map f (filter (\<lambda>p. Q (p div n)) [0..<k * n])"
proof (induction k)
  case (Suc k)
  have block: "p div n = k" if "p \<in> set [k * n..<(k + 1) * n]" for p
    using that by (simp add: div_nat_eqI mult.commute)
  have "[0..<Suc k * n] = [0..<k * n] @ [k * n..<(k + 1) * n]"
    using upt_add_eq_append [of 0 "k * n" n] by (simp add: add.commute)
  moreover have "filter (\<lambda>p. Q (p div n)) [k * n..<(k + 1) * n] = (if Q k then [k * n..<(k + 1) * n] else [])"
    using block by (auto intro!: filter_True filter_False)
  ultimately show ?case using Suc.IH by simp
qed simp

text \<open>The positions of a rank, and what is cut off at the end of the last block.\<close>

definition helix_positions :: "nat \<Rightarrow> nat \<Rightarrow> nat \<Rightarrow> nat \<Rightarrow> nat list" where
  "helix_positions cp_rank cp_size n len = filter (\<lambda>p. (p div n) mod cp_size = cp_rank) [0..<len]"

lemma helix_padding:
  assumes "0 < n" "len = (k - 1) * n + m" "0 < m" "m \<le> n" "0 < k"
  shows "helix_positions r s n (k * n) =
     helix_positions r s n len @ (if (k - 1) mod s = r then [len..<k * n] else [])"
proof -
  have k: "k * n = (k - 1) * n + n" using assms(5) by (cases k) auto
  have block: "p div n = k - 1" if "p \<in> set [len..<k * n]" for p
    using that assms k by (intro div_nat_eqI) (auto simp: mult.commute)
  have "[0..<k * n] = [0..<len] @ [len..<k * n]" using assms k upt_add_eq_append [of 0 len "k * n - len"] by simp
  moreover have "filter (\<lambda>p. (p div n) mod s = r) [len..<k * n] = (if (k - 1) mod s = r then [len..<k * n] else [])"
    using block by (auto intro!: filter_True filter_False)
  ultimately show ?thesis by (simp add: helix_positions_def)
qed

lemma block_count:
  fixes n len :: nat
  assumes "0 < n" "0 < len"
  shows "\<exists>m. len = ((len + n - 1) div n - 1) * n + m \<and> 0 < m \<and> m \<le> n \<and> 0 < (len + n - 1) div n \<and>
     (if len mod n \<noteq> 0 then n - len mod n else 0) = n - m"
proof -
  have q: "(len + n - 1) div n = (if len mod n = 0 then len div n else len div n + 1)"
  proof (cases "len mod n = 0")
    case True
    then obtain c where c: "len = c * n" using div_mult_mod_eq [of len n] by (metis add_0_right)
    have "(c * n + n - 1) div n = c" using assms(1) by (intro div_nat_eqI) (simp_all add: mult.commute)
    then show ?thesis using assms(1) c by simp
  next
    case False
    have "len + n - 1 = (len div n + 1) * n + (len mod n - 1)"
      using False div_mult_mod_eq [of len n] by simp
    moreover have "len mod n - 1 < n" using assms(1) mod_less_divisor [of n len] by linarith
    ultimately have "(len + n - 1) div n = len div n + 1"
      by (intro div_nat_eqI) (simp_all add: mult.commute)
    then show ?thesis using False by simp
  qed
  show ?thesis
  proof (cases "len mod n = 0")
    case True
    then have "len = (len div n - 1) * n + n" "0 < len div n"
      using assms by (auto simp: dvd_eq_mod_eq_0 [symmetric] diff_mult_distrib dvd_imp_le div_greater_zero_iff)
    then show ?thesis using True q assms(1) by auto
  next
    case False
    then show ?thesis using q mod_less_divisor [OF assms(1), of len] by (intro exI [of _ "len mod n"]) auto
  qed
qed


lemma drop_last_append: "length ys = n \<Longrightarrow> drop_last n (xs @ ys) = xs"
  by (simp add: drop_last_def)

lemma padded_list:
  fixes tokens :: "int list"
  shows "tokens @ replicate pad 0 = map (\<lambda>p. (tokens @ replicate pad 0) ! p) [0..<length tokens + pad]"
  by (rule nth_equalityI) auto

text \<open>
  C16. Helix divides a prompt exactly: the rank gets the tokens whose block, counted in turn, is its own, in their
  order and with their positions, and no padding; as every position belongs to one block and every block to one rank,
  each token is on exactly one rank. A prompt with fewer blocks than ranks is refused.
\<close>

theorem helix_partition_exact:
  assumes "splits_evenly ops" "0 < n" "cp_rank < cp_size"
  shows "((length tokens + n - 1) div n < cp_size \<longrightarrow>
       partition_context_for_helix ops tokens cp_rank cp_size n = Inl ValueError) \<and>
     (cp_size \<le> (length tokens + n - 1) div n \<longrightarrow>
       (\<exists>padding. partition_context_for_helix ops tokens cp_rank cp_size n =
          Inr (map (\<lambda>p. tokens ! p) (helix_positions cp_rank cp_size n (length tokens)),
               map int (helix_positions cp_rank cp_size n (length tokens)), length tokens, padding)))"
proof (intro conjI impI)
  show "partition_context_for_helix ops tokens cp_rank cp_size n = Inl ValueError"
    if "(length tokens + n - 1) div n < cp_size"
    using that assms(2) by (simp add: partition_context_for_helix_def)
  assume enough: "cp_size \<le> (length tokens + n - 1) div n"
  let ?len = "length tokens" and ?k = "(length tokens + n - 1) div n"
  define pad where "pad = (if ?len mod n \<noteq> 0 then n - ?len mod n else 0)"
  define f where "f = (\<lambda>p. (tokens @ replicate pad 0) ! p)"
  have "0 < ?len" using enough assms by (cases "?len = 0") (auto simp: div_nat_eqI)
  then obtain m where m: "?len = (?k - 1) * n + m" "0 < m" "m \<le> n" "0 < ?k" "pad = n - m"
    using block_count [OF assms(2), of ?len] by (auto simp: pad_def)
  have total: "?len + pad = ?k * n" using m by (metis add.assoc add_mult_distrib le_add_diff_inverse mult_1 Suc_pred' Suc_eq_plus1)
  have all: "tokens @ replicate pad 0 = map f [0..<?k * n]"
    using padded_list [of tokens pad] unfolding total f_def .
  let ?own = "filter (\<lambda>i. i mod cp_size = cp_rank) [0..<?k]"
  have ids: "stride cp_rank cp_size (split ops n (tokens @ replicate pad 0)) = map (\<lambda>i. map f [i * n..<(i + 1) * n]) ?own"
    unfolding all split_map [OF assms(1,2) m(4)] by (rule stride_map [OF assms(3)])
  have pos: "stride cp_rank cp_size (split ops n (arange (?len + pad))) = map (\<lambda>i. map int [i * n..<(i + 1) * n]) ?own"
    unfolding arange_def total split_map [OF assms(1,2) m(4)] by (rule stride_map [OF assms(3)])
  have "cp_rank \<in> set ?own" using enough assms(3) by simp
  then have ne: "?own \<noteq> []" by (metis empty_iff list.set(1))
  have cat: "torch_cat (map (\<lambda>i. map g [i * n..<(i + 1) * n]) ?own) =
      Inr (map g (helix_positions cp_rank cp_size n (?k * n)))" for g
    using ne by (simp only: torch_cat_def concat_blocks [OF assms(2)] helix_positions_def map_is_Nil_conv if_False)
  note cut = helix_padding [OF assms(2) m(1,2,3,4), of cp_rank cp_size]
  let ?ps = "helix_positions cp_rank cp_size n ?len"
  have toks: "map f ?ps = map (\<lambda>p. tokens ! p) ?ps"
    by (rule map_cong) (auto simp: f_def helix_positions_def nth_append)
  have "partition_context_for_helix ops tokens cp_rank cp_size n =
      (if cp_rank = (?k - 1) mod cp_size \<and> pad > 0
       then Inr (drop_last pad (map f (helix_positions cp_rank cp_size n (?k * n))),
                 drop_last pad (map int (helix_positions cp_rank cp_size n (?k * n))), ?len, pad)
       else Inr (map f (helix_positions cp_rank cp_size n (?k * n)),
                 map int (helix_positions cp_rank cp_size n (?k * n)), ?len, pad))"
    using enough assms(2,3) ids pos cat unfolding partition_context_for_helix_def Let_def pad_def [symmetric] by simp
  moreover have "length [?len..<?k * n] = pad" using total by simp
  moreover have "[?len..<?k * n] = []" if "pad = 0" using that total by simp
  ultimately show "\<exists>padding. partition_context_for_helix ops tokens cp_rank cp_size n =
      Inr (map (\<lambda>p. tokens ! p) ?ps, map int ?ps, ?len, padding)"
    unfolding cut using toks drop_last_append by (auto simp: drop_last_append)
qed

abbreviation demo_torch :: torch_ops where
  "demo_torch \<equiv> \<lparr>split = \<lambda>n xs. map (\<lambda>i. take n (drop (i * n) xs)) [0..<length xs div n],
     tensor_split = \<lambda>k xs. map (\<lambda>i. take (length xs div k + (if i < length xs mod k then 1 else 0))
       (drop (i * (length xs div k) + min i (length xs mod k)) xs)) [0..<k]\<rparr>"

theorem helix_partition_exact_witness:
  "partition_context_for_helix demo_torch [5, 6, 7, 8, 9] 0 2 2 = Inr ([5, 6, 9], [0, 1, 4], 5, 1) \<and>
   (\<exists>padding. partition_context_for_helix demo_torch [5, 6, 7, 8, 9] 1 2 2 = Inr ([7, 8], [2, 3], 5, padding))"
proof
  have "splits_evenly demo_torch" by (simp add: splits_evenly_def)
  moreover have len: "length [5, 6, 7, 8, 9 :: int] = 5" by simp
  moreover have ps: "helix_positions 1 2 2 5 = [2, 3]" by code_simp
  ultimately show "\<exists>padding. partition_context_for_helix demo_torch [5, 6, 7, 8, 9] 1 2 2 = Inr ([7, 8], [2, 3], 5, padding)"
    using helix_partition_exact [of demo_torch 2 1 2 "[5, 6, 7, 8, 9]"] unfolding len ps by simp
qed code_simp

section \<open>Consecutive blocks with an anchor\<close>

text \<open>The documented behaviour of \<open>tensor_split\<close>: the first sections are one longer when it does not come out even.\<close>

definition section_start :: "nat \<Rightarrow> nat \<Rightarrow> nat \<Rightarrow> nat" where
  "section_start k len i = i * (len div k) + min i (len mod k)"

definition splits_in_sections :: "torch_ops \<Rightarrow> bool" where
  "splits_in_sections ops \<longleftrightarrow> (\<forall>k xs. 0 < k \<longrightarrow> tensor_split ops k xs =
     map (\<lambda>i. take (length xs div k + (if i < length xs mod k then 1 else 0)) (drop (section_start k (length xs) i) xs)) [0..<k])"

lemma section_start_Suc:
  "section_start k len (Suc i) = section_start k len i + (len div k + (if i < len mod k then 1 else 0))"
  by (simp add: section_start_def)

lemma section_start_last: "0 < k \<Longrightarrow> section_start k len k = len"
  using mod_less_divisor [of k len] by (simp add: section_start_def min_absorb2 less_imp_le)

lemma section_start_mono: "i \<le> j \<Longrightarrow> section_start k len i \<le> section_start k len j"
  by (auto simp: section_start_def intro!: add_mono mult_le_mono1)

text \<open>The blocks of a rank: consecutive ranks have consecutive blocks, from the first to the last.\<close>

definition star_own :: "nat \<Rightarrow> nat \<Rightarrow> nat \<Rightarrow> nat list" where
  "star_own cp_size blocks r = [section_start cp_size blocks r..<section_start cp_size blocks (Suc r)]"

lemma star_own_all: "0 < cp_size \<Longrightarrow> concat (map (star_own cp_size blocks) [0..<cp_size]) = [0..<blocks]"
proof -
  assume "0 < cp_size"
  have "concat (map (star_own cp_size blocks) [0..<r]) = [0..<section_start cp_size blocks r]" if "r \<le> cp_size" for r
    using that
  proof (induction r)
    case 0
    then show ?case by (simp add: section_start_def)
  next
    case (Suc r)
    have "section_start cp_size blocks r \<le> section_start cp_size blocks (Suc r)" by (rule section_start_mono) simp
    then show ?case
      using Suc upt_add_eq_append [of 0 "section_start cp_size blocks r"
          "section_start cp_size blocks (Suc r) - section_start cp_size blocks r"]
      by (simp add: star_own_def)
  qed
  then show ?thesis using section_start_last [OF \<open>0 < cp_size\<close>, of blocks] by simp
qed

lemma section_map:
  assumes "splits_in_sections ops" "r < k"
  shows "tensor_split ops k (map g [0..<len]) ! r = map g (star_own k len r)"
proof -
  have "section_start k len (Suc r) \<le> len"
    using section_start_mono [of "Suc r" k k len] section_start_last [of k len] assms(2) by simp
  then show ?thesis
    using assms by (simp add: splits_in_sections_def star_own_def section_start_Suc drop_map take_map drop_upt take_upt)
qed

lemma length_star_own: "length (star_own k len r) = len div k + (if r < len mod k then 1 else 0)"
  by (simp add: star_own_def section_start_Suc)

lemma star_own_first:
  assumes "0 < len" "0 < k"
  shows "\<exists>rest. star_own k len 0 = 0 # rest"
proof -
  have "0 < len div k + min 1 (len mod k)"
    using assms by (cases "len < k") (auto simp: div_greater_zero_iff)
  then show ?thesis by (simp add: star_own_def section_start_def upt_conv_Cons)
qed

text \<open>The positions of a block.\<close>

abbreviation block :: "nat \<Rightarrow> nat \<Rightarrow> nat list" where
  "block b i \<equiv> [i * b..<(i + 1) * b]"

abbreviation star_padding :: "nat \<Rightarrow> nat \<Rightarrow> nat" where
  "star_padding len b \<equiv> (if len mod b \<noteq> 0 then b - len mod b else 0)"

lemma padded_blocks:
  fixes len b :: nat
  assumes "0 < b" "0 < len"
  shows "len + star_padding len b = (len + b - 1) div b * b \<and> 0 < (len + b - 1) div b"
proof -
  obtain m where m: "len = ((len + b - 1) div b - 1) * b + m" "0 < m" "m \<le> b" "0 < (len + b - 1) div b"
      "star_padding len b = b - m"
    using block_count [OF assms] by blast
  then obtain c where "(len + b - 1) div b = Suc c" by (metis Suc_pred)
  then show ?thesis using m by simp
qed

lemma star_partition:
  assumes "splits_evenly ops" "splits_in_sections ops" "0 < b" "a \<le> b" "r < k" "tokens \<noteq> []"
    and "star_padding (length tokens) b \<le> length tokens"
  defines "f \<equiv> \<lambda>p. (tokens @ replicate (star_padding (length tokens) b) 0) ! p"
    and "own \<equiv> (if r \<noteq> 0 then [take a (block b 0)] else []) @ map (block b) (star_own k ((length tokens + b - 1) div b) r)"
  shows "partition_context_for_star_attention ops tokens r k (Some b) (Some a) =
     Inr (map (map f) own, map (map int) own, star_padding (length tokens) b)"
proof -
  let ?len = "length tokens"
  define n pad where "n = (?len + b - 1) div b" and "pad = star_padding ?len b"
  have pb: "?len + pad = n * b" "0 < n" using padded_blocks [OF assms(3), of ?len] assms(6) by (auto simp: n_def pad_def)
  have ctx: "tokens @ replicate pad 0 = map f [0..<n * b]"
    using padded_list [of tokens pad] pb(1) unfolding f_def pad_def by simp
  have sec: "tensor_split ops k (split ops b (map g [0..<n * b])) ! i = map (\<lambda>j. map g (block b j)) (star_own k n i)"
    if "i < k" for g i
    unfolding split_map [OF assms(1,3) pb(2)] using section_map [OF assms(2) that] by simp
  have len: "length (tensor_split ops k xs) = k" for xs using assms(2,5) by (simp add: splits_in_sections_def)
  obtain rest where first: "star_own k n 0 = 0 # rest" using star_own_first [OF pb(2)] assms(5) by fastforce
  have pos: "arange (length (map f [0..<n * b])) = map int [0..<n * b]" by (simp add: arange_def)
  have pad: "pad \<le> ?len" using assms(7) by (simp add: pad_def)
  show ?thesis
    unfolding partition_context_for_star_attention_def Let_def option.case rbind_Inr pad_def [symmetric] ctx pos own_def n_def [symmetric]
    using assms(3-5) pad sec [of 0] sec [OF assms(5)] len first by (simp add: take_map)
qed

text \<open>The positions that a rank works on: the anchor, unless it is the first rank, and its own blocks up to the end of the prompt.\<close>

definition star_positions :: "nat \<Rightarrow> nat \<Rightarrow> nat \<Rightarrow> nat \<Rightarrow> nat \<Rightarrow> nat list list" where
  "star_positions len r k b a =
     (if r \<noteq> 0 then [take a (block b 0)] else []) @
     map (\<lambda>i. filter (\<lambda>p. p < len) (block b i)) (star_own k ((len + b - 1) div b) r)"

lemma filter_block:
  fixes len b :: nat
  assumes "0 < b" "0 < len" "i < (len + b - 1) div b"
  shows "filter (\<lambda>p. p < len) (block b i) =
     (if Suc i = (len + b - 1) div b then drop_last (star_padding len b) (block b i) else block b i)"
proof -
  obtain m where m: "len = ((len + b - 1) div b - 1) * b + m" "0 < m" "m \<le> b" "star_padding len b = b - m"
    using block_count [OF assms(1,2)] by blast
  show ?thesis
  proof (cases "Suc i = (len + b - 1) div b")
    case True
    then have "(len + b - 1) div b - 1 = i" by simp
    then have len: "len = i * b + m" using m(1) by simp
    have split: "block b i = [i * b..<len] @ [len..<(i + 1) * b]"
      using len m(3) upt_add_eq_append [of "i * b" len "(i + 1) * b - len"] by (simp add: add.commute)
    have "length [len..<(i + 1) * b] = star_padding len b" using len m(4) by simp
    then have "drop_last (star_padding len b) (block b i) = [i * b..<len]" unfolding split by (rule drop_last_append)
    moreover have "filter (\<lambda>p. p < len) (block b i) = [i * b..<len]" unfolding split by simp
    ultimately show ?thesis using True by simp
  next
    case False
    then have "Suc i \<le> (len + b - 1) div b - 1" using assms(3) by simp
    then have "Suc i * b \<le> ((len + b - 1) div b - 1) * b" by (rule mult_le_mono1)
    then have "Suc i * b \<le> len" using m(1) by linarith
    then show ?thesis using False by auto
  qed
qed

lemma trim_map:
  assumes "blocks \<noteq> []"
  shows "trim_last_block n (map (map g) (blocks :: 'a list list)) =
     Inr (map (map g) (butlast blocks @ [drop_last n (last blocks)]))"
  using assms by (simp add: trim_last_block_def map_butlast last_map drop_last_def take_map)

text \<open>With at least as many blocks as ranks, trimming the last block of the last rank removes exactly the padding.\<close>

lemma trimmed_positions:
  fixes len b a :: nat
  assumes "0 < b" "0 < len" "r < k" "k \<le> (len + b - 1) div b"
  defines "n \<equiv> (len + b - 1) div b"
  defines "own \<equiv> (if r \<noteq> 0 then [take a (block b 0)] else []) @ map (block b) (star_own k n r)"
  shows "(if Suc r = k then butlast own @ [drop_last (star_padding len b) (last own)] else own) = star_positions len r k b a"
proof -
  have mem: "i < n" if "i \<in> set (star_own k n r)" for i
    using that section_start_mono [of "Suc r" k k n] section_start_last [of k n] assms(3) by (auto simp: star_own_def)
  have fb: "filter (\<lambda>p. p < len) (block b i) = (if Suc i = n then drop_last (star_padding len b) (block b i) else block b i)"
    if "i < n" for i
    using filter_block [OF assms(1,2)] that unfolding n_def by blast
  have sz: "1 \<le> n div k" using assms(3,4) by (simp add: n_def div_greater_zero_iff Suc_le_eq)
  show ?thesis
  proof (cases "Suc r = k")
    case True
    then have fin: "section_start k n (Suc r) = n" using section_start_last [of k n] assms(3) by simp
    have start: "section_start k n r < n" using section_start_Suc [of k n r] fin sz by simp
    then obtain c where c: "n = Suc c" "section_start k n r \<le> c" by (cases n) auto
    then have own: "star_own k n r = [section_start k n r..<c] @ [c]" using fin by (simp add: star_own_def)
    have "map (\<lambda>i. filter (\<lambda>p. p < len) (block b i)) [section_start k n r..<c] = map (block b) [section_start k n r..<c]"
      using fb c(1) by (intro map_cong) auto
    moreover have "filter (\<lambda>p. p < len) (block b c) = drop_last (star_padding len b) (block b c)" using fb [of c] c(1) by simp
    ultimately show ?thesis
      using True own unfolding own_def star_positions_def n_def [symmetric] by (simp add: butlast_append)
  next
    case False
    then have "Suc (Suc r) \<le> k" using assms(3) by simp
    then have "section_start k n (Suc r) + n div k \<le> n"
      using section_start_mono [of "Suc (Suc r)" k k n] section_start_last [of k n] section_start_Suc [of k n "Suc r"] assms(3)
      by simp
    then have "Suc i \<noteq> n" if "i \<in> set (star_own k n r)" for i using that sz by (auto simp: star_own_def)
    then have "map (\<lambda>i. filter (\<lambda>p. p < len) (block b i)) (star_own k n r) = map (block b) (star_own k n r)"
      using fb mem by (intro map_cong) auto
    then show ?thesis using False unfolding own_def star_positions_def n_def [symmetric] by simp
  qed
qed


lemma anchor_below:
  fixes len b :: nat
  assumes "0 < b" "0 < len" "2 \<le> (len + b - 1) div b"
  shows "b \<le> len"
proof -
  obtain m where m: "len = ((len + b - 1) div b - 1) * b + m"
    using block_count [OF assms(1,2)] by blast
  have "1 * b \<le> ((len + b - 1) div b - 1) * b" using assms(3) by (intro mult_le_mono1) simp
  then show ?thesis using m by linarith
qed

lemma star_positions_below:
  fixes len b :: nat
  assumes "0 < b" "0 < len" "r < k" "k \<le> (len + b - 1) div b" "ps \<in> set (star_positions len r k b a)" "p \<in> set ps"
  shows "p < len"
proof (cases "r = 0")
  case True
  then show ?thesis using assms(5,6) by (auto simp: star_positions_def)
next
  case False
  then have "b \<le> len" using anchor_below [OF assms(1,2)] assms(3,4) by simp
  then show ?thesis using assms(5,6) False by (auto simp: star_positions_def dest: in_set_takeD)
qed

lemma length_star_positions:
  "length (star_positions len r k b a) = (if r \<noteq> 0 then 1 else 0) + length (star_own k ((len + b - 1) div b) r)"
  by (simp add: star_positions_def)

lemma ceiling_div:
  fixes n k :: nat
  assumes "0 < k"
  shows "(n + k - 1) div k = n div k + (if n mod k = 0 then 0 else 1)"
proof -
  define q m where "q = n div k" and "m = n mod k"
  have n: "n = q * k + m" "m < k" using assms by (simp_all add: q_def m_def)
  have "(n + k - 1) div k = (m + k - 1 + q * k) div k" using n assms by (simp add: algebra_simps)
  also have "\<dots> = (m + k - 1) div k + q" using div_mult_self1 [of k "m + k - 1" q] assms by linarith
  also have "(m + k - 1) div k = (if m = 0 then 0 else 1)"
    using n(2) assms by (auto simp: div_nat_eqI)
  finally show ?thesis by (simp add: q_def m_def)
qed

text \<open>The blocks handed to the model when a query follows: a rank that has one block less gets an empty one after its first block.\<close>

definition aligned :: "nat \<Rightarrow> int list list \<Rightarrow> int list list" where
  "aligned n blocks = (if length blocks = n then insert_dummy blocks else blocks)"

text \<open>C23: when the prompt fills at least as many blocks as there are ranks and a query follows, merge_star_attention_requests gives
  a rank exactly the blocks of its section of the prompt, without padding, after the anchor on every rank but the first, with
  matching positions, and then the query. All ranks end with the same number of blocks, and the sections of the ranks follow
  each other through all blocks of the prompt. The anchor is at most a block, and the padding at most the prompt. (With fewer blocks than
  ranks padding stays, and without a query the call fails: star_padding_kept and star_query_required below.)\<close>

theorem star_blocks_exact:
  assumes "splits_evenly ops" "splits_in_sections ops" "0 < b" "a \<le> b" "r < k" "tokens \<noteq> []" "q \<noteq> []"
    and "star_padding (length tokens) b \<le> length tokens" "k \<le> (length tokens + b - 1) div b"
  defines "ps \<equiv> star_positions (length tokens) r k b a"
    and "n \<equiv> (length tokens + b - 1) div b"
  defines "per_rank \<equiv> (n + k - 1) div k + 1"
  shows "\<exists>ctx pos. star_blocks ops tokens (Some q) r k b a = Inr (ctx, pos) \<and>
      ctx = aligned per_rank (map (map (\<lambda>p. tokens ! p)) ps @ [q]) \<and>
      pos = aligned per_rank (map (map int) ps @ [map int [length tokens..<length tokens + length q]]) \<and>
      length ctx = per_rank + 1 \<and> length pos = per_rank + 1 \<and>
      concat (map (star_own k n) [0..<k]) = [0..<n]"
proof -
  let ?len = "length tokens"
  define pad own f where "pad = star_padding ?len b"
    and "own = (if r \<noteq> 0 then [take a (block b 0)] else []) @ map (block b) (star_own k n r)"
    and "f = (\<lambda>p. (tokens @ replicate pad 0) ! p)"
  have len: "0 < ?len" using assms(6) by simp
  have part: "partition_context_for_star_attention ops tokens r k (Some b) (Some a) = Inr (map (map f) own, map (map int) own, pad)"
    using star_partition [OF assms(1-6,8)] unfolding f_def own_def pad_def n_def by simp
  have trim: "(if Suc r = k then butlast own @ [drop_last pad (last own)] else own) = ps"
    using trimmed_positions [OF assms(3) len assms(5,9), of a] unfolding own_def pad_def n_def ps_def by simp
  have sz: "1 \<le> n div k" using assms(5,9) by (simp add: n_def div_greater_zero_iff Suc_le_eq)
  have ne: "own \<noteq> []" using sz length_star_own [of k n r] by (auto simp: own_def)
  have trimmed: "(if int r = int k - 1 \<and> pad > 0
       then rbind (trim_last_block pad (map (map f) own)) (\<lambda>c. rbind (trim_last_block pad (map (map int) own)) (\<lambda>p. Inr (c, p)))
       else Inr (map (map f) own, map (map int) own)) = Inr (map (map f) ps, map (map int) ps)"
  proof (cases "Suc r = k")
    case True
    then have "ps = butlast own @ [drop_last pad (last own)]" using trim by simp
    then show ?thesis using True ne by (cases "pad > 0") (simp_all add: trim_map drop_last_def)
  qed (use trim in auto)
  have fps: "map (map f) ps = map (map (\<lambda>p. tokens ! p)) ps"
    using star_positions_below [OF assms(3) len assms(5,9), of _ a] unfolding ps_def f_def
    by (intro map_cong HOL.refl) (simp add: nth_append)
  have count: "length ps + 1 = per_rank \<or> length ps + 1 = per_rank + 1"
    using length_star_positions [of ?len r k b a] length_star_own [of k n r] ceiling_div [of k n] assms(5)
    unfolding ps_def per_rank_def n_def [symmetric] by (auto split: if_splits)
  show ?thesis
    unfolding star_blocks_def part rbind_Inr split trimmed Let_def option.case fps n_def [symmetric] per_rank_def [symmetric]
    using assms(5,7) count star_own_all [of k n] by (auto simp: aligned_def insert_dummy_def)
qed

lemma demo_torch_laws: "splits_evenly demo_torch" "splits_in_sections demo_torch"
  by (simp_all add: splits_evenly_def splits_in_sections_def section_start_def)

theorem star_blocks_exact_witness:
  "star_blocks demo_torch [5, 6, 7, 8, 9] (Some [20]) 1 2 2 1 =
     Inr ([[5], [], [9], [20]], [[0], [], [4], [5]])"
proof -
  have ps: "star_positions 5 1 2 2 1 = [[0], [4]]" by code_simp
  have len: "length [5, 6, 7, 8, 9 :: int] = 5" by simp
  show ?thesis
    using star_blocks_exact [of demo_torch 2 1 1 2 "[5, 6, 7, 8, 9]" "[20]", OF demo_torch_laws]
    unfolding len ps by (simp add: aligned_def insert_dummy_def)
qed

text \<open>With fewer blocks than ranks the padding of the last block reaches the model: of the three tokens in blocks of two on
  four ranks, the second rank keeps the padded token at position 3, where the query starts as well, while the last rank, which
  has no block of its own, loses its anchor.\<close>

theorem star_padding_kept:
  assumes "splits_evenly ops" "splits_in_sections ops"
  shows "star_blocks ops [1, 2, 3] (Some [9]) 1 4 2 1 = Inr ([[1], [3, 0], [9]], [[0], [2, 3], [3]]) \<and>
         star_blocks ops [1, 2, 3] (Some [9]) 3 4 2 1 = Inr ([[], [], [9]], [[], [], [3]])"
proof
  have own: "star_own 4 2 1 = [1]" "star_own 4 2 3 = []" and n: "(length [1, 2, 3 :: int] + 2 - 1) div 2 = 2" by code_simp+
  have bl: "block 2 0 = [0, 1]" "block 2 1 = [2, 3]" by (simp_all add: upt_rec)
  have "partition_context_for_star_attention ops [1, 2, 3] 1 4 (Some 2) (Some 1) = Inr ([[1], [3, 0]], [[0], [2, 3]], 1)"
    using star_partition [of ops 2 1 1 4 "[1, 2, 3]", OF assms] unfolding n own list.map bl by simp
  then show "star_blocks ops [1, 2, 3] (Some [9]) 1 4 2 1 = Inr ([[1], [3, 0], [9]], [[0], [2, 3], [3]])"
    by (simp add: star_blocks_def)
  have "partition_context_for_star_attention ops [1, 2, 3] 3 4 (Some 2) (Some 1) = Inr ([[1]], [[0]], 1)"
    using star_partition [of ops 2 1 3 4 "[1, 2, 3]", OF assms] unfolding n own list.map bl by simp
  then show "star_blocks ops [1, 2, 3] (Some [9]) 3 4 2 1 = Inr ([[], [], [9]], [[], [], [3]])"
    by (simp add: star_blocks_def trim_last_block_def drop_last_def insert_dummy_def)
qed

theorem star_padding_kept_witness:
  "star_blocks demo_torch [1, 2, 3] (Some [9]) 1 4 2 1 = Inr ([[1], [3, 0], [9]], [[0], [2, 3], [3]])"
  using star_padding_kept [OF demo_torch_laws] by simp

text \<open>C40: merge_star_attention_requests leaves out the argument for the children, so the flag takes its place: with the flag set
  the call fails for every request whose blocks were found, and without it the request has the whole prompt as its tokens, no
  children, and the flag set.\<close>

theorem star_arguments_shifted:
  assumes "req_request item = Some r" "0 < block_size"
    and "star_blocks ops (input_token_ids r) (req_query item) cp_rank cp_size block_size anchor = Inr (ctx, pos)"
  shows "merge_star_attention_requests ops [item] cp_rank cp_size block_size anchor True = Inl TypeError \<and>
    merge_star_attention_requests ops [item] cp_rank cp_size block_size anchor False =
      Inr [\<lparr>sr_request = \<lparr>lr_request_id = req_id item, lr_input_tokens = input_token_ids r, lr_position_ids = None,
             lr_exclude_last_generation_logits = True, lr_child_requests = []\<rparr>,
            sr_ctx_blocks = ctx, sr_position_blocks = pos, sr_query = req_query item\<rparr>]"
  using assms
  by (simp_all add: merge_star_attention_requests_def executor_request_to_llm_request_def truthy_def)

text \<open>A request without a query fails on the first rank, where the code counts on the block of the query.\<close>

lemma star_query_required:
  assumes "splits_evenly ops" "splits_in_sections ops" "0 < b" "a \<le> b" "1 < k" "tokens \<noteq> []"
    and "star_padding (length tokens) b \<le> length tokens"
  shows "star_blocks ops tokens None 0 k b a = Inl ValueError"
proof -
  define n where "n = (length tokens + b - 1) div b"
  obtain ctx pos pad where part: "partition_context_for_star_attention ops tokens 0 k (Some b) (Some a) = Inr (ctx, pos, pad)"
      and ctx: "length ctx = length (star_own k n 0)"
    using star_partition [OF assms(1-4) _ assms(6,7), of 0 k] assms(5) unfolding n_def by simp
  have "length ctx = (n + k - 1) div k"
    using ctx length_star_own [of k n 0] ceiling_div [of k n] assms(5) by simp
  then show ?thesis
    unfolding star_blocks_def part Let_def n_def [symmetric] using assms(5) by simp
qed

theorem star_arguments_shifted_witness:
  "\<exists>item. merge_star_attention_requests demo_torch [item] 1 2 2 1 True = Inl TypeError"
proof -
  obtain r :: executor_request where r: "input_token_ids r = [5, 6, 7, 8, 9]"
    by (metis executor_request.select_convs(4))
  obtain item :: request_item where it: "req_request item = Some r" "req_query item = Some [20]"
    by (metis request_item.select_convs(2,5))
  have "star_blocks demo_torch [5, 6, 7, 8, 9] (Some [20]) 1 2 2 1 = Inr ([[5], [], [9], [20]], [[0], [], [4], [5]])"
    by code_simp
  then show ?thesis using star_arguments_shifted [of item r 2 demo_torch 1 2 1] r it by auto
qed

theorem star_query_required_witness: "star_blocks demo_torch [5, 6, 7] None 0 2 2 1 = Inl ValueError"
  using star_query_required [OF demo_torch_laws, of 2 1 2 "[5, 6, 7]"] by simp

end
