(* ===== verification/FetchRequests.thy ===== *)
theory FetchRequests
  imports AdpRouting ContextPartition
begin

text \<open>
  How the executor loop takes in requests, \<^verbatim>\<open>_torch/pyexecutor/py_executor.py\<close>: items are fetched from
  the request queue and put into the waiting queue (\<open>_fetch_and_enqueue_requests\<close>), as many as the instance
  has room for are popped (\<open>_pop_from_waiting_queue\<close>), and with attention data parallelism they are routed to
  the ranks (\<open>_fetch_new_requests\<close>).

  What a rank other than 0 receives from the broadcast is an argument; statistics are left out.
\<close>

section \<open>Definitions\<close>

record fetch_config =
  fc_rank :: int
  fc_tp_size :: int
  fc_tp_rank :: nat
  fc_max_num_active_requests :: nat
  fc_enable_attention_dp :: bool
  fc_disable_mpi :: bool
  fc_multi_rank :: bool

text \<open>\<open>fetch_timeout\<close>: how long the fetch may block; \<open>None\<close> means for ever.\<close>

definition fetch_timeout :: "fetch_config \<Rightarrow> int \<Rightarrow> waiting_queue \<Rightarrow> real option" where
  "fetch_timeout cfg total_num_active wq =
     (if total_num_active = 0 \<and> wq_len wq = 0
      then (if fc_disable_mpi cfg then Some 1200 else None)
      else Some 0)"

text \<open>
  \<open>get\<close> is \<open>get_from_request_queue\<close> with the clock and the arrivals of this call; \<open>received\<close> is what the
  broadcast delivers on the other ranks, the requests and the Python objects. \<open>fc_multi_rank\<close> is the test
  \<open>tp_size > 1 or has_pp or cp_size > 1\<close>.
\<close>

definition fetch_and_enqueue_requests ::
  "fetch_config \<Rightarrow> (real option \<Rightarrow> executor_request_queue \<Rightarrow> request_item list \<times> executor_request_queue) \<Rightarrow>
     request_item list \<times> (string \<times> (int \<times> py_object) list) list \<Rightarrow> int \<Rightarrow>
     executor_request_queue \<times> intake \<times> waiting_queue \<Rightarrow> executor_request_queue \<times> intake \<times> waiting_queue" where
  "fetch_and_enqueue_requests cfg get received total_num_active st =
     (let (rq, inp, wq) = st in
      if length (control_requests inp) \<noteq> 0 then (rq, inp, wq)
      else
        let timeout = fetch_timeout cfg total_num_active wq;
            (new_requests, rq', inp') =
              (if fc_rank cfg = 0
               then let accumulated = request_accumulated inp;
                        timeout' = (if length accumulated \<noteq> 0 then Some 0 else timeout);
                        (fetched, rq') = get timeout' rq
                    in (accumulated @ fetched, rq', inp\<lparr>request_accumulated := []\<rparr>)
               else ([], rq, inp));
            (requests, objects) =
              (if fc_rank cfg = 0 then (new_requests, collect_py_objects new_requests) else received);
            (accepted, inp'') = handle_special_queue_items (fc_rank cfg) requests inp';
            accepted' = (if objects \<noteq> [] \<and> fc_multi_rank cfg \<and> fc_rank cfg > 0
                         then attach_py_objects_to_requests accepted objects else accepted)
        in (rq', inp'', wq_add_requests accepted' wq))"

text \<open>\<open>fill\<close> is the slow-start cap of a throttled benchmark run, \<open>None\<close> otherwise.\<close>

definition next_fill_cap :: "fetch_config \<Rightarrow> int \<Rightarrow> int \<Rightarrow> int" where
  "next_fill_cap cfg total_max cap = (if cap = 0 then fc_tp_size cfg else min (cap * 2) total_max)"

definition pop_from_waiting_queue ::
  "fetch_config \<Rightarrow> waiting_queue \<Rightarrow> int \<Rightarrow> nat list \<Rightarrow> int option \<Rightarrow>
     (request_item list \<times> waiting_queue \<times> int option) result" where
  "pop_from_waiting_queue cfg wq total_num_active all_ranks fill =
     (let m = fc_max_num_active_requests cfg;
          total_max = (if fc_enable_attention_dp cfg then fc_tp_size cfg * int m else int m);
          max_new = total_max - total_num_active;
          fill' = map_option (next_fill_cap cfg total_max) fill;
          max_new' = (case fill' of None \<Rightarrow> max_new | Some cap \<Rightarrow> min max_new cap)
      in rbind (get_from_waiting_queue wq max_new' (fc_enable_attention_dp cfg) m all_ranks) (\<lambda>(items, wq').
           Inr (items, wq', fill')))"

text \<open>
  Steps 3 to 6 of \<open>_fetch_new_requests\<close>: pop, and with attention data parallelism route. The result is what this
  rank gets, the assignment of all ranks, and the new state. \<open>gather\<close> is \<open>gather_prefix_matches\<close> with the probe and
  the collective of this rank.
\<close>

definition needs_prefix_matches :: "adp_router \<Rightarrow> bool" where
  "needs_prefix_matches router = (case router of DefaultADPRouter \<Rightarrow> False | KVCacheAwareADPRouter _ \<Rightarrow> True)"

definition gather_if_needed ::
  "(request_item list \<Rightarrow> kv_router \<Rightarrow> kv_router result) \<Rightarrow> request_item list \<Rightarrow> adp_router \<Rightarrow> adp_router result" where
  "gather_if_needed gather items router =
     (case router of
        DefaultADPRouter \<Rightarrow> Inr router
      | KVCacheAwareADPRouter r \<Rightarrow> rbind (gather items r) (\<lambda>r'. Inr (KVCacheAwareADPRouter r')))"

record fetch_counters =
  num_fetch_requests :: int
  num_fetch_requests_cur_rank :: int
  expected_num_active_requests :: int

definition lookup_rank :: "assignment \<Rightarrow> int \<Rightarrow> request_item list result" where
  "lookup_rank d rank = (case map_of d rank of None \<Rightarrow> Inl KeyError | Some xs \<Rightarrow> Inr xs)"

definition pop_and_route ::
  "fetch_config \<Rightarrow> (int \<Rightarrow> nat list \<Rightarrow> nat list) \<Rightarrow> (request_item list \<Rightarrow> kv_router \<Rightarrow> kv_router result) \<Rightarrow>
     rank_state list \<Rightarrow> nat \<Rightarrow> int option \<Rightarrow> waiting_queue \<Rightarrow> adp_router \<Rightarrow> fetch_counters \<Rightarrow>
     (request_item list \<times> assignment \<times> waiting_queue \<times> adp_router \<times> fetch_counters \<times> int option) result" where
  "pop_and_route cfg shuffle gather states num_active fill wq router cnt =
     (let dp = fc_enable_attention_dp cfg;
          all_ranks = (if dp then map (\<lambda>s. nat (num_active_requests s)) states else []);
          total = (if dp then int (sum_list all_ranks) else int num_active)
      in rbind (pop_from_waiting_queue cfg wq total all_ranks fill) (\<lambda>(items, wq', fill').
         let cnt' = cnt\<lparr>num_fetch_requests := num_fetch_requests cnt + int (length items)\<rparr> in
         if \<not> dp then Inr (items, [], wq', router, cnt', fill')
         else rbind (gather_if_needed gather items router) (\<lambda>router1.
              rbind (route_requests shuffle states items (int (fc_max_num_active_requests cfg)) router1) (\<lambda>(d, e, router2).
              rbind (lookup_rank d (int (fc_tp_rank cfg))) (\<lambda>mine.
                Inr (mine, d, wq', router2,
                     cnt'\<lparr>num_fetch_requests_cur_rank := num_fetch_requests_cur_rank cnt' + int (length mine),
                          expected_num_active_requests := e\<rparr>, fill'))))))"

text \<open>
  \<open>getattr(req, "llm_request_type", None)\<close> on what \<open>_fetch_new_requests\<close> passes on: a \<open>RequestQueueItem\<close>, which has no such
  attribute.
\<close>

datatype llm_request_type = CONTEXT_AND_GENERATION | CONTEXT_ONLY | GENERATION_ONLY

definition item_llm_request_type :: "request_item \<Rightarrow> llm_request_type option" where
  "item_llm_request_type item = None"

definition update_adp_dummy_role :: "bool \<Rightarrow> bool \<Rightarrow> llm_request_type option list \<Rightarrow> bool \<Rightarrow> bool" where
  "update_adp_dummy_role dp transceiver types is_gen =
     (if \<not> dp \<or> \<not> transceiver then is_gen
      else if Some CONTEXT_ONLY \<in> set types then False
      else if Some GENERATION_ONLY \<in> set types then True
      else is_gen)"

record fetch_state =
  fs_queue :: executor_request_queue
  fs_intake :: intake
  fs_waiting :: waiting_queue
  fs_router :: adp_router
  fs_counters :: fetch_counters
  fs_fill_admit_cap :: "int option"
  fs_adp_dummy_is_gen :: bool

record cp_place =
  cp_place_config :: cp_config
  cp_place_rank :: nat
  cp_place_size :: nat

text \<open>
  \<open>_fetch_new_requests\<close>: the requests for this rank and the assignment of all ranks. \<open>states\<close> is what
  \<open>gather_all_rank_states\<close> returned.
\<close>

definition fetch_new_requests ::
  "fetch_config \<Rightarrow> cp_place \<Rightarrow> torch_ops \<Rightarrow> bool \<Rightarrow> bool \<Rightarrow>
     (real option \<Rightarrow> executor_request_queue \<Rightarrow> request_item list \<times> executor_request_queue) \<Rightarrow>
     request_item list \<times> (string \<times> (int \<times> py_object) list) list \<Rightarrow>
     (int \<Rightarrow> nat list \<Rightarrow> nat list) \<Rightarrow> (request_item list \<Rightarrow> kv_router \<Rightarrow> kv_router result) \<Rightarrow>
     rank_state list \<Rightarrow> nat \<Rightarrow> fetch_state \<Rightarrow> (merged \<times> assignment \<times> fetch_state) result" where
  "fetch_new_requests cfg cp ops exclude transceiver get received shuffle gather states num_active st =
     (let total_num_active = (if fc_enable_attention_dp cfg then sum_list (map num_active_requests states) else int num_active);
          (rq, inp, wq) = fetch_and_enqueue_requests cfg get received total_num_active (fs_queue st, fs_intake st, fs_waiting st)
      in rbind (pop_and_route cfg shuffle gather states num_active (fs_fill_admit_cap st) wq (fs_router st) (fs_counters st))
           (\<lambda>(mine, d, wq', router, cnt, fill).
         let is_gen = (if fc_enable_attention_dp cfg
                       then update_adp_dummy_role (fc_enable_attention_dp cfg) transceiver
                              (map item_llm_request_type (concat (map snd d))) (fs_adp_dummy_is_gen st)
                       else fs_adp_dummy_is_gen st)
         in rbind (merge_requests ops mine (cp_place_config cp) (cp_place_rank cp) (cp_place_size cp) exclude) (\<lambda>merged.
              Inr (merged, d,
                   \<lparr>fs_queue = rq, fs_intake = inp, fs_waiting = wq', fs_router = router, fs_counters = cnt,
                    fs_fill_admit_cap = fill, fs_adp_dummy_is_gen = is_gen\<rparr>))))"

section \<open>Intake\<close>

lemma special_split:
  obtains pre post st' where "items = pre @ post"
    "handle_special_queue_items 0 items st = (filter is_normal_request pre, st')"
    "canceled_req_ids st' = canceled_req_ids st @ map req_id (filter is_canceled_request pre)"
    "\<forall>x \<in> set pre. is_normal_request x \<or> is_canceled_request x"
    "case post of
       [] \<Rightarrow> request_accumulated st' = request_accumulated st \<and> control_requests st' = control_requests st \<and>
         is_shutdown st' = is_shutdown st
     | x # rest \<Rightarrow> is_shutdown_request x \<and> is_shutdown st' \<or>
         is_control_request x \<and> control_requests st' = control_requests st @ [x] \<and>
         request_accumulated st' = request_accumulated st @ rest"
proof -
  define pre post where "pre = takeWhile (\<lambda>x. \<not> stops_intake x) items" and "post = dropWhile (\<lambda>x. \<not> stops_intake x) items"
  define c where "c = st\<lparr>canceled_req_ids := canceled_req_ids st @ map req_id (filter is_canceled_request pre)\<rparr>"
  define st' where "st' = (case post of [] \<Rightarrow> c
     | x # rest \<Rightarrow> if is_shutdown_request x then c\<lparr>is_shutdown := True\<rparr>
       else c\<lparr>control_requests := control_requests st @ [x],
              request_accumulated := request_accumulated st @ (if (0 :: int) = 0 then rest else [])\<rparr>)"
  have run: "handle_special_queue_items 0 items st = (filter is_normal_request pre, st')"
    using handle_special_exact [of 0 items st, unfolded Let_def, folded pre_def post_def] unfolding st'_def c_def .
  have items: "items = pre @ post" by (simp add: pre_def post_def)
  have pre: "\<forall>x \<in> set pre. is_normal_request x \<or> is_canceled_request x"
    using set_takeWhileD [of _ "\<lambda>x. \<not> stops_intake x" items, folded pre_def]
    unfolding stops_intake_def is_normal_request_def by blast
  have stop: "stops_intake x" if "post = x # rest" for x rest
    using that hd_dropWhile [of "\<lambda>x. \<not> stops_intake x" items, folded post_def] by simp
  show thesis
  proof (rule that [OF items run _ pre])
    show "canceled_req_ids st' = canceled_req_ids st @ map req_id (filter is_canceled_request pre)"
      by (cases post) (simp_all add: st'_def c_def)
    show "case post of
       [] \<Rightarrow> request_accumulated st' = request_accumulated st \<and> control_requests st' = control_requests st \<and>
         is_shutdown st' = is_shutdown st
     | x # rest \<Rightarrow> is_shutdown_request x \<and> is_shutdown st' \<or>
         is_control_request x \<and> control_requests st' = control_requests st @ [x] \<and>
         request_accumulated st' = request_accumulated st @ rest"
    proof (cases post)
      case Nil
      then show ?thesis by (simp add: st'_def c_def)
    next
      case (Cons x rest)
      then have "is_shutdown_request x \<or> is_control_request x" using stop by (auto simp: stops_intake_def)
      then show ?thesis using Cons by (auto simp: st'_def c_def)
    qed
  qed
qed

text \<open>
  Nothing that rank 0 fetches is lost or reordered by control items: the waiting queue gets the normal requests in
  front of the first control or shutdown item, cancellations in front of it are recorded, and what follows
  a control item is kept and comes first in the next fetch. While a control item is pending nothing is
  fetched.
\<close>

theorem intake_keeps_requests:
  assumes "fc_rank cfg = 0" "control_requests inp = []"
    and "get (if request_accumulated inp \<noteq> [] then Some 0 else fetch_timeout cfg active wq) rq = (fetched, rq')"
  shows "\<exists>pre post inp'. request_accumulated inp @ fetched = pre @ post \<and>
     fetch_and_enqueue_requests cfg get received active (rq, inp, wq) = (rq', inp', wq_add_requests (filter is_normal_request pre) wq) \<and>
     canceled_req_ids inp' = canceled_req_ids inp @ map req_id (filter is_canceled_request pre) \<and>
     (\<forall>x \<in> set pre. is_normal_request x \<or> is_canceled_request x) \<and>
     (case post of
        [] \<Rightarrow> request_accumulated inp' = [] \<and> control_requests inp' = [] \<and> is_shutdown inp' = is_shutdown inp
      | x # rest \<Rightarrow>
          (is_shutdown_request x \<and> is_shutdown inp') \<or>
          (is_control_request x \<and> control_requests inp' = [x] \<and> request_accumulated inp' = rest \<and>
           (\<forall>active' wq' rq'. fetch_and_enqueue_requests cfg get received active' (rq', inp', wq') = (rq', inp', wq'))))"
proof -
  let ?st = "inp\<lparr>request_accumulated := []\<rparr>"
  obtain pre post inp' where sp: "request_accumulated inp @ fetched = pre @ post"
    "handle_special_queue_items 0 (request_accumulated inp @ fetched) ?st = (filter is_normal_request pre, inp')"
    "canceled_req_ids inp' = canceled_req_ids ?st @ map req_id (filter is_canceled_request pre)"
    "\<forall>x \<in> set pre. is_normal_request x \<or> is_canceled_request x"
    "case post of
       [] \<Rightarrow> request_accumulated inp' = request_accumulated ?st \<and> control_requests inp' = control_requests ?st \<and>
         is_shutdown inp' = is_shutdown ?st
     | x # rest \<Rightarrow> is_shutdown_request x \<and> is_shutdown inp' \<or>
         is_control_request x \<and> control_requests inp' = control_requests ?st @ [x] \<and>
         request_accumulated inp' = request_accumulated ?st @ rest"
    by (rule special_split)
  have "fetch_and_enqueue_requests cfg get received active (rq, inp, wq) =
      (rq', inp', wq_add_requests (filter is_normal_request pre) wq)"
    using assms sp(2) by (simp add: fetch_and_enqueue_requests_def)
  moreover have "case post of
        [] \<Rightarrow> request_accumulated inp' = [] \<and> control_requests inp' = [] \<and> is_shutdown inp' = is_shutdown inp
      | x # rest \<Rightarrow>
          (is_shutdown_request x \<and> is_shutdown inp') \<or>
          (is_control_request x \<and> control_requests inp' = [x] \<and> request_accumulated inp' = rest \<and>
           (\<forall>active' wq' rq'. fetch_and_enqueue_requests cfg get received active' (rq', inp', wq') = (rq', inp', wq')))"
    using sp(5) assms(2) by (cases post) (auto simp: fetch_and_enqueue_requests_def)
  moreover have "canceled_req_ids inp' = canceled_req_ids inp @ map req_id (filter is_canceled_request pre)"
    using sp(3) by simp
  ultimately show ?thesis using sp(1,4) by blast
qed

section \<open>Admission\<close>











abbreviation demo_fetch_config :: "nat \<Rightarrow> fetch_config" where
  "demo_fetch_config m \<equiv> \<lparr>fc_rank = 0, fc_tp_size = 2, fc_tp_rank = 0, fc_max_num_active_requests = m,
     fc_enable_attention_dp = True, fc_disable_mpi = False, fc_multi_rank = True\<rparr>"

abbreviation zero_counters :: fetch_counters where
  "zero_counters \<equiv> \<lparr>num_fetch_requests = 0, num_fetch_requests_cur_rank = 0, expected_num_active_requests = 0\<rparr>"

abbreviation demo_fetch_state :: "request_item list \<Rightarrow> fetch_state" where
  "demo_fetch_state items \<equiv> \<lparr>fs_queue = rq_init 0 8 False 0,
     fs_intake = \<lparr>is_shutdown = False, canceled_req_ids = [], control_requests = [], request_accumulated = []\<rparr>,
     fs_waiting = FCFSWaitingQueue items, fs_router = KVCacheAwareADPRouter (demo_kv_router 2), fs_counters = zero_counters,
     fs_fill_admit_cap = None, fs_adp_dummy_is_gen = True\<rparr>"

abbreviation no_cp :: cp_place where
  "no_cp \<equiv> \<lparr>cp_place_config = \<lparr>cfg_cp_type = None, cfg_tokens_per_block = None, cfg_block_size = None, cfg_cp_anchor_size = None\<rparr>,
     cp_place_rank = 0, cp_place_size = 1\<rparr>"


text \<open>
  The role of the dummy request of an idle rank never changes: \<open>_update_adp_dummy_role\<close> is given request items, which have no
  request type, so a rank of a context server gets a generation dummy whatever requests arrive.
\<close>

theorem adp_dummy_role_fixed:
  assumes "fetch_new_requests cfg cp ops exclude transceiver get received shuffle gather states active st = Inr (m, d, st')"
  shows "fs_adp_dummy_is_gen st' = fs_adp_dummy_is_gen st"
  using assms
  by (auto simp: fetch_new_requests_def Let_def update_adp_dummy_role_def item_llm_request_type_def rbind_def
      split: sum.splits prod.splits if_splits)


theorem adp_dummy_role_fixed_witness:
  "\<exists>m d st'. fetch_new_requests (demo_fetch_config 3) no_cp demo_torch False True (\<lambda>_ q. ([], q)) ([], []) (\<lambda>_ ks. ks) (\<lambda>_. Inr)
       demo_states 0 ((demo_fetch_state demo_requests)\<lparr>fs_router := DefaultADPRouter\<rparr>) = Inr (m, d, st') \<and> fs_adp_dummy_is_gen st'"
proof -
  let ?run = "fetch_new_requests (demo_fetch_config 3) no_cp demo_torch False True (\<lambda>_ q. ([], q)) ([], []) (\<lambda>_ ks. ks) (\<lambda>_. Inr)
       demo_states 0 ((demo_fetch_state demo_requests)\<lparr>fs_router := DefaultADPRouter\<rparr>)"
  have "case ?run of Inl _ \<Rightarrow> False | Inr _ \<Rightarrow> True" by code_simp
  then obtain m d st' where run: "?run = Inr (m, d, st')" by (cases ?run) auto
  show ?thesis using adp_dummy_role_fixed [OF run] run by simp
qed

theorem intake_keeps_requests_witness:
  "\<exists>pre post inp'. demo_requests @ [\<lparr>req_id = -2, req_request = None, child_req_ids = None, is_canceled_request = False, req_query = None\<rparr>] = pre @ post \<and>
     fetch_and_enqueue_requests (demo_fetch_config 3) (\<lambda>timeout q. get_from_request_queue timeout None 0 (\<lambda>_. 0) (\<lambda>_. None) q) ([], []) 1
       ((rq_init 0 8 False 0)\<lparr>request_queue := demo_requests @
           [\<lparr>req_id = -2, req_request = None, child_req_ids = None, is_canceled_request = False, req_query = None\<rparr>]\<rparr>,
        \<lparr>is_shutdown = False, canceled_req_ids = [], control_requests = [], request_accumulated = []\<rparr>, FCFSWaitingQueue []) =
       (rq_init 0 8 False 0, inp', wq_add_requests (filter is_normal_request pre) (FCFSWaitingQueue []))"
proof -
  let ?control = "\<lparr>req_id = -2, req_request = None, child_req_ids = None, is_canceled_request = False, req_query = None\<rparr>"
  obtain items where it: "items = demo_requests @ [?control]" by blast
  let ?inp = "\<lparr>is_shutdown = False, canceled_req_ids = [], control_requests = [], request_accumulated = []\<rparr>"
  let ?get = "\<lambda>timeout q. get_from_request_queue timeout None 0 (\<lambda>_. 0) (\<lambda>_. None) q"
  let ?rq = "(rq_init 0 8 False 0)\<lparr>request_queue := items\<rparr>"
  have "?get (if request_accumulated ?inp \<noteq> [] then Some 0 else fetch_timeout (demo_fetch_config 3) 1 (FCFSWaitingQueue [])) ?rq =
      (items, rq_init 0 8 False 0)"
    by (simp add: get_from_request_queue_def fetch_timeout_def rq_init_def)
  from intake_keeps_requests [of "demo_fetch_config 3" ?inp ?get 1 "FCFSWaitingQueue []" ?rq items "rq_init 0 8 False 0" "([], [])", OF _ _ this]
  show ?thesis unfolding it by auto
qed

text \<open>The number of active requests of each rank once what it was given has been merged.\<close>

definition active_after :: "rank_state list \<Rightarrow> assignment \<Rightarrow> int list result" where
  "active_after states d = rmap (\<lambda>k. rbind (merge_requests_to_llm_requests (given d k) False)
     (\<lambda>rs. Inr (num_active_requests (states ! k) + int (length rs)))) [0..<length states]"

text \<open>
  The limit per rank does not count children. Two ranks may have two active requests each and have one; a request
  with one child counts as two when it is popped, so it is admitted; the router gives both to one rank, which
  then has three active requests.
\<close>

theorem children_exceed_rank_limit:
  "rbind (pop_and_route (demo_fetch_config 2) (\<lambda>_ ks. ks) (\<lambda>_. Inr) demo_states 0 None
       (FCFSWaitingQueue [demo_item 9 (1 / 2) (Some [10]) None]) DefaultADPRouter zero_counters)
     (\<lambda>(_, d, _). active_after demo_states d) =
   Inr [3, 1]"
  by code_simp

end
