(* ===== verification/LlmRequest.thy ===== *)
theory LlmRequest
  imports Prelude "HOL-Library.Product_Lexorder"
begin

text \<open>
  A request as the schedulers see it. The class is implemented in
  \<^verbatim>\<open>cpp/include/tensorrt_llm/batch_manager/llmRequest.h\<close> and bound to Python unchanged, so the
  attributes \<open>context_chunk_size\<close>, \<open>is_last_context_chunk\<close> and so on of the Python code are the
  accessors below. The header keeps two copies of the context cursor, for a target and a draft
  model, of which a request uses one; the record holds that one. Sizes are 32-bit in the header
  and \<open>int\<close> here: they count tokens of one prompt. A failed \<open>TLLM_CHECK\<close> is a \<open>RuntimeError\<close>.
\<close>

section \<open>States\<close>

datatype llm_request_state =
    UNKNOWN
  | ENCODER_INIT
  | DISAGG_CONTEXT_WAIT_SCHEDULER
  | DISAGG_GENERATION_INIT
  | DISAGG_GENERATION_TRANS_IN_PROGRESS
  | CONTEXT_INIT
  | DISAGG_CONTEXT_INIT_AND_TRANS
  | DISAGG_GENERATION_TRANS_COMPLETE
  | GENERATION_IN_PROGRESS
  | GENERATION_TO_COMPLETE
  | GENERATION_COMPLETE
  | DISAGG_CONTEXT_TRANS_IN_PROGRESS
  | DISAGG_CONTEXT_COMPLETE
  | DISAGG_GENERATION_WAIT_TOKENS
  | DISAGG_TRANS_ERROR

fun state_code :: "llm_request_state \<Rightarrow> int" where
  "state_code UNKNOWN = 0"
| "state_code ENCODER_INIT = 1"
| "state_code DISAGG_CONTEXT_WAIT_SCHEDULER = 7"
| "state_code DISAGG_GENERATION_INIT = 8"
| "state_code DISAGG_GENERATION_TRANS_IN_PROGRESS = 9"
| "state_code CONTEXT_INIT = 10"
| "state_code DISAGG_CONTEXT_INIT_AND_TRANS = 11"
| "state_code DISAGG_GENERATION_TRANS_COMPLETE = 12"
| "state_code GENERATION_IN_PROGRESS = 13"
| "state_code GENERATION_TO_COMPLETE = 14"
| "state_code GENERATION_COMPLETE = 20"
| "state_code DISAGG_CONTEXT_TRANS_IN_PROGRESS = 21"
| "state_code DISAGG_CONTEXT_COMPLETE = 22"
| "state_code DISAGG_GENERATION_WAIT_TOKENS = 23"
| "state_code DISAGG_TRANS_ERROR = -1"

section \<open>Requests\<close>

text \<open>
  \<open>encoder_ready\<close> is the answer of \<open>py_encoder_output_ready_event.query()\<close>, or \<open>None\<close> when there
  is no such event. \<open>num_tokens0\<close> is \<open>get_num_tokens(0)\<close> and \<open>beam_width_by_iter\<close> the answer of
  \<open>get_beam_width_by_iter\<close>.
\<close>

record llm_request =
  request_id :: int
  request_state :: llm_request_state
  prompt_len :: int
  context_position :: int
  prepopulated_len :: int
  chunk_size :: int
  num_draft_tokens :: int
  encoder_output_len :: int
  estimated_reusable_tokens :: int
  num_tokens0 :: int
  beam_width_by_iter :: int
  lora_task_id :: "int option"
  encoder_ready :: "bool option"

definition is_encoder_init_state :: "llm_request \<Rightarrow> bool" where
  "is_encoder_init_state r = (request_state r = ENCODER_INIT)"

definition is_context_init_state :: "llm_request \<Rightarrow> bool" where
  "is_context_init_state r =
     (request_state r = CONTEXT_INIT \<or> request_state r = DISAGG_CONTEXT_INIT_AND_TRANS)"

definition is_generation_in_progress_state :: "llm_request \<Rightarrow> bool" where
  "is_generation_in_progress_state r =
     (request_state r = GENERATION_IN_PROGRESS \<or> request_state r = GENERATION_TO_COMPLETE
      \<or> request_state r = DISAGG_GENERATION_TRANS_COMPLETE)"

definition is_disagg_generation_init_state :: "llm_request \<Rightarrow> bool" where
  "is_disagg_generation_init_state r = (request_state r = DISAGG_GENERATION_INIT)"

definition is_disagg_generation_transmission_complete :: "llm_request \<Rightarrow> bool" where
  "is_disagg_generation_transmission_complete r = (request_state r = DISAGG_GENERATION_TRANS_COMPLETE)"

definition context_remaining_length :: "llm_request \<Rightarrow> int" where
  "context_remaining_length r = prompt_len r - context_position r"

definition set_context_chunk_size :: "int \<Rightarrow> llm_request \<Rightarrow> llm_request result" where
  "set_context_chunk_size n r =
     (if is_context_init_state r \<or> is_disagg_generation_init_state r
         \<or> is_disagg_generation_transmission_complete r
      then if n < 0 then Inl RuntimeError
           else Inr (r\<lparr>chunk_size := min n (context_remaining_length r)\<rparr>)
      else Inl RuntimeError)"

definition is_last_context_chunk :: "llm_request \<Rightarrow> bool" where
  "is_last_context_chunk r =
     (is_disagg_generation_init_state r \<or> is_disagg_generation_transmission_complete r
      \<or> context_position r + chunk_size r = prompt_len r)"

definition is_first_context_chunk :: "llm_request \<Rightarrow> bool" where
  "is_first_context_chunk r = (context_position r = prepopulated_len r)"

definition move_to_next_context_chunk :: "llm_request \<Rightarrow> llm_request result" where
  "move_to_next_context_chunk r =
     (if is_context_init_state r
      then Inr (r\<lparr>context_position := context_position r + chunk_size r, chunk_size := 0\<rparr>)
      else Inl RuntimeError)"

definition has_draft_tokens :: "llm_request \<Rightarrow> bool" where
  "has_draft_tokens r = (num_draft_tokens r > 0)"

definition discard_draft_tokens :: "int \<Rightarrow> llm_request \<Rightarrow> llm_request result" where
  "discard_draft_tokens n r =
     (if n > 0 \<and> n \<le> num_draft_tokens r
      then Inr (r\<lparr>num_draft_tokens := num_draft_tokens r - n\<rparr>)
      else Inl RuntimeError)"

text \<open>
  C++ division of the non-negative end position; the state of the request is not changed by a
  check that fails at the end, but the exception ends the request.
\<close>

definition set_prepopulated_prompt_len :: "int \<Rightarrow> int \<Rightarrow> llm_request \<Rightarrow> llm_request result" where
  "set_prepopulated_prompt_len n tokens_per_block r =
     (if n \<ge> prompt_len r then Inl RuntimeError
      else
        let r1 = r\<lparr>prepopulated_len := n\<rparr> in
        if n > 0
        then
          let chunk = (if n + chunk_size r < prompt_len r
                       then (n + chunk_size r) div tokens_per_block * tokens_per_block - n
                       else chunk_size r)
          in if chunk > chunk_size r then Inl RuntimeError
             else rbind (set_context_chunk_size chunk (r1\<lparr>context_position := n\<rparr>)) (\<lambda>r2.
               if \<not> is_last_context_chunk r2
                  \<and> (context_position r2 + chunk_size r2) mod tokens_per_block \<noteq> 0
               then Inl RuntimeError else Inr r2)
        else Inr r1)"

section \<open>Helpers of the schedulers\<close>

text \<open>\<^verbatim>\<open>_torch/pyexecutor/scheduler/scheduler.py\<close>.\<close>

definition is_decoder_context_request_waiting_for_encoder_output :: "llm_request \<Rightarrow> bool" where
  "is_decoder_context_request_waiting_for_encoder_output r =
     (if \<not> is_context_init_state r then False else encoder_ready r = Some False)"

definition drop_decoder_context_requests_waiting_for_encoder_output :: "llm_request list \<Rightarrow> llm_request list" where
  "drop_decoder_context_requests_waiting_for_encoder_output rs =
     foldl (\<lambda>acc r. if is_decoder_context_request_waiting_for_encoder_output r then acc else acc @ [r]) [] rs"

definition split_encoder_from_decoder_context_requests ::
  "llm_request list \<Rightarrow> llm_request list \<times> llm_request list" where
  "split_encoder_from_decoder_context_requests rs =
     foldl (\<lambda>(enc, ctx) r. if is_encoder_init_state r then (enc @ [r], ctx) else (enc, ctx @ [r])) ([], []) rs"

definition get_lora_task_id :: "llm_request \<Rightarrow> int \<times> int" where
  "get_lora_task_id r = (case lora_task_id r of None \<Rightarrow> (0, 0) | Some i \<Rightarrow> (1, i))"

text \<open>\<open>_reuse_adjusted_compute\<close>: tokens the forward pass computes for a chunk when a prefix is reused.\<close>

definition reuse_adjusted_compute :: "int \<Rightarrow> int \<Rightarrow> int \<Rightarrow> int" where
  "reuse_adjusted_compute chunk reusable remaining =
     (if reusable \<le> 0 then chunk
      else if reusable + chunk < remaining then chunk
      else max 0 (remaining - reusable))"

definition reusable_tokens :: "llm_request \<Rightarrow> int" where
  "reusable_tokens r = (if is_first_context_chunk r then estimated_reusable_tokens r else 0)"

lemma drop_waiting_filter:
  "drop_decoder_context_requests_waiting_for_encoder_output rs =
     filter (\<lambda>r. \<not> is_decoder_context_request_waiting_for_encoder_output r) rs"
proof -
  have "foldl (\<lambda>acc r. if is_decoder_context_request_waiting_for_encoder_output r then acc else acc @ [r]) acc rs
      = acc @ filter (\<lambda>r. \<not> is_decoder_context_request_waiting_for_encoder_output r) rs" for acc
    by (induction rs arbitrary: acc) auto
  then show ?thesis by (simp add: drop_decoder_context_requests_waiting_for_encoder_output_def)
qed

lemma split_encoder_filter:
  "split_encoder_from_decoder_context_requests rs =
     (filter is_encoder_init_state rs, filter (\<lambda>r. \<not> is_encoder_init_state r) rs)"
proof -
  have "foldl (\<lambda>(enc, ctx) r. if is_encoder_init_state r then (enc @ [r], ctx) else (enc, ctx @ [r])) (e, c) rs
      = (e @ filter is_encoder_init_state rs, c @ filter (\<lambda>r. \<not> is_encoder_init_state r) rs)" for e c
    by (induction rs arbitrary: e c) auto
  then show ?thesis by (simp add: split_encoder_from_decoder_context_requests_def)
qed

text \<open>The cost of a chunk grows with the chunk and never exceeds what reuse leaves.\<close>

lemma compute_min:
  assumes "0 \<le> chunk" "chunk \<le> remaining" "0 \<le> reusable"
  shows "reuse_adjusted_compute chunk reusable remaining = min chunk (max 0 (remaining - reusable))"
  using assms by (auto simp: reuse_adjusted_compute_def)

lemma compute_bounds:
  assumes "0 \<le> chunk" "chunk \<le> remaining" "0 \<le> reusable"
  shows "0 \<le> reuse_adjusted_compute chunk reusable remaining"
    "reuse_adjusted_compute chunk reusable remaining \<le> chunk"
  using assms by (simp_all add: compute_min)

lemma set_chunk_fields:
  assumes "set_context_chunk_size n r = Inr r'"
  shows "r' = r\<lparr>chunk_size := min n (context_remaining_length r)\<rparr>" "0 \<le> n"
  using assms by (auto simp: set_context_chunk_size_def split: if_splits)

section \<open>Property\<close>

text \<open>
  The estimate of the schedulers is safe: after a prefix of \<open>n\<close> tokens was found in the cache, the request computes at most what
  \<open>_reuse_adjusted_compute\<close> had charged for it, and stops at a block boundary or at the end of the
  prompt.
\<close>

theorem prepopulate_cost:
  assumes "is_context_init_state r" "context_position r = 0" "0 \<le> chunk_size r" "chunk_size r \<le> prompt_len r"
    and "0 \<le> n" "n < prompt_len r" "0 < b" "b dvd n"
  shows "\<exists>r'. set_prepopulated_prompt_len n b r = Inr r' \<and>
     chunk_size r' \<le> reuse_adjusted_compute (chunk_size r) n (context_remaining_length r) \<and>
     0 \<le> chunk_size r' \<and> (n > 0 \<longrightarrow> is_last_context_chunk r' \<or> b dvd context_position r' + chunk_size r')"
proof (cases "n > 0")
  case False
  then have "n = 0" using assms(5) by simp
  then show ?thesis using assms
    by (simp add: set_prepopulated_prompt_len_def reuse_adjusted_compute_def context_remaining_length_def)
next
  case pos: True
  let ?ends = "n + chunk_size r"
  obtain k where k: "n = b * k" using assms(8) by (auto elim: dvdE)
  have low: "n \<le> ?ends div b * b"
  proof -
    have "k \<le> ?ends div b" using div_le_iff [OF assms(7), of k ?ends] assms(3) k by (simp add: mult.commute)
    then show ?thesis using k assms(7) by (simp add: mult.commute)
  qed
  have high: "?ends div b * b \<le> ?ends" using assms(7) by (simp add: minus_mod_eq_div_mult [symmetric])
  show ?thesis
  proof (cases "?ends < prompt_len r")
    case True
    then show ?thesis
      using pos low high assms
      by (auto simp: set_prepopulated_prompt_len_def set_context_chunk_size_def is_context_init_state_def
          context_remaining_length_def reuse_adjusted_compute_def is_last_context_chunk_def Let_def min_def)
  next
    case False
    then show ?thesis
      using pos assms
      by (auto simp: set_prepopulated_prompt_len_def set_context_chunk_size_def is_context_init_state_def
          context_remaining_length_def reuse_adjusted_compute_def is_last_context_chunk_def Let_def min_def)
  qed
qed

theorem prepopulate_cost_witness:
  "\<exists>r'. set_prepopulated_prompt_len 64 32 \<lparr>request_id = 1, request_state = CONTEXT_INIT, prompt_len = 200,
       context_position = 0, prepopulated_len = 0, chunk_size = 100, num_draft_tokens = 0,
       encoder_output_len = 0, estimated_reusable_tokens = 64, num_tokens0 = 200,
       beam_width_by_iter = 1, lora_task_id = None, encoder_ready = None\<rparr> = Inr r' \<and>
     chunk_size r' \<le> reuse_adjusted_compute 100 64 200"
  using prepopulate_cost [of "\<lparr>request_id = 1, request_state = CONTEXT_INIT, prompt_len = 200,
       context_position = 0, prepopulated_len = 0, chunk_size = 100, num_draft_tokens = 0,
       encoder_output_len = 0, estimated_reusable_tokens = 64, num_tokens0 = 200,
       beam_width_by_iter = 1, lora_task_id = None, encoder_ready = None\<rparr>" 64 32]
  by (auto simp: is_context_init_state_def context_remaining_length_def)

end
