(* ===== verification/MicroBatch.thy ===== *)
theory MicroBatch
  imports LlmRequest "HOL-Library.Multiset"
begin

text \<open>
  \<open>PyMicroBatchScheduler\<close> of \<^verbatim>\<open>_torch/pyexecutor/scheduler/scheduler.py\<close>: which of the requests that
  fit into memory run in the next iteration, and how much of each prompt. The token budget
  \<open>max_num_tokens\<close> counts the tokens the forward pass computes, so tokens found in the cache are
  free. A request object that the code mutates (its chunk size and draft tokens) is returned
  updated in the lists; log messages are left out. \<open>max_context_length\<close> is the same number as
  \<open>max_num_tokens\<close>, as the constructor sets it.
\<close>

section \<open>Configuration and state\<close>

datatype chunking_policy = EQUAL_PROGRESS | FIRST_COME_FIRST_SERVED | FORCE_CHUNK

record mb_config =
  max_batch_size :: int
  max_num_tokens :: "int option"
  ctx_chunk_config :: "(chunking_policy \<times> int) option"
  no_schedule_until :: int
  no_schedule_after :: int

record mb_state =
  encoder_requests :: "llm_request list"
  context_requests :: "llm_request list"
  generation_requests :: "llm_request list"
  batch_num_tokens :: int
  scheduled_req_size :: int
  scheduled_beam_width :: int
  contexts_to_be_chunked :: "llm_request list"
  num_chunked_compute_tokens :: int
  all_context_requests_fit :: bool

definition mb_start :: mb_state where
  "mb_start = \<lparr>encoder_requests = [], context_requests = [], generation_requests = [],
     batch_num_tokens = 0, scheduled_req_size = 0, scheduled_beam_width = 0,
     contexts_to_be_chunked = [], num_chunked_compute_tokens = 0, all_context_requests_fit = True\<rparr>"

text \<open>\<open>over lim n\<close>: a limit is configured and \<open>n\<close> exceeds it.\<close>

definition over :: "int option \<Rightarrow> int \<Rightarrow> bool" where
  "over lim n = (case lim of None \<Rightarrow> False | Some m \<Rightarrow> n > m)"

definition mb_can_be_scheduled :: "mb_config \<Rightarrow> llm_request \<Rightarrow> bool" where
  "mb_can_be_scheduled cfg r =
     (if is_decoder_context_request_waiting_for_encoder_output r then False
      else state_code (request_state r) \<ge> no_schedule_until cfg
           \<and> state_code (request_state r) < no_schedule_after cfg)"

section \<open>The main loop\<close>

text \<open>
  A step returns whether the loop breaks and the new state. \<open>mb_count\<close> is the end of the loop body:
  the request was taken, so it counts against the batch size.
\<close>

definition mb_count :: "mb_config \<Rightarrow> mb_state \<Rightarrow> (bool \<times> mb_state) result" where
  "mb_count cfg st =
     (let n = scheduled_req_size st + 1
      in Inr (n \<ge> max_batch_size cfg, st\<lparr>scheduled_req_size := n\<rparr>))"

definition mb_encoder :: "mb_config \<Rightarrow> llm_request \<Rightarrow> mb_state \<Rightarrow> (bool \<times> mb_state) result" where
  "mb_encoder cfg r st =
     (let n = encoder_output_len r in
      if over (max_num_tokens cfg) n then Inl AssertionError
      else if over (max_num_tokens cfg) (batch_num_tokens st + n) then Inr (True, st)
      else mb_count cfg (st\<lparr>encoder_requests := encoder_requests st @ [r],
                            batch_num_tokens := batch_num_tokens st + n\<rparr>))"

definition full_compute :: "llm_request \<Rightarrow> int" where
  "full_compute r =
     (let draft_tokens = (if has_draft_tokens r then num_draft_tokens r else 0)
      in max 1 (reuse_adjusted_compute (num_tokens0 r) (reusable_tokens r) (context_remaining_length r)
                + draft_tokens))"

definition mb_context_full :: "mb_config \<Rightarrow> llm_request \<Rightarrow> mb_state \<Rightarrow> (bool \<times> mb_state) result" where
  "mb_context_full cfg r st =
     (let compute_tokens = full_compute r in
      if over (max_num_tokens cfg) compute_tokens then Inl AssertionError
      else if over (max_num_tokens cfg) (batch_num_tokens st + compute_tokens) then Inr (True, st)
      else mb_count cfg (st\<lparr>context_requests := context_requests st @ [r],
                            batch_num_tokens := batch_num_tokens st + compute_tokens\<rparr>))"

text \<open>The compute cost of the chunk a request has been given, and its draft tokens in the last chunk.\<close>

definition chunk_compute :: "llm_request \<Rightarrow> int" where
  "chunk_compute r = reuse_adjusted_compute (chunk_size r) (reusable_tokens r) (context_remaining_length r)"

definition last_chunk_drafts :: "llm_request \<Rightarrow> int" where
  "last_chunk_drafts r = (if is_last_context_chunk r \<and> has_draft_tokens r then num_draft_tokens r else 0)"

definition mb_context_chunked :: "mb_config \<Rightarrow> llm_request \<Rightarrow> mb_state \<Rightarrow> (bool \<times> mb_state) result" where
  "mb_context_chunked cfg r0 st =
     rbind (set_context_chunk_size (context_remaining_length r0) r0) (\<lambda>r.
       let compute_tokens = chunk_compute r + last_chunk_drafts r in
       let clipped = over (max_num_tokens cfg) compute_tokens in
       mb_count cfg (st\<lparr>contexts_to_be_chunked := contexts_to_be_chunked st @ [r],
          num_chunked_compute_tokens := num_chunked_compute_tokens st +
            (if clipped then the (max_num_tokens cfg) else compute_tokens),
          all_context_requests_fit := all_context_requests_fit st \<and> \<not> clipped\<rparr>))"

definition mb_generation :: "mb_config \<Rightarrow> llm_request \<Rightarrow> mb_state \<Rightarrow> (bool \<times> mb_state) result" where
  "mb_generation cfg r st =
     (let n = beam_width_by_iter r + num_draft_tokens r in
      if over (max_num_tokens cfg) (batch_num_tokens st + n) then Inr (True, st)
      else if scheduled_beam_width st \<noteq> 0 \<and> scheduled_beam_width st \<noteq> beam_width_by_iter r
      then Inr (False, st)
      else mb_count cfg
        (st\<lparr>scheduled_beam_width := (if scheduled_beam_width st = 0 then beam_width_by_iter r
                                     else scheduled_beam_width st),
            generation_requests := generation_requests st @ [r],
            batch_num_tokens := batch_num_tokens st + n\<rparr>))"

definition mb_step :: "mb_config \<Rightarrow> int list \<Rightarrow> llm_request \<Rightarrow> mb_state \<Rightarrow> (bool \<times> mb_state) result" where
  "mb_step cfg inflight r st =
     (if request_id r \<in> set inflight then Inr (False, st)
      else if \<not> mb_can_be_scheduled cfg r then Inr (False, st)
      else if request_state r = ENCODER_INIT then mb_encoder cfg r st
      else if request_state r = CONTEXT_INIT
      then (case ctx_chunk_config cfg of None \<Rightarrow> mb_context_full cfg r st
            | Some _ \<Rightarrow> mb_context_chunked cfg r st)
      else mb_generation cfg r st)"

fun mb_loop :: "mb_config \<Rightarrow> int list \<Rightarrow> llm_request list \<Rightarrow> mb_state \<Rightarrow> mb_state result" where
  "mb_loop cfg inflight [] st = Inr st"
| "mb_loop cfg inflight (r # rs) st =
     rbind (mb_step cfg inflight r st) (\<lambda>(stop, st').
       if stop then Inr st' else mb_loop cfg inflight rs st')"

section \<open>Chunking policies\<close>

text \<open>The reuse credit the policies work with is cut to the remaining length.\<close>

definition policy_compute :: "int \<Rightarrow> llm_request \<Rightarrow> int" where
  "policy_compute chunk r =
     reuse_adjusted_compute chunk (min (reusable_tokens r) (context_remaining_length r))
       (context_remaining_length r)"

text \<open>
  One round of the loop of \<open>_chunk_equal_progress\<close>: \<open>n\<close> is \<open>num_compute_tokens\<close> and \<open>s\<close> is
  \<open>num_tokens_single_loop\<close>.
\<close>

fun equal_progress_round ::
  "int option \<Rightarrow> int option \<Rightarrow> int \<Rightarrow> llm_request list \<Rightarrow> int \<Rightarrow> int \<Rightarrow> (llm_request list \<times> int \<times> int) result" where
  "equal_progress_round cap max_ctx unit_size [] n s = Inr ([], n, s)"
| "equal_progress_round cap max_ctx unit_size (r # rs) n s =
     (let past = chunk_size r in
      rbind (set_context_chunk_size (min (past + unit_size) (context_remaining_length r)) r) (\<lambda>r1.
        let actual = chunk_size r1;
            increment = policy_compute actual r1 - policy_compute past r1
        in if over cap (n + increment) \<or> over max_ctx actual
           then rbind (set_context_chunk_size past r1) (\<lambda>r2.
                rbind (equal_progress_round cap max_ctx unit_size rs n s) (\<lambda>(rs', n', s').
                Inr (r2 # rs', n', s')))
           else rbind (equal_progress_round cap max_ctx unit_size rs (n + increment) (s + (actual - past)))
                  (\<lambda>(rs', n', s'). Inr (r1 # rs', n', s'))))"

definition prompt_gap :: "llm_request list \<Rightarrow> nat" where
  "prompt_gap rs = (\<Sum>r\<leftarrow>rs. nat (context_remaining_length r - chunk_size r))"

lemma remaining_chunk_update [simp]:
  "context_remaining_length (r\<lparr>chunk_size := c\<rparr>) = context_remaining_length r"
  by (simp add: context_remaining_length_def)

lemma reusable_chunk_update [simp]: "reusable_tokens (r\<lparr>chunk_size := c\<rparr>) = reusable_tokens r"
  by (simp add: reusable_tokens_def is_first_context_chunk_def)

lemma policy_compute_update [simp]: "policy_compute n (r\<lparr>chunk_size := c\<rparr>) = policy_compute n r"
  by (simp add: policy_compute_def)

text \<open>A round takes back or advances the first request, and goes on with the others.\<close>

lemma equal_progress_round_Cons:
  assumes "equal_progress_round cap max_ctx u (r # rs) n s = Inr (rs', n', s')"
  obtains rs1 where
    "rs' = r\<lparr>chunk_size := min (chunk_size r) (context_remaining_length r)\<rparr> # rs1" "0 \<le> chunk_size r"
    "equal_progress_round cap max_ctx u rs n s = Inr (rs1, n', s')"
  | c rs1 where "c = min (chunk_size r + u) (context_remaining_length r)" "0 \<le> c"
    "rs' = r\<lparr>chunk_size := c\<rparr> # rs1"
    "\<not> over cap (n + (policy_compute c r - policy_compute (chunk_size r) r))" "\<not> over max_ctx c"
    "equal_progress_round cap max_ctx u rs (n + (policy_compute c r - policy_compute (chunk_size r) r))
       (s + (c - chunk_size r)) = Inr (rs1, n', s')"
proof -
  let ?c = "min (chunk_size r + u) (context_remaining_length r)"
  obtain r1 where r1: "set_context_chunk_size ?c r = Inr r1"
    using assms by (auto simp: Let_def rbind_eq_Inr)
  have r1': "r1 = r\<lparr>chunk_size := ?c\<rparr>" "0 \<le> ?c" using set_chunk_fields [OF r1] by simp_all
  show thesis
  proof (cases "over cap (n + (policy_compute ?c r - policy_compute (chunk_size r) r)) \<or> over max_ctx ?c")
    case True
    then obtain r2 rs1 where "set_context_chunk_size (chunk_size r) r1 = Inr r2"
        "equal_progress_round cap max_ctx u rs n s = Inr (rs1, n', s')" "rs' = r2 # rs1"
      using assms r1 r1' by (auto simp: Let_def rbind_eq_Inr)
    then show thesis using that(1) r1' set_chunk_fields [of "chunk_size r" r1 r2] by simp
  next
    case False
    then show thesis using that(2) [of ?c] assms r1 r1' by (auto simp: Let_def rbind_eq_Inr)
  qed
qed

lemma equal_progress_round_gap:
  "equal_progress_round cap max_ctx u rs n s = Inr (rs', n', s') \<Longrightarrow>
     int (prompt_gap rs') \<le> int (prompt_gap rs) - (s' - s)"
proof (induction rs arbitrary: n s rs' n' s')
  case (Cons r rs)
  from Cons.prems show ?case
  proof (cases rule: equal_progress_round_Cons)
    case (1 rs1)
    then show ?thesis using Cons.IH [OF 1(3)] by (simp add: prompt_gap_def)
  next
    case (2 c rs1)
    then show ?thesis using Cons.IH [OF 2(6)] by (simp add: prompt_gap_def)
  qed
qed simp

function equal_progress_loop ::
  "int option \<Rightarrow> int option \<Rightarrow> int \<Rightarrow> llm_request list \<Rightarrow> int \<Rightarrow> llm_request list result" where
  "equal_progress_loop cap max_ctx unit_size rs n =
     (if (case cap of None \<Rightarrow> True | Some c \<Rightarrow> n < c)
      then rbind (equal_progress_round cap max_ctx unit_size rs n 0) (\<lambda>(rs', n', s).
           if s > 0 then equal_progress_loop cap max_ctx unit_size rs' n' else Inr rs')
      else Inr rs)"
  by pat_completeness auto
termination
  by (relation "measure (\<lambda>(_, _, _, rs, _). prompt_gap rs)") (auto dest!: equal_progress_round_gap)

declare equal_progress_loop.simps [simp del]

definition chunk_equal_progress ::
  "int option \<Rightarrow> int option \<Rightarrow> int \<Rightarrow> llm_request list \<Rightarrow> llm_request list result" where
  "chunk_equal_progress cap max_ctx unit_size rs = equal_progress_loop cap max_ctx unit_size rs 0"

text \<open>
  \<open>_chunk_fcfs\<close>: \<open>cur\<close> is \<open>current_compute_capacity\<close>, with \<open>None\<close> for infinity.
\<close>

definition fcfs_size :: "int option \<Rightarrow> int option \<Rightarrow> llm_request \<Rightarrow> int" where
  "fcfs_size max_ctx cur r =
     (let suggested = context_remaining_length r;
          compute_cost = policy_compute suggested r;
          actual = (case cur of None \<Rightarrow> suggested
                    | Some c \<Rightarrow> if c < compute_cost then c else suggested)
      in case max_ctx of None \<Rightarrow> actual
         | Some m \<Rightarrow> if policy_compute actual r > m then min m suggested else actual)"

fun chunk_fcfs_loop :: "int option \<Rightarrow> int \<Rightarrow> llm_request list \<Rightarrow> int option \<Rightarrow> llm_request list result" where
  "chunk_fcfs_loop max_ctx unit_size [] cur = Inr []"
| "chunk_fcfs_loop max_ctx unit_size (r # rs) cur =
     (let actual = fcfs_size max_ctx cur r in
      if actual < context_remaining_length r \<and> unit_size = 0 then Inl ZeroDivisionError
      else
        let aligned = (if actual < context_remaining_length r then actual div unit_size * unit_size else actual)
        in rbind (set_context_chunk_size aligned r) (\<lambda>r'.
           rbind (chunk_fcfs_loop max_ctx unit_size rs
                    (map_option (\<lambda>c. c - policy_compute (chunk_size r') r') cur)) (\<lambda>rs'.
           Inr (r' # rs'))))"

definition chunk_fcfs :: "int option \<Rightarrow> int option \<Rightarrow> int \<Rightarrow> llm_request list \<Rightarrow> llm_request list result" where
  "chunk_fcfs cap max_ctx unit_size rs = chunk_fcfs_loop max_ctx unit_size rs cap"

fun chunk_forced_loop :: "int option \<Rightarrow> int \<Rightarrow> llm_request list \<Rightarrow> int \<Rightarrow> (llm_request list \<times> int) result" where
  "chunk_forced_loop cap unit_size [] tot = Inr ([], tot)"
| "chunk_forced_loop cap unit_size (r # rs) tot =
     rbind (set_context_chunk_size (min (context_remaining_length r) unit_size) r) (\<lambda>r1.
     rbind (if over cap (tot + chunk_size r1) then set_context_chunk_size 0 r1 else Inr r1) (\<lambda>r2.
     rbind (chunk_forced_loop cap unit_size rs (tot + chunk_size r2)) (\<lambda>(rs', tot').
     Inr (r2 # rs', tot'))))"

definition chunk_forced :: "int option \<Rightarrow> int option \<Rightarrow> int \<Rightarrow> llm_request list \<Rightarrow> llm_request list result" where
  "chunk_forced cap max_ctx unit_size rs =
     (if (case max_ctx of None \<Rightarrow> False | Some m \<Rightarrow> m < unit_size) then Inl ValueError
      else rbind (chunk_forced_loop cap unit_size rs 0) (\<lambda>(rs', tot).
           py_assert (\<not> over cap tot) (Inr rs')))"

section \<open>Draft tokens\<close>

text \<open>
  \<open>_fit_draft_tokens\<close> drops the draft tokens of a last chunk that neither fit behind it into its
  last unit nor into the budget.
\<close>

definition kept_draft_tokens :: "int option \<Rightarrow> int option \<Rightarrow> int \<Rightarrow> int \<Rightarrow> llm_request \<Rightarrow> int" where
  "kept_draft_tokens cap max_ctx unit_size num_ctx r =
     (let remainder = chunk_size r mod unit_size;
          space = (if remainder = 0 then 0 else unit_size - remainder);
          space = (case max_ctx of None \<Rightarrow> space | Some m \<Rightarrow> min space (m - chunk_size r));
          kept = min (num_draft_tokens r) (max 0 space)
      in case cap of None \<Rightarrow> kept | Some c \<Rightarrow> max 0 (min kept (c - num_ctx)))"

fun fit_draft_loop :: "int option \<Rightarrow> int option \<Rightarrow> int \<Rightarrow> llm_request list \<Rightarrow> int \<Rightarrow> llm_request list result" where
  "fit_draft_loop cap max_ctx unit_size [] num_ctx = Inr []"
| "fit_draft_loop cap max_ctx unit_size (r # rs) num_ctx =
     (if is_last_context_chunk r \<and> has_draft_tokens r
      then if unit_size = 0 then Inl ZeroDivisionError
           else
             let kept = kept_draft_tokens cap max_ctx unit_size num_ctx r;
                 num_ctx' = (case cap of None \<Rightarrow> num_ctx | Some _ \<Rightarrow> num_ctx + kept)
             in rbind (if num_draft_tokens r - kept > 0
                       then discard_draft_tokens (num_draft_tokens r - kept) r else Inr r) (\<lambda>r'.
                rbind (fit_draft_loop cap max_ctx unit_size rs num_ctx') (\<lambda>rs'. Inr (r' # rs')))
      else rbind (fit_draft_loop cap max_ctx unit_size rs num_ctx) (\<lambda>rs'. Inr (r # rs')))"

definition fit_draft_tokens :: "int option \<Rightarrow> int option \<Rightarrow> int \<Rightarrow> llm_request list \<Rightarrow> llm_request list result" where
  "fit_draft_tokens cap max_ctx unit_size rs =
     fit_draft_loop cap max_ctx unit_size rs (\<Sum>r\<leftarrow>rs. policy_compute (chunk_size r) r)"

section \<open>The scheduler\<close>

fun reset_chunks :: "llm_request list \<Rightarrow> llm_request list result" where
  "reset_chunks [] = Inr []"
| "reset_chunks (r # rs) =
     rbind (set_context_chunk_size 0 r) (\<lambda>r'. rbind (reset_chunks rs) (\<lambda>rs'. Inr (r' # rs')))"

definition set_ctx_requests_chunk_size ::
  "chunking_policy \<Rightarrow> int \<Rightarrow> int option \<Rightarrow> int option \<Rightarrow> llm_request list \<Rightarrow> llm_request list result" where
  "set_ctx_requests_chunk_size policy unit_size cap max_ctx rs =
     rbind (reset_chunks rs) (\<lambda>rs0.
     rbind (case policy of
              EQUAL_PROGRESS \<Rightarrow> chunk_equal_progress cap max_ctx unit_size rs0
            | FIRST_COME_FIRST_SERVED \<Rightarrow> chunk_fcfs cap max_ctx unit_size rs0
            | FORCE_CHUNK \<Rightarrow> chunk_forced cap max_ctx unit_size rs0)
       (fit_draft_tokens cap max_ctx unit_size))"

text \<open>\<open>_sort_requests\<close>; \<open>list.sort(key=...)\<close> is a stable sort.\<close>

definition sort_requests ::
  "llm_request list \<Rightarrow> llm_request list \<Rightarrow> bool \<Rightarrow> llm_request list \<times> llm_request list" where
  "sort_requests ctx gen chunks_present =
     ((if chunks_present
       then sort_key get_lora_task_id (filter (\<lambda>r. \<not> is_last_context_chunk r) ctx)
            @ sort_key get_lora_task_id (filter is_last_context_chunk ctx)
       else sort_key get_lora_task_id ctx),
      sort_key get_lora_task_id gen)"

definition mb_finish ::
  "mb_config \<Rightarrow> mb_state \<Rightarrow> (llm_request list \<times> llm_request list \<times> llm_request list) result" where
  "mb_finish cfg st =
     (let fit1 = all_context_requests_fit st
                 \<and> (case max_num_tokens cfg of None \<Rightarrow> True
                    | Some m \<Rightarrow> num_chunked_compute_tokens st \<le> m - batch_num_tokens st);
          fit = fit1 \<and> (case ctx_chunk_config cfg of Some (FORCE_CHUNK, _) \<Rightarrow> False | _ \<Rightarrow> True);
          remaining_capacity = map_option (\<lambda>m. m - batch_num_tokens st) (max_num_tokens cfg)
      in rbind (if \<not> fit \<and> contexts_to_be_chunked st \<noteq> []
                then (case ctx_chunk_config cfg of
                        None \<Rightarrow> Inl AssertionError
                      | Some (policy, unit_size) \<Rightarrow>
                          set_ctx_requests_chunk_size policy unit_size remaining_capacity
                            (max_num_tokens cfg) (contexts_to_be_chunked st))
                else Inr (contexts_to_be_chunked st)) (\<lambda>chunked.
           let ctx = context_requests st @ filter (\<lambda>r. chunk_size r > 0) chunked;
               (ctx', gen') = sort_requests ctx (generation_requests st) (\<not> fit)
           in Inr (sort_key get_lora_task_id (encoder_requests st), ctx', gen')))"

definition mb_schedule ::
  "mb_config \<Rightarrow> llm_request list \<Rightarrow> int list \<Rightarrow> (llm_request list \<times> llm_request list \<times> llm_request list) result" where
  "mb_schedule cfg active inflight = rbind (mb_loop cfg inflight active mb_start) (mb_finish cfg)"

section \<open>What the policies guarantee\<close>

text \<open>
  \<open>sane r\<close> states what every request of the executor satisfies: lengths are not negative and the
  cursor has not passed the end of the prompt.
\<close>

definition sane :: "llm_request \<Rightarrow> bool" where
  "sane r \<longleftrightarrow> 0 \<le> context_remaining_length r \<and> 0 \<le> num_draft_tokens r \<and> 0 \<le> encoder_output_len r \<and>
     0 \<le> estimated_reusable_tokens r \<and> 1 \<le> beam_width_by_iter r"

text \<open>What a policy makes of a request: only the chunk changes, and it is whole or aligned.\<close>

definition rechunked :: "int \<Rightarrow> llm_request \<Rightarrow> llm_request \<Rightarrow> bool" where
  "rechunked u r r' \<longleftrightarrow> r' = r\<lparr>chunk_size := chunk_size r'\<rparr> \<and> 0 \<le> chunk_size r' \<and>
     chunk_size r' \<le> context_remaining_length r \<and>
     (chunk_size r' = context_remaining_length r \<or> u dvd chunk_size r')"

abbreviation policy_cost :: "llm_request list \<Rightarrow> int" where
  "policy_cost rs \<equiv> (\<Sum>r\<leftarrow>rs. policy_compute (chunk_size r) r)"

lemma policy_compute_min:
  assumes "sane r" "0 \<le> c" "c \<le> context_remaining_length r"
  shows "policy_compute c r = min c (max 0 (context_remaining_length r - reusable_tokens r))"
proof -
  have "0 \<le> reusable_tokens r" using assms(1) by (simp add: sane_def reusable_tokens_def)
  then show ?thesis using assms by (auto simp: policy_compute_def compute_min sane_def)
qed

lemma sane_rechunk [simp]: "sane (r\<lparr>chunk_size := c\<rparr>) = sane r"
  by (simp add: sane_def)

lemma set_chunk_ok:
  assumes "request_state r = CONTEXT_INIT" "0 \<le> n"
  shows "set_context_chunk_size n r = Inr (r\<lparr>chunk_size := min n (context_remaining_length r)\<rparr>)"
  using assms by (simp add: set_context_chunk_size_def is_context_init_state_def)

definition good :: "int \<Rightarrow> llm_request \<Rightarrow> bool" where
  "good u r \<longleftrightarrow> request_state r = CONTEXT_INIT \<and> sane r \<and> rechunked u r r"

lemma rechunkedE:
  assumes "rechunked u r r'"
  obtains c where "r' = r\<lparr>chunk_size := c\<rparr>" "0 \<le> c" "c \<le> context_remaining_length r"
    "c = context_remaining_length r \<or> u dvd c"
proof -
  have "r' = r\<lparr>chunk_size := chunk_size r'\<rparr>" using assms by (simp add: rechunked_def)
  then show thesis using that [of "chunk_size r'"] assms by (simp add: rechunked_def)
qed

lemma good_rechunked: "good u r \<Longrightarrow> rechunked u r r' \<Longrightarrow> good u r'"
  by (erule rechunkedE) (simp add: good_def rechunked_def)

lemma rechunked_trans: "rechunked u r r1 \<Longrightarrow> rechunked u r1 r2 \<Longrightarrow> rechunked u r r2"
  by (elim rechunkedE) (simp add: rechunked_def)

lemma rechunked_update:
  "0 \<le> c \<Longrightarrow> c \<le> context_remaining_length r \<Longrightarrow> c = context_remaining_length r \<or> u dvd c \<Longrightarrow>
     rechunked u r (r\<lparr>chunk_size := c\<rparr>)"
  by (simp add: rechunked_def)

lemma equal_progress_round_ok:
  assumes "list_all (good u) rs" "0 < u"
  shows "\<exists>rs' n' s'. equal_progress_round cap max_ctx u rs n s = Inr (rs', n', s') \<and>
     list_all2 (rechunked u) rs rs' \<and> n' - n = policy_cost rs' - policy_cost rs \<and>
     (\<not> over cap n \<longrightarrow> \<not> over cap n')"
  using assms(1)
proof (induction rs arbitrary: n s)
  case (Cons r rs)
  let ?past = "chunk_size r" and ?c = "min (chunk_size r + u) (context_remaining_length r)"
  have r: "request_state r = CONTEXT_INIT" "sane r" "0 \<le> ?past" "?past \<le> context_remaining_length r"
      "?past = context_remaining_length r \<or> u dvd ?past"
    using Cons.prems by (simp_all add: good_def rechunked_def)
  have set_c: "set_context_chunk_size ?c r = Inr (r\<lparr>chunk_size := ?c\<rparr>)"
    using set_chunk_ok [OF r(1), of ?c] r assms(2) by simp
  have set_past: "set_context_chunk_size ?past (r\<lparr>chunk_size := ?c\<rparr>) = Inr r"
    using set_chunk_ok [of "r\<lparr>chunk_size := ?c\<rparr>" ?past] r by simp
  have adv: "rechunked u r (r\<lparr>chunk_size := ?c\<rparr>)"
    using r assms(2) by (intro rechunked_update) (auto simp: min_def)
  let ?inc = "policy_compute ?c r - policy_compute ?past r"
  show ?case
  proof (cases "over cap (n + ?inc) \<or> over max_ctx ?c")
    case True
    obtain rs' n' s' where IH: "equal_progress_round cap max_ctx u rs n s = Inr (rs', n', s')"
        "list_all2 (rechunked u) rs rs'" "n' - n = policy_cost rs' - policy_cost rs"
        "\<not> over cap n \<longrightarrow> \<not> over cap n'"
      using Cons.IH [of n s] Cons.prems by auto
    have "equal_progress_round cap max_ctx u (r # rs) n s = Inr (r # rs', n', s')"
      using True set_c set_past IH(1) by (simp add: Let_def)
    then show ?thesis using IH Cons.prems by (simp add: good_def)
  next
    case False
    obtain rs' n' s' where IH: "equal_progress_round cap max_ctx u rs (n + ?inc) (s + (?c - ?past)) = Inr (rs', n', s')"
        "list_all2 (rechunked u) rs rs'" "n' - (n + ?inc) = policy_cost rs' - policy_cost rs"
        "\<not> over cap (n + ?inc) \<longrightarrow> \<not> over cap n'"
      using Cons.IH [of "n + ?inc" "s + (?c - ?past)"] Cons.prems by auto
    have "equal_progress_round cap max_ctx u (r # rs) n s = Inr (r\<lparr>chunk_size := ?c\<rparr> # rs', n', s')"
      using False set_c IH(1) by (simp add: Let_def)
    then show ?thesis using IH adv False by simp
  qed
qed simp

lemma good_list: "list_all2 (rechunked u) rs rs' \<Longrightarrow> list_all (good u) rs \<Longrightarrow> list_all (good u) rs'"
  by (induction rule: list_all2_induct) (auto intro: good_rechunked)

lemma rechunked_list_trans:
  "list_all2 (rechunked u) rs rs1 \<Longrightarrow> list_all2 (rechunked u) rs1 rs2 \<Longrightarrow> list_all2 (rechunked u) rs rs2"
  unfolding list_all2_conv_all_nth by (metis rechunked_trans)

lemma equal_progress_loop_ok:
  assumes "list_all (good u) rs" "0 < u" "\<not> over cap n" "n = policy_cost rs"
  shows "\<exists>rs'. equal_progress_loop cap max_ctx u rs n = Inr rs' \<and> list_all2 (rechunked u) rs rs' \<and>
     \<not> over cap (policy_cost rs')"
  using assms
proof (induction cap max_ctx u rs n rule: equal_progress_loop.induct)
  case (1 cap max_ctx u rs n)
  have same: "list_all2 (rechunked u) rs rs"
    using "1.prems"(1) by (auto simp: list_all2_same list_all_iff good_def)
  show ?case
  proof (cases "case cap of None \<Rightarrow> True | Some c \<Rightarrow> n < c")
    case False
    then have "equal_progress_loop cap max_ctx u rs n = Inr rs"
      by (simp add: equal_progress_loop.simps [of cap max_ctx u rs n])
    then show ?thesis using "1.prems" same by simp
  next
    case guard: True
    obtain rs1 n1 s1 where rd: "equal_progress_round cap max_ctx u rs n 0 = Inr (rs1, n1, s1)"
        "list_all2 (rechunked u) rs rs1" and cost: "n1 - n = policy_cost rs1 - policy_cost rs"
        "\<not> over cap n \<longrightarrow> \<not> over cap n1"
      using equal_progress_round_ok [OF "1.prems"(1,2), of cap max_ctx n 0] by blast
    have rd': "n1 = policy_cost rs1" "\<not> over cap n1" using cost "1.prems"(3,4) by linarith+
    show ?thesis
    proof (cases "s1 > 0")
      case True
      obtain rs2 where "equal_progress_loop cap max_ctx u rs1 n1 = Inr rs2" "list_all2 (rechunked u) rs1 rs2"
          "\<not> over cap (policy_cost rs2)"
        using "1.IH" [OF guard rd(1) refl refl True good_list [OF rd(2) "1.prems"(1)] "1.prems"(2) rd'(2,1)]
        by blast
      moreover from this(2) have "list_all2 (rechunked u) rs rs2"
        by (rule rechunked_list_trans [OF rd(2)])
      ultimately show ?thesis
        using rd(1) True guard by (simp add: equal_progress_loop.simps [of cap max_ctx u rs n])
    next
      case False
      then show ?thesis using rd rd' guard by (simp add: equal_progress_loop.simps [of cap max_ctx u rs n])
    qed
  qed
qed

definition ctx_ready :: "llm_request \<Rightarrow> bool" where
  "ctx_ready r \<longleftrightarrow> request_state r = CONTEXT_INIT \<and> sane r"

lemma good_ctx_ready: "good u r \<Longrightarrow> ctx_ready r"
  by (simp add: good_def ctx_ready_def)

lemma rechunked_ready: "rechunked u r r' \<Longrightarrow> ctx_ready r \<Longrightarrow> good u r'"
  by (erule rechunkedE) (simp add: good_def ctx_ready_def rechunked_def)

lemma fcfs_size_bounds:
  assumes "sane r" "\<And>m. max_ctx = Some m \<Longrightarrow> 0 \<le> m" "\<And>c. cur = Some c \<Longrightarrow> 0 \<le> c"
  shows "0 \<le> fcfs_size max_ctx cur r" "fcfs_size max_ctx cur r \<le> context_remaining_length r"
    "cur = Some c \<Longrightarrow> policy_compute (fcfs_size max_ctx cur r) r \<le> c"
proof -
  let ?P = "context_remaining_length r"
  define a where "a = (case cur of None \<Rightarrow> ?P | Some c \<Rightarrow> if c < policy_compute ?P r then c else ?P)"
  have P: "0 \<le> ?P" using assms(1) by (simp add: sane_def)
  have pc: "policy_compute x r = min x (max 0 (?P - reusable_tokens r))" if "0 \<le> x" "x \<le> ?P" for x
    using policy_compute_min [OF assms(1) that] .
  have a: "0 \<le> a" "a \<le> ?P" using P assms(3) pc [of ?P] by (auto simp: a_def split: option.split)
  have a_c: "policy_compute a r \<le> c" if "cur = Some c" for c
    using that pc [OF a] by (auto simp: a_def)
  have f: "fcfs_size max_ctx cur r =
      (case max_ctx of None \<Rightarrow> a | Some m \<Rightarrow> if policy_compute a r > m then min m ?P else a)"
    unfolding fcfs_size_def Let_def a_def by (rule refl)
  show "0 \<le> fcfs_size max_ctx cur r" "fcfs_size max_ctx cur r \<le> ?P"
    using a P assms(2) by (auto simp: f split: option.split)
  show "policy_compute (fcfs_size max_ctx cur r) r \<le> c" if "cur = Some c"
  proof (cases max_ctx)
    case None
    then show ?thesis using a_c [OF that] f by simp
  next
    case (Some m)
    have "policy_compute (min m ?P) r \<le> m" using pc [of "min m ?P"] assms(2) [OF Some] P by simp
    then show ?thesis using a_c [OF that] f Some by auto
  qed
qed

lemma chunk_fcfs_loop_ok:
  assumes "list_all ctx_ready rs" "0 < u" "\<And>m. max_ctx = Some m \<Longrightarrow> 0 \<le> m" "\<And>c. cur = Some c \<Longrightarrow> 0 \<le> c"
  shows "\<exists>rs'. chunk_fcfs_loop max_ctx u rs cur = Inr rs' \<and> list_all2 (rechunked u) rs rs' \<and>
     \<not> over cur (policy_cost rs')"
  using assms(1,4)
proof (induction rs arbitrary: cur)
  case Nil
  then show ?case by (auto simp: over_def split: option.split)
next
  case (Cons r rs)
  let ?P = "context_remaining_length r" and ?a = "fcfs_size max_ctx cur r"
  define c where "c = (if ?a < ?P then ?a div u * u else ?a)"
  have r: "request_state r = CONTEXT_INIT" "sane r" using Cons.prems(1) by (simp_all add: ctx_ready_def)
  have a: "0 \<le> ?a" "?a \<le> ?P" "\<And>k. cur = Some k \<Longrightarrow> policy_compute ?a r \<le> k"
    using fcfs_size_bounds [OF r(2), of max_ctx cur] assms(3) Cons.prems(2) by blast+
  have down: "?a div u * u \<le> ?a" "0 \<le> ?a div u * u"
    using assms(2) a(1) by (simp_all add: minus_mod_eq_div_mult [symmetric] zmod_le_nonneg_dividend)
  have c: "0 \<le> c" "c \<le> ?a" "c = ?P \<or> u dvd c"
    using down a(1,2) by (auto simp: c_def)
  have set_c: "set_context_chunk_size c r = Inr (r\<lparr>chunk_size := c\<rparr>)"
    using set_chunk_ok [OF r(1) c(1)] c(2) a(2) by simp
  have cost: "policy_compute c r \<le> k" if "cur = Some k" for k
    using a(3) [OF that] policy_compute_min [OF r(2)] c a(1,2) by simp
  let ?cur = "map_option (\<lambda>k. k - policy_compute c r) cur"
  have "0 \<le> k" if "?cur = Some k" for k using that cost by auto
  then obtain rs' where rs': "chunk_fcfs_loop max_ctx u rs ?cur = Inr rs'" "list_all2 (rechunked u) rs rs'"
      "\<not> over ?cur (policy_cost rs')"
    using Cons.IH [of ?cur] Cons.prems(1) by auto
  have "chunk_fcfs_loop max_ctx u (r # rs) cur = Inr (r\<lparr>chunk_size := c\<rparr> # rs')"
    using set_c rs'(1) assms(2) by (simp add: Let_def c_def [symmetric])
  moreover have "rechunked u r (r\<lparr>chunk_size := c\<rparr>)" using c a(2) by (intro rechunked_update) auto
  ultimately show ?case using rs'(2,3) by (auto simp: over_def split: option.splits)
qed

lemma chunk_forced_loop_ok:
  assumes "list_all ctx_ready rs" "0 < u" "\<not> over cap n"
  shows "\<exists>rs' n'. chunk_forced_loop cap u rs n = Inr (rs', n') \<and> list_all2 (rechunked u) rs rs' \<and>
     \<not> over cap n' \<and> n + policy_cost rs' \<le> n'"
  using assms(1,3)
proof (induction rs arbitrary: n)
  case (Cons r rs)
  let ?P = "context_remaining_length r"
  have r: "request_state r = CONTEXT_INIT" "sane r" "0 \<le> ?P"
    using Cons.prems(1) by (simp_all add: ctx_ready_def sane_def)
  define c where "c = (if over cap (n + min ?P u) then 0 else min ?P u)"
  have c: "0 \<le> c" "c \<le> ?P" "c = ?P \<or> u dvd c" "\<not> over cap (n + c)"
    using r(3) assms(2) Cons.prems(2) by (auto simp: c_def min_def)
  have step: "rbind (set_context_chunk_size (min ?P u) r) (\<lambda>r1.
      if over cap (n + chunk_size r1) then set_context_chunk_size 0 r1 else Inr r1) = Inr (r\<lparr>chunk_size := c\<rparr>)"
    using set_chunk_ok [OF r(1), of "min ?P u"] set_chunk_ok [of "r\<lparr>chunk_size := min ?P u\<rparr>" 0] r assms(2)
    by (simp add: c_def)
  obtain rs' n' where IH: "chunk_forced_loop cap u rs (n + c) = Inr (rs', n')" "list_all2 (rechunked u) rs rs'"
      "\<not> over cap n'" "n + c + policy_cost rs' \<le> n'"
    using Cons.IH [of "n + c"] Cons.prems(1) c(4) by auto
  have "chunk_forced_loop cap u (r # rs) n = Inr (r\<lparr>chunk_size := c\<rparr> # rs', n')"
    using step IH(1) by (auto simp: rbind_eq_Inr)
  moreover have "rechunked u r (r\<lparr>chunk_size := c\<rparr>)" using c by (intro rechunked_update) auto
  moreover have "policy_compute c r \<le> c" using policy_compute_min [OF r(2) c(1,2)] by simp
  ultimately show ?case using IH by auto
qed simp

text \<open>All three policies keep to the budget, never raise on a sensible configuration, and align.\<close>

definition run_policy :: "chunking_policy \<Rightarrow> int option \<Rightarrow> int option \<Rightarrow> int \<Rightarrow> llm_request list \<Rightarrow> llm_request list result" where
  "run_policy p cap max_ctx u rs =
     (case p of EQUAL_PROGRESS \<Rightarrow> chunk_equal_progress cap max_ctx u rs
      | FIRST_COME_FIRST_SERVED \<Rightarrow> chunk_fcfs cap max_ctx u rs
      | FORCE_CHUNK \<Rightarrow> chunk_forced cap max_ctx u rs)"

lemma reset_chunks_ok:
  assumes "list_all ctx_ready rs"
  shows "reset_chunks rs = Inr (map (\<lambda>r. r\<lparr>chunk_size := 0\<rparr>) rs)"
  using assms by (induction rs) (simp_all add: ctx_ready_def set_chunk_ok sane_def)

lemma run_policy_ok:
  assumes "list_all ctx_ready rs" "\<forall>r \<in> set rs. chunk_size r = 0" "0 < u"
    and "\<And>m. max_ctx = Some m \<Longrightarrow> 0 \<le> m \<and> (p = FORCE_CHUNK \<longrightarrow> u \<le> m)" "\<not> over cap 0"
  shows "\<exists>rs'. run_policy p cap max_ctx u rs = Inr rs' \<and> list_all2 (rechunked u) rs rs' \<and>
     \<not> over cap (policy_cost rs')"
proof (cases p)
  case EQUAL_PROGRESS
  have "list_all (good u) rs"
    using assms(1,2) by (auto simp: list_all_iff good_def ctx_ready_def rechunked_def sane_def)
  moreover have "map (\<lambda>r. policy_compute (chunk_size r) r) rs = map (\<lambda>r. 0) rs"
    using assms(1,2) by (auto simp: list_all_iff ctx_ready_def policy_compute_min sane_def)
  then have "policy_cost rs = 0" by (simp only: sum_list_0)
  ultimately show ?thesis
    using equal_progress_loop_ok [of u rs cap 0 max_ctx] assms(3,5) EQUAL_PROGRESS
    by (auto simp: run_policy_def chunk_equal_progress_def)
next
  case FIRST_COME_FIRST_SERVED
  have "\<And>c. cap = Some c \<Longrightarrow> 0 \<le> c" using assms(5) by (simp add: over_def)
  then show ?thesis
    using chunk_fcfs_loop_ok [OF assms(1,3), of max_ctx cap] assms(4) FIRST_COME_FIRST_SERVED
    by (simp add: run_policy_def chunk_fcfs_def)
next
  case FORCE_CHUNK
  obtain rs' n' where *: "chunk_forced_loop cap u rs 0 = Inr (rs', n')" "list_all2 (rechunked u) rs rs'"
      "\<not> over cap n'" "policy_cost rs' \<le> n'"
    using chunk_forced_loop_ok [OF assms(1,3,5)] by auto
  moreover have "\<not> (case max_ctx of None \<Rightarrow> False | Some m \<Rightarrow> m < u)"
    using assms(4) FORCE_CHUNK by (auto split: option.split)
  ultimately have "chunk_forced cap max_ctx u rs = Inr rs'" by (simp add: chunk_forced_def)
  then show ?thesis using * FORCE_CHUNK by (auto simp: run_policy_def over_def split: option.splits)
qed

section \<open>Draft tokens stay within the budget\<close>

definition trimmed :: "llm_request \<Rightarrow> llm_request \<Rightarrow> bool" where
  "trimmed r r' \<longleftrightarrow> r' = r\<lparr>num_draft_tokens := num_draft_tokens r'\<rparr> \<and> 0 \<le> num_draft_tokens r' \<and>
     num_draft_tokens r' \<le> num_draft_tokens r"

lemma draft_update [simp]:
  "context_remaining_length (r\<lparr>num_draft_tokens := k\<rparr>) = context_remaining_length r"
  "reusable_tokens (r\<lparr>num_draft_tokens := k\<rparr>) = reusable_tokens r"
  "policy_compute c (r\<lparr>num_draft_tokens := k\<rparr>) = policy_compute c r"
  "is_last_context_chunk (r\<lparr>num_draft_tokens := k\<rparr>) = is_last_context_chunk r"
  by (simp_all add: context_remaining_length_def reusable_tokens_def is_first_context_chunk_def
      policy_compute_def is_last_context_chunk_def is_disagg_generation_init_state_def
      is_disagg_generation_transmission_complete_def)

lemma trimmedE:
  assumes "trimmed r r'"
  obtains k where "r' = r\<lparr>num_draft_tokens := k\<rparr>" "0 \<le> k" "k \<le> num_draft_tokens r"
  using assms that [of "num_draft_tokens r'"] by (simp add: trimmed_def)

lemma trimmed_cost: "trimmed r r' \<Longrightarrow> policy_compute (chunk_size r') r' = policy_compute (chunk_size r) r"
  by (erule trimmedE) simp

lemma kept_bounds:
  assumes "0 \<le> num_draft_tokens r"
  shows "0 \<le> kept_draft_tokens cap max_ctx u n r" "kept_draft_tokens cap max_ctx u n r \<le> num_draft_tokens r"
    "cap = Some c \<Longrightarrow> n \<le> c \<Longrightarrow> n + kept_draft_tokens cap max_ctx u n r \<le> c"
  using assms by (auto simp: kept_draft_tokens_def Let_def split: option.split)

lemma fit_draft_loop_ok:
  assumes "\<forall>r \<in> set rs. 0 \<le> num_draft_tokens r" "u \<noteq> 0"
  shows "\<exists>rs'. fit_draft_loop cap max_ctx u rs n = Inr rs' \<and> list_all2 trimmed rs rs' \<and>
     (\<not> over cap n \<longrightarrow> \<not> over cap (n + (\<Sum>r\<leftarrow>rs'. last_chunk_drafts r)))"
  using assms(1)
proof (induction rs arbitrary: n)
  case (Cons r rs)
  show ?case
  proof (cases "is_last_context_chunk r \<and> has_draft_tokens r")
    case False
    obtain rs' where IH: "fit_draft_loop cap max_ctx u rs n = Inr rs'" "list_all2 trimmed rs rs'"
        "\<not> over cap n \<longrightarrow> \<not> over cap (n + (\<Sum>r\<leftarrow>rs'. last_chunk_drafts r))"
      using Cons.IH [of n] Cons.prems by auto
    have "last_chunk_drafts r = 0" "trimmed r r"
      using False Cons.prems by (auto simp: last_chunk_drafts_def trimmed_def)
    then show ?thesis using IH False by auto
  next
    case True
    define k where "k = kept_draft_tokens cap max_ctx u n r"
    define n1 where "n1 = (case cap of None \<Rightarrow> n | Some _ \<Rightarrow> n + k)"
    have k: "0 \<le> k" "k \<le> num_draft_tokens r" "\<not> over cap n \<Longrightarrow> \<not> over cap n1"
      using kept_bounds [where cap = cap and max_ctx = max_ctx and u = u and n = n and r = r] Cons.prems
      by (auto simp: k_def n1_def over_def split: option.splits)
    obtain rs' where IH: "fit_draft_loop cap max_ctx u rs n1 = Inr rs'" "list_all2 trimmed rs rs'"
        "\<not> over cap n1 \<longrightarrow> \<not> over cap (n1 + (\<Sum>r\<leftarrow>rs'. last_chunk_drafts r))"
      using Cons.IH [of n1] Cons.prems by auto
    let ?r = "r\<lparr>num_draft_tokens := k\<rparr>"
    have "(if num_draft_tokens r - k > 0 then discard_draft_tokens (num_draft_tokens r - k) r else Inr r) = Inr ?r"
      using k by (auto simp: discard_draft_tokens_def)
    then have "fit_draft_loop cap max_ctx u (r # rs) n = Inr (?r # rs')"
      using True assms(2) IH(1)
      unfolding fit_draft_loop.simps Let_def k_def [symmetric] n1_def [symmetric] by simp
    moreover have "trimmed r ?r" using k by (simp add: trimmed_def)
    moreover have "last_chunk_drafts ?r = k" using True k by (simp add: last_chunk_drafts_def has_draft_tokens_def)
    ultimately show ?thesis using IH(2,3) k(3) by (auto simp: n1_def over_def split: option.splits)
  qed
qed simp

text \<open>The result of chunking a request: aligned, and with some draft tokens dropped.\<close>

definition chunk_result :: "int \<Rightarrow> llm_request \<Rightarrow> llm_request \<Rightarrow> bool" where
  "chunk_result u r r' \<longleftrightarrow>
     r' = r\<lparr>chunk_size := chunk_size r', num_draft_tokens := num_draft_tokens r'\<rparr> \<and>
     0 \<le> chunk_size r' \<and> chunk_size r' \<le> context_remaining_length r \<and>
     (chunk_size r' = context_remaining_length r \<or> u dvd chunk_size r') \<and>
     0 \<le> num_draft_tokens r' \<and> num_draft_tokens r' \<le> num_draft_tokens r"

lemma chunk_resultI: "rechunked u (r\<lparr>chunk_size := c\<rparr>) r1 \<Longrightarrow> trimmed r1 r2 \<Longrightarrow> chunk_result u r r2"
proof (elim rechunkedE)
  fix d assume "trimmed r1 r2" and r1: "r1 = r\<lparr>chunk_size := c, chunk_size := d\<rparr>"
    and d: "0 \<le> d" "d \<le> context_remaining_length (r\<lparr>chunk_size := c\<rparr>)"
      "d = context_remaining_length (r\<lparr>chunk_size := c\<rparr>) \<or> u dvd d"
  then obtain k where "r2 = r1\<lparr>num_draft_tokens := k\<rparr>" "0 \<le> k" "k \<le> num_draft_tokens r1"
    by (elim trimmedE)
  then show ?thesis using r1 d by (simp add: chunk_result_def)
qed

lemma set_ctx_requests_chunk_size_ok:
  assumes "list_all ctx_ready rs" "0 < u"
    and "\<And>m. max_ctx = Some m \<Longrightarrow> 0 \<le> m \<and> (p = FORCE_CHUNK \<longrightarrow> u \<le> m)" "\<not> over cap 0"
  shows "\<exists>rs'. set_ctx_requests_chunk_size p u cap max_ctx rs = Inr rs' \<and> list_all2 (chunk_result u) rs rs' \<and>
     \<not> over cap (policy_cost rs' + (\<Sum>r\<leftarrow>rs'. last_chunk_drafts r))"
proof -
  let ?rs0 = "map (\<lambda>r. r\<lparr>chunk_size := 0\<rparr>) rs"
  have "list_all ctx_ready ?rs0" using assms(1) by (auto simp: list_all_iff ctx_ready_def)
  then obtain rs1 where rs1: "run_policy p cap max_ctx u ?rs0 = Inr rs1" "list_all2 (rechunked u) ?rs0 rs1"
      "\<not> over cap (policy_cost rs1)"
    using run_policy_ok [of ?rs0 u max_ctx p cap] assms by auto
  have "list_all (good u) rs1"
    using rs1(2) \<open>list_all ctx_ready ?rs0\<close>
    by (induction rule: list_all2_induct) (auto dest: rechunked_ready)
  then have "\<forall>r \<in> set rs1. 0 \<le> num_draft_tokens r" by (auto simp: list_all_iff good_def sane_def)
  then obtain rs2 where rs2: "fit_draft_tokens cap max_ctx u rs1 = Inr rs2" "list_all2 trimmed rs1 rs2"
      "\<not> over cap (policy_cost rs1 + (\<Sum>r\<leftarrow>rs2. last_chunk_drafts r))"
    using fit_draft_loop_ok [of rs1 u cap max_ctx "policy_cost rs1"] assms(2) rs1(3)
    by (auto simp: fit_draft_tokens_def)
  have "policy_cost rs2 = policy_cost rs1"
    using rs2(2) by (induction rule: list_all2_induct) (auto dest: trimmed_cost)
  moreover have "list_all2 (chunk_result u) rs rs2"
    unfolding list_all2_conv_all_nth
  proof (intro conjI allI impI)
    show "length rs = length rs2" using rs1(2) rs2(2) by (auto dest!: list_all2_lengthD)
    fix i assume "i < length rs"
    then have "rechunked u ((rs ! i)\<lparr>chunk_size := 0\<rparr>) (rs1 ! i)" "trimmed (rs1 ! i) (rs2 ! i)"
      using rs1(2) rs2(2) by (auto simp: list_all2_conv_all_nth)
    then show "chunk_result u (rs ! i) (rs2 ! i)" by (rule chunk_resultI)
  qed
  moreover have "set_ctx_requests_chunk_size p u cap max_ctx rs = Inr rs2"
    using rs1(1) rs2(1) reset_chunks_ok [OF assms(1)]
    by (simp add: set_ctx_requests_chunk_size_def run_policy_def)
  ultimately show ?thesis using rs2(3) by auto
qed

section \<open>The main loop keeps to the limits\<close>

abbreviation chunked_total :: "llm_request list \<Rightarrow> int" where
  "chunked_total rs \<equiv> (\<Sum>r\<leftarrow>rs. chunk_compute r + last_chunk_drafts r)"

abbreviation gen_total :: "llm_request list \<Rightarrow> int" where
  "gen_total rs \<equiv> (\<Sum>r\<leftarrow>rs. beam_width_by_iter r + num_draft_tokens r)"

definition picked :: "mb_state \<Rightarrow> llm_request list" where
  "picked st = encoder_requests st @ context_requests st @ generation_requests st @ contexts_to_be_chunked st"

definition mb_inv :: "mb_config \<Rightarrow> mb_state \<Rightarrow> bool" where
  "mb_inv cfg st \<longleftrightarrow>
     batch_num_tokens st = (\<Sum>r\<leftarrow>encoder_requests st. encoder_output_len r) +
       (\<Sum>r\<leftarrow>context_requests st. full_compute r) + gen_total (generation_requests st) \<and>
     \<not> over (max_num_tokens cfg) (batch_num_tokens st) \<and>
     scheduled_req_size st = int (length (picked st)) \<and> scheduled_req_size st \<le> max_batch_size cfg \<and>
     (\<forall>r \<in> set (generation_requests st). beam_width_by_iter r = scheduled_beam_width st) \<and>
     (generation_requests st = [] \<longleftrightarrow> scheduled_beam_width st = 0) \<and>
     list_all ctx_ready (contexts_to_be_chunked st) \<and>
     (\<forall>r \<in> set (contexts_to_be_chunked st). chunk_size r = context_remaining_length r) \<and>
     (all_context_requests_fit st \<longrightarrow> num_chunked_compute_tokens st = chunked_total (contexts_to_be_chunked st)) \<and>
     (if ctx_chunk_config cfg = None then contexts_to_be_chunked st = [] else context_requests st = [])"

text \<open>
  What a step may do: nothing, or add the request (with its chunk set) to one of the lists; in the
  second case the loop goes on only while the batch has room.
\<close>

definition step_ok :: "mb_config \<Rightarrow> llm_request \<Rightarrow> mb_state \<Rightarrow> bool \<Rightarrow> mb_state \<Rightarrow> bool" where
  "step_ok cfg r st stop st' \<longleftrightarrow> mb_inv cfg st' \<and>
     mset (map request_id (picked st')) \<subseteq># add_mset (request_id r) (mset (map request_id (picked st))) \<and>
     (\<not> stop \<longrightarrow> scheduled_req_size st' < max_batch_size cfg)"

lemma mb_count_ok:
  assumes "mb_inv cfg (st1\<lparr>scheduled_req_size := scheduled_req_size st1 + 1\<rparr>)"
    "mset (map request_id (picked st1)) = add_mset (request_id r) (mset (map request_id (picked st)))"
  shows "\<exists>stop st'. mb_count cfg st1 = Inr (stop, st') \<and> step_ok cfg r st stop st'"
  using assms by (auto simp: mb_count_def step_ok_def Let_def picked_def)

lemma mb_skip_ok:
  "mb_inv cfg st \<Longrightarrow> scheduled_req_size st < max_batch_size cfg \<Longrightarrow> step_ok cfg r st stop st"
  by (simp add: step_ok_def)

lemma mb_encoder_ok:
  assumes "mb_inv cfg st" "scheduled_req_size st < max_batch_size cfg"
    and "\<not> over (max_num_tokens cfg) (encoder_output_len r)"
  shows "\<exists>stop st'. mb_encoder cfg r st = Inr (stop, st') \<and> step_ok cfg r st stop st'"
proof (cases "over (max_num_tokens cfg) (batch_num_tokens st + encoder_output_len r)")
  case True
  then show ?thesis using assms mb_skip_ok by (auto simp: mb_encoder_def Let_def)
next
  case False
  let ?st = "st\<lparr>encoder_requests := encoder_requests st @ [r],
      batch_num_tokens := batch_num_tokens st + encoder_output_len r\<rparr>"
  have "mb_inv cfg (?st\<lparr>scheduled_req_size := scheduled_req_size ?st + 1\<rparr>)"
    using assms(1,2) False by (simp add: mb_inv_def picked_def)
  then show ?thesis using mb_count_ok [of cfg ?st r st] assms(3) False
    by (simp add: mb_encoder_def Let_def picked_def)
qed

lemma mb_context_full_ok:
  assumes "mb_inv cfg st" "scheduled_req_size st < max_batch_size cfg"
    and "\<not> over (max_num_tokens cfg) (full_compute r)" "ctx_chunk_config cfg = None"
  shows "\<exists>stop st'. mb_context_full cfg r st = Inr (stop, st') \<and> step_ok cfg r st stop st'"
proof (cases "over (max_num_tokens cfg) (batch_num_tokens st + full_compute r)")
  case True
  then show ?thesis using assms mb_skip_ok by (auto simp: mb_context_full_def Let_def)
next
  case False
  let ?st = "st\<lparr>context_requests := context_requests st @ [r],
      batch_num_tokens := batch_num_tokens st + full_compute r\<rparr>"
  have "mb_inv cfg (?st\<lparr>scheduled_req_size := scheduled_req_size ?st + 1\<rparr>)"
    using assms(1,2,4) False by (simp add: mb_inv_def picked_def)
  then show ?thesis using mb_count_ok [of cfg ?st r st] assms(3) False
    by (simp add: mb_context_full_def Let_def picked_def)
qed

lemma mb_context_chunked_ok:
  assumes "mb_inv cfg st" "scheduled_req_size st < max_batch_size cfg"
    and "ctx_ready r" "ctx_chunk_config cfg = Some pu"
  shows "\<exists>stop st'. mb_context_chunked cfg r st = Inr (stop, st') \<and> step_ok cfg r st stop st'"
proof -
  let ?r = "r\<lparr>chunk_size := context_remaining_length r\<rparr>"
  let ?n = "chunk_compute ?r + last_chunk_drafts ?r"
  let ?st = "st\<lparr>contexts_to_be_chunked := contexts_to_be_chunked st @ [?r],
      num_chunked_compute_tokens := num_chunked_compute_tokens st +
        (if over (max_num_tokens cfg) ?n then the (max_num_tokens cfg) else ?n),
      all_context_requests_fit := all_context_requests_fit st \<and> \<not> over (max_num_tokens cfg) ?n\<rparr>"
  have set_c: "set_context_chunk_size (context_remaining_length r) r = Inr ?r"
    using assms(3) set_chunk_ok [of r "context_remaining_length r"] by (simp add: ctx_ready_def sane_def)
  have "mb_inv cfg (?st\<lparr>scheduled_req_size := scheduled_req_size ?st + 1\<rparr>)"
    using assms by (auto simp: mb_inv_def picked_def ctx_ready_def)
  then show ?thesis using mb_count_ok [of cfg ?st r st] set_c
    by (simp add: mb_context_chunked_def Let_def picked_def)
qed

lemma mb_generation_ok:
  assumes "mb_inv cfg st" "scheduled_req_size st < max_batch_size cfg" "sane r"
  shows "\<exists>stop st'. mb_generation cfg r st = Inr (stop, st') \<and> step_ok cfg r st stop st'"
proof (cases "over (max_num_tokens cfg) (batch_num_tokens st + (beam_width_by_iter r + num_draft_tokens r)) \<or>
    scheduled_beam_width st \<noteq> 0 \<and> scheduled_beam_width st \<noteq> beam_width_by_iter r")
  case True
  then show ?thesis using mb_skip_ok [OF assms(1,2)] by (auto simp: mb_generation_def Let_def)
next
  case False
  let ?st = "st\<lparr>scheduled_beam_width := (if scheduled_beam_width st = 0 then beam_width_by_iter r
                 else scheduled_beam_width st),
      generation_requests := generation_requests st @ [r],
      batch_num_tokens := batch_num_tokens st + (beam_width_by_iter r + num_draft_tokens r)\<rparr>"
  have "mb_inv cfg (?st\<lparr>scheduled_req_size := scheduled_req_size ?st + 1\<rparr>)"
    using assms False by (auto simp: mb_inv_def picked_def sane_def)
  moreover have "mb_generation cfg r st = mb_count cfg ?st"
    using False by (auto simp: mb_generation_def Let_def)
  ultimately show ?thesis using mb_count_ok [of cfg ?st r st] by (simp add: picked_def)
qed

text \<open>
  \<open>admissible cfg r\<close>: the request fits into an empty batch, which the code asserts of encoder
  requests, and of context requests when chunking is off.
\<close>

definition admissible :: "mb_config \<Rightarrow> llm_request \<Rightarrow> bool" where
  "admissible cfg r \<longleftrightarrow> sane r \<and>
     (request_state r = ENCODER_INIT \<longrightarrow> \<not> over (max_num_tokens cfg) (encoder_output_len r)) \<and>
     (request_state r = CONTEXT_INIT \<and> ctx_chunk_config cfg = None \<longrightarrow>
        \<not> over (max_num_tokens cfg) (full_compute r))"

lemma mb_step_ok:
  assumes "mb_inv cfg st" "scheduled_req_size st < max_batch_size cfg" "admissible cfg r"
  shows "\<exists>stop st'. mb_step cfg inflight r st = Inr (stop, st') \<and> step_ok cfg r st stop st'"
proof -
  have r: "sane r" "request_state r = ENCODER_INIT \<Longrightarrow> \<not> over (max_num_tokens cfg) (encoder_output_len r)"
      "request_state r = CONTEXT_INIT \<Longrightarrow> ctx_chunk_config cfg = None \<Longrightarrow> \<not> over (max_num_tokens cfg) (full_compute r)"
    using assms(3) by (auto simp: admissible_def)
  consider "request_id r \<in> set inflight \<or> \<not> mb_can_be_scheduled cfg r"
    | "request_id r \<notin> set inflight" "mb_can_be_scheduled cfg r" "request_state r = ENCODER_INIT"
    | "request_id r \<notin> set inflight" "mb_can_be_scheduled cfg r" "request_state r = CONTEXT_INIT" "ctx_chunk_config cfg = None"
    | pu where "request_id r \<notin> set inflight" "mb_can_be_scheduled cfg r" "request_state r = CONTEXT_INIT"
        "ctx_chunk_config cfg = Some pu"
    | "request_id r \<notin> set inflight" "mb_can_be_scheduled cfg r" "request_state r \<noteq> CONTEXT_INIT" "request_state r \<noteq> ENCODER_INIT"
    by blast
  then show ?thesis
  proof cases
    case 1
    then show ?thesis using mb_skip_ok [OF assms(1,2)] by (auto simp: mb_step_def)
  next
    case 2
    then show ?thesis using mb_encoder_ok [OF assms(1,2) r(2)] by (simp add: mb_step_def)
  next
    case 3
    then show ?thesis using mb_context_full_ok [OF assms(1,2) r(3)] by (simp add: mb_step_def)
  next
    case 4
    then show ?thesis using mb_context_chunked_ok [OF assms(1,2)] r(1) by (simp add: mb_step_def ctx_ready_def)
  next
    case 5
    then show ?thesis using mb_generation_ok [OF assms(1,2) r(1)] by (simp add: mb_step_def)
  qed
qed

lemma mb_loop_ok:
  assumes "mb_inv cfg st" "scheduled_req_size st < max_batch_size cfg" "\<forall>r \<in> set rs. admissible cfg r"
  shows "\<exists>st'. mb_loop cfg inflight rs st = Inr st' \<and> mb_inv cfg st' \<and>
     mset (map request_id (picked st')) \<subseteq># mset (map request_id rs) + mset (map request_id (picked st))"
  using assms
proof (induction rs arbitrary: st)
  case (Cons r rs)
  obtain stop st1 where st1: "mb_step cfg inflight r st = Inr (stop, st1)" "mb_inv cfg st1"
      "mset (map request_id (picked st1)) \<subseteq># add_mset (request_id r) (mset (map request_id (picked st)))"
      "\<not> stop \<Longrightarrow> scheduled_req_size st1 < max_batch_size cfg"
    using mb_step_ok [OF Cons.prems(1,2), of r inflight] Cons.prems(3) by (auto simp: step_ok_def)
  show ?case
  proof (cases stop)
    case True
    have "mset (map request_id (picked st1)) \<subseteq># mset (map request_id (r # rs)) + mset (map request_id (picked st))"
      using st1(3) by (auto intro: subset_mset.order_trans)
    then show ?thesis using st1 True by simp
  next
    case False
    then obtain st' where st': "mb_loop cfg inflight rs st1 = Inr st'" "mb_inv cfg st'"
      "mset (map request_id (picked st')) \<subseteq># mset (map request_id rs) + mset (map request_id (picked st1))"
      using Cons.IH [OF st1(2) st1(4)] Cons.prems(3) by auto
    have "mset (map request_id (picked st')) \<subseteq># mset (map request_id (r # rs)) + mset (map request_id (picked st))"
      using subset_mset.order_trans [OF st'(3)] st1(3) by simp
    then show ?thesis using st1(1) st' False by simp
  qed
qed simp

lemma mb_inv_budget: "mb_inv cfg st \<Longrightarrow> \<not> over (max_num_tokens cfg) (batch_num_tokens st)"
  unfolding mb_inv_def by blast

lemma mb_start_inv: "0 \<le> max_batch_size cfg \<Longrightarrow> \<not> over (max_num_tokens cfg) 0 \<Longrightarrow> mb_inv cfg mb_start"
  by (simp add: mb_inv_def mb_start_def picked_def)

section \<open>The whole scheduler\<close>

text \<open>The tokens that a batch makes the forward pass compute.\<close>

definition ctx_tokens :: "mb_config \<Rightarrow> llm_request \<Rightarrow> int" where
  "ctx_tokens cfg r =
     (if ctx_chunk_config cfg = None then full_compute r else chunk_compute r + last_chunk_drafts r)"

definition batch_tokens :: "mb_config \<Rightarrow> llm_request list \<times> llm_request list \<times> llm_request list \<Rightarrow> int" where
  "batch_tokens cfg out = (case out of (enc, ctx, gen) \<Rightarrow>
     (\<Sum>r\<leftarrow>enc. encoder_output_len r) + (\<Sum>r\<leftarrow>ctx. ctx_tokens cfg r) + gen_total gen)"

lemma sum_list_sort_key [simp]: "(\<Sum>x\<leftarrow>sort_key k xs. f x) = (\<Sum>x\<leftarrow>xs. (f x :: int))"
  by (metis mset_map mset_sort sum_mset_sum_list)

lemma sum_list_split: "(\<Sum>x\<leftarrow>filter (\<lambda>x. \<not> P x) xs. f x) + (\<Sum>x\<leftarrow>filter P xs. f x) = (\<Sum>x\<leftarrow>xs. (f x :: int))"
  by (induction xs) auto

lemma sort_requests_sum: "(\<Sum>r\<leftarrow>fst (sort_requests ctx gen b). f r) = (\<Sum>r\<leftarrow>ctx. (f r :: int))"
  by (simp add: sort_requests_def sum_list_split)

lemma mset_split: "mset (filter (\<lambda>x. \<not> P x) xs) + mset (filter P xs) = mset xs"
  by (induction xs) auto

lemma sort_requests_mset:
  "mset (fst (sort_requests ctx gen b)) = mset ctx" "mset (snd (sort_requests ctx gen b)) = mset gen"
  using mset_split [of is_last_context_chunk ctx] by (auto simp: sort_requests_def simp del: mset_filter)

lemma chunk_compute_policy:
  assumes "sane r" "0 \<le> chunk_size r" "chunk_size r \<le> context_remaining_length r"
  shows "chunk_compute r = policy_compute (chunk_size r) r" "0 \<le> chunk_compute r"
proof -
  have "0 \<le> reusable_tokens r" using assms(1) by (simp add: sane_def reusable_tokens_def)
  then show "chunk_compute r = policy_compute (chunk_size r) r" "0 \<le> chunk_compute r"
    using assms by (simp_all add: chunk_compute_def compute_min policy_compute_min)
qed

lemma chunk_result_fields:
  assumes "chunk_result u r r'" "ctx_ready r"
  shows "request_id r' = request_id r" "sane r'" "0 \<le> chunk_size r'" "chunk_size r' \<le> context_remaining_length r'"
    "chunk_size r' = context_remaining_length r' \<or> u dvd chunk_size r'" "0 \<le> last_chunk_drafts r'"
proof -
  obtain c k where r': "r' = r\<lparr>chunk_size := c, num_draft_tokens := k\<rparr>" "0 \<le> c" "c \<le> context_remaining_length r"
      "c = context_remaining_length r \<or> u dvd c" "0 \<le> k"
    using assms(1) unfolding chunk_result_def by blast
  have "context_remaining_length r' = context_remaining_length r"
    using r'(1) by (simp add: context_remaining_length_def)
  then show "request_id r' = request_id r" "sane r'" "0 \<le> chunk_size r'" "chunk_size r' \<le> context_remaining_length r'"
      "chunk_size r' = context_remaining_length r' \<or> u dvd chunk_size r'" "0 \<le> last_chunk_drafts r'"
    using r' assms(2) by (simp_all add: ctx_ready_def sane_def last_chunk_drafts_def)
qed

text \<open>
  The requests to be chunked, after the chunking of \<open>mb_finish\<close> if any: the ones that got a chunk
  fit into what the main loop has left of the budget.
\<close>

definition chunks_ok :: "mb_config \<Rightarrow> mb_state \<Rightarrow> llm_request list \<Rightarrow> bool" where
  "chunks_ok cfg st chunked \<longleftrightarrow>
     \<not> over (max_num_tokens cfg) (batch_num_tokens st + chunked_total chunked) \<and>
     map request_id chunked = map request_id (contexts_to_be_chunked st) \<and>
     (\<forall>r \<in> set chunked. 0 \<le> chunk_compute r + last_chunk_drafts r \<and>
        (\<forall>p u. ctx_chunk_config cfg = Some (p, u) \<longrightarrow>
           chunk_size r = context_remaining_length r \<or> u dvd chunk_size r))"

lemma chunks_fit_ok:
  assumes inv: "mb_inv cfg st" and fit: "all_context_requests_fit st"
    and le: "case max_num_tokens cfg of None \<Rightarrow> True | Some m \<Rightarrow> num_chunked_compute_tokens st \<le> m - batch_num_tokens st"
  shows "chunks_ok cfg st (contexts_to_be_chunked st)"
proof -
  have "0 \<le> chunk_compute r + last_chunk_drafts r" "chunk_size r = context_remaining_length r"
    if "r \<in> set (contexts_to_be_chunked st)" for r
  proof -
    have r: "sane r" "chunk_size r = context_remaining_length r"
      using inv that by (auto simp: mb_inv_def list_all_iff ctx_ready_def)
    then have "0 \<le> chunk_compute r" "0 \<le> last_chunk_drafts r"
      using chunk_compute_policy(2) [of r] by (auto simp: sane_def last_chunk_drafts_def)
    then show "0 \<le> chunk_compute r + last_chunk_drafts r" "chunk_size r = context_remaining_length r"
      using r by simp_all
  qed
  moreover have "num_chunked_compute_tokens st = chunked_total (contexts_to_be_chunked st)"
    using inv fit by (simp add: mb_inv_def)
  ultimately show ?thesis using le by (auto simp: chunks_ok_def over_def split: option.splits)
qed

lemma chunks_cut_ok:
  assumes inv: "mb_inv cfg st" and cfg: "ctx_chunk_config cfg = Some (p, u)" "0 < u"
    "\<And>m. max_num_tokens cfg = Some m \<Longrightarrow> 0 \<le> m \<and> (p = FORCE_CHUNK \<longrightarrow> u \<le> m)"
  shows "\<exists>chunked. set_ctx_requests_chunk_size p u (map_option (\<lambda>m. m - batch_num_tokens st) (max_num_tokens cfg))
      (max_num_tokens cfg) (contexts_to_be_chunked st) = Inr chunked \<and> chunks_ok cfg st chunked"
proof -
  let ?cap = "map_option (\<lambda>m. m - batch_num_tokens st) (max_num_tokens cfg)" and ?rs = "contexts_to_be_chunked st"
  have ready: "list_all ctx_ready ?rs" and cap: "\<not> over ?cap 0"
    using inv by (auto simp: mb_inv_def over_def split: option.splits)
  obtain rs' where rs': "set_ctx_requests_chunk_size p u ?cap (max_num_tokens cfg) ?rs = Inr rs'"
      "list_all2 (chunk_result u) ?rs rs'"
    and fits: "\<not> over ?cap (policy_cost rs' + (\<Sum>r\<leftarrow>rs'. last_chunk_drafts r))"
    using set_ctx_requests_chunk_size_ok [OF ready cfg(2,3) cap] by blast
  have each: "sane r'" "0 \<le> chunk_size r'" "chunk_size r' \<le> context_remaining_length r'"
      "chunk_size r' = context_remaining_length r' \<or> u dvd chunk_size r'" "0 \<le> last_chunk_drafts r'"
    if mem: "r' \<in> set rs'" for r'
  proof -
    obtain i where i: "i < length rs'" "rs' ! i = r'" using mem by (meson in_set_conv_nth)
    have "length ?rs = length rs'" using rs'(2) by (rule list_all2_lengthD)
    then have "chunk_result u (?rs ! i) r'" "ctx_ready (?rs ! i)"
      using list_all2_nthD2 [OF rs'(2) i(1)] i ready by (simp_all add: list_all_length)
    then show "sane r'" "0 \<le> chunk_size r'" "chunk_size r' \<le> context_remaining_length r'"
      "chunk_size r' = context_remaining_length r' \<or> u dvd chunk_size r'" "0 \<le> last_chunk_drafts r'"
      using chunk_result_fields by blast+
  qed
  have "map (\<lambda>r. chunk_compute r) rs' = map (\<lambda>r. policy_compute (chunk_size r) r) rs'"
    using each chunk_compute_policy(1) by simp
  then have "policy_cost rs' = (\<Sum>r\<leftarrow>rs'. chunk_compute r)" by (simp only:)
  then have "\<not> over ?cap (chunked_total rs')" using fits by (simp add: sum_list_addf)
  then have "\<not> over (max_num_tokens cfg) (batch_num_tokens st + chunked_total rs')"
    by (auto simp: over_def split: option.splits)
  moreover have "map request_id rs' = map request_id ?rs"
    using rs'(2) ready by (induction rule: list_all2_induct) (auto dest: chunk_result_fields(1))
  moreover have "0 \<le> chunk_compute r" if "r \<in> set rs'" for r
    using each [OF that] chunk_compute_policy(2) by blast
  ultimately show ?thesis using rs'(1) each(4,5) cfg(1) by (auto simp: chunks_ok_def)
qed

definition serviceable :: "mb_config \<Rightarrow> bool" where
  "serviceable cfg \<longleftrightarrow> 0 < max_batch_size cfg \<and> \<not> over (max_num_tokens cfg) 0 \<and>
     (\<forall>p u. ctx_chunk_config cfg = Some (p, u) \<longrightarrow> 0 < u \<and>
        (\<forall>m. max_num_tokens cfg = Some m \<longrightarrow> p = FORCE_CHUNK \<longrightarrow> u \<le> m))"

lemma mb_finish_chunks:
  assumes "mb_inv cfg st" "serviceable cfg"
  obtains chunked fit where "chunks_ok cfg st chunked"
    "mb_finish cfg st = Inr (sort_key get_lora_task_id (encoder_requests st),
       sort_requests (context_requests st @ filter (\<lambda>r. chunk_size r > 0) chunked) (generation_requests st) (\<not> fit))"
proof -
  let ?le = "case max_num_tokens cfg of None \<Rightarrow> True | Some m \<Rightarrow> num_chunked_compute_tokens st \<le> m - batch_num_tokens st"
  define fit where "fit \<longleftrightarrow> (all_context_requests_fit st \<and> ?le) \<and>
      (case ctx_chunk_config cfg of Some (FORCE_CHUNK, _) \<Rightarrow> False | _ \<Rightarrow> True)"
  have m0: "0 \<le> m" if "max_num_tokens cfg = Some m" for m
    using assms(2) that by (auto simp: serviceable_def over_def)
  consider "fit \<or> contexts_to_be_chunked st = []" | "\<not> fit" "contexts_to_be_chunked st \<noteq> []" by blast
  then show thesis
  proof cases
    case 1
    have "chunks_ok cfg st (contexts_to_be_chunked st)"
    proof (cases fit)
      case True
      then show ?thesis using chunks_fit_ok [OF assms(1)] by (simp add: fit_def)
    next
      case False
      then show ?thesis using 1 mb_inv_budget [OF assms(1)] by (simp add: chunks_ok_def)
    qed
    then show thesis
      using that [of "contexts_to_be_chunked st" fit] 1
      unfolding mb_finish_def Let_def fit_def [symmetric] by auto
  next
    case 2
    then obtain p u where cfg: "ctx_chunk_config cfg = Some (p, u)"
      using assms(1) by (cases "ctx_chunk_config cfg") (auto simp: mb_inv_def)
    then obtain chunked where "set_ctx_requests_chunk_size p u
        (map_option (\<lambda>m. m - batch_num_tokens st) (max_num_tokens cfg)) (max_num_tokens cfg)
        (contexts_to_be_chunked st) = Inr chunked" "chunks_ok cfg st chunked"
      using chunks_cut_ok [OF assms(1) cfg] assms(2) m0 by (auto simp: serviceable_def)
    then show thesis
      using that [of chunked fit] 2 cfg unfolding mb_finish_def Let_def fit_def [symmetric] by simp
  qed
qed

lemma filter_total:
  "\<forall>r \<in> set rs. 0 \<le> f r \<Longrightarrow> (\<Sum>r\<leftarrow>filter P rs. f r) \<le> (\<Sum>r\<leftarrow>rs. (f r :: int))"
  by (induction rs) auto

lemma mb_finish_budget:
  assumes inv: "mb_inv cfg st" and ok: "chunks_ok cfg st chunked"
    and out: "out = (sort_key get_lora_task_id (encoder_requests st),
       sort_requests (context_requests st @ filter (\<lambda>r. chunk_size r > 0) chunked) (generation_requests st) b)"
  shows "\<not> over (max_num_tokens cfg) (batch_tokens cfg out)"
proof -
  let ?chosen = "filter (\<lambda>r. chunk_size r > 0) chunked"
  obtain ctx gen where sorted: "sort_requests (context_requests st @ ?chosen) (generation_requests st) b = (ctx, gen)"
    by fastforce
  have ctx: "(\<Sum>r\<leftarrow>ctx. ctx_tokens cfg r) = (\<Sum>r\<leftarrow>context_requests st @ ?chosen. ctx_tokens cfg r)"
    using sort_requests_sum [of "ctx_tokens cfg" _ "generation_requests st" b] sorted by (metis fst_conv)
  have gen: "gen_total gen = gen_total (generation_requests st)"
    using sorted by (auto simp: sort_requests_def)
  have batch: "batch_tokens cfg out = (\<Sum>r\<leftarrow>encoder_requests st. encoder_output_len r) +
      ((\<Sum>r\<leftarrow>context_requests st. ctx_tokens cfg r) + (\<Sum>r\<leftarrow>?chosen. ctx_tokens cfg r)) + gen_total (generation_requests st)"
    using out sorted ctx gen by (simp add: batch_tokens_def)
  show ?thesis
  proof (cases "ctx_chunk_config cfg = None")
    case True
    then have "chunked = []" using inv ok by (simp add: mb_inv_def chunks_ok_def)
    then have "batch_tokens cfg out = batch_num_tokens st"
      using inv batch True by (simp add: mb_inv_def ctx_tokens_def)
    then show ?thesis using mb_inv_budget [OF inv] by simp
  next
    case False
    then have "context_requests st = []" using inv by (simp add: mb_inv_def)
    moreover have "ctx_tokens cfg = (\<lambda>r. chunk_compute r + last_chunk_drafts r)"
      using False by (auto simp: fun_eq_iff ctx_tokens_def)
    then have "(\<Sum>r\<leftarrow>?chosen. ctx_tokens cfg r) \<le> chunked_total chunked"
      using ok filter_total [of chunked "ctx_tokens cfg"] by (simp add: chunks_ok_def)
    ultimately have "batch_tokens cfg out \<le> batch_num_tokens st + chunked_total chunked"
      using batch inv by (simp add: mb_inv_def)
    then show ?thesis using ok by (auto simp: chunks_ok_def over_def split: option.splits)
  qed
qed

lemma distinct_submset: "distinct ys \<Longrightarrow> mset xs \<subseteq># mset ys \<Longrightarrow> distinct xs"
proof -
  assume dist: "distinct ys" and "mset xs \<subseteq># mset ys"
  then obtain M where "mset ys = mset xs + M" by (auto simp: mset_subset_eq_exists_conv)
  moreover obtain zs where "M = mset zs" using ex_mset by metis
  ultimately have "mset ys = mset (xs @ zs)" by simp
  then have "distinct (xs @ zs)" using dist mset_eq_imp_distinct_iff by blast
  then show "distinct xs" by simp
qed

lemma mb_finish_counts:
  assumes inv: "mb_inv cfg st" and ok: "chunks_ok cfg st chunked"
    and out: "(enc, ctx, gen) = (sort_key get_lora_task_id (encoder_requests st),
       sort_requests (context_requests st @ filter (\<lambda>r. chunk_size r > 0) chunked) (generation_requests st) b)"
  shows "mset (map request_id (enc @ ctx @ gen)) \<subseteq># mset (map request_id (picked st))"
    and "\<forall>r \<in> set gen. beam_width_by_iter r = scheduled_beam_width st"
    and "ctx_chunk_config cfg = Some (p, u) \<Longrightarrow>
      \<forall>r \<in> set ctx. 0 < chunk_size r \<and> (chunk_size r = context_remaining_length r \<or> u dvd chunk_size r)"
proof -
  let ?chosen = "filter (\<lambda>r. chunk_size r > 0) chunked"
  have sr: "sort_requests (context_requests st @ ?chosen) (generation_requests st) b = (ctx, gen)"
    and enc: "mset enc = mset (encoder_requests st)"
    using out by simp_all
  have ctx: "mset ctx = mset (context_requests st @ ?chosen)" and gen: "mset gen = mset (generation_requests st)"
    using sort_requests_mset [of "context_requests st @ ?chosen" "generation_requests st" b]
    unfolding sr by simp_all
  have "mset (map request_id ?chosen) \<subseteq># mset (map request_id chunked)"
    by (simp add: image_mset_subseteq_mono)
  moreover have ids: "map request_id chunked = map request_id (contexts_to_be_chunked st)"
    using ok by (simp add: chunks_ok_def)
  ultimately have "mset (map request_id ?chosen) \<subseteq># mset (map request_id (contexts_to_be_chunked st))"
    by (simp only: ids)
  then show "mset (map request_id (enc @ ctx @ gen)) \<subseteq># mset (map request_id (picked st))"
    using enc ctx gen by (simp add: picked_def)
  show "\<forall>r \<in> set gen. beam_width_by_iter r = scheduled_beam_width st"
    using inv mset_eq_setD [OF gen] by (simp add: mb_inv_def)
  show "\<forall>r \<in> set ctx. 0 < chunk_size r \<and> (chunk_size r = context_remaining_length r \<or> u dvd chunk_size r)"
    if "ctx_chunk_config cfg = Some (p, u)"
  proof -
    have "context_requests st = []" using inv that by (simp add: mb_inv_def)
    then show ?thesis using mset_eq_setD [OF ctx] ok that by (simp add: chunks_ok_def)
  qed
qed

lemma mb_schedule_ok:
  assumes "serviceable cfg" "\<forall>r \<in> set active. admissible cfg r"
  shows "\<exists>enc ctx gen. mb_schedule cfg active inflight = Inr (enc, ctx, gen) \<and>
     \<not> over (max_num_tokens cfg) (batch_tokens cfg (enc, ctx, gen)) \<and>
     int (length (enc @ ctx @ gen)) \<le> max_batch_size cfg \<and>
     mset (map request_id (enc @ ctx @ gen)) \<subseteq># mset (map request_id active) \<and>
     (\<exists>w. \<forall>r \<in> set gen. beam_width_by_iter r = w) \<and>
     (\<forall>p u. ctx_chunk_config cfg = Some (p, u) \<longrightarrow>
        (\<forall>r \<in> set ctx. 0 < chunk_size r \<and> (chunk_size r = context_remaining_length r \<or> u dvd chunk_size r)))"
proof -
  have start: "mb_inv cfg mb_start" "scheduled_req_size mb_start < max_batch_size cfg"
    using assms(1) mb_start_inv [of cfg] by (auto simp: serviceable_def mb_start_def)
  obtain st where st: "mb_loop cfg inflight active mb_start = Inr st" "mb_inv cfg st"
      "mset (map request_id (picked st)) \<subseteq># mset (map request_id active)"
    using mb_loop_ok [OF start assms(2), of inflight] by (auto simp: mb_start_def picked_def)
  obtain chunked fit where fin: "chunks_ok cfg st chunked"
      "mb_finish cfg st = Inr (sort_key get_lora_task_id (encoder_requests st),
         sort_requests (context_requests st @ filter (\<lambda>r. chunk_size r > 0) chunked) (generation_requests st) (\<not> fit))"
    using mb_finish_chunks [OF st(2) assms(1)] by blast
  obtain enc ctx gen where out: "(enc, ctx, gen) = (sort_key get_lora_task_id (encoder_requests st),
       sort_requests (context_requests st @ filter (\<lambda>r. chunk_size r > 0) chunked) (generation_requests st) (\<not> fit))"
    by (metis prod_cases3)
  note counts = mb_finish_counts [OF st(2) fin(1) out]
  have "mset (map request_id (enc @ ctx @ gen)) \<subseteq># mset (map request_id active)"
    using counts(1) st(3) by (rule subset_mset.order_trans)
  moreover have "length (enc @ ctx @ gen) \<le> length (picked st)"
    using size_mset_mono [OF counts(1)] by simp
  then have "int (length (enc @ ctx @ gen)) \<le> max_batch_size cfg" using st(2) by (simp add: mb_inv_def)
  moreover have "mb_schedule cfg active inflight = Inr (enc, ctx, gen)"
    using st(1) fin(2) out by (simp add: mb_schedule_def)
  ultimately show ?thesis
    using mb_finish_budget [OF st(2) fin(1) out] counts(2,3) by blast
qed

section \<open>Property\<close>

text \<open>
  C13. The micro-batch scheduler always returns a batch within its limits, for every chunking policy
  and with or without reuse: the tokens that the forward pass computes (encoder tokens, context
  tokens that are not reused, generation tokens and the draft tokens kept) do not exceed
  \<open>max_num_tokens\<close>, there are at most \<open>max_batch_size\<close> requests, each an active one and none twice,
  all generation requests have the same beam width, and with chunking every context request
  advances by a positive chunk that ends its prompt or is a multiple of the chunk unit.
\<close>

theorem mb_schedule_within_limits:
  assumes "serviceable cfg" "\<forall>r \<in> set active. admissible cfg r" "distinct (map request_id active)"
  shows "\<exists>enc ctx gen. mb_schedule cfg active inflight = Inr (enc, ctx, gen) \<and>
     \<not> over (max_num_tokens cfg) (batch_tokens cfg (enc, ctx, gen)) \<and>
     int (length (enc @ ctx @ gen)) \<le> max_batch_size cfg \<and>
     distinct (map request_id (enc @ ctx @ gen)) \<and>
     request_id ` set (enc @ ctx @ gen) \<subseteq> request_id ` set active \<and>
     (\<exists>w. \<forall>r \<in> set gen. beam_width_by_iter r = w) \<and>
     (\<forall>p u. ctx_chunk_config cfg = Some (p, u) \<longrightarrow>
        (\<forall>r \<in> set ctx. 0 < chunk_size r \<and> (chunk_size r = context_remaining_length r \<or> u dvd chunk_size r)))"
proof -
  obtain enc ctx gen where res: "mb_schedule cfg active inflight = Inr (enc, ctx, gen)"
      "\<not> over (max_num_tokens cfg) (batch_tokens cfg (enc, ctx, gen))"
      "int (length (enc @ ctx @ gen)) \<le> max_batch_size cfg"
      "\<exists>w. \<forall>r \<in> set gen. beam_width_by_iter r = w"
      "\<forall>p u. ctx_chunk_config cfg = Some (p, u) \<longrightarrow>
        (\<forall>r \<in> set ctx. 0 < chunk_size r \<and> (chunk_size r = context_remaining_length r \<or> u dvd chunk_size r))"
    and ids: "mset (map request_id (enc @ ctx @ gen)) \<subseteq># mset (map request_id active)"
    using mb_schedule_ok [OF assms(1,2), of inflight] by blast
  have "distinct (map request_id (enc @ ctx @ gen))"
    using assms(3) ids by (rule distinct_submset)
  moreover have "request_id ` set (enc @ ctx @ gen) \<subseteq> request_id ` set active"
    using set_mset_mono [OF ids] by (simp add: image_Un)
  ultimately show ?thesis using res by blast
qed

abbreviation demo_ctx :: "int \<Rightarrow> int \<Rightarrow> int \<Rightarrow> llm_request" where
  "demo_ctx i n d \<equiv> \<lparr>request_id = i, request_state = CONTEXT_INIT, prompt_len = n, context_position = 0,
     prepopulated_len = 0, chunk_size = 0, num_draft_tokens = d, encoder_output_len = 0,
     estimated_reusable_tokens = 32, num_tokens0 = n, beam_width_by_iter = 1, lora_task_id = None,
     encoder_ready = None\<rparr>"

abbreviation demo_config :: mb_config where
  "demo_config \<equiv> \<lparr>max_batch_size = 8, max_num_tokens = Some 128,
     ctx_chunk_config = Some (FIRST_COME_FIRST_SERVED, 32), no_schedule_until = 10, no_schedule_after = 14\<rparr>"

theorem mb_schedule_within_limits_witness:
  "\<exists>enc ctx gen. mb_schedule demo_config [demo_ctx 1 100 3, demo_ctx 2 200 0] [] = Inr (enc, ctx, gen) \<and>
     batch_tokens demo_config (enc, ctx, gen) \<le> 128"
proof -
  have "serviceable demo_config" by (simp add: serviceable_def over_def)
  moreover have "\<forall>r \<in> set [demo_ctx 1 100 3, demo_ctx 2 200 0]. admissible demo_config r"
    by (simp add: admissible_def sane_def context_remaining_length_def)
  moreover have "distinct (map request_id [demo_ctx 1 100 3, demo_ctx 2 200 0])" by simp
  ultimately obtain enc ctx gen where
      "mb_schedule demo_config [demo_ctx 1 100 3, demo_ctx 2 200 0] [] = Inr (enc, ctx, gen)"
      "\<not> over (max_num_tokens demo_config) (batch_tokens demo_config (enc, ctx, gen))"
    using mb_schedule_within_limits [of demo_config "[demo_ctx 1 100 3, demo_ctx 2 200 0]" "[]"] by blast
  then show ?thesis by (auto simp: over_def)
qed

end
