(* ===== verification/CapacityScheduler.thy ===== *)
theory CapacityScheduler
  imports LlmRequest "HOL-Library.AList" "HOL-Library.Multiset" "HOL-Library.Sublist"
begin

text \<open>
  \<open>PyCapacityScheduler\<close> and its policies, \<^verbatim>\<open>_torch/pyexecutor/scheduler/scheduler.py\<close>: which active
  requests fit into the memory of the KV cache. The cache managers are bound C++ objects and
  parameters here: a record of the answers the scheduler asks them for. \<open>has_free_blocks\<close> takes the
  sequences that \<open>scheduling_remove_sequence\<close> has removed in this pass, and \<open>first_new_block\<close> is
  the field of that name of \<open>analyze_prefix_reuse\<close>, as \<open>prefix_reusable_tokens\<close> is its \<open>reusableTokens\<close>. A cached prefix summary only saves the manager
  a second walk of its tree and gives the same answers, so the model asks again instead.
\<close>

section \<open>Managers and configuration\<close>

record kv_manager =
  num_free_blocks_per_window_size :: "(int \<times> int) list"
  remaining_blocks_to_completion :: "llm_request \<Rightarrow> int \<Rightarrow> int"
  needed_blocks_one_step :: "llm_request \<Rightarrow> bool \<Rightarrow> int \<Rightarrow> int"
  max_attention_window_vec :: "int list"
  has_free_blocks :: "int list \<Rightarrow> int \<Rightarrow> int \<Rightarrow> bool"
  is_variable_window :: bool
  enable_block_reuse :: bool
  first_new_block :: "llm_request \<Rightarrow> int option"
  is_cross_kv :: bool
  kv_tokens_per_block :: int
  prefix_reusable_tokens :: "llm_request \<Rightarrow> int"

record peft_manager =
  max_device_pages :: int
  determine_num_pages :: "llm_request \<Rightarrow> int"

datatype capacity_policy = MAX_UTILIZATION | GUARANTEED_NO_EVICT | STATIC_BATCH

record capacity_config =
  max_num_requests :: int
  kv_mgr :: "kv_manager option"
  peft_mgr :: "peft_manager option"
  cross_mgr :: "kv_manager option"
  cap_policy :: capacity_policy
  two_step_lookahead :: bool
  cap_until :: int
  cap_after :: int

definition cap_can_be_scheduled :: "capacity_config \<Rightarrow> llm_request \<Rightarrow> bool" where
  "cap_can_be_scheduled cfg r =
     (if is_decoder_context_request_waiting_for_encoder_output r then False
      else state_code (request_state r) \<ge> cap_until cfg \<and> state_code (request_state r) < cap_after cfg)"

definition can_be_scheduled_with_disagg_exception :: "capacity_config \<Rightarrow> llm_request \<Rightarrow> bool" where
  "can_be_scheduled_with_disagg_exception cfg r =
     (if is_disagg_generation_init_state r then True else cap_can_be_scheduled cfg r)"

definition is_skipping_relevant :: "capacity_config \<Rightarrow> bool" where
  "is_skipping_relevant cfg =
     (case kv_mgr cfg of None \<Rightarrow> False
      | Some kv \<Rightarrow>
          if is_variable_window kv then False
          else (case cross_mgr cfg of None \<Rightarrow> True | Some x \<Rightarrow> \<not> is_variable_window x))"

text \<open>Sets of block keys are lists here; only membership in them is ever asked.\<close>

definition add_key :: "int option \<Rightarrow> int list \<Rightarrow> int list" where
  "add_key k ks = (case k of None \<Rightarrow> ks | Some b \<Rightarrow> List.insert b ks)"

definition new_block :: "kv_manager option \<Rightarrow> llm_request \<Rightarrow> int option" where
  "new_block mgr r = (case mgr of None \<Rightarrow> None
     | Some kv \<Rightarrow> if enable_block_reuse kv then first_new_block kv r else None)"

definition prefill_contributed_blocks :: "capacity_config \<Rightarrow> llm_request list \<Rightarrow> int list \<times> int list" where
  "prefill_contributed_blocks cfg active =
     (if kv_mgr cfg = None then ([], [])
      else fold (\<lambda>r (blocks, cross).
             if is_context_init_state r \<and> \<not> is_first_context_chunk r
             then (add_key (new_block (kv_mgr cfg) r) blocks, add_key (new_block (cross_mgr cfg) r) cross)
             else (blocks, cross)) active ([], []))"

definition beneficial_to_skip ::
  "capacity_config \<Rightarrow> llm_request \<Rightarrow> int list \<Rightarrow> int list \<Rightarrow> bool \<times> int list \<times> int list" where
  "beneficial_to_skip cfg r blocks cross =
     (if \<not> (is_context_init_state r \<and> is_first_context_chunk r) then (False, blocks, cross)
      else
        let ctx_new = new_block (kv_mgr cfg) r; cross_new = new_block (cross_mgr cfg) r in
        if (\<exists>b \<in> set_option ctx_new. b \<in> set blocks) then (True, blocks, cross)
        else if (\<exists>b \<in> set_option cross_new. b \<in> set cross) then (True, blocks, cross)
        else (False, add_key ctx_new blocks, add_key cross_new cross))"

definition get_max_peft_pages :: "capacity_config \<Rightarrow> int" where
  "get_max_peft_pages cfg = (case peft_mgr cfg of None \<Rightarrow> 2 ^ 31 - 1 | Some p \<Rightarrow> max_device_pages p)"

definition get_peft_pages_for_request :: "capacity_config \<Rightarrow> llm_request \<Rightarrow> int" where
  "get_peft_pages_for_request cfg r =
     (case peft_mgr cfg of None \<Rightarrow> 0 | Some p \<Rightarrow> determine_num_pages p r)"

definition get_peft_task_info :: "capacity_config \<Rightarrow> llm_request \<Rightarrow> int list \<Rightarrow> int option \<times> bool \<times> int" where
  "get_peft_task_info cfg r seen =
     (let is_new = (case lora_task_id r of None \<Rightarrow> False | Some t \<Rightarrow> t \<notin> set seen)
      in (lora_task_id r, is_new, if is_new then get_peft_pages_for_request cfg r else 0))"

section \<open>Limit on the number of requests\<close>

fun max_requests_loop :: "capacity_config \<Rightarrow> llm_request list \<Rightarrow> llm_request list \<Rightarrow> llm_request list" where
  "max_requests_loop cfg [] scheduled = scheduled"
| "max_requests_loop cfg (r # rs) scheduled =
     (if \<not> cap_can_be_scheduled cfg r then max_requests_loop cfg rs scheduled
      else if int (length scheduled) \<ge> max_num_requests cfg then scheduled
      else if is_encoder_init_state r \<or> is_context_init_state r \<or> is_generation_in_progress_state r
      then max_requests_loop cfg rs (scheduled @ [r])
      else max_requests_loop cfg rs scheduled)"

definition max_requests_schedule :: "capacity_config \<Rightarrow> llm_request list \<Rightarrow> llm_request list \<times> llm_request list" where
  "max_requests_schedule cfg active = (max_requests_loop cfg active [], [])"

section \<open>Guaranteed no eviction\<close>

text \<open>\<open>NoEvictScheduledBlocksManager\<close>: the available blocks per window size.\<close>

type_synonym window_blocks = "(int \<times> int) list"

definition ne_available :: "kv_manager \<Rightarrow> window_blocks" where
  "ne_available kv = num_free_blocks_per_window_size kv"

definition decrement_reserved_blocks :: "kv_manager \<Rightarrow> llm_request \<Rightarrow> window_blocks \<Rightarrow> window_blocks" where
  "decrement_reserved_blocks kv r avail =
     map (\<lambda>(w, a). (w, a - remaining_blocks_to_completion kv r w)) avail"

definition enough_available_blocks :: "kv_manager \<Rightarrow> llm_request \<Rightarrow> window_blocks \<Rightarrow> bool" where
  "enough_available_blocks kv r avail =
     list_all (\<lambda>(w, a). remaining_blocks_to_completion kv r w \<le> a) avail"

record ne_state =
  ne_scheduled :: "llm_request list"
  ne_blocks :: window_blocks
  ne_cross_blocks :: window_blocks
  ne_peft :: int
  ne_tasks :: "int list"
  ne_contributed :: "int list"
  ne_cross_contributed :: "int list"

definition ne_reserve :: "capacity_config \<Rightarrow> kv_manager \<Rightarrow> llm_request \<Rightarrow> ne_state \<Rightarrow> ne_state" where
  "ne_reserve cfg kv r st =
     st\<lparr>ne_scheduled := ne_scheduled st @ [r],
        ne_blocks := decrement_reserved_blocks kv r (ne_blocks st),
        ne_cross_blocks := (case cross_mgr cfg of None \<Rightarrow> ne_cross_blocks st
                            | Some x \<Rightarrow> decrement_reserved_blocks x r (ne_cross_blocks st))\<rparr>"

text \<open>
  The first pass takes the requests that are already generating and sorts the others into
  \<open>pending_dis_gen_init_requests\<close> and \<open>pending_requests\<close>. \<open>ne_peft\<close> counts the pages they claim.
\<close>

fun ne_first_pass ::
  "capacity_config \<Rightarrow> kv_manager \<Rightarrow> llm_request list \<Rightarrow> ne_state \<Rightarrow> llm_request list \<Rightarrow> llm_request list
     \<Rightarrow> ne_state \<times> llm_request list \<times> llm_request list" where
  "ne_first_pass cfg kv [] st dis pend = (st, dis, pend)"
| "ne_first_pass cfg kv (r # rs) st dis pend =
     (if \<not> can_be_scheduled_with_disagg_exception cfg r then ne_first_pass cfg kv rs st dis pend
      else if int (length (ne_scheduled st)) \<ge> max_num_requests cfg then (st, dis, pend)
      else if is_generation_in_progress_state r
      then
        let st1 = ne_reserve cfg kv r st in
        let st2 = (if peft_mgr cfg = None then st1
                   else case get_peft_task_info cfg r (ne_tasks st1) of (task, is_new, pages) \<Rightarrow>
                     if is_new then st1\<lparr>ne_peft := ne_peft st1 + pages, ne_tasks := add_key task (ne_tasks st1)\<rparr>
                     else st1)
        in ne_first_pass cfg kv rs st2 dis pend
      else if is_disagg_generation_init_state r then ne_first_pass cfg kv rs st (dis @ [r]) pend
      else ne_first_pass cfg kv rs st dis (pend @ [r]))"

text \<open>The PEFT check of the second pass: \<open>None\<close> when the pages do not suffice.\<close>

definition ne_claim_peft :: "capacity_config \<Rightarrow> llm_request \<Rightarrow> ne_state \<Rightarrow> ne_state option" where
  "ne_claim_peft cfg r st =
     (if peft_mgr cfg = None then Some st
      else case get_peft_task_info cfg r (ne_tasks st) of (task, is_new, pages) \<Rightarrow>
        if pages > ne_peft st then None
        else Some (st\<lparr>ne_peft := ne_peft st - pages,
                      ne_tasks := (if is_new then add_key task (ne_tasks st) else ne_tasks st)\<rparr>))"

text \<open>
  The body of the second pass for one request: whether the inner loop breaks, and the new state.
\<close>

definition ne_admit :: "capacity_config \<Rightarrow> kv_manager \<Rightarrow> llm_request \<Rightarrow> ne_state \<Rightarrow> bool \<times> ne_state" where
  "ne_admit cfg kv r st =
     (if int (length (ne_scheduled st)) \<ge> max_num_requests cfg then (True, st)
      else if is_encoder_init_state r
      then (case ne_claim_peft cfg r st of None \<Rightarrow> (False, st)
            | Some st1 \<Rightarrow> (False, st1\<lparr>ne_scheduled := ne_scheduled st1 @ [r]\<rparr>))
      else if is_context_init_state r \<or> is_disagg_generation_init_state r
      then
        if enough_available_blocks kv r (ne_blocks st)
           \<and> (case cross_mgr cfg of None \<Rightarrow> True | Some x \<Rightarrow> enough_available_blocks x r (ne_cross_blocks st))
        then (case ne_claim_peft cfg r st of None \<Rightarrow> (False, st)
              | Some st1 \<Rightarrow> (False, ne_reserve cfg kv r st1))
        else (True, st)
      else (False, st))"

definition ne_step :: "capacity_config \<Rightarrow> kv_manager \<Rightarrow> bool \<Rightarrow> llm_request \<Rightarrow> ne_state \<Rightarrow> (bool \<times> ne_state) result" where
  "ne_step cfg kv static_batch r st =
     (if is_encoder_init_state r \<and> cross_mgr cfg = None then Inl RuntimeError
      else if \<not> static_batch \<and> is_skipping_relevant cfg \<and> \<not> is_disagg_generation_init_state r
      then (case beneficial_to_skip cfg r (ne_contributed st) (ne_cross_contributed st) of
              (skip, blocks, cross) \<Rightarrow>
                let st1 = st\<lparr>ne_contributed := blocks, ne_cross_contributed := cross\<rparr>
                in Inr (if skip then (False, st1) else ne_admit cfg kv r st1))
      else Inr (ne_admit cfg kv r st))"

fun ne_second_pass :: "capacity_config \<Rightarrow> kv_manager \<Rightarrow> bool \<Rightarrow> llm_request list \<Rightarrow> ne_state \<Rightarrow> ne_state result" where
  "ne_second_pass cfg kv static_batch [] st = Inr st"
| "ne_second_pass cfg kv static_batch (r # rs) st =
     rbind (ne_step cfg kv static_batch r st) (\<lambda>(stop, st').
       if stop then Inr st' else ne_second_pass cfg kv static_batch rs st')"

definition ne_start :: "capacity_config \<Rightarrow> kv_manager \<Rightarrow> bool \<Rightarrow> llm_request list \<Rightarrow> ne_state" where
  "ne_start cfg kv static_batch active =
     (let (blocks, cross) = (if \<not> static_batch \<and> is_skipping_relevant cfg
                             then prefill_contributed_blocks cfg active else ([], []))
      in \<lparr>ne_scheduled = [], ne_blocks = ne_available kv,
          ne_cross_blocks = (case cross_mgr cfg of None \<Rightarrow> [] | Some x \<Rightarrow> ne_available x),
          ne_peft = 0, ne_tasks = [], ne_contributed = blocks, ne_cross_contributed = cross\<rparr>)"

definition no_evict_schedule ::
  "capacity_config \<Rightarrow> kv_manager \<Rightarrow> bool \<Rightarrow> llm_request list \<Rightarrow> (llm_request list \<times> llm_request list) result" where
  "no_evict_schedule cfg kv static_batch active =
     (case ne_first_pass cfg kv active (ne_start cfg kv static_batch active) [] [] of (st, dis, pend) \<Rightarrow>
        if \<not> static_batch \<or> ne_scheduled st = []
        then
          let st1 = st\<lparr>ne_peft := get_max_peft_pages cfg - ne_peft st\<rparr> in
          rbind (ne_second_pass cfg kv static_batch dis st1) (\<lambda>st2.
          rbind (ne_second_pass cfg kv static_batch pend st2) (\<lambda>st3.
          Inr (ne_scheduled st3, [])))
        else Inr (ne_scheduled st, []))"

section \<open>Maximum utilisation\<close>

text \<open>\<open>MaxUtilizationScheduledBlocksManager\<close>: the blocks given out in this pass, per window size.\<close>

definition mu_blocks_init :: "kv_manager \<Rightarrow> window_blocks" where
  "mu_blocks_init kv = map (\<lambda>w. (w, 0)) (remdups (max_attention_window_vec kv))"

fun prepare_blocks_if_schedulable ::
  "kv_manager \<Rightarrow> bool \<Rightarrow> int list \<Rightarrow> llm_request \<Rightarrow> window_blocks \<Rightarrow> window_blocks option" where
  "prepare_blocks_if_schedulable kv two_steps removed r [] = Some []"
| "prepare_blocks_if_schedulable kv two_steps removed r ((w, n) # ws) =
     (let scheduled_total = n + needed_blocks_one_step kv r two_steps w in
      if has_free_blocks kv removed scheduled_total w
      then map_option ((#) (w, scheduled_total)) (prepare_blocks_if_schedulable kv two_steps removed r ws)
      else None)"

definition update_scheduled_blocks :: "window_blocks \<Rightarrow> window_blocks \<Rightarrow> window_blocks result" where
  "update_scheduled_blocks blocks num_scheduled =
     py_assert (length blocks = length num_scheduled)
       (Inr (fold (\<lambda>(w, b) d. AList.update w b d) blocks num_scheduled))"

record mu_state =
  mu_scheduled :: "llm_request list"
  mu_paused :: "llm_request list"
  mu_blocks :: window_blocks
  mu_cross_blocks :: window_blocks
  mu_peft :: int
  mu_tasks :: "int list"
  mu_contributed :: "int list"
  mu_removed :: "int list"

text \<open>The PEFT check of \<open>_try_scheduling_request\<close>: \<open>None\<close> when the pages do not suffice.\<close>

definition mu_claim_peft :: "capacity_config \<Rightarrow> llm_request \<Rightarrow> mu_state \<Rightarrow> mu_state option" where
  "mu_claim_peft cfg r st =
     (if peft_mgr cfg = None then Some st
      else case get_peft_task_info cfg r (mu_tasks st) of (task, is_new, pages) \<Rightarrow>
        if pages + mu_peft st > get_max_peft_pages cfg then None
        else Some (st\<lparr>mu_peft := mu_peft st + pages,
                      mu_tasks := (if is_new then add_key task (mu_tasks st) else mu_tasks st)\<rparr>))"

text \<open>
  The blocks a request would take: \<open>None\<close> when it does not fit, \<open>Some None\<close> for an encoder request,
  which takes none.
\<close>

definition mu_prepare ::
  "capacity_config \<Rightarrow> kv_manager \<Rightarrow> llm_request \<Rightarrow> mu_state
     \<Rightarrow> (window_blocks \<times> window_blocks option) option option" where
  "mu_prepare cfg kv r st =
     (if is_encoder_init_state r then Some None
      else case prepare_blocks_if_schedulable kv (two_step_lookahead cfg) (mu_removed st) r (mu_blocks st) of
        None \<Rightarrow> None
      | Some blocks \<Rightarrow>
          (case cross_mgr cfg of
             None \<Rightarrow> Some (Some (blocks, None))
           | Some x \<Rightarrow>
               map_option (\<lambda>cross. Some (blocks, Some cross))
                 (prepare_blocks_if_schedulable x (two_step_lookahead cfg) (mu_removed st) r (mu_cross_blocks st))))"

definition try_scheduling_request ::
  "capacity_config \<Rightarrow> kv_manager \<Rightarrow> llm_request \<Rightarrow> mu_state \<Rightarrow> (bool \<times> mu_state) result" where
  "try_scheduling_request cfg kv r st =
     (if int (length (mu_scheduled st)) \<ge> max_num_requests cfg then Inr (False, st)
      else case mu_prepare cfg kv r st of
        None \<Rightarrow> Inr (False, st)
      | Some prepared \<Rightarrow>
          (case mu_claim_peft cfg r st of
             None \<Rightarrow> Inr (False, st)
           | Some st1 \<Rightarrow>
               rbind (case prepared of
                        None \<Rightarrow> Inr st1
                      | Some (blocks, cross) \<Rightarrow>
                          rbind (update_scheduled_blocks blocks (mu_blocks st1)) (\<lambda>b.
                          rbind (case cross of None \<Rightarrow> Inr (mu_cross_blocks st1)
                                 | Some c \<Rightarrow> update_scheduled_blocks c (mu_cross_blocks st1)) (\<lambda>c.
                          Inr (st1\<lparr>mu_blocks := b, mu_cross_blocks := c\<rparr>)))) (\<lambda>st2.
               Inr (True, st2\<lparr>mu_scheduled := mu_scheduled st2 @ [r]\<rparr>))))"

definition is_started_request :: "capacity_config \<Rightarrow> llm_request \<Rightarrow> bool" where
  "is_started_request cfg r =
     (if \<not> cap_can_be_scheduled cfg r then False
      else (is_context_init_state r \<and> \<not> is_first_context_chunk r) \<or> is_generation_in_progress_state r)"

definition last_started_idx :: "capacity_config \<Rightarrow> llm_request list \<Rightarrow> nat \<Rightarrow> nat \<Rightarrow> nat option" where
  "last_started_idx cfg rs it en = List.find (\<lambda>i. is_started_request cfg (rs ! i)) (rev [it..<en])"

lemma find_member: "List.find P xs = Some x \<Longrightarrow> x \<in> set xs \<and> P x"
  by (induction xs) (auto split: if_splits)

lemma last_started_bounds:
  "last_started_idx cfg rs it en = Some i \<Longrightarrow> it \<le> i \<and> i < en \<and> is_started_request cfg (rs ! i)"
  by (auto simp: last_started_idx_def dest!: find_member)

text \<open>The skip test of the loop; the cross blocks are a fresh empty set each time.\<close>

definition mu_skip :: "capacity_config \<Rightarrow> llm_request \<Rightarrow> mu_state \<Rightarrow> bool \<times> mu_state" where
  "mu_skip cfg r st =
     (if is_skipping_relevant cfg
      then case beneficial_to_skip cfg r (mu_contributed st) [] of
             (skip, blocks, _) \<Rightarrow> (skip, st\<lparr>mu_contributed := blocks\<rparr>)
      else (False, st))"

text \<open>
  The loop of \<open>MaxUtilizationPolicy.schedule\<close>: \<open>it\<close> and \<open>en\<close> are \<open>req_it\<close> and \<open>req_it_end\<close>. When
  the current request does not fit, the last started request from there on is paused, which may
  be the current one, and the list is cut in front of it.
\<close>

function mu_loop ::
  "capacity_config \<Rightarrow> kv_manager \<Rightarrow> llm_request list \<Rightarrow> nat \<Rightarrow> nat \<Rightarrow> mu_state \<Rightarrow> mu_state result" where
  "mu_loop cfg kv rs it en st =
     (if it < en
      then
        let r = rs ! it in
        if \<not> can_be_scheduled_with_disagg_exception cfg r then mu_loop cfg kv rs (Suc it) en st
        else if is_encoder_init_state r \<and> cross_mgr cfg = None then Inl RuntimeError
        else
          let (skip, st1) = mu_skip cfg r st
          in if skip then mu_loop cfg kv rs (Suc it) en st1
             else rbind (try_scheduling_request cfg kv r st1) (\<lambda>(was_scheduled, st2).
               if was_scheduled then mu_loop cfg kv rs (Suc it) en st2
               else case last_started_idx cfg rs it en of
                      None \<Rightarrow> Inr st2
                    | Some i \<Rightarrow>
                        mu_loop cfg kv rs it i
                          (st2\<lparr>mu_removed := mu_removed st2 @ [request_id (rs ! i)],
                               mu_paused := mu_paused st2 @ [rs ! i]\<rparr>))
      else Inr st)"
  by pat_completeness auto
termination
  by (relation "measure (\<lambda>(_, _, _, it, en, _). en - it)") (auto dest!: last_started_bounds)

declare mu_loop.simps [simp del]

definition max_utilization_schedule ::
  "capacity_config \<Rightarrow> kv_manager \<Rightarrow> llm_request list \<Rightarrow> (llm_request list \<times> llm_request list) result" where
  "max_utilization_schedule cfg kv active =
     rbind (mu_loop cfg kv active 0 (length active)
        \<lparr>mu_scheduled = [], mu_paused = [], mu_blocks = mu_blocks_init kv,
         mu_cross_blocks = (case cross_mgr cfg of None \<Rightarrow> [] | Some x \<Rightarrow> mu_blocks_init x),
         mu_peft = 0, mu_tasks = [], mu_contributed = fst (prefill_contributed_blocks cfg active),
         mu_removed = []\<rparr>) (\<lambda>st.
     Inr (mu_scheduled st, mu_paused st))"

section \<open>The scheduler\<close>

definition policy_schedule ::
  "capacity_config \<Rightarrow> llm_request list \<Rightarrow> (llm_request list \<times> llm_request list) result" where
  "policy_schedule cfg active =
     (case kv_mgr cfg of
        None \<Rightarrow> Inr (max_requests_schedule cfg active)
      | Some kv \<Rightarrow>
          (case cap_policy cfg of
             MAX_UTILIZATION \<Rightarrow> max_utilization_schedule cfg kv active
           | GUARANTEED_NO_EVICT \<Rightarrow> no_evict_schedule cfg kv False active
           | STATIC_BATCH \<Rightarrow> no_evict_schedule cfg kv True active))"

definition classify_output :: "llm_request list \<Rightarrow> llm_request list \<times> llm_request list" where
  "classify_output scheduled =
     foldl (\<lambda>(fit, dis) r. if is_disagg_generation_init_state r then (fit, dis @ [r]) else (fit @ [r], dis))
       ([], []) scheduled"

definition cap_schedule_request ::
  "capacity_config \<Rightarrow> llm_request list \<Rightarrow> (llm_request list \<times> llm_request list \<times> llm_request list) result" where
  "cap_schedule_request cfg active =
     rbind (policy_schedule cfg active) (\<lambda>(scheduled, paused).
       case classify_output scheduled of (fit, dis) \<Rightarrow> Inr (fit, dis, paused))"

text \<open>
  A question for the blocks of a request also writes its \<open>estimatedReusableTokens\<close>
  (\<^verbatim>\<open>getRemainingBlocksToCompletion\<close> and \<^verbatim>\<open>getNeededBlocksOneStep\<close> of \<^verbatim>\<open>kvCacheManager.cpp\<close>). Both are asked
  once per window, first of the manager of self attention and then of the one of cross attention, for every request
  that a policy schedules, apart from encoder requests, which take no blocks; the last answer stays.
\<close>

definition reuse_estimate :: "kv_manager \<Rightarrow> llm_request \<Rightarrow> int" where
  "reuse_estimate kv r =
     (if enable_block_reuse kv \<and> is_context_init_state r \<and> is_first_context_chunk r \<and> \<not> is_cross_kv kv
      then min (prefix_reusable_tokens kv r) ((prompt_len r - 1) div kv_tokens_per_block kv * kv_tokens_per_block kv)
      else 0)"

definition has_windows :: "capacity_config \<Rightarrow> kv_manager \<Rightarrow> bool" where
  "has_windows cfg kv =
     (if cap_policy cfg = MAX_UTILIZATION then max_attention_window_vec kv \<noteq> []
      else num_free_blocks_per_window_size kv \<noteq> [])"

definition asked :: "capacity_config \<Rightarrow> kv_manager option \<Rightarrow> llm_request \<Rightarrow> llm_request" where
  "asked cfg mgr r =
     (case mgr of None \<Rightarrow> r
      | Some kv \<Rightarrow> if has_windows cfg kv then r\<lparr>estimated_reusable_tokens := reuse_estimate kv r\<rparr> else r)"

definition note_reuse :: "capacity_config \<Rightarrow> llm_request \<Rightarrow> llm_request" where
  "note_reuse cfg r =
     (if kv_mgr cfg = None \<or> is_encoder_init_state r then r else asked cfg (cross_mgr cfg) (asked cfg (kv_mgr cfg) r))"

lemma note_reuse_fields [simp]:
  "request_id (note_reuse cfg r) = request_id r" "request_state (note_reuse cfg r) = request_state r"
  by (simp_all add: note_reuse_def asked_def split: option.splits)

lemma classify_filter:
  "classify_output rs = (filter (\<lambda>r. \<not> is_disagg_generation_init_state r) rs, filter is_disagg_generation_init_state rs)"
proof -
  have "foldl (\<lambda>(fit, dis) r. if is_disagg_generation_init_state r then (fit, dis @ [r]) else (fit @ [r], dis)) (f, d) rs
      = (f @ filter (\<lambda>r. \<not> is_disagg_generation_init_state r) rs, d @ filter is_disagg_generation_init_state rs)" for f d
    by (induction rs arbitrary: f d) auto
  then show ?thesis by (simp add: classify_output_def)
qed

section \<open>No eviction is guaranteed\<close>

text \<open>
  The requests that hold blocks; encoder requests hold none until they reach the decoder. \<open>reserved\<close>
  is what a list of requests still needs of the blocks of a window.
\<close>

abbreviation reserved :: "kv_manager \<Rightarrow> llm_request list \<Rightarrow> int \<Rightarrow> int" where
  "reserved kv rs w \<equiv> (\<Sum>r\<leftarrow>filter (\<lambda>r. \<not> is_encoder_init_state r) rs. remaining_blocks_to_completion kv r w)"

definition accounted :: "kv_manager \<Rightarrow> llm_request list \<Rightarrow> window_blocks \<Rightarrow> bool" where
  "accounted kv rs avail \<longleftrightarrow>
     avail = map (\<lambda>(w, a). (w, a - reserved kv rs w)) (num_free_blocks_per_window_size kv)"

definition ne_accounted :: "capacity_config \<Rightarrow> kv_manager \<Rightarrow> ne_state \<Rightarrow> bool" where
  "ne_accounted cfg kv st \<longleftrightarrow> accounted kv (ne_scheduled st) (ne_blocks st) \<and>
     (\<forall>x. cross_mgr cfg = Some x \<longrightarrow> accounted x (ne_scheduled st) (ne_cross_blocks st))"

lemma accounted_decrement:
  assumes "accounted kv rs avail" "\<not> is_encoder_init_state r"
  shows "accounted kv (rs @ [r]) (decrement_reserved_blocks kv r avail)"
  using assms by (auto simp: accounted_def decrement_reserved_blocks_def)

lemma ne_reserve_accounted:
  "ne_accounted cfg kv st \<Longrightarrow> \<not> is_encoder_init_state r \<Longrightarrow> ne_accounted cfg kv (ne_reserve cfg kv r st)"
  by (auto simp: ne_accounted_def ne_reserve_def accounted_decrement)

lemma accounted_encoder:
  "is_encoder_init_state r \<Longrightarrow> accounted kv (gen @ rs @ [r]) avail = accounted kv (gen @ rs) avail"
  by (simp add: accounted_def)

lemma enough_fits:
  assumes "accounted kv rs avail" "enough_available_blocks kv r avail" "\<not> is_encoder_init_state r"
  shows "\<forall>(w, a) \<in> set (num_free_blocks_per_window_size kv). reserved kv (rs @ [r]) w \<le> a"
  using assms by (auto simp: accounted_def enough_available_blocks_def list_all_iff)

definition fits :: "kv_manager \<Rightarrow> llm_request list \<Rightarrow> bool" where
  "fits kv rs \<longleftrightarrow> (\<forall>(w, a) \<in> set (num_free_blocks_per_window_size kv). reserved kv rs w \<le> a)"

definition all_fit :: "capacity_config \<Rightarrow> kv_manager \<Rightarrow> llm_request list \<Rightarrow> bool" where
  "all_fit cfg kv rs \<longleftrightarrow> fits kv rs \<and> (\<forall>x. cross_mgr cfg = Some x \<longrightarrow> fits x rs)"

text \<open>
  The invariant of the second pass, for the requests \<open>gen\<close> that the first pass took: as soon as a
  request that holds blocks was admitted, everything scheduled fits into the free blocks.
\<close>

definition ne_inv :: "capacity_config \<Rightarrow> kv_manager \<Rightarrow> llm_request list \<Rightarrow> llm_request list \<Rightarrow> ne_state \<Rightarrow> bool" where
  "ne_inv cfg kv gen cand st \<longleftrightarrow> (\<exists>adm. ne_scheduled st = gen @ adm \<and> subseq adm cand \<and>
     ne_accounted cfg kv st \<and> int (length (ne_scheduled st)) \<le> max_num_requests cfg \<and>
     ((\<exists>r \<in> set adm. \<not> is_encoder_init_state r) \<longrightarrow> all_fit cfg kv (ne_scheduled st)))"

lemma ne_inv_frame:
  assumes "ne_inv cfg kv gen cand st" "ne_scheduled st' = ne_scheduled st" "ne_blocks st' = ne_blocks st"
    "ne_cross_blocks st' = ne_cross_blocks st"
  shows "ne_inv cfg kv gen cand st'" "ne_inv cfg kv gen (cand @ [r]) st'"
  using assms unfolding ne_inv_def ne_accounted_def
  by (auto intro: list_emb_append2 subseq_order.order_trans)

lemma claim_peft_frame:
  "ne_claim_peft cfg r st = Some st1 \<Longrightarrow> ne_scheduled st1 = ne_scheduled st \<and> ne_blocks st1 = ne_blocks st \<and>
     ne_cross_blocks st1 = ne_cross_blocks st"
  by (auto simp: ne_claim_peft_def split: if_splits prod.splits)

lemma ne_inv_encoder:
  assumes "ne_inv cfg kv gen cand st" "is_encoder_init_state r" "int (length (ne_scheduled st)) < max_num_requests cfg"
  shows "ne_inv cfg kv gen (cand @ [r]) (st\<lparr>ne_scheduled := ne_scheduled st @ [r]\<rparr>)"
proof -
  obtain adm where adm: "ne_scheduled st = gen @ adm" "subseq adm cand" "ne_accounted cfg kv st"
      "(\<exists>r \<in> set adm. \<not> is_encoder_init_state r) \<longrightarrow> all_fit cfg kv (ne_scheduled st)"
    using assms(1) unfolding ne_inv_def by blast
  have "all_fit cfg kv (ne_scheduled st @ [r]) = all_fit cfg kv (ne_scheduled st)"
    using assms(2) by (simp add: all_fit_def fits_def)
  then show ?thesis
    unfolding ne_inv_def using adm assms(2,3)
    by (intro exI [of _ "adm @ [r]"]) (auto simp: ne_accounted_def accounted_encoder subseq_append' list_emb_append_mono)
qed

lemma ne_inv_reserve:
  assumes "ne_inv cfg kv gen cand st" "\<not> is_encoder_init_state r" "int (length (ne_scheduled st)) < max_num_requests cfg"
    and "enough_available_blocks kv r (ne_blocks st)"
    and "\<And>x. cross_mgr cfg = Some x \<Longrightarrow> enough_available_blocks x r (ne_cross_blocks st)"
  shows "ne_inv cfg kv gen (cand @ [r]) (ne_reserve cfg kv r st)"
proof -
  obtain adm where adm: "ne_scheduled st = gen @ adm" "subseq adm cand" "ne_accounted cfg kv st"
    using assms(1) unfolding ne_inv_def by blast
  have "all_fit cfg kv (ne_scheduled st @ [r])"
    using adm(3) assms(2,4,5) enough_fits unfolding all_fit_def fits_def ne_accounted_def by blast
  moreover have "ne_accounted cfg kv (ne_reserve cfg kv r st)" using ne_reserve_accounted adm(3) assms(2) by blast
  moreover have "ne_scheduled (ne_reserve cfg kv r st) = gen @ (adm @ [r])" by (simp add: ne_reserve_def adm(1))
  ultimately show ?thesis
    unfolding ne_inv_def using adm assms(3)
    by (intro exI [of _ "adm @ [r]"]) (auto simp: list_emb_append_mono)
qed

lemma ne_admit_inv:
  assumes inv: "ne_inv cfg kv gen cand st" and adm: "ne_admit cfg kv r st = (stop, st')"
  shows "ne_inv cfg kv gen (cand @ [r]) st'"
proof (cases "int (length (ne_scheduled st)) \<ge> max_num_requests cfg")
  case True
  then show ?thesis using adm ne_inv_frame(2) [OF inv] by (simp add: ne_admit_def)
next
  case room: False
  show ?thesis
  proof (cases "ne_claim_peft cfg r st")
    case None
    then have "st' = st" using adm room by (auto simp: ne_admit_def split: if_splits)
    then show ?thesis using ne_inv_frame(2) [OF inv] by simp
  next
    case (Some st1)
    note frame = claim_peft_frame [OF Some]
    have inv1: "ne_inv cfg kv gen cand st1" using ne_inv_frame(1) [OF inv] frame by blast
    have room1: "int (length (ne_scheduled st1)) < max_num_requests cfg" using room frame by simp
    show ?thesis
    proof (cases "is_encoder_init_state r")
      case True
      then show ?thesis using adm room Some ne_inv_encoder [OF inv1 True room1] by (simp add: ne_admit_def)
    next
      case False
      then have "st' = st \<or> st' = ne_reserve cfg kv r st1 \<and> enough_available_blocks kv r (ne_blocks st) \<and>
          (\<forall>x. cross_mgr cfg = Some x \<longrightarrow> enough_available_blocks x r (ne_cross_blocks st))"
        using adm room Some by (auto simp: ne_admit_def split: if_splits)
      then show ?thesis
        using ne_inv_frame(2) [OF inv] ne_inv_reserve [OF inv1 False room1] frame by auto
    qed
  qed
qed

lemma ne_step_inv:
  assumes "ne_inv cfg kv gen cand st" "ne_step cfg kv sb r st = Inr (stop, st')"
  shows "ne_inv cfg kv gen (cand @ [r]) st'"
proof -
  have skip: "ne_inv cfg kv gen cand (st\<lparr>ne_contributed := b, ne_cross_contributed := c\<rparr>)"
      "ne_inv cfg kv gen (cand @ [r]) (st\<lparr>ne_contributed := b, ne_cross_contributed := c\<rparr>)" for b c
    by (rule ne_inv_frame [OF assms(1)]; simp)+
  show ?thesis
    using assms(2) ne_admit_inv [OF skip(1)] skip(2) ne_admit_inv [OF assms(1)]
    by (auto simp: ne_step_def Let_def split: if_splits prod.splits)
qed

lemma ne_inv_more: "ne_inv cfg kv gen cand st \<Longrightarrow> ne_inv cfg kv gen (cand @ xs) st"
  unfolding ne_inv_def by (meson list_emb_append2 subseq_order.order_trans subseq_order.order_refl prefix_imp_subseq prefixI)

lemma ne_second_pass_inv:
  assumes "ne_inv cfg kv gen cand st" "\<forall>r \<in> set rs. is_encoder_init_state r \<longrightarrow> cross_mgr cfg \<noteq> None"
  shows "\<exists>st'. ne_second_pass cfg kv sb rs st = Inr st' \<and> ne_inv cfg kv gen (cand @ rs) st'"
  using assms
proof (induction rs arbitrary: st cand)
  case (Cons r rs)
  have "\<exists>res. ne_step cfg kv sb r st = Inr res"
    using Cons.prems(2)
    by (cases "beneficial_to_skip cfg r (ne_contributed st) (ne_cross_contributed st)")
      (auto simp: ne_step_def Let_def)
  then obtain stop st1 where st1: "ne_step cfg kv sb r st = Inr (stop, st1)" by auto
  note inv1 = ne_step_inv [OF Cons.prems(1) st1]
  show ?case
  proof (cases stop)
    case True
    then show ?thesis using st1 ne_inv_more [OF inv1, of rs] by simp
  next
    case False
    then show ?thesis using st1 Cons.IH [OF inv1] Cons.prems(2) by auto
  qed
qed simp

text \<open>What the first pass makes of the rest \<open>rs\<close> of the active requests.\<close>

definition first_ok ::
  "capacity_config \<Rightarrow> kv_manager \<Rightarrow> llm_request list \<Rightarrow> llm_request list \<Rightarrow> llm_request list \<Rightarrow> llm_request list
     \<Rightarrow> ne_state \<times> llm_request list \<times> llm_request list \<Rightarrow> bool" where
  "first_ok cfg kv rs scheduled dis pend res \<longleftrightarrow>
     (\<exists>gen d p st'. res = (st', dis @ d, pend @ p) \<and> ne_scheduled st' = scheduled @ gen \<and>
        ne_accounted cfg kv st' \<and> int (length (ne_scheduled st')) \<le> max_num_requests cfg \<and>
        (\<forall>r \<in> set gen. is_generation_in_progress_state r) \<and>
        (\<forall>r \<in> set (d @ p). \<not> is_generation_in_progress_state r) \<and> mset (gen @ d @ p) \<subseteq># mset rs)"

lemma submset_Cons: "M \<subseteq># mset rs \<Longrightarrow> M \<subseteq># mset (r # rs)"
  by (auto simp: subseteq_mset_def intro: le_SucI)

lemma first_skip:
  assumes "first_ok cfg kv rs s dis pend res" shows "first_ok cfg kv (r # rs) s dis pend res"
  using assms submset_Cons [of _ rs r] unfolding first_ok_def by blast

lemma first_stop:
  assumes "ne_accounted cfg kv st" "int (length (ne_scheduled st)) \<le> max_num_requests cfg"
  shows "first_ok cfg kv rs (ne_scheduled st) dis pend (st, dis, pend)"
  unfolding first_ok_def using assms
  by (intro exI [of _ "[] :: llm_request list"] exI [of _ st]) auto

lemma first_gen:
  assumes "first_ok cfg kv rs (s @ [r]) dis pend res" "is_generation_in_progress_state r"
  shows "first_ok cfg kv (r # rs) s dis pend res"
proof -
  obtain gen d p st' where "res = (st', dis @ d, pend @ p)" "ne_scheduled st' = s @ (r # gen)"
      "ne_accounted cfg kv st'" "int (length (ne_scheduled st')) \<le> max_num_requests cfg"
      "\<forall>r \<in> set gen. is_generation_in_progress_state r"
      "\<forall>r \<in> set (d @ p). \<not> is_generation_in_progress_state r" "mset (gen @ d @ p) \<subseteq># mset rs"
    using assms(1) unfolding first_ok_def by auto
  moreover from this have "\<forall>x \<in> set (r # gen). is_generation_in_progress_state x"
    "mset ((r # gen) @ d @ p) \<subseteq># mset (r # rs)" using assms(2) by simp_all
  ultimately show ?thesis unfolding first_ok_def by blast
qed

lemma first_dis:
  assumes "first_ok cfg kv rs s (dis @ [r]) pend res" "\<not> is_generation_in_progress_state r"
  shows "first_ok cfg kv (r # rs) s dis pend res"
proof -
  obtain gen d p st' where "res = (st', dis @ (r # d), pend @ p)" "ne_scheduled st' = s @ gen"
      "ne_accounted cfg kv st'" "int (length (ne_scheduled st')) \<le> max_num_requests cfg"
      "\<forall>r \<in> set gen. is_generation_in_progress_state r"
      "\<forall>r \<in> set (d @ p). \<not> is_generation_in_progress_state r" "mset (gen @ d @ p) \<subseteq># mset rs"
    using assms(1) unfolding first_ok_def by auto
  moreover from this have "\<forall>x \<in> set ((r # d) @ p). \<not> is_generation_in_progress_state x"
    "mset (gen @ (r # d) @ p) \<subseteq># mset (r # rs)" using assms(2) by simp_all
  ultimately show ?thesis unfolding first_ok_def by blast
qed

lemma first_pend:
  assumes "first_ok cfg kv rs s dis (pend @ [r]) res" "\<not> is_generation_in_progress_state r"
  shows "first_ok cfg kv (r # rs) s dis pend res"
proof -
  obtain gen d p st' where "res = (st', dis @ d, pend @ (r # p))" "ne_scheduled st' = s @ gen"
      "ne_accounted cfg kv st'" "int (length (ne_scheduled st')) \<le> max_num_requests cfg"
      "\<forall>r \<in> set gen. is_generation_in_progress_state r"
      "\<forall>r \<in> set (d @ p). \<not> is_generation_in_progress_state r" "mset (gen @ d @ p) \<subseteq># mset rs"
    using assms(1) unfolding first_ok_def by auto
  moreover from this have "\<forall>x \<in> set (d @ (r # p)). \<not> is_generation_in_progress_state x"
    "mset (gen @ d @ (r # p)) \<subseteq># mset (r # rs)" using assms(2) by simp_all
  ultimately show ?thesis unfolding first_ok_def by blast
qed

lemma gen_not_encoder: "is_generation_in_progress_state r \<Longrightarrow> \<not> is_encoder_init_state r"
  by (auto simp: is_encoder_init_state_def is_generation_in_progress_state_def)

lemma ne_first_pass_ok:
  assumes "ne_accounted cfg kv st" "int (length (ne_scheduled st)) \<le> max_num_requests cfg"
  shows "first_ok cfg kv rs (ne_scheduled st) dis pend (ne_first_pass cfg kv rs st dis pend)"
  using assms
proof (induction rs arbitrary: st dis pend)
  case Nil
  then show ?case using first_stop [of cfg kv st "[]"] by simp
next
  case (Cons r rs)
  show ?case
  proof (cases "can_be_scheduled_with_disagg_exception cfg r")
    case False
    then show ?thesis using first_skip [OF Cons.IH [OF Cons.prems]] by simp
  next
    case can: True
    show ?thesis
    proof (cases "int (length (ne_scheduled st)) \<ge> max_num_requests cfg")
      case True
      then show ?thesis using can first_stop [OF Cons.prems] by simp
    next
      case room: False
      show ?thesis
      proof (cases "is_generation_in_progress_state r")
        case True
        let ?st1 = "ne_reserve cfg kv r st"
        define st2 where "st2 = (if peft_mgr cfg = None then ?st1
            else case get_peft_task_info cfg r (ne_tasks ?st1) of (task, is_new, pages) \<Rightarrow>
              if is_new then ?st1\<lparr>ne_peft := ne_peft ?st1 + pages, ne_tasks := add_key task (ne_tasks ?st1)\<rparr> else ?st1)"
        have "ne_accounted cfg kv ?st1" using ne_reserve_accounted Cons.prems(1) gen_not_encoder [OF True] by blast
        then have st2: "ne_accounted cfg kv st2" "ne_scheduled st2 = ne_scheduled st @ [r]"
          by (auto simp: st2_def ne_accounted_def ne_reserve_def split: prod.split)
        have "ne_first_pass cfg kv (r # rs) st dis pend = ne_first_pass cfg kv rs st2 dis pend"
          using can room True unfolding st2_def by (simp add: Let_def)
        then show ?thesis using first_gen [OF _ True] Cons.IH [OF st2(1), of dis pend] st2(2) room by simp
      next
        case False
        then show ?thesis
          using can room first_dis [OF _ False] first_pend [OF _ False] Cons.IH [OF Cons.prems] by simp
      qed
    qed
  qed
qed

lemma subseq_submset: "subseq xs ys \<Longrightarrow> mset xs \<subseteq># mset ys"
  by (induction rule: list_emb.induct) (auto intro: submset_Cons [simplified])

lemma ne_start_ok: "ne_accounted cfg kv (ne_start cfg kv sb active)" "ne_scheduled (ne_start cfg kv sb active) = []"
  by (auto simp: ne_start_def ne_accounted_def accounted_def ne_available_def Let_def split: prod.splits)

text \<open>The result of the policy, in terms of the two passes.\<close>

lemma no_evict_result:
  assumes max: "0 \<le> max_num_requests cfg"
    and enc: "\<forall>r \<in> set active. is_encoder_init_state r \<longrightarrow> cross_mgr cfg \<noteq> None"
  shows "\<exists>gen adm. no_evict_schedule cfg kv sb active = Inr (gen @ adm, []) \<and>
     (\<forall>r \<in> set gen. is_generation_in_progress_state r) \<and>
     (\<forall>r \<in> set adm. \<not> is_generation_in_progress_state r) \<and>
     mset (gen @ adm) \<subseteq># mset active \<and> int (length (gen @ adm)) \<le> max_num_requests cfg \<and>
     (sb \<longrightarrow> gen = [] \<or> adm = []) \<and>
     ((\<exists>r \<in> set adm. \<not> is_encoder_init_state r) \<longrightarrow> all_fit cfg kv (gen @ adm))"
proof -
  obtain st dis pend where fp: "ne_first_pass cfg kv active (ne_start cfg kv sb active) [] [] = (st, dis, pend)"
    by (metis prod_cases3)
  have st: "ne_accounted cfg kv st" "int (length (ne_scheduled st)) \<le> max_num_requests cfg"
      "\<forall>r \<in> set (ne_scheduled st). is_generation_in_progress_state r"
      "\<forall>r \<in> set (dis @ pend). \<not> is_generation_in_progress_state r" "mset (ne_scheduled st @ dis @ pend) \<subseteq># mset active"
    using ne_first_pass_ok [of cfg kv "ne_start cfg kv sb active" active "[]" "[]"] ne_start_ok [of cfg kv sb active] max
    unfolding fp first_ok_def by auto
  let ?gen = "ne_scheduled st"
  show ?thesis
  proof (cases "\<not> sb \<or> ?gen = []")
    case False
    then have "no_evict_schedule cfg kv sb active = Inr (?gen @ [], [])" using fp by (simp add: no_evict_schedule_def)
    moreover have "mset (?gen @ []) \<subseteq># mset active"
      using subset_mset.order_trans [OF _ st(5), of "mset ?gen"] by simp
    ultimately show ?thesis using st(2,3) by (intro exI [of _ ?gen] exI [of _ "[]"]) auto
  next
    case second: True
    have "set (dis @ pend) \<subseteq> set active" using set_mset_mono [OF st(5)] by auto
    then have encs: "\<forall>r \<in> set dis. is_encoder_init_state r \<longrightarrow> cross_mgr cfg \<noteq> None"
        "\<forall>r \<in> set pend. is_encoder_init_state r \<longrightarrow> cross_mgr cfg \<noteq> None"
      using enc by auto
    let ?st1 = "st\<lparr>ne_peft := get_max_peft_pages cfg - ne_peft st\<rparr>"
    have "ne_inv cfg kv ?gen [] ?st1"
      unfolding ne_inv_def using st(1,2) by (intro exI [of _ "[]"]) (auto simp: ne_accounted_def)
    then obtain st2 where st2: "ne_second_pass cfg kv sb dis ?st1 = Inr st2" "ne_inv cfg kv ?gen dis st2"
      using ne_second_pass_inv [OF _ encs(1), of kv ?gen "[]" ?st1 sb] by auto
    then obtain st3 where st3: "ne_second_pass cfg kv sb pend st2 = Inr st3" "ne_inv cfg kv ?gen (dis @ pend) st3"
      using ne_second_pass_inv [OF st2(2) encs(2), of sb] by auto
    then obtain adm where adm: "ne_scheduled st3 = ?gen @ adm" "subseq adm (dis @ pend)"
        "int (length (?gen @ adm)) \<le> max_num_requests cfg"
        "(\<exists>r \<in> set adm. \<not> is_encoder_init_state r) \<longrightarrow> all_fit cfg kv (?gen @ adm)"
      unfolding ne_inv_def by auto
    have "mset (?gen @ adm) \<subseteq># mset active"
      using subset_mset.order_trans [OF _ st(5)] subseq_submset [OF adm(2)] by simp
    moreover have "\<forall>r \<in> set adm. \<not> is_generation_in_progress_state r"
      using st(4) subseq_submset [OF adm(2)] set_mset_mono by fastforce
    moreover have "no_evict_schedule cfg kv sb active = Inr (?gen @ adm, [])"
      using fp st2(1) st3(1) adm(1) second by (auto simp: no_evict_schedule_def Let_def)
    ultimately show ?thesis using st(3) adm(3,4) second by blast
  qed
qed

section \<open>Maximum utilisation fits\<close>

definition used :: "kv_manager \<Rightarrow> bool \<Rightarrow> llm_request list \<Rightarrow> int \<Rightarrow> int" where
  "used kv two rs w =
     (\<Sum>r\<leftarrow>filter (\<lambda>r. \<not> is_encoder_init_state r) rs. needed_blocks_one_step kv r two w)"

abbreviation used_blocks :: "kv_manager \<Rightarrow> bool \<Rightarrow> llm_request list \<Rightarrow> window_blocks" where
  "used_blocks kv two rs \<equiv> map (\<lambda>w. (w, used kv two rs w)) (remdups (max_attention_window_vec kv))"

lemma prepare_some:
  assumes "prepare_blocks_if_schedulable kv two rem r (map (\<lambda>w. (w, f w)) ws) = Some bs"
  shows "bs = map (\<lambda>w. (w, f w + needed_blocks_one_step kv r two w)) ws \<and>
     (\<forall>w \<in> set ws. has_free_blocks kv rem (f w + needed_blocks_one_step kv r two w) w)"
  using assms by (induction ws arbitrary: bs) (auto simp: Let_def split: if_splits)

lemma fold_update_same:
  assumes "map fst bs = map fst d" "distinct (map fst bs)"
  shows "fold (\<lambda>(w, b) d. AList.update w b d) bs d = bs"
proof -
  have "fold (\<lambda>(w, b) d. AList.update w b d) bs (pre @ d) = pre @ bs"
    if "map fst bs = map fst d" "distinct (map fst (pre @ bs))" for pre
    using that
  proof (induction bs arbitrary: d pre)
    case (Cons b bs)
    obtain w v where b: "b = (w, v)" by fastforce
    obtain v' d' where d: "d = (w, v') # d'" using Cons.prems(1) b by (cases d) auto
    have "AList.update w v (pre @ d) = (pre @ [(w, v)]) @ d'"
      using Cons.prems(2) b d by (induction pre) auto
    then show ?case using Cons.IH [of d' "pre @ [(w, v)]"] Cons.prems b d by simp
  qed simp
  from this [of "[]"] show ?thesis using assms by simp
qed

lemma update_used:
  "prepare_blocks_if_schedulable kv two rem r (used_blocks kv two rs) = Some bs \<Longrightarrow> \<not> is_encoder_init_state r \<Longrightarrow>
     update_scheduled_blocks bs (used_blocks kv two rs) = Inr (used_blocks kv two (rs @ [r])) \<and>
     (\<forall>w \<in> set (max_attention_window_vec kv). has_free_blocks kv rem (used kv two (rs @ [r]) w) w)"
proof -
  assume "prepare_blocks_if_schedulable kv two rem r (used_blocks kv two rs) = Some bs" "\<not> is_encoder_init_state r"
  then have "bs = used_blocks kv two (rs @ [r])"
      "\<forall>w \<in> set (max_attention_window_vec kv). has_free_blocks kv rem (used kv two (rs @ [r]) w) w"
    using prepare_some [of kv two rem r "used kv two rs"] by (auto simp: used_def)
  then show ?thesis
    using fold_update_same [of bs "used_blocks kv two rs"] by (simp add: update_scheduled_blocks_def o_def)
qed

definition mgr_fit :: "kv_manager \<Rightarrow> bool \<Rightarrow> int list \<Rightarrow> llm_request list \<Rightarrow> bool" where
  "mgr_fit kv two rem rs \<longleftrightarrow> (\<forall>w \<in> set (max_attention_window_vec kv). has_free_blocks kv rem (used kv two rs w) w)"

definition mu_fit :: "capacity_config \<Rightarrow> kv_manager \<Rightarrow> int list \<Rightarrow> llm_request list \<Rightarrow> bool" where
  "mu_fit cfg kv rem rs \<longleftrightarrow> mgr_fit kv (two_step_lookahead cfg) rem rs \<and>
     (\<forall>x. cross_mgr cfg = Some x \<longrightarrow> mgr_fit x (two_step_lookahead cfg) rem rs)"

definition mu_accounted :: "capacity_config \<Rightarrow> kv_manager \<Rightarrow> mu_state \<Rightarrow> bool" where
  "mu_accounted cfg kv st \<longleftrightarrow>
     mu_blocks st = used_blocks kv (two_step_lookahead cfg) (mu_scheduled st) \<and>
     (\<forall>x. cross_mgr cfg = Some x \<longrightarrow> mu_cross_blocks st = used_blocks x (two_step_lookahead cfg) (mu_scheduled st)) \<and>
     int (length (mu_scheduled st)) \<le> max_num_requests cfg \<and>
     ((\<exists>r \<in> set (mu_scheduled st). \<not> is_encoder_init_state r) \<longrightarrow> mu_fit cfg kv (mu_removed st) (mu_scheduled st))"

lemma used_encoder [simp]: "is_encoder_init_state r \<Longrightarrow> used kv two (rs @ [r]) w = used kv two rs w"
  by (simp add: used_def)

lemma mu_claim_frame:
  "mu_claim_peft cfg r st = Some st1 \<Longrightarrow> mu_scheduled st1 = mu_scheduled st \<and> mu_blocks st1 = mu_blocks st \<and>
     mu_cross_blocks st1 = mu_cross_blocks st \<and> mu_removed st1 = mu_removed st \<and> mu_paused st1 = mu_paused st"
  by (auto simp: mu_claim_peft_def split: if_splits prod.splits)

text \<open>
  Trying a request never raises: either the state stays as it is or the request is scheduled and
  everything scheduled fits.
\<close>

lemma try_scheduling_ok:
  assumes acc: "mu_accounted cfg kv st"
  shows "\<exists>ok st'. try_scheduling_request cfg kv r st = Inr (ok, st') \<and> (\<not> ok \<longrightarrow> st' = st) \<and>
     (ok \<longrightarrow> mu_accounted cfg kv st' \<and> mu_scheduled st' = mu_scheduled st @ [r] \<and>
        mu_removed st' = mu_removed st \<and> mu_paused st' = mu_paused st)"
proof (cases "int (length (mu_scheduled st)) \<ge> max_num_requests cfg \<or> mu_prepare cfg kv r st = None
    \<or> mu_claim_peft cfg r st = None")
  case True
  then show ?thesis by (cases "mu_prepare cfg kv r st") (auto simp: try_scheduling_request_def)
next
  case False
  then obtain prep st1 where prep: "mu_prepare cfg kv r st = Some prep" and st1: "mu_claim_peft cfg r st = Some st1"
    and room: "int (length (mu_scheduled st)) < max_num_requests cfg" by auto
  note frame = mu_claim_frame [OF st1]
  let ?two = "two_step_lookahead cfg" and ?sch = "mu_scheduled st"
  show ?thesis
  proof (cases "is_encoder_init_state r")
    case True
    then have "try_scheduling_request cfg kv r st = Inr (True, st1\<lparr>mu_scheduled := ?sch @ [r]\<rparr>)"
      using prep st1 room frame by (auto simp: mu_prepare_def try_scheduling_request_def)
    moreover have "mu_accounted cfg kv (st1\<lparr>mu_scheduled := ?sch @ [r]\<rparr>)"
      using acc True frame room by (auto simp: mu_accounted_def mu_fit_def mgr_fit_def)
    ultimately show ?thesis using frame by auto
  next
    case enc: False
    obtain bs where bs: "prepare_blocks_if_schedulable kv ?two (mu_removed st) r (mu_blocks st) = Some bs"
      using prep enc by (auto simp: mu_prepare_def split: option.splits)
    have up: "update_scheduled_blocks bs (mu_blocks st) = Inr (used_blocks kv ?two (?sch @ [r]))"
        "mgr_fit kv ?two (mu_removed st) (?sch @ [r])"
      using update_used [of kv ?two "mu_removed st" r ?sch bs] bs acc enc by (auto simp: mu_accounted_def mgr_fit_def)
    show ?thesis
    proof (cases "cross_mgr cfg")
      case None
      let ?st2 = "st1\<lparr>mu_blocks := used_blocks kv ?two (?sch @ [r]), mu_scheduled := ?sch @ [r]\<rparr>"
      have "try_scheduling_request cfg kv r st = Inr (True, ?st2)"
        using prep st1 room frame enc bs None up(1) by (auto simp: mu_prepare_def try_scheduling_request_def)
      moreover have "mu_accounted cfg kv ?st2" using None up(2) room frame by (simp add: mu_accounted_def mu_fit_def)
      ultimately show ?thesis using frame by auto
    next
      case (Some x)
      obtain cs where cs: "prepare_blocks_if_schedulable x ?two (mu_removed st) r (mu_cross_blocks st) = Some cs"
        using prep enc bs Some by (auto simp: mu_prepare_def)
      have cup: "update_scheduled_blocks cs (mu_cross_blocks st) = Inr (used_blocks x ?two (?sch @ [r]))"
          "mgr_fit x ?two (mu_removed st) (?sch @ [r])"
        using update_used [of x ?two "mu_removed st" r ?sch cs] cs acc enc Some by (auto simp: mu_accounted_def mgr_fit_def)
      let ?st2 = "st1\<lparr>mu_blocks := used_blocks kv ?two (?sch @ [r]), mu_cross_blocks := used_blocks x ?two (?sch @ [r]),
          mu_scheduled := ?sch @ [r]\<rparr>"
      have "mu_prepare cfg kv r st = Some (Some (bs, Some cs))" using enc bs cs Some by (simp add: mu_prepare_def)
      then have "try_scheduling_request cfg kv r st = Inr (True, ?st2)"
        using st1 room frame up(1) cup(1) by (simp add: try_scheduling_request_def)
      moreover have "mu_accounted cfg kv ?st2"
        using Some up(2) cup(2) room frame by (simp add: mu_accounted_def mu_fit_def)
      ultimately show ?thesis using frame by auto
    qed
  qed
qed

text \<open>Removing a sequence from the pool never takes free blocks away.\<close>

definition removal_frees :: "kv_manager \<Rightarrow> bool" where
  "removal_frees kv \<longleftrightarrow> (\<forall>rem i n w. has_free_blocks kv rem n w \<longrightarrow> has_free_blocks kv (rem @ [i]) n w)"

definition mu_inv :: "capacity_config \<Rightarrow> kv_manager \<Rightarrow> llm_request list \<Rightarrow> nat \<Rightarrow> nat \<Rightarrow> mu_state \<Rightarrow> bool" where
  "mu_inv cfg kv rs it en st \<longleftrightarrow> it \<le> en \<and> en \<le> length rs \<and> mu_accounted cfg kv st \<and>
     subseq (mu_scheduled st) (take it rs) \<and> subseq (rev (mu_paused st)) (drop en rs) \<and>
     mu_removed st = map request_id (mu_paused st) \<and>
     (\<forall>r \<in> set (mu_paused st). is_started_request cfg r)"

lemma mu_inv_skip:
  assumes "mu_inv cfg kv rs it en st" "it < en"
  shows "mu_inv cfg kv rs (Suc it) en (st\<lparr>mu_contributed := c\<rparr>)" "mu_inv cfg kv rs (Suc it) en st"
    "mu_inv cfg kv rs it en (st\<lparr>mu_contributed := c\<rparr>)"
proof -
  have "prefix (take it rs) (take (Suc it) rs)"
    using assms by (simp add: mu_inv_def take_Suc_conv_app_nth)
  then have "subseq (take it rs) (take (Suc it) rs)" by (rule prefix_imp_subseq)
  then show "mu_inv cfg kv rs (Suc it) en (st\<lparr>mu_contributed := c\<rparr>)" "mu_inv cfg kv rs (Suc it) en st"
      "mu_inv cfg kv rs it en (st\<lparr>mu_contributed := c\<rparr>)"
    using assms subseq_order.order_trans [of "mu_scheduled st"] by (auto simp: mu_inv_def mu_accounted_def)
qed

lemma mu_inv_take:
  assumes "mu_inv cfg kv rs it en st" "it < en" "mu_accounted cfg kv st'" "mu_scheduled st' = mu_scheduled st @ [rs ! it]"
    "mu_paused st' = mu_paused st" "mu_removed st' = mu_removed st"
  shows "mu_inv cfg kv rs (Suc it) en st'"
proof -
  have "take (Suc it) rs = take it rs @ [rs ! it]" using assms(1,2) by (simp add: mu_inv_def take_Suc_conv_app_nth)
  then show ?thesis using assms by (auto simp: mu_inv_def list_emb_append_mono)
qed

lemma mu_inv_pause:
  assumes inv: "mu_inv cfg kv rs it en st" and i: "last_started_idx cfg rs it en = Some i"
    and free: "removal_frees kv" "\<And>x. cross_mgr cfg = Some x \<Longrightarrow> removal_frees x"
  shows "mu_inv cfg kv rs it i (st\<lparr>mu_removed := mu_removed st @ [request_id (rs ! i)],
      mu_paused := mu_paused st @ [rs ! i]\<rparr>)"
proof -
  let ?k = "request_id (rs ! i)"
  have i': "it \<le> i" "i < en" "is_started_request cfg (rs ! i)" using last_started_bounds [OF i] by auto
  have en: "en \<le> length rs" using inv by (simp add: mu_inv_def)
  have "drop i rs = rs ! i # drop (Suc i) rs" using i'(2) en by (simp add: Cons_nth_drop_Suc)
  moreover have "suffix (drop en rs) (drop (Suc i) rs)"
    using i'(2) by (metis Suc_leI drop_drop le_add_diff_inverse2 suffix_drop)
  then have "subseq (rev (mu_paused st)) (drop (Suc i) rs)"
    using inv suffix_imp_subseq subseq_order.order_trans unfolding mu_inv_def by blast
  ultimately have "subseq (rev (mu_paused st @ [rs ! i])) (drop i rs)" by simp
  moreover have "mu_fit cfg kv (mu_removed st) (mu_scheduled st) \<Longrightarrow> mu_fit cfg kv (mu_removed st @ [?k]) (mu_scheduled st)"
    using free unfolding mu_fit_def mgr_fit_def removal_frees_def by blast
  ultimately show ?thesis using inv i' en by (auto simp: mu_inv_def mu_accounted_def)
qed

lemma mu_loop_inv:
  assumes "mu_inv cfg kv rs it en st" "\<forall>r \<in> set rs. is_encoder_init_state r \<longrightarrow> cross_mgr cfg \<noteq> None"
    and "removal_frees kv" "\<And>x. cross_mgr cfg = Some x \<Longrightarrow> removal_frees x"
  shows "\<exists>it' en' st'. mu_loop cfg kv rs it en st = Inr st' \<and> mu_inv cfg kv rs it' en' st'"
  using assms
proof (induction cfg kv rs it en st rule: mu_loop.induct)
  case (1 cfg kv rs it en st)
  show ?case
  proof (cases "it < en")
    case False
    then show ?thesis using "1.prems"(1) by (auto simp: mu_loop.simps [of cfg kv rs it en st])
  next
    case lt: True
    let ?r = "rs ! it"
    have mem: "?r \<in> set rs" using lt "1.prems"(1) by (simp add: mu_inv_def)
    show ?thesis
    proof (cases "can_be_scheduled_with_disagg_exception cfg ?r")
      case False
      then show ?thesis
        using "1.IH"(1) [OF lt refl _ mu_inv_skip(2) [OF "1.prems"(1) lt] "1.prems"(2-)] lt
        by (simp add: mu_loop.simps [of cfg kv rs it en st])
    next
      case can: True
      have enc: "\<not> (is_encoder_init_state ?r \<and> cross_mgr cfg = None)" using "1.prems"(2) mem by auto
      obtain skip st1 where sk: "mu_skip cfg ?r st = (skip, st1)" by fastforce
      then have st1: "st1 = st \<or> (\<exists>c. st1 = st\<lparr>mu_contributed := c\<rparr>)"
        by (auto simp: mu_skip_def split: if_splits prod.splits)
      have inv1: "mu_inv cfg kv rs (Suc it) en st1" "mu_inv cfg kv rs it en st1"
        using st1 mu_inv_skip [OF "1.prems"(1) lt] "1.prems"(1) by auto
      show ?thesis
      proof (cases skip)
        case True
        have "mu_loop cfg kv rs it en st = mu_loop cfg kv rs (Suc it) en st1"
          using lt can enc sk True by (auto simp: mu_loop.simps [of cfg kv rs it en st] Let_def)
        then show ?thesis
          using "1.IH"(2) [OF lt refl _ enc sk [symmetric] refl True inv1(1) "1.prems"(2-)] can by simp
      next
        case noskip: False
        obtain ok st2 where att: "try_scheduling_request cfg kv ?r st1 = Inr (ok, st2)" "\<not> ok \<longrightarrow> st2 = st1"
          "ok \<longrightarrow> mu_accounted cfg kv st2 \<and> mu_scheduled st2 = mu_scheduled st1 @ [?r] \<and>
             mu_removed st2 = mu_removed st1 \<and> mu_paused st2 = mu_paused st1"
          using try_scheduling_ok [of cfg kv st1 ?r] inv1(2) unfolding mu_inv_def by blast
        have step: "mu_loop cfg kv rs it en st =
            (if ok then mu_loop cfg kv rs (Suc it) en st2
             else case last_started_idx cfg rs it en of None \<Rightarrow> Inr st2
                  | Some i \<Rightarrow> mu_loop cfg kv rs it i (st2\<lparr>mu_removed := mu_removed st2 @ [request_id (rs ! i)],
                       mu_paused := mu_paused st2 @ [rs ! i]\<rparr>))"
          using lt can enc sk noskip att(1) by (auto simp: mu_loop.simps [of cfg kv rs it en st] Let_def)
        show ?thesis
        proof (cases ok)
          case True
          then have "mu_inv cfg kv rs (Suc it) en st2" using mu_inv_take [OF inv1(2) lt] att(3) by blast
          then show ?thesis
            using "1.IH"(3) [OF lt refl _ enc sk [symmetric] refl noskip att(1) refl True _ "1.prems"(2-)] can True step
            by simp
        next
          case False
          then have st2: "st2 = st1" using att(2) by blast
          show ?thesis
          proof (cases "last_started_idx cfg rs it en")
            case None
            then show ?thesis using step False st2 inv1(2) by auto
          next
            case (Some i)
            note inv2 = mu_inv_pause [OF inv1(2) Some "1.prems"(3,4)]
            then show ?thesis
              using "1.IH"(4) [OF lt refl _ enc sk [symmetric] refl noskip att(1) refl False Some _ "1.prems"(2-)]
                can step False Some st2 by simp
          qed
        qed
      qed
    qed
  qed
qed

lemma max_utilization_result:
  assumes "0 \<le> max_num_requests cfg" "\<forall>r \<in> set active. is_encoder_init_state r \<longrightarrow> cross_mgr cfg \<noteq> None"
    and "removal_frees kv" "\<And>x. cross_mgr cfg = Some x \<Longrightarrow> removal_frees x"
  shows "\<exists>scheduled paused k. max_utilization_schedule cfg kv active = Inr (scheduled, paused) \<and>
     subseq scheduled (take k active) \<and> subseq (rev paused) (drop k active) \<and>
     (\<forall>r \<in> set paused. is_started_request cfg r) \<and> int (length scheduled) \<le> max_num_requests cfg \<and>
     ((\<exists>r \<in> set scheduled. \<not> is_encoder_init_state r) \<longrightarrow> mu_fit cfg kv (map request_id paused) scheduled)"
proof -
  let ?st = "\<lparr>mu_scheduled = [], mu_paused = [], mu_blocks = mu_blocks_init kv,
         mu_cross_blocks = (case cross_mgr cfg of None \<Rightarrow> [] | Some x \<Rightarrow> mu_blocks_init x),
         mu_peft = 0, mu_tasks = [], mu_contributed = fst (prefill_contributed_blocks cfg active),
         mu_removed = []\<rparr>"
  have "mu_inv cfg kv active 0 (length active) ?st"
    using assms(1) by (auto simp: mu_inv_def mu_accounted_def mu_blocks_init_def used_def)
  then obtain it en st where "mu_loop cfg kv active 0 (length active) ?st = Inr st" "mu_inv cfg kv active it en st"
    using mu_loop_inv assms(2-4) by blast
  moreover from this(2) have "prefix (take it active) (take en active)"
    unfolding mu_inv_def by (metis le_Suc_ex prefixI take_add)
  then have "subseq (take it active) (take en active)" by (rule prefix_imp_subseq)
  ultimately show ?thesis
    unfolding max_utilization_schedule_def mu_inv_def mu_accounted_def
    by (intro exI [of _ "mu_scheduled st"] exI [of _ "mu_paused st"] exI [of _ en])
      (auto intro: subseq_order.order_trans prefix_imp_subseq)
qed

section \<open>Properties\<close>

text \<open>
  C2. The no-eviction guarantee: \<open>GuaranteedNoEvictPolicy\<close> always returns, pauses nobody, schedules
  at most \<open>max_num_requests\<close> of the active requests and none of them twice, and as soon as it admits
  one request that will hold blocks, all scheduled requests together can run to completion in the
  blocks that are free now, for every window size and for the self and the cross pool. In static
  batching no request joins a batch that is already generating.
\<close>

theorem no_evict_guarantee:
  assumes "0 \<le> max_num_requests cfg"
    and "\<forall>r \<in> set active. is_encoder_init_state r \<longrightarrow> cross_mgr cfg \<noteq> None"
  shows "\<exists>scheduled. no_evict_schedule cfg kv static_batch active = Inr (scheduled, []) \<and>
     mset scheduled \<subseteq># mset active \<and> int (length scheduled) \<le> max_num_requests cfg \<and>
     ((\<exists>r \<in> set scheduled. \<not> is_encoder_init_state r \<and> \<not> is_generation_in_progress_state r) \<longrightarrow>
        (\<forall>(w, free) \<in> set (num_free_blocks_per_window_size kv). reserved kv scheduled w \<le> free) \<and>
        (\<forall>x. cross_mgr cfg = Some x \<longrightarrow>
           (\<forall>(w, free) \<in> set (num_free_blocks_per_window_size x). reserved x scheduled w \<le> free))) \<and>
     (static_batch \<longrightarrow> (\<exists>r \<in> set scheduled. is_generation_in_progress_state r) \<longrightarrow>
        (\<forall>r \<in> set scheduled. is_generation_in_progress_state r))"
proof -
  obtain gen adm where res: "no_evict_schedule cfg kv static_batch active = Inr (gen @ adm, [])"
      "\<forall>r \<in> set gen. is_generation_in_progress_state r" "\<forall>r \<in> set adm. \<not> is_generation_in_progress_state r"
      "mset (gen @ adm) \<subseteq># mset active" "int (length (gen @ adm)) \<le> max_num_requests cfg"
      "static_batch \<longrightarrow> gen = [] \<or> adm = []"
      "(\<exists>r \<in> set adm. \<not> is_encoder_init_state r) \<longrightarrow> all_fit cfg kv (gen @ adm)"
    using no_evict_result [OF assms, of kv static_batch] by blast
  have "(\<exists>r \<in> set (gen @ adm). \<not> is_encoder_init_state r \<and> \<not> is_generation_in_progress_state r) \<Longrightarrow> all_fit cfg kv (gen @ adm)"
    using res(2,7) by auto
  moreover have "static_batch \<Longrightarrow> \<exists>r \<in> set (gen @ adm). is_generation_in_progress_state r \<Longrightarrow>
      \<forall>r \<in> set (gen @ adm). is_generation_in_progress_state r"
    using res(2,3,6) by auto
  ultimately show ?thesis using res(1,4,5) unfolding all_fit_def fits_def by blast
qed

text \<open>A small system for the witnesses: two windows, a running request and two new ones.\<close>

abbreviation demo_request :: "int \<Rightarrow> llm_request_state \<Rightarrow> int \<Rightarrow> llm_request" where
  "demo_request i s n \<equiv> \<lparr>request_id = i, request_state = s, prompt_len = n, context_position = 0,
     prepopulated_len = 0, chunk_size = 0, num_draft_tokens = 0, encoder_output_len = 0,
     estimated_reusable_tokens = 0, num_tokens0 = n, beam_width_by_iter = 1, lora_task_id = None,
     encoder_ready = None\<rparr>"

definition demo_kv :: kv_manager where
  "demo_kv = \<lparr>num_free_blocks_per_window_size = [(128, 3), (4096, 10)],
     remaining_blocks_to_completion = (\<lambda>r w. min w (prompt_len r) div 64 + 1),
     needed_blocks_one_step = (\<lambda>r two w. 1), max_attention_window_vec = [128, 4096],
     has_free_blocks = (\<lambda>removed n w. n \<le> 2 + int (length removed)),
     is_variable_window = False, enable_block_reuse = False, first_new_block = (\<lambda>r. None),
     is_cross_kv = False, kv_tokens_per_block = 32, prefix_reusable_tokens = (\<lambda>r. 0)\<rparr>"

definition demo_cap :: capacity_config where
  "demo_cap = \<lparr>max_num_requests = 4, kv_mgr = Some demo_kv, peft_mgr = None, cross_mgr = None,
     cap_policy = GUARANTEED_NO_EVICT, two_step_lookahead = False, cap_until = 10, cap_after = 20\<rparr>"

definition demo_active :: "llm_request list" where
  "demo_active = [demo_request 1 GENERATION_IN_PROGRESS 64, demo_request 2 CONTEXT_INIT 32,
     demo_request 3 GENERATION_IN_PROGRESS 500]"

theorem no_evict_guarantee_witness:
  "\<exists>scheduled. no_evict_schedule demo_cap demo_kv False demo_active = Inr (scheduled, []) \<and>
     mset scheduled \<subseteq># mset demo_active"
proof -
  have "0 \<le> max_num_requests demo_cap"
      "\<forall>r \<in> set demo_active. is_encoder_init_state r \<longrightarrow> cross_mgr demo_cap \<noteq> None"
    by (simp_all add: demo_cap_def demo_active_def is_encoder_init_state_def)
  then show ?thesis using no_evict_guarantee [of demo_cap demo_active demo_kv False] by blast
qed

text \<open>
  C7. \<open>MaxUtilizationPolicy\<close> always returns; scheduling and pausing split the active requests at one
  point, so an earlier request is never paused in favour of a later one; only started requests are
  paused, the latest ones first; at most \<open>max_num_requests\<close> are scheduled; and after the paused
  sequences are removed there are free blocks for the next step of everything scheduled, in every
  window and in both pools. The managers are assumed to lose no free blocks when a sequence is
  removed.
\<close>

theorem max_utilization_correct:
  assumes "0 \<le> max_num_requests cfg"
    and "\<forall>r \<in> set active. is_encoder_init_state r \<longrightarrow> cross_mgr cfg \<noteq> None"
    and "removal_frees kv" "\<And>x. cross_mgr cfg = Some x \<Longrightarrow> removal_frees x"
  shows "\<exists>scheduled paused k. max_utilization_schedule cfg kv active = Inr (scheduled, paused) \<and>
     subseq scheduled (take k active) \<and> subseq (rev paused) (drop k active) \<and>
     (\<forall>r \<in> set paused. is_started_request cfg r) \<and> int (length scheduled) \<le> max_num_requests cfg \<and>
     ((\<exists>r \<in> set scheduled. \<not> is_encoder_init_state r) \<longrightarrow>
        (\<forall>w \<in> set (max_attention_window_vec kv).
           has_free_blocks kv (map request_id paused) (used kv (two_step_lookahead cfg) scheduled w) w) \<and>
        (\<forall>x. cross_mgr cfg = Some x \<longrightarrow> (\<forall>w \<in> set (max_attention_window_vec x).
           has_free_blocks x (map request_id paused) (used x (two_step_lookahead cfg) scheduled w) w)))"
  using max_utilization_result [OF assms] unfolding mu_fit_def mgr_fit_def by blast

theorem max_utilization_correct_witness:
  "\<exists>scheduled paused. max_utilization_schedule demo_cap demo_kv demo_active = Inr (scheduled, paused) \<and>
     (\<forall>r \<in> set paused. is_started_request demo_cap r) \<and> length scheduled \<le> 4"
proof -
  have "0 \<le> max_num_requests demo_cap"
      "\<forall>r \<in> set demo_active. is_encoder_init_state r \<longrightarrow> cross_mgr demo_cap \<noteq> None"
      "removal_frees demo_kv" "\<And>x. cross_mgr demo_cap = Some x \<Longrightarrow> removal_frees x"
    by (simp_all add: demo_cap_def demo_active_def demo_kv_def is_encoder_init_state_def removal_frees_def)
  then obtain scheduled paused where "max_utilization_schedule demo_cap demo_kv demo_active = Inr (scheduled, paused)"
      "\<forall>r \<in> set paused. is_started_request demo_cap r" "int (length scheduled) \<le> max_num_requests demo_cap"
    using max_utilization_correct [of demo_cap demo_active demo_kv] by blast
  then show ?thesis by (auto simp: demo_cap_def)
qed

text \<open>
  C39. A request is passed over because of the block it registered itself. When a new request whose first
  block is not contributed by anybody does not fit, a started request is paused to make room and the
  loop comes back to the new request; by then \<open>_beneficial_to_skip\<close> finds the block the request
  registered in the first attempt and skips it. The loop goes on with the request after it, in front of the
  paused one, without trying again whether the new request fits.
\<close>

theorem paused_for_a_skipped_request:
  assumes "it < en" "can_be_scheduled_with_disagg_exception cfg (rs ! it)"
    and "is_context_init_state (rs ! it)" "is_first_context_chunk (rs ! it)"
    and "is_skipping_relevant cfg" "new_block (kv_mgr cfg) (rs ! it) = Some b" "b \<notin> set (mu_contributed st)"
    and "st1 = st\<lparr>mu_contributed := List.insert b (mu_contributed st)\<rparr>"
    and "try_scheduling_request cfg kv (rs ! it) st1 = Inr (False, st1)"
    and "last_started_idx cfg rs it en = Some i"
  shows "mu_loop cfg kv rs it en st =
     mu_loop cfg kv rs (Suc it) i (st1\<lparr>mu_removed := mu_removed st @ [request_id (rs ! i)],
                                       mu_paused := mu_paused st @ [rs ! i]\<rparr>)"
proof -
  let ?r = "rs ! it"
  let ?st2 = "st1\<lparr>mu_removed := mu_removed st @ [request_id (rs ! i)], mu_paused := mu_paused st @ [rs ! i]\<rparr>"
  have skip1: "mu_skip cfg ?r st = (False, st1)" and skip2: "mu_skip cfg ?r ?st2 = (True, ?st2)"
    using assms(3-8) by (simp_all add: mu_skip_def beneficial_to_skip_def add_key_def Let_def)
  have enc: "\<not> is_encoder_init_state ?r" "\<not> is_started_request cfg ?r"
    using assms(3,4) by (auto simp: is_encoder_init_state_def is_context_init_state_def is_started_request_def
        is_generation_in_progress_state_def)
  have "it < i" using last_started_bounds [OF assms(10)] enc(2) le_neq_implies_less by blast
  then have "mu_loop cfg kv rs it i ?st2 = mu_loop cfg kv rs (Suc it) i ?st2"
    using assms(2) enc(1) skip2 by (simp add: mu_loop.simps [of cfg kv rs it i])
  moreover have "mu_loop cfg kv rs it en st = mu_loop cfg kv rs it i ?st2"
    using assms(1,2,8-10) enc(1) skip1 by (simp add: mu_loop.simps [of cfg kv rs it en])
  ultimately show ?thesis by simp
qed

definition demo_reuse :: kv_manager where
  "demo_reuse = demo_kv\<lparr>enable_block_reuse := True, first_new_block := (\<lambda>r. Some (prompt_len r)),
     has_free_blocks := (\<lambda>removed n w. n \<le> int (length removed))\<rparr>"

definition demo_mu :: capacity_config where
  "demo_mu = demo_cap\<lparr>kv_mgr := Some demo_reuse, cap_policy := MAX_UTILIZATION\<rparr>"

lemmas demo_mu_simps = demo_mu_def demo_cap_def demo_reuse_def demo_kv_def

theorem paused_for_a_skipped_request_witness:
  "max_utilization_schedule demo_mu demo_reuse
     [demo_request 1 CONTEXT_INIT 32, demo_request 2 GENERATION_IN_PROGRESS 64]
   = Inr ([], [demo_request 2 GENERATION_IN_PROGRESS 64])"
proof -
  let ?rs = "[demo_request 1 CONTEXT_INIT 32, demo_request 2 GENERATION_IN_PROGRESS 64]"
  let ?st = "\<lparr>mu_scheduled = [], mu_paused = [], mu_blocks = mu_blocks_init demo_reuse, mu_cross_blocks = [],
     mu_peft = 0, mu_tasks = [], mu_contributed = [], mu_removed = []\<rparr>"
  let ?st1 = "?st\<lparr>mu_contributed := List.insert 32 (mu_contributed ?st)\<rparr>"
  have "can_be_scheduled_with_disagg_exception demo_mu (?rs ! 0)"
    by (simp add: can_be_scheduled_with_disagg_exception_def cap_can_be_scheduled_def demo_mu_simps
        is_decoder_context_request_waiting_for_encoder_output_def is_disagg_generation_init_state_def)
  moreover have "is_skipping_relevant demo_mu" "new_block (kv_mgr demo_mu) (?rs ! 0) = Some 32"
    by (simp_all add: is_skipping_relevant_def new_block_def demo_mu_simps)
  moreover have "try_scheduling_request demo_mu demo_reuse (?rs ! 0) ?st1 = Inr (False, ?st1)"
    by (simp add: try_scheduling_request_def mu_prepare_def mu_blocks_init_def demo_mu_simps is_encoder_init_state_def)
  moreover have "last_started_idx demo_mu ?rs 0 2 = Some 1"
    by (simp add: last_started_idx_def upt_rec is_started_request_def cap_can_be_scheduled_def demo_mu_simps
        is_decoder_context_request_waiting_for_encoder_output_def is_context_init_state_def
        is_generation_in_progress_state_def)
  ultimately have "mu_loop demo_mu demo_reuse ?rs 0 2 ?st = mu_loop demo_mu demo_reuse ?rs (Suc 0) 1
      (?st1\<lparr>mu_removed := mu_removed ?st @ [request_id (?rs ! 1)], mu_paused := mu_paused ?st @ [?rs ! 1]\<rparr>)"
    by (intro paused_for_a_skipped_request) (simp_all add: is_context_init_state_def is_first_context_chunk_def)
  then show ?thesis
    by (simp add: max_utilization_schedule_def prefill_contributed_blocks_def is_context_init_state_def
        is_first_context_chunk_def mu_loop.simps [of _ _ _ "Suc 0" 1] mu_loop.simps [of _ _ _ "Suc 0" "Suc 0"] demo_mu_simps numeral_2_eq_2)
qed

end
