(* ===== verification/UnifiedScheduler.thy ===== *)
theory UnifiedScheduler
  imports MicroBatch CapacityScheduler
begin

text \<open>
  The schedulers of \<^verbatim>\<open>_torch/pyexecutor/scheduler/scheduler.py\<close> put together: \<open>SimpleScheduler\<close> runs
  any capacity scheduler and any micro-batch scheduler one after the other, \<open>SimpleUnifiedScheduler\<close>
  builds and runs the two Python ones. \<open>ScheduledRequests\<close> is the batch that the executor works on and
  \<open>SerializableSchedulerOutput\<close> its form for the other pipeline ranks.
\<close>

section \<open>Running the two schedulers\<close>

record scheduler_output =
  so_encoder_requests :: "llm_request list"
  so_context_requests :: "llm_request list"
  so_generation_requests :: "llm_request list"
  so_paused_requests :: "llm_request list"
  so_fitting_disagg_gen_init_requests :: "llm_request list"
  so_num_fitting_requests :: int

type_synonym request_lists = "llm_request list \<times> llm_request list \<times> llm_request list"

definition simple_schedule_request ::
  "(llm_request list \<Rightarrow> request_lists result) \<Rightarrow> (llm_request list \<Rightarrow> int list \<Rightarrow> request_lists result)
     \<Rightarrow> llm_request list \<Rightarrow> int list \<Rightarrow> scheduler_output result" where
  "simple_schedule_request capacity micro active inflight =
     rbind (capacity (drop_decoder_context_requests_waiting_for_encoder_output active)) (\<lambda>(fit, dis, paused).
     rbind (micro fit inflight) (\<lambda>(enc, ctx, gen).
     Inr \<lparr>so_encoder_requests = enc, so_context_requests = ctx, so_generation_requests = gen,
          so_paused_requests = paused, so_fitting_disagg_gen_init_requests = dis,
          so_num_fitting_requests = int (length fit)\<rparr>))"

definition simple_can_schedule ::
  "(llm_request list \<Rightarrow> request_lists result) \<Rightarrow> llm_request list \<Rightarrow> bool result" where
  "simple_can_schedule capacity requests =
     (let requests' = drop_decoder_context_requests_waiting_for_encoder_output requests in
      rbind (capacity requests') (\<lambda>(fit, _, _). Inr (length fit = length requests')))"

text \<open>
  The unified scheduler is its two configurations. The chunking policy arrives as the text of an
  enumeration member of one of three libraries, so the constructor searches the text for its name.
\<close>

record unified_scheduler =
  capacity_scheduler :: capacity_config
  micro_batch_scheduler :: mb_config

definition policy_enum :: "string \<Rightarrow> chunking_policy" where
  "policy_enum txt =
     (if sublist ''EQUAL_PROGRESS'' txt then EQUAL_PROGRESS
      else if sublist ''FORCE_CHUNK'' txt then FORCE_CHUNK
      else FIRST_COME_FIRST_SERVED)"

definition sus_init ::
  "int \<Rightarrow> int option \<Rightarrow> kv_manager option \<Rightarrow> peft_manager option \<Rightarrow> capacity_policy \<Rightarrow> (string \<times> int) option
     \<Rightarrow> kv_manager option \<Rightarrow> bool \<Rightarrow> int option \<Rightarrow> llm_request_state \<Rightarrow> unified_scheduler" where
  "sus_init max_batch max_tokens kv peft policy chunk_config cross two_step capacity until =
     \<lparr>capacity_scheduler =
        \<lparr>max_num_requests = (case capacity of None \<Rightarrow> max_batch | Some c \<Rightarrow> c), kv_mgr = kv, peft_mgr = peft,
         cross_mgr = cross, cap_policy = policy, two_step_lookahead = two_step,
         cap_until = state_code until, cap_after = state_code GENERATION_COMPLETE\<rparr>,
      micro_batch_scheduler =
        \<lparr>max_batch_size = max_batch, max_num_tokens = max_tokens,
         ctx_chunk_config = map_option (\<lambda>(txt, unit). (policy_enum txt, unit)) chunk_config,
         no_schedule_until = state_code until, no_schedule_after = state_code GENERATION_TO_COMPLETE\<rparr>\<rparr>"

text \<open>
  The micro-batch scheduler sees the requests as the capacity scheduler leaves them, with the estimates of what they can
  reuse that its questions to the managers have written. Those of paused requests are not read again.
\<close>

definition sus_schedule_request ::
  "unified_scheduler \<Rightarrow> llm_request list \<Rightarrow> int list \<Rightarrow> scheduler_output result" where
  "sus_schedule_request s active inflight =
     rbind (cap_schedule_request (capacity_scheduler s)
        (drop_decoder_context_requests_waiting_for_encoder_output active)) (\<lambda>(fit, dis, paused).
     rbind (mb_schedule (micro_batch_scheduler s) (map (note_reuse (capacity_scheduler s)) fit) inflight) (\<lambda>(enc, ctx, gen).
     Inr \<lparr>so_encoder_requests = enc, so_context_requests = ctx, so_generation_requests = gen,
          so_paused_requests = paused, so_fitting_disagg_gen_init_requests = map (note_reuse (capacity_scheduler s)) dis,
          so_num_fitting_requests = int (length fit)\<rparr>))"

definition sus_can_schedule :: "unified_scheduler \<Rightarrow> llm_request list \<Rightarrow> bool result" where
  "sus_can_schedule s requests =
     (let requests' = drop_decoder_context_requests_waiting_for_encoder_output requests in
      rbind (cap_schedule_request (capacity_scheduler s) requests') (\<lambda>(fit, _, _).
      Inr (length fit = length requests')))"

section \<open>The batch\<close>

record scheduled_requests =
  sr_encoder_requests :: "llm_request list"
  sr_context_requests_chunking :: "llm_request list"
  sr_context_requests_last_chunk :: "llm_request list"
  sr_generation_requests :: "llm_request list"
  sr_paused_requests :: "llm_request list"

definition sr_init :: scheduled_requests where
  "sr_init = \<lparr>sr_encoder_requests = [], sr_context_requests_chunking = [],
     sr_context_requests_last_chunk = [], sr_generation_requests = [], sr_paused_requests = []\<rparr>"

definition sr_num_context_requests :: "scheduled_requests \<Rightarrow> nat" where
  "sr_num_context_requests s = length (sr_context_requests_chunking s) + length (sr_context_requests_last_chunk s)"

definition is_generation_only :: "scheduled_requests \<Rightarrow> bool" where
  "is_generation_only s = (sr_num_context_requests s = 0 \<and>
     list_all (\<lambda>r. num_draft_tokens r = 0) (sr_generation_requests s))"

definition can_run_cuda_graph :: "scheduled_requests \<Rightarrow> bool" where
  "can_run_cuda_graph s = (sr_num_context_requests s = 0)"

definition batch_size :: "scheduled_requests \<Rightarrow> nat" where
  "batch_size s = sr_num_context_requests s + length (sr_generation_requests s)"

definition sr_context_requests :: "scheduled_requests \<Rightarrow> llm_request list" where
  "sr_context_requests s = sr_context_requests_chunking s @ sr_context_requests_last_chunk s"

definition all_requests :: "scheduled_requests \<Rightarrow> llm_request list" where
  "all_requests s = sr_context_requests s @ sr_generation_requests s"

definition append_encoder_request :: "llm_request \<Rightarrow> scheduled_requests \<Rightarrow> scheduled_requests" where
  "append_encoder_request r s = s\<lparr>sr_encoder_requests := sr_encoder_requests s @ [r]\<rparr>"

definition append_context_request :: "llm_request \<Rightarrow> scheduled_requests \<Rightarrow> scheduled_requests" where
  "append_context_request r s =
     (if is_last_context_chunk r
      then s\<lparr>sr_context_requests_last_chunk := sr_context_requests_last_chunk s @ [r]\<rparr>
      else s\<lparr>sr_context_requests_chunking := sr_context_requests_chunking s @ [r]\<rparr>)"

definition append_generation_request :: "llm_request \<Rightarrow> scheduled_requests \<Rightarrow> scheduled_requests" where
  "append_generation_request r s = s\<lparr>sr_generation_requests := sr_generation_requests s @ [r]\<rparr>"

definition reset_context_requests :: "llm_request list option \<Rightarrow> scheduled_requests \<Rightarrow> scheduled_requests" where
  "reset_context_requests rs s =
     fold append_context_request (case rs of Some xs \<Rightarrow> xs | None \<Rightarrow> sr_context_requests s)
       (s\<lparr>sr_context_requests_chunking := [], sr_context_requests_last_chunk := []\<rparr>)"

lemma append_contexts:
  "fold append_context_request rs s =
     s\<lparr>sr_context_requests_chunking := sr_context_requests_chunking s @ filter (\<lambda>r. \<not> is_last_context_chunk r) rs,
       sr_context_requests_last_chunk := sr_context_requests_last_chunk s @ filter is_last_context_chunk rs\<rparr>"
  by (induction rs arbitrary: s) (auto simp: append_context_request_def)

lemma reset_contexts_Some:
  "reset_context_requests (Some rs) s =
     s\<lparr>sr_context_requests_chunking := filter (\<lambda>r. \<not> is_last_context_chunk r) rs,
       sr_context_requests_last_chunk := filter is_last_context_chunk rs\<rparr>"
  by (simp add: reset_context_requests_def append_contexts)

section \<open>The batch as a message\<close>

record serializable_output =
  ser_encoder_requests :: "int list"
  ser_context_requests_chunking :: "int list"
  ser_context_requests_last_chunk :: "int list"
  ser_generation_requests :: "int list"
  ser_paused_requests :: "int list"
  ser_fitting_disagg_gen_init_requests :: "int list"
  ser_num_fitting_requests :: int

definition from_scheduler_result ::
  "scheduled_requests \<Rightarrow> llm_request list \<Rightarrow> int \<Rightarrow> serializable_output" where
  "from_scheduler_result s dis n =
     \<lparr>ser_encoder_requests = map request_id (sr_encoder_requests s),
      ser_context_requests_chunking = map request_id (sr_context_requests_chunking s),
      ser_context_requests_last_chunk = map request_id (sr_context_requests_last_chunk s),
      ser_generation_requests = map request_id (sr_generation_requests s),
      ser_paused_requests = map request_id (sr_paused_requests s),
      ser_fitting_disagg_gen_init_requests = map request_id dis,
      ser_num_fitting_requests = n\<rparr>"

text \<open>A dictionary comprehension keeps the last request of an identifier.\<close>

definition id_to_request :: "llm_request list \<Rightarrow> int \<rightharpoonup> llm_request" where
  "id_to_request active = map_of (rev (map (\<lambda>r. (request_id r, r)) active))"

fun lookup_all :: "(int \<rightharpoonup> llm_request) \<Rightarrow> int list \<Rightarrow> llm_request list result" where
  "lookup_all d [] = Inr []"
| "lookup_all d (i # is) =
     (case d i of None \<Rightarrow> Inl KeyError | Some r \<Rightarrow> rbind (lookup_all d is) (\<lambda>rs. Inr (r # rs)))"

definition to_scheduler_result ::
  "serializable_output \<Rightarrow> llm_request list \<Rightarrow> (scheduled_requests \<times> llm_request list \<times> int) result" where
  "to_scheduler_result m active =
     (let d = id_to_request active in
      rbind (lookup_all d (ser_encoder_requests m)) (\<lambda>enc.
      rbind (lookup_all d (ser_context_requests_chunking m)) (\<lambda>chunking.
      rbind (lookup_all d (ser_context_requests_last_chunk m)) (\<lambda>last_chunk.
      rbind (lookup_all d (ser_generation_requests m)) (\<lambda>gen.
      rbind (lookup_all d (ser_paused_requests m)) (\<lambda>paused.
      rbind (lookup_all d (ser_fitting_disagg_gen_init_requests m)) (\<lambda>dis.
      Inr (\<lparr>sr_encoder_requests = enc, sr_context_requests_chunking = chunking,
            sr_context_requests_last_chunk = last_chunk, sr_generation_requests = gen,
            sr_paused_requests = paused\<rparr>, dis, ser_num_fitting_requests m))))))))"

lemma id_to_request_distinct:
  assumes "distinct (map request_id active)" "r \<in> set active"
  shows "id_to_request active (request_id r) = Some r"
  unfolding id_to_request_def using assms
  by (intro map_of_is_SomeI) (auto simp: rev_map [symmetric] distinct_map comp_def)

lemma id_to_request_Some:
  "id_to_request active i = Some r \<Longrightarrow> r \<in> set active \<and> request_id r = i"
  unfolding id_to_request_def by (auto dest: map_of_SomeD)

lemma id_to_request_dom: "i \<in> request_id ` set active \<longleftrightarrow> (\<exists>r. id_to_request active i = Some r)"
proof -
  have "dom (id_to_request active) = request_id ` set active"
    by (simp add: id_to_request_def dom_map_of_conv_image_fst image_image)
  then show ?thesis by auto
qed

lemma lookup_all_known:
  "lookup_all d is = Inr rs \<longleftrightarrow> map d is = map Some rs"
proof (induction "is" arbitrary: rs)
  case (Cons i "is")
  then show ?case by (cases rs) (auto simp: rbind_eq_Inr split: option.split)
qed auto

lemma lookup_all_error: "lookup_all d is = Inl e \<longleftrightarrow> e = KeyError \<and> (\<exists>i \<in> set is. d i = None)"
  by (induction "is") (auto simp: rbind_eq_Inl split: option.splits)

lemma lookup_ids:
  assumes "distinct (map request_id active)" "set rs \<subseteq> set active"
  shows "lookup_all (id_to_request active) (map request_id rs) = Inr rs"
  using assms id_to_request_distinct [OF assms(1)] by (simp add: lookup_all_known subset_iff)

section \<open>What a capacity policy returns\<close>

text \<open>The assumptions on the managers under which every policy returns.\<close>

definition well_managed :: "capacity_config \<Rightarrow> llm_request list \<Rightarrow> bool" where
  "well_managed cfg active \<longleftrightarrow> 0 \<le> max_num_requests cfg \<and>
     (\<forall>r \<in> set active. is_encoder_init_state r \<longrightarrow> cross_mgr cfg \<noteq> None) \<and>
     (\<forall>kv. kv_mgr cfg = Some kv \<longrightarrow> removal_frees kv) \<and> (\<forall>x. cross_mgr cfg = Some x \<longrightarrow> removal_frees x)"

lemma max_requests_sub:
  "int (length sch) \<le> max_num_requests cfg \<Longrightarrow>
   \<exists>adm. max_requests_loop cfg rs sch = sch @ adm \<and> subseq adm rs \<and>
     int (length (sch @ adm)) \<le> max_num_requests cfg"
proof (induction rs arbitrary: sch)
  case (Cons r rs)
  show ?case
  proof (cases "max_requests_loop cfg (r # rs) sch = max_requests_loop cfg rs (sch @ [r])
      \<and> int (length sch) < max_num_requests cfg")
    case True
    then obtain adm where "max_requests_loop cfg rs (sch @ [r]) = (sch @ [r]) @ adm" "subseq adm rs"
        "int (length ((sch @ [r]) @ adm)) \<le> max_num_requests cfg"
      using Cons.IH [of "sch @ [r]"] by auto
    then show ?thesis using True by (intro exI [of _ "r # adm"]) simp
  next
    case False
    then consider "max_requests_loop cfg (r # rs) sch = max_requests_loop cfg rs sch"
      | "max_requests_loop cfg (r # rs) sch = sch"
      by (auto split: if_splits)
    then show ?thesis
    proof cases
      case 1
      obtain adm where "max_requests_loop cfg rs sch = sch @ adm" "subseq adm rs"
          "int (length (sch @ adm)) \<le> max_num_requests cfg"
        using Cons.IH [OF Cons.prems] by blast
      then show ?thesis using 1 by (intro exI [of _ adm]) auto
    next
      case 2
      then show ?thesis using Cons.prems by (intro exI [of _ "[]"]) auto
    qed
  qed
qed simp

lemma mset_split_at:
  assumes "subseq xs (take k zs)" "subseq (rev ys) (drop k zs)"
  shows "mset xs + mset ys \<subseteq># mset zs"
proof -
  have "mset xs \<subseteq># mset (take k zs)" "mset ys \<subseteq># mset (drop k zs)"
    using subseq_submset [OF assms(1)] subseq_submset [OF assms(2)] by simp_all
  then have "mset xs + mset ys \<subseteq># mset (take k zs) + mset (drop k zs)" by (rule subset_mset.add_mono)
  then show ?thesis by (metis append_take_drop_id mset_append)
qed

lemma policy_schedule_sub:
  assumes "well_managed cfg active"
  shows "\<exists>s p. policy_schedule cfg active = Inr (s, p) \<and> mset s + mset p \<subseteq># mset active \<and>
     int (length s) \<le> max_num_requests cfg"
proof (cases "kv_mgr cfg")
  case None
  have "0 \<le> max_num_requests cfg" using assms by (simp add: well_managed_def)
  then obtain adm where "max_requests_loop cfg active [] = adm" "subseq adm active"
      "int (length adm) \<le> max_num_requests cfg"
    using max_requests_sub [of "[]" cfg active] by auto
  then show ?thesis
    using None by (simp add: policy_schedule_def max_requests_schedule_def subseq_submset)
next
  case (Some kv)
  have prem: "0 \<le> max_num_requests cfg" "\<forall>r \<in> set active. is_encoder_init_state r \<longrightarrow> cross_mgr cfg \<noteq> None"
      "removal_frees kv" "\<And>x. cross_mgr cfg = Some x \<Longrightarrow> removal_frees x"
    using assms Some by (auto simp: well_managed_def)
  have ne: "\<exists>s p. no_evict_schedule cfg kv sb active = Inr (s, p) \<and> mset s + mset p \<subseteq># mset active \<and>
      int (length s) \<le> max_num_requests cfg" for sb
    using no_evict_result [OF prem(1,2), of kv sb] by fastforce
  have mu: "\<exists>s p. max_utilization_schedule cfg kv active = Inr (s, p) \<and> mset s + mset p \<subseteq># mset active \<and>
      int (length s) \<le> max_num_requests cfg"
    using max_utilization_result [OF prem] mset_split_at by blast
  show ?thesis
    using Some ne mu by (cases "cap_policy cfg") (simp_all add: policy_schedule_def)
qed

text \<open>The classified lists keep every request and lose none.\<close>

lemma cap_schedule_sub:
  assumes "well_managed cfg active"
  shows "\<exists>fit dis paused. cap_schedule_request cfg active = Inr (fit, dis, paused) \<and>
     mset fit + mset dis + mset paused \<subseteq># mset active \<and> int (length fit) \<le> max_num_requests cfg \<and>
     (\<forall>r \<in> set fit. \<not> is_disagg_generation_init_state r) \<and> (\<forall>r \<in> set dis. is_disagg_generation_init_state r)"
proof -
  obtain s p where sp: "policy_schedule cfg active = Inr (s, p)" "mset s + mset p \<subseteq># mset active"
      "int (length s) \<le> max_num_requests cfg"
    using policy_schedule_sub [OF assms] by blast
  let ?fit = "filter (\<lambda>r. \<not> is_disagg_generation_init_state r) s" and ?dis = "filter is_disagg_generation_init_state s"
  have "mset ?fit + mset ?dis = mset s"
    using multiset_partition [of "mset s" is_disagg_generation_init_state] by (simp add: union_commute)
  moreover have "int (length ?fit) \<le> max_num_requests cfg"
    using sp(3) length_filter_le [of "\<lambda>r. \<not> is_disagg_generation_init_state r" s] by linarith
  ultimately show ?thesis
    using sp by (simp add: cap_schedule_request_def classify_filter)
qed

section \<open>Properties\<close>

definition message_ids :: "serializable_output \<Rightarrow> int list" where
  "message_ids m = ser_encoder_requests m @ ser_context_requests_chunking m @ ser_context_requests_last_chunk m
     @ ser_generation_requests m @ ser_paused_requests m @ ser_fitting_disagg_gen_init_requests m"

definition batch_members :: "scheduled_requests \<Rightarrow> llm_request list" where
  "batch_members s = sr_encoder_requests s @ sr_context_requests_chunking s @ sr_context_requests_last_chunk s
     @ sr_generation_requests s @ sr_paused_requests s"

lemma to_scheduler_known:
  assumes "to_scheduler_result m peer = Inr (s, dis, n)"
  shows "from_scheduler_result s dis n = m \<and> set (batch_members s @ dis) \<subseteq> set peer"
proof -
  have ids: "map request_id rs = is \<and> set rs \<subseteq> set peer" if "lookup_all (id_to_request peer) is = Inr rs" for "is" rs
  proof -
    have "map (id_to_request peer) is = map Some rs" using that by (simp add: lookup_all_known)
    then have "list_all2 (\<lambda>i r. id_to_request peer i = Some r) is rs"
      by (simp add: list_all2_conv_all_nth list_eq_iff_nth_eq)
    then show ?thesis by (induction rule: list_all2_induct) (auto dest: id_to_request_Some)
  qed
  show ?thesis
    using assms by (auto simp: to_scheduler_result_def from_scheduler_result_def batch_members_def Let_def rbind_eq_Inr
        dest!: ids)
qed

lemma lookup_missing:
  assumes "lookup_all (id_to_request peer) is = Inl e"
  shows "e = KeyError" "set is \<subseteq> request_id ` set peer \<Longrightarrow> False"
  using assms id_to_request_dom [of _ peer] by (force simp: lookup_all_error)+

lemma to_scheduler_error:
  "to_scheduler_result m peer = Inl e \<Longrightarrow> e = KeyError \<and> \<not> set (message_ids m) \<subseteq> request_id ` set peer"
  by (auto simp: to_scheduler_result_def message_ids_def Let_def rbind_eq_Inl dest: lookup_missing)

text \<open>
  C29. The schedule survives its way to the other pipeline ranks. A rank that holds requests with the
  identifiers of the message rebuilds a batch of its own requests with the same identifiers in the
  same lists and order, so that sending it on gives the same message; a rank that lacks one of them
  gets a \<open>KeyError\<close>. On the rank that made the schedule, whose identifiers are distinct, the batch
  comes back unchanged.
\<close>

theorem schedule_message_round_trip:
  shows "(set (message_ids (from_scheduler_result s dis n)) \<subseteq> request_id ` set peer \<longleftrightarrow>
     (\<exists>s' dis'. to_scheduler_result (from_scheduler_result s dis n) peer = Inr (s', dis', n) \<and>
        set (batch_members s' @ dis') \<subseteq> set peer \<and>
        from_scheduler_result s' dis' n = from_scheduler_result s dis n)) \<and>
   (\<not> set (message_ids (from_scheduler_result s dis n)) \<subseteq> request_id ` set peer \<longleftrightarrow>
     to_scheduler_result (from_scheduler_result s dis n) peer = Inl KeyError) \<and>
   (distinct (map request_id peer) \<longrightarrow> set (batch_members s @ dis) \<subseteq> set peer \<longrightarrow>
     to_scheduler_result (from_scheduler_result s dis n) peer = Inr (s, dis, n))"
    (is "?known \<and> ?missing \<and> ?own")
proof -
  let ?m = "from_scheduler_result s dis n"
  have cnt: "ser_num_fitting_requests ?m = n" by (simp add: from_scheduler_result_def)
  have ok: "\<exists>s' dis'. to_scheduler_result ?m peer = Inr (s', dis', n)"
    if "to_scheduler_result ?m peer = Inr x" for x
    using that cnt by (auto simp: to_scheduler_result_def Let_def rbind_eq_Inr)
  have sub: "set (message_ids ?m) \<subseteq> request_id ` set peer"
    if "to_scheduler_result ?m peer = Inr (s', dis', n')" for s' dis' n'
  proof -
    have "set (message_ids (from_scheduler_result s' dis' n')) = request_id ` set (batch_members s' @ dis')"
      by (auto simp: message_ids_def from_scheduler_result_def batch_members_def)
    then show ?thesis using to_scheduler_known [OF that] by auto
  qed
  have ?known
  proof (cases "to_scheduler_result ?m peer")
    case (Inl e)
    then show ?thesis using to_scheduler_error [OF Inl] by simp
  next
    case (Inr x)
    obtain s' dis' where res: "to_scheduler_result ?m peer = Inr (s', dis', n)" using ok [OF Inr] by blast
    show ?thesis using res sub [OF res] to_scheduler_known [OF res] by auto
  qed
  moreover have ?missing
    using to_scheduler_error [of ?m peer] ok sub by (cases "to_scheduler_result ?m peer") fastforce+
  moreover have ?own
    by (auto simp: to_scheduler_result_def from_scheduler_result_def batch_members_def Let_def lookup_ids)
  ultimately show ?thesis by blast
qed

theorem schedule_message_round_trip_witness:
  "to_scheduler_result (from_scheduler_result
       (sr_init\<lparr>sr_generation_requests := [demo_request 7 GENERATION_IN_PROGRESS 64],
                sr_context_requests_chunking := [demo_request 8 CONTEXT_INIT 32]\<rparr>) [] 2)
     [demo_request 8 CONTEXT_INIT 32, demo_request 7 GENERATION_IN_PROGRESS 64]
   = Inr (sr_init\<lparr>sr_generation_requests := [demo_request 7 GENERATION_IN_PROGRESS 64],
                sr_context_requests_chunking := [demo_request 8 CONTEXT_INIT 32]\<rparr>, [], 2)"
  using schedule_message_round_trip [of "sr_init\<lparr>sr_generation_requests := [demo_request 7 GENERATION_IN_PROGRESS 64],
                sr_context_requests_chunking := [demo_request 8 CONTEXT_INIT 32]\<rparr>" "[]" 2
     "[demo_request 8 CONTEXT_INIT 32, demo_request 7 GENERATION_IN_PROGRESS 64]"]
  by (simp add: batch_members_def sr_init_def)

lemma submset_length_eq:
  assumes "mset xs + mset ys + mset zs \<subseteq># mset as" "length xs = length as"
  shows "mset xs = mset as \<and> ys = [] \<and> zs = []"
proof -
  have "length xs + length ys + length zs \<le> length as"
    using size_mset_mono [OF assms(1)] by simp
  then have nil: "ys = []" "zs = []" using assms(2) by auto
  then have "mset xs \<subseteq># mset as" using assms(1) by simp
  moreover have "size (mset xs) = size (mset as)" using assms(2) by simp
  ultimately have "mset xs = mset as" by (metis mset_subset_size not_less_iff_gr_or_eq subset_mset.le_less)
  then show ?thesis using nil by simp
qed

text \<open>
  \<open>can_schedule\<close>, which a pipeline rank asks before it runs a batch that another rank scheduled,
  always answers, and answers yes exactly when its capacity scheduler takes every request that is not
  waiting for encoder output, pauses none of them and finds none that still has to receive its cache.
\<close>

theorem can_schedule_exact:
  assumes "well_managed (capacity_scheduler s) requests"
  shows "\<exists>yes. sus_can_schedule s requests = Inr yes \<and>
    (yes \<longleftrightarrow> (\<exists>fit. cap_schedule_request (capacity_scheduler s)
        (drop_decoder_context_requests_waiting_for_encoder_output requests) = Inr (fit, [], []) \<and>
      mset fit = mset (drop_decoder_context_requests_waiting_for_encoder_output requests)))"
proof -
  let ?rs = "drop_decoder_context_requests_waiting_for_encoder_output requests"
  have "set ?rs \<subseteq> set requests" by (auto simp: drop_waiting_filter)
  then have "well_managed (capacity_scheduler s) ?rs" using assms unfolding well_managed_def by blast
  then obtain fit dis paused where cap: "cap_schedule_request (capacity_scheduler s) ?rs = Inr (fit, dis, paused)"
      "mset fit + mset dis + mset paused \<subseteq># mset ?rs"
    using cap_schedule_sub by blast
  have "length fit = length ?rs \<longleftrightarrow> mset fit = mset ?rs \<and> dis = [] \<and> paused = []"
    using submset_length_eq [OF cap(2)] by (metis mset_eq_length)
  then show ?thesis using cap(1) by (auto simp: sus_can_schedule_def Let_def)
qed

definition demo_unified :: unified_scheduler where
  "demo_unified = sus_init 8 (Some 128) (Some demo_kv) None GUARANTEED_NO_EVICT
     (Some (''ContextChunkingPolicy.FORCE_CHUNK'', 32)) None False (Some 4) CONTEXT_INIT"

lemma demo_well_managed: "well_managed (capacity_scheduler demo_unified) demo_active"
  by (simp add: well_managed_def demo_unified_def sus_init_def demo_active_def demo_kv_def removal_frees_def
      is_encoder_init_state_def)

theorem can_schedule_exact_witness:
  "\<exists>yes. sus_can_schedule demo_unified demo_active = Inr yes"
  using can_schedule_exact [OF demo_well_managed] by blast

end
