(* ===== verification/ExecutorSchedule.thy ===== *)
theory ExecutorSchedule
  imports UnifiedScheduler Complex_Main
begin

text \<open>
  What \<open>PyExecutor\<close> (\<^verbatim>\<open>_torch/pyexecutor/py_executor.py\<close>) does with the answer of its scheduler:
  it may hold context requests back, to balance the ranks of attention data parallelism or to wait for
  a fuller batch, it cuts them to the free Mamba blocks, gives back the memory of what it dropped, and
  builds the batch. The counters of the executor are a record; what \<open>tp_allgather\<close> returns is an
  argument. The ratio \<open>batch_wait_max_tokens_ratio\<close> is a real number here and a float in the code.
\<close>

section \<open>Configuration and counters\<close>

record executor_config =
  enable_attention_dp :: bool
  attention_dp_enable_balance :: bool
  attention_dp_time_out_iters :: int
  attention_dp_batching_wait_iters :: int
  ex_max_batch_size :: int
  batch_wait_timeout_iters :: int
  batch_wait_max_tokens_ratio :: real
  ex_max_num_tokens :: int
  is_kv_manager_v2 :: bool

definition enable_batch_waiting :: "executor_config \<Rightarrow> bool" where
  "enable_batch_waiting cfg = (batch_wait_timeout_iters cfg > 0 \<or> batch_wait_max_tokens_ratio cfg > 0)"

record wait_counters =
  adp_ctx_waiting_iters_count :: int
  adp_ctx_batching_wait_iters_count :: int
  batch_wait_iters_count :: int

definition wait_init :: wait_counters where
  "wait_init = \<lparr>adp_ctx_waiting_iters_count = 0, adp_ctx_batching_wait_iters_count = 0, batch_wait_iters_count = 0\<rparr>"

section \<open>Holding context requests back\<close>

type_synonym rank_counts = "int \<times> int \<times> int"

definition balance_adp_requests ::
  "executor_config \<Rightarrow> (rank_counts \<Rightarrow> rank_counts list) \<Rightarrow> llm_request list \<Rightarrow> llm_request list \<Rightarrow> wait_counters
     \<Rightarrow> wait_counters \<times> llm_request list" where
  "balance_adp_requests cfg tp_allgather ctx gen st =
     (let num_ctx = int (length ctx); num_gen = int (length gen);
          responses = tp_allgather (num_ctx, num_gen, sum_list (map num_tokens0 ctx) + num_gen);
          free_ctx_slots = list_all (\<lambda>(c, g, t). g < ex_max_batch_size cfg) responses;
          have_ctx = list_all (\<lambda>(c, g, t). c > 0) responses;
          have_gen = list_all (\<lambda>(c, g, t). g > 0) responses
      in if attention_dp_enable_balance cfg
         then
           if free_ctx_slots \<and> have_ctx
           then
             let st1 = st\<lparr>adp_ctx_waiting_iters_count := 0\<rparr> in
             if have_gen
             then if adp_ctx_batching_wait_iters_count st1 < attention_dp_batching_wait_iters cfg
                  then (st1\<lparr>adp_ctx_batching_wait_iters_count := adp_ctx_batching_wait_iters_count st1 + 1\<rparr>, [])
                  else (st1\<lparr>adp_ctx_batching_wait_iters_count := 0\<rparr>, ctx)
             else (st1, ctx)
           else
             let st1 = st\<lparr>adp_ctx_waiting_iters_count := adp_ctx_waiting_iters_count st + 1\<rparr>;
                 timeout_reached = (adp_ctx_waiting_iters_count st1 \<ge> attention_dp_time_out_iters cfg)
             in if timeout_reached \<or> \<not> have_gen
                then (st1\<lparr>adp_ctx_waiting_iters_count := 0\<rparr>, ctx)
                else (st1, [])
         else (st, ctx))"

definition ctx_compute_tokens :: "llm_request \<Rightarrow> int" where
  "ctx_compute_tokens r =
     (let reusable = (if is_first_context_chunk r then estimated_reusable_tokens r else 0);
          reusable_in_chunk = max 0 (reusable - context_position r);
          remaining = context_remaining_length r
      in if reusable_in_chunk \<le> 0 then chunk_size r
         else if reusable_in_chunk + chunk_size r < remaining then chunk_size r
         else max 1 (remaining - reusable_in_chunk))"

definition compute_scheduled_tokens :: "llm_request list \<Rightarrow> llm_request list \<Rightarrow> int" where
  "compute_scheduled_tokens ctx gen =
     fold (\<lambda>r n. n + ctx_compute_tokens r) ctx 0 + sum_list (map (\<lambda>r. 1 + num_draft_tokens r) gen)"

definition waiting_requests ::
  "executor_config \<Rightarrow> llm_request list \<Rightarrow> llm_request list \<Rightarrow> wait_counters \<Rightarrow> wait_counters \<times> llm_request list" where
  "waiting_requests cfg ctx gen st =
     (let num_scheduled_tokens = compute_scheduled_tokens ctx gen;
          should_waiting = (batch_wait_iters_count st < batch_wait_timeout_iters cfg \<and>
            of_int num_scheduled_tokens < batch_wait_max_tokens_ratio cfg * of_int (ex_max_num_tokens cfg))
      in if should_waiting
         then (st\<lparr>batch_wait_iters_count := batch_wait_iters_count st + 1\<rparr>, [])
         else (st\<lparr>batch_wait_iters_count := 0\<rparr>, ctx))"

section \<open>Free blocks of the Mamba cache\<close>

text \<open>
  \<open>MixedMambaHybridCacheManager.filter_ctx_requests_by_capacity\<close>: the C++ implementation takes all
  requests, the Python one those that have a block or find a free one, up to the first that does not.
\<close>

record mamba_manager =
  mm_use_cpp :: bool
  mamba_cache_free_blocks :: "int list"
  mamba_cache_index :: "int list"

fun mamba_filter_loop :: "int list \<Rightarrow> int \<Rightarrow> llm_request list \<Rightarrow> llm_request list \<Rightarrow> llm_request list" where
  "mamba_filter_loop index free [] res = res"
| "mamba_filter_loop index free (r # rs) res =
     (if request_id r \<in> set index then mamba_filter_loop index free rs (res @ [r])
      else if free > 0 then mamba_filter_loop index (free - 1) rs (res @ [r])
      else res)"

definition filter_ctx_requests_by_capacity :: "mamba_manager \<Rightarrow> llm_request list \<Rightarrow> llm_request list" where
  "filter_ctx_requests_by_capacity m ctx =
     (if mm_use_cpp m then ctx
      else mamba_filter_loop (mamba_cache_index m) (int (length (mamba_cache_free_blocks m))) ctx [])"

section \<open>Building the batch\<close>

text \<open>
  \<open>_schedule\<close>. \<open>mamba\<close> is the manager when it is a \<open>MixedMambaHybridCacheManager\<close> and there is a cache
  transceiver. Next to the result stand the requests whose allocation \<open>_revert_ctx_alloc\<close> takes back.
\<close>

definition executor_schedule ::
  "executor_config \<Rightarrow> (llm_request list \<Rightarrow> int list \<Rightarrow> scheduler_output result) \<Rightarrow> (rank_counts \<Rightarrow> rank_counts list)
     \<Rightarrow> mamba_manager option \<Rightarrow> llm_request list \<Rightarrow> int list \<Rightarrow> wait_counters
     \<Rightarrow> (wait_counters \<times> llm_request list \<times> scheduled_requests \<times> llm_request list \<times> int) result" where
  "executor_schedule cfg schedule_request tp_allgather mamba active inflight st =
     rbind (schedule_request active inflight) (\<lambda>out.
       let ctx0 = so_context_requests out; gen = so_generation_requests out;
           (st1, ctx1) = (if enable_attention_dp cfg \<and> attention_dp_enable_balance cfg
                          then balance_adp_requests cfg tp_allgather ctx0 gen st else (st, ctx0));
           (st2, ctx2) = (if \<not> enable_attention_dp cfg \<and> enable_batch_waiting cfg
                             \<and> length ctx0 > 0 \<and> length gen > 0
                          then waiting_requests cfg ctx0 gen st1 else (st1, ctx1));
           (ctx3, num_fitting) =
             (case mamba of
                None \<Rightarrow> (ctx2, so_num_fitting_requests out)
              | Some m \<Rightarrow>
                  if length ctx2 > 0
                  then let c = filter_ctx_requests_by_capacity m ctx2 in (c, int (length c))
                  else (ctx2, so_num_fitting_requests out));
           dropped = (if is_kv_manager_v2 cfg \<and> length ctx3 < length ctx0
                      then filter (\<lambda>r. request_id r \<notin> request_id ` set ctx3) ctx0 else []);
           s = (reset_context_requests (Some ctx3) (sr_init\<lparr>sr_encoder_requests := so_encoder_requests out\<rparr>))
                 \<lparr>sr_generation_requests := gen, sr_paused_requests := so_paused_requests out\<rparr>
       in Inr (st2, dropped, s, so_fitting_disagg_gen_init_requests out, num_fitting))"

section \<open>Running a batch of the first pipeline rank\<close>

text \<open>
  \<open>_pp_retry_until_can_schedule\<close>: \<open>can\<close> asks the local scheduler, \<open>release\<close> waits for at least one
  cache transmission and frees its request; both work on the state \<open>e\<close> of the local memory.
\<close>

fun pp_retry_loop :: "('e \<Rightarrow> bool result) \<Rightarrow> ('e \<Rightarrow> 'e) \<Rightarrow> nat \<Rightarrow> 'e \<Rightarrow> 'e result" where
  "pp_retry_loop can release 0 e = Inl RuntimeError"
| "pp_retry_loop can release (Suc n) e =
     rbind (can e) (\<lambda>ok. if ok then Inr e else pp_retry_loop can release n (release e))"

definition pp_retry_until_can_schedule ::
  "('e \<Rightarrow> bool result) \<Rightarrow> ('e \<Rightarrow> 'e) \<Rightarrow> bool \<Rightarrow> bool \<Rightarrow> bool \<Rightarrow> bool \<Rightarrow> nat \<Rightarrow> 'e \<Rightarrow> 'e result" where
  "pp_retry_until_can_schedule can release transceiver inflight reuse termination_handler max_retry e =
     rbind (can e) (\<lambda>ok.
       if ok then Inr e
       else if \<not> transceiver then Inl RuntimeError
       else if \<not> inflight then Inl RuntimeError
       else if reuse \<and> termination_handler then Inl RuntimeError
       else pp_retry_loop can release max_retry e)"

section \<open>Nobody waits forever\<close>

text \<open>The context requests that a sequence of calls lets through, one entry per call.\<close>

primrec wait_run :: "executor_config \<Rightarrow> (llm_request list \<times> llm_request list) list \<Rightarrow> wait_counters \<Rightarrow> llm_request list list" where
  "wait_run cfg [] st = []"
| "wait_run cfg (c # cs) st =
     (case waiting_requests cfg (fst c) (snd c) st of (st', out) \<Rightarrow> out # wait_run cfg cs st')"

lemma waiting_step:
  "waiting_requests cfg ctx gen st = (st', out) \<Longrightarrow>
     out = ctx \<or> batch_wait_iters_count st' = batch_wait_iters_count st + 1
       \<and> batch_wait_iters_count st < batch_wait_timeout_iters cfg"
  by (auto simp: waiting_requests_def Let_def split: if_splits)

lemma wait_run_release:
  assumes "nat (batch_wait_timeout_iters cfg - batch_wait_iters_count st) < length calls"
  shows "\<exists>k \<le> nat (batch_wait_timeout_iters cfg - batch_wait_iters_count st).
     wait_run cfg calls st ! k = fst (calls ! k)"
  using assms
proof (induction calls arbitrary: st)
  case (Cons c cs)
  obtain st' out where w: "waiting_requests cfg (fst c) (snd c) st = (st', out)" by fastforce
  show ?case
  proof (cases "out = fst c")
    case True
    then show ?thesis using w by (intro exI [of _ 0]) simp
  next
    case False
    then have st': "batch_wait_iters_count st' = batch_wait_iters_count st + 1"
        "batch_wait_iters_count st < batch_wait_timeout_iters cfg"
      using waiting_step [OF w] by auto
    then have "nat (batch_wait_timeout_iters cfg - batch_wait_iters_count st') < length cs" using Cons.prems by simp
    then obtain k where "k \<le> nat (batch_wait_timeout_iters cfg - batch_wait_iters_count st')"
        "wait_run cfg cs st' ! k = fst (cs ! k)"
      using Cons.IH by blast
    then show ?thesis using w st' by (intro exI [of _ "Suc k"]) auto
  qed
qed simp

primrec adp_run ::
  "executor_config \<Rightarrow> ((rank_counts \<Rightarrow> rank_counts list) \<times> llm_request list \<times> llm_request list) list \<Rightarrow> wait_counters
     \<Rightarrow> llm_request list list" where
  "adp_run cfg [] st = []"
| "adp_run cfg (c # cs) st =
     (case c of (gather, ctx, gen) \<Rightarrow>
        case balance_adp_requests cfg gather ctx gen st of (st', out) \<Rightarrow> out # adp_run cfg cs st')"

abbreviation adp_timeout :: "executor_config \<Rightarrow> int" where
  "adp_timeout cfg \<equiv> max 1 (attention_dp_time_out_iters cfg)"

definition adp_inv :: "executor_config \<Rightarrow> wait_counters \<Rightarrow> bool" where
  "adp_inv cfg st \<longleftrightarrow> 0 \<le> adp_ctx_batching_wait_iters_count st \<and>
     adp_ctx_batching_wait_iters_count st \<le> attention_dp_batching_wait_iters cfg \<and>
     0 \<le> adp_ctx_waiting_iters_count st \<and> adp_ctx_waiting_iters_count st < adp_timeout cfg"

text \<open>Held back calls left before requests are let through.\<close>

definition adp_measure :: "executor_config \<Rightarrow> wait_counters \<Rightarrow> nat" where
  "adp_measure cfg st =
     nat ((attention_dp_batching_wait_iters cfg - adp_ctx_batching_wait_iters_count st) * adp_timeout cfg
        + (adp_timeout cfg - 1 - adp_ctx_waiting_iters_count st))"

lemma adp_measure_batching:
  fixes B b T w :: int
  assumes "b < B" "0 \<le> w" "w < T"
  shows "nat ((B - (b + 1)) * T + (T - 1 - 0)) < nat ((B - b) * T + (T - 1 - w))"
proof -
  have "0 < (B - b) * T" using assms by (simp add: mult_pos_pos)
  moreover have "(B - (b + 1)) * T + (T - 1 - 0) = (B - b) * T - 1" by (simp add: algebra_simps)
  ultimately show ?thesis using assms by linarith
qed

lemma adp_measure_waiting:
  fixes B b T w :: int
  assumes "b \<le> B" "w + 1 < T" "0 \<le> w"
  shows "nat ((B - b) * T + (T - 1 - (w + 1))) < nat ((B - b) * T + (T - 1 - w))"
proof -
  have "0 \<le> (B - b) * T" using assms by simp
  then show ?thesis using assms by linarith
qed

lemma adp_step:
  assumes "balance_adp_requests cfg gather ctx gen st = (st', out)" "adp_inv cfg st" "out \<noteq> ctx"
  shows "adp_inv cfg st' \<and> adp_measure cfg st' < adp_measure cfg st"
proof -
  consider (batching) "adp_ctx_batching_wait_iters_count st < attention_dp_batching_wait_iters cfg"
      "st' = st\<lparr>adp_ctx_waiting_iters_count := 0,
             adp_ctx_batching_wait_iters_count := adp_ctx_batching_wait_iters_count st + 1\<rparr>"
    | (waiting) "adp_ctx_waiting_iters_count st + 1 < attention_dp_time_out_iters cfg"
      "st' = st\<lparr>adp_ctx_waiting_iters_count := adp_ctx_waiting_iters_count st + 1\<rparr>"
    using assms(1,3) by (auto simp: balance_adp_requests_def Let_def split: if_splits)
  then show ?thesis
  proof cases
    case batching
    then show ?thesis
      using assms(2) adp_measure_batching [of "adp_ctx_batching_wait_iters_count st"
          "attention_dp_batching_wait_iters cfg" "adp_ctx_waiting_iters_count st" "adp_timeout cfg"]
      by (simp add: adp_inv_def adp_measure_def)
  next
    case waiting
    then show ?thesis
      using assms(2) adp_measure_waiting [of "adp_ctx_batching_wait_iters_count st"
          "attention_dp_batching_wait_iters cfg" "adp_ctx_waiting_iters_count st" "adp_timeout cfg"]
      by (simp add: adp_inv_def adp_measure_def)
  qed
qed

lemma adp_run_release:
  assumes "adp_measure cfg st < length calls" "adp_inv cfg st"
  shows "\<exists>k \<le> adp_measure cfg st. adp_run cfg calls st ! k = fst (snd (calls ! k))"
  using assms
proof (induction calls arbitrary: st)
  case (Cons c cs)
  obtain gather ctx gen where c: "c = (gather, ctx, gen)" by (cases c) auto
  obtain st' out where w: "balance_adp_requests cfg gather ctx gen st = (st', out)" by fastforce
  show ?case
  proof (cases "out = ctx")
    case True
    then show ?thesis using w c by (intro exI [of _ 0]) simp
  next
    case False
    note step = adp_step [OF w Cons.prems(2) False]
    then have "adp_measure cfg st' < length cs" using Cons.prems(1) by simp
    then obtain k where "k \<le> adp_measure cfg st'" "adp_run cfg cs st' ! k = fst (snd (cs ! k))"
      using Cons.IH step by blast
    then show ?thesis using w c step by (intro exI [of _ "Suc k"]) auto
  qed
qed simp

lemma adp_measure_bound:
  assumes "adp_inv cfg st"
  shows "adp_measure cfg st < nat ((attention_dp_batching_wait_iters cfg + 1) * adp_timeout cfg)"
proof -
  let ?b = "adp_ctx_batching_wait_iters_count st" and ?B = "attention_dp_batching_wait_iters cfg"
    and ?w = "adp_ctx_waiting_iters_count st" and ?T = "adp_timeout cfg"
  have inv: "0 \<le> ?b" "?b \<le> ?B" "0 \<le> ?w" "?w < ?T" using assms by (simp_all add: adp_inv_def)
  have "0 \<le> ?b * ?T" "0 \<le> ?B * ?T" using inv by simp_all
  moreover have "(?B - ?b) * ?T + (?T - 1 - ?w) = ?B * ?T - ?b * ?T + (?T - 1 - ?w)"
      "(?B + 1) * ?T = ?B * ?T + ?T"
    by (simp_all add: algebra_simps)
  ultimately show ?thesis using inv unfolding adp_measure_def by linarith
qed

text \<open>The counters stay in their range whatever the ranks report.\<close>

primrec adp_final ::
  "executor_config \<Rightarrow> ((rank_counts \<Rightarrow> rank_counts list) \<times> llm_request list \<times> llm_request list) list \<Rightarrow> wait_counters
     \<Rightarrow> wait_counters" where
  "adp_final cfg [] st = st"
| "adp_final cfg (c # cs) st =
     (case c of (gather, ctx, gen) \<Rightarrow> adp_final cfg cs (fst (balance_adp_requests cfg gather ctx gen st)))"

lemma adp_step_inv:
  "adp_inv cfg st \<Longrightarrow> adp_inv cfg (fst (balance_adp_requests cfg gather ctx gen st))"
  by (auto simp: balance_adp_requests_def adp_inv_def Let_def)

lemma adp_final_inv: "adp_inv cfg st \<Longrightarrow> adp_inv cfg (adp_final cfg cs st)"
  by (induction cs arbitrary: st) (auto simp: adp_step_inv)

lemma adp_run_append: "adp_run cfg (cs @ ds) st = adp_run cfg cs st @ adp_run cfg ds (adp_final cfg cs st)"
  by (induction cs arbitrary: st) (auto split: prod.splits)

lemma adp_run_length: "length (adp_run cfg cs st) = length cs"
  by (induction cs arbitrary: st) (auto split: prod.splits)

section \<open>What is kept of the batch\<close>

lemma mamba_filter_prefix: "\<exists>k. mamba_filter_loop index free rs res = res @ take k rs"
proof (induction rs arbitrary: free res)
  case (Cons r rs)
  have "\<exists>k. mamba_filter_loop index f rs (res @ [r]) = res @ take k (r # rs)" for f
    using Cons.IH [of f "res @ [r]"] by (metis append.assoc append_Cons append_Nil take_Suc_Cons)
  then show ?case using take_0 by (metis append_Nil2 mamba_filter_loop.simps(2))
qed simp

lemma take_whole: "\<exists>k. xs = take k xs"
  by (rule exI [of _ "length xs"]) simp

lemma filter_ctx_prefix: "\<exists>k. filter_ctx_requests_by_capacity m ctx = take k ctx"
  using mamba_filter_prefix [of "mamba_cache_index m" _ ctx "[]"] take_whole [of ctx]
  by (simp add: filter_ctx_requests_by_capacity_def)

lemma balance_all_or_none: "snd (balance_adp_requests cfg gather ctx gen st) \<in> {ctx, []}"
  by (auto simp: balance_adp_requests_def Let_def)

lemma waiting_all_or_none: "snd (waiting_requests cfg ctx gen st) \<in> {ctx, []}"
  by (auto simp: waiting_requests_def Let_def)

lemma dropped_suffix:
  assumes "distinct (map request_id ctx)"
  shows "filter (\<lambda>r. request_id r \<notin> request_id ` set (take k ctx)) ctx = drop k ctx"
proof -
  have ids: "distinct (map request_id (take k ctx) @ map request_id (drop k ctx))"
    using assms by (metis append_take_drop_id map_append)
  then have "filter (\<lambda>r. request_id r \<notin> request_id ` set (take k ctx)) (drop k ctx) = drop k ctx"
    by (intro filter_True) auto
  moreover have "filter (\<lambda>r. request_id r \<notin> request_id ` set (take k ctx)) (take k ctx) = []"
    by (simp add: filter_empty_conv)
  ultimately show ?thesis by (metis append_Nil filter_take_drop)
qed

section \<open>Properties\<close>

text \<open>
  C35. Waiting for a fuller batch ends: of any \<open>batch_wait_timeout_iters + 1\<close> successive calls one lets its
  context requests through, whatever is scheduled meanwhile; and a call that holds them back has fewer
  tokens than \<open>batch_wait_max_tokens_ratio * max_num_tokens\<close>.
\<close>

theorem batch_wait_released:
  assumes "0 \<le> batch_wait_iters_count st" "0 \<le> batch_wait_timeout_iters cfg"
    and "nat (batch_wait_timeout_iters cfg) < length calls"
  shows "(\<exists>k \<le> nat (batch_wait_timeout_iters cfg). wait_run cfg calls st ! k = fst (calls ! k)) \<and>
     (\<forall>ctx gen. snd (waiting_requests cfg ctx gen st) = ctx \<or>
        of_int (compute_scheduled_tokens ctx gen) < batch_wait_max_tokens_ratio cfg * of_int (ex_max_num_tokens cfg))"
proof
  have le: "nat (batch_wait_timeout_iters cfg - batch_wait_iters_count st) \<le> nat (batch_wait_timeout_iters cfg)"
    using assms(1) by simp
  then have "nat (batch_wait_timeout_iters cfg - batch_wait_iters_count st) < length calls"
    using assms(3) by (rule le_less_trans)
  then show "\<exists>k \<le> nat (batch_wait_timeout_iters cfg). wait_run cfg calls st ! k = fst (calls ! k)"
    using wait_run_release le le_trans by blast
qed (auto simp: waiting_requests_def Let_def)

definition demo_executor :: executor_config where
  "demo_executor = \<lparr>enable_attention_dp = False, attention_dp_enable_balance = True, attention_dp_time_out_iters = 2,
     attention_dp_batching_wait_iters = 1, ex_max_batch_size = 8, batch_wait_timeout_iters = 2,
     batch_wait_max_tokens_ratio = 1, ex_max_num_tokens = 512, is_kv_manager_v2 = True\<rparr>"

abbreviation demo_call :: "llm_request list \<times> llm_request list" where
  "demo_call \<equiv> ([demo_request 1 CONTEXT_INIT 32], [demo_request 2 GENERATION_IN_PROGRESS 64])"

theorem batch_wait_released_witness:
  "\<exists>k \<le> 2. wait_run demo_executor [demo_call, demo_call, demo_call] wait_init ! k = [demo_request 1 CONTEXT_INIT 32]"
proof -
  obtain k where k: "k \<le> 2"
      "wait_run demo_executor [demo_call, demo_call, demo_call] wait_init ! k = fst ([demo_call, demo_call, demo_call] ! k)"
    using batch_wait_released [of wait_init demo_executor "[demo_call, demo_call, demo_call]"]
    by (auto simp: wait_init_def demo_executor_def)
  moreover from k(1) have "k = 0 \<or> k = 1 \<or> k = 2" by linarith
  then have "fst ([demo_call, demo_call, demo_call] ! k) = [demo_request 1 CONTEXT_INIT 32]" by auto
  ultimately show ?thesis by auto
qed

text \<open>
  C19. Balancing the ranks of attention data parallelism starves nobody: after any history, whatever the
  other ranks report, one of the next \<open>(batching_wait_iters + 1) * max 1 timeout_iters\<close> calls lets its
  context requests through. The bound is a product, because a call on which all ranks are ready resets
  the timeout.
\<close>

theorem adp_balance_released:
  assumes "0 \<le> attention_dp_batching_wait_iters cfg"
    and "nat ((attention_dp_batching_wait_iters cfg + 1) * max 1 (attention_dp_time_out_iters cfg)) \<le> length calls"
  shows "\<exists>k < nat ((attention_dp_batching_wait_iters cfg + 1) * max 1 (attention_dp_time_out_iters cfg)).
     adp_run cfg (history @ calls) wait_init ! (length history + k) = fst (snd (calls ! k))"
proof -
  let ?st = "adp_final cfg history wait_init"
  have "adp_inv cfg wait_init" using assms(1) by (simp add: adp_inv_def wait_init_def)
  then have inv: "adp_inv cfg ?st" by (rule adp_final_inv)
  note bound = adp_measure_bound [OF inv]
  then obtain k where "k \<le> adp_measure cfg ?st" "adp_run cfg calls ?st ! k = fst (snd (calls ! k))"
    using adp_run_release [OF _ inv, of calls] assms(2) by auto
  then show ?thesis
    using bound by (intro exI [of _ k]) (simp add: adp_run_append nth_append adp_run_length)
qed

theorem adp_balance_released_witness:
  "\<exists>k < 4. adp_run demo_executor (replicate 4 ((\<lambda>own. [own, (0, 1, 1)]), demo_call)) wait_init ! k
     = [demo_request 1 CONTEXT_INIT 32]"
  using adp_balance_released [of demo_executor "replicate 4 ((\<lambda>own. [own, (0, 1, 1)]), demo_call)" "[]"]
  by (auto simp: demo_executor_def)

text \<open>
  \<open>_schedule\<close> loses and invents nothing: the context requests of the batch are a prefix of those
  the scheduler chose, split into those on their last chunk and the others; with the second cache
  manager the allocation of exactly the remaining ones is taken back; encoder, generation, paused and
  disaggregated requests are passed on unchanged.
\<close>

theorem executor_schedule_split:
  assumes "schedule_request active inflight = Inr out" "distinct (map request_id (so_context_requests out))"
  shows "\<exists>st' s n k. executor_schedule cfg schedule_request gather mamba active inflight st =
       Inr (st', if is_kv_manager_v2 cfg then drop k (so_context_requests out) else [], s,
            so_fitting_disagg_gen_init_requests out, n) \<and>
     sr_context_requests_chunking s = filter (\<lambda>r. \<not> is_last_context_chunk r) (take k (so_context_requests out)) \<and>
     sr_context_requests_last_chunk s = filter is_last_context_chunk (take k (so_context_requests out)) \<and>
     sr_encoder_requests s = so_encoder_requests out \<and> sr_generation_requests s = so_generation_requests out \<and>
     sr_paused_requests s = so_paused_requests out"
proof -
  let ?ctx = "so_context_requests out" and ?gen = "so_generation_requests out"
  obtain st1 c1 where 1: "(if enable_attention_dp cfg \<and> attention_dp_enable_balance cfg
      then balance_adp_requests cfg gather ?ctx ?gen st else (st, ?ctx)) = (st1, c1)" by fastforce
  obtain st2 c2 where 2: "(if \<not> enable_attention_dp cfg \<and> enable_batch_waiting cfg \<and> length ?ctx > 0 \<and> length ?gen > 0
      then waiting_requests cfg ?ctx ?gen st1 else (st1, c1)) = (st2, c2)" by fastforce
  obtain c3 n where 3: "(case mamba of None \<Rightarrow> (c2, so_num_fitting_requests out)
      | Some m \<Rightarrow> if length c2 > 0 then let c = filter_ctx_requests_by_capacity m c2 in (c, int (length c))
                  else (c2, so_num_fitting_requests out)) = (c3, n)" by fastforce
  have "c1 \<in> {?ctx, []}" using 1 balance_all_or_none [of cfg gather ?ctx ?gen st] by (auto split: if_splits)
  then have "c2 \<in> {?ctx, []}" using 2 waiting_all_or_none [of cfg ?ctx ?gen st1] by (auto split: if_splits)
  moreover have "\<exists>k. c3 = take k c2"
    using 3 filter_ctx_prefix [of _ c2] take_whole [of c2] by (simp add: Let_def split: option.splits if_splits) blast+
  ultimately obtain k where k: "c3 = take k ?ctx" using take_0 take_Nil by (metis insertE singletonD)
  have "length c3 < length ?ctx \<or> drop k ?ctx = []" using k by auto
  then have drop: "(if is_kv_manager_v2 cfg \<and> length c3 < length ?ctx
      then filter (\<lambda>r. request_id r \<notin> request_id ` set c3) ?ctx else []) = (if is_kv_manager_v2 cfg then drop k ?ctx else [])"
    using dropped_suffix [OF assms(2), of k] k by auto
  let ?s = "(reset_context_requests (Some c3) (sr_init\<lparr>sr_encoder_requests := so_encoder_requests out\<rparr>))
      \<lparr>sr_generation_requests := ?gen, sr_paused_requests := so_paused_requests out\<rparr>"
  have "executor_schedule cfg schedule_request gather mamba active inflight st =
      Inr (st2, if is_kv_manager_v2 cfg then drop k ?ctx else [], ?s, so_fitting_disagg_gen_init_requests out, n)"
    using drop by (simp add: executor_schedule_def assms(1) Let_def [of ?ctx] Let_def [of ?gen] 1 2 3
        del: length_greater_0_conv)
  then show ?thesis
    using k by (intro exI [of _ st2] exI [of _ ?s] exI [of _ n] exI [of _ k]) (simp add: reset_contexts_Some)
qed

definition demo_schedule :: "llm_request list \<Rightarrow> int list \<Rightarrow> scheduler_output result" where
  "demo_schedule active inflight = Inr
     \<lparr>so_encoder_requests = [], so_context_requests = filter is_context_init_state active,
      so_generation_requests = filter is_generation_in_progress_state active, so_paused_requests = [],
      so_fitting_disagg_gen_init_requests = [], so_num_fitting_requests = int (length active)\<rparr>"

theorem executor_schedule_split_witness:
  "\<exists>st' s n k. executor_schedule demo_executor demo_schedule (\<lambda>own. [own]) None
       [demo_request 1 CONTEXT_INIT 32, demo_request 2 CONTEXT_INIT 64] [] wait_init =
       Inr (st', drop k [demo_request 1 CONTEXT_INIT 32, demo_request 2 CONTEXT_INIT 64], s, [], n)"
proof -
  let ?active = "[demo_request 1 CONTEXT_INIT 32, demo_request 2 CONTEXT_INIT 64]"
  let ?out = "\<lparr>so_encoder_requests = [], so_context_requests = ?active,
      so_generation_requests = [], so_paused_requests = [],
      so_fitting_disagg_gen_init_requests = [], so_num_fitting_requests = 2\<rparr>"
  have "demo_schedule ?active [] = Inr ?out"
    by (simp add: demo_schedule_def is_context_init_state_def is_generation_in_progress_state_def)
  moreover have "distinct (map request_id (so_context_requests ?out))" by simp
  ultimately show ?thesis
    using executor_schedule_split [of demo_schedule ?active "[]" ?out demo_executor "\<lambda>own. [own]" None wait_init]
    by (simp add: demo_executor_def) metis
qed

text \<open>
  \<open>_pp_retry_until_can_schedule\<close> returns only when the rank can run the batch, and raises
  \<open>RuntimeError\<close> otherwise. It succeeds exactly when the rank can at once, or when waiting is allowed and
  one of the states before the last release suffices: the effect of the last of the allowed releases is
  never looked at.
\<close>

theorem pp_retry_exact:
  assumes "\<And>e. can e = Inr (p e)"
  shows "((\<exists>e'. pp_retry_until_can_schedule can release transceiver inflight reuse handler max_retry e = Inr e') \<longleftrightarrow>
     p e \<or> transceiver \<and> inflight \<and> \<not> (reuse \<and> handler) \<and> (\<exists>k < max_retry. p ((release ^^ k) e))) \<and>
   (\<forall>e'. pp_retry_until_can_schedule can release transceiver inflight reuse handler max_retry e = Inr e' \<longrightarrow> p e') \<and>
   (\<forall>x. pp_retry_until_can_schedule can release transceiver inflight reuse handler max_retry e = Inl x \<longrightarrow> x = RuntimeError)"
proof -
  have iter: "(\<exists>e'. pp_retry_loop can release n e = Inr e') \<longleftrightarrow> (\<exists>k < n. p ((release ^^ k) e))" for n e
  proof (induction n arbitrary: e)
    case (Suc n)
    have "(\<exists>k < Suc n. p ((release ^^ k) e)) \<longleftrightarrow> p e \<or> (\<exists>k < n. p ((release ^^ k) (release e)))"
      by (auto simp: less_Suc_eq_0_disj funpow_swap1)
    then show ?case using Suc.IH [of "release e"] assms by auto
  qed simp
  have good: "pp_retry_loop can release n e = Inr e' \<Longrightarrow> p e'" for n e e'
    by (induction n arbitrary: e) (auto simp: assms split: if_splits)
  have bad: "pp_retry_loop can release n e = Inl x \<Longrightarrow> x = RuntimeError" for n e x
    by (induction n arbitrary: e) (auto simp: assms split: if_splits)
  show ?thesis
    using iter good bad by (auto simp: pp_retry_until_can_schedule_def assms)
qed

theorem pp_retry_exact_witness:
  "pp_retry_until_can_schedule (\<lambda>e. Inr (e \<ge> (3::int))) (\<lambda>e. e + 1) True True False False 1 2 = Inl RuntimeError"
  using pp_retry_exact [of "\<lambda>e. Inr (e \<ge> (3::int))" "\<lambda>e. e \<ge> 3" "\<lambda>e. e + 1" True True False False 1 2]
  by (cases "pp_retry_until_can_schedule (\<lambda>e. Inr (e \<ge> (3::int))) (\<lambda>e. e + 1) True True False False 1 2") auto

end
