(* ===== verification/Eviction.thy ===== *)
theory Eviction
  imports Prelude "HOL-Library.Multiset"
begin

text \<open>
  The eviction controller of a cache level, \<^verbatim>\<open>kv_cache_manager_v2/_eviction_controller/_eviction_controller.py\<close>:
  per pool group a queue of evictable pages for every priority, in the order of the priorities. A page
  carries a reference \<open>node_ref\<close> to its node while it is queued; a page is pushed at most once, so the
  node is the page and the state keeps the set of the pages that have a reference.
\<close>

section \<open>Pages and queues\<close>

record evictable_page =
  page_id :: int
  priority :: int
  page_life_cycle :: nat
  cache_level :: nat

type_synonym lru_policy = "evictable_page list"

definition lru_push :: "int set \<Rightarrow> evictable_page \<Rightarrow> bool \<Rightarrow> lru_policy \<Rightarrow> lru_policy result" where
  "lru_push refs page evict_first q =
     py_assert (page_id page \<notin> refs) (Inr (if evict_first then page # q else q @ [page]))"

definition lru_remove :: "int set \<Rightarrow> evictable_page \<Rightarrow> lru_policy \<Rightarrow> lru_policy result" where
  "lru_remove refs page q =
     py_assert (page_id page \<in> refs) (if page \<in> set q then Inr (remove1 page q) else Inl ValueError)"

definition lru_pop :: "int set \<Rightarrow> lru_policy \<Rightarrow> (evictable_page \<times> lru_policy) result" where
  "lru_pop refs q =
     (case q of
        [] \<Rightarrow> Inl AssertionError
      | victim # _ \<Rightarrow> rbind (lru_remove refs victim q) (\<lambda>q'. Inr (victim, q')))"

section \<open>Queues by priority\<close>

text \<open>The dictionary \<open>_policies\<close>, in its order.\<close>

type_synonym prio_policy = "(int \<times> lru_policy) list"

definition prio_len :: "prio_policy \<Rightarrow> nat" where
  "prio_len ps = sum_list (map (\<lambda>(k, q). length q) ps)"

definition prio_pages :: "prio_policy \<Rightarrow> evictable_page list" where
  "prio_pages ps = concat (map snd ps)"

definition get_policy :: "int \<Rightarrow> prio_policy \<Rightarrow> prio_policy" where
  "get_policy k ps = (if map_of ps k = None then sort_key fst (ps @ [(k, [])]) else ps)"

definition set_policy :: "int \<Rightarrow> lru_policy \<Rightarrow> prio_policy \<Rightarrow> prio_policy" where
  "set_policy k q ps = map (\<lambda>(k', q'). (k', if k' = k then q else q')) ps"

definition prio_push :: "int set \<Rightarrow> evictable_page \<Rightarrow> bool \<Rightarrow> prio_policy \<Rightarrow> prio_policy result" where
  "prio_push refs page evict_first ps =
     (let ps' = get_policy (priority page) ps in
      case map_of ps' (priority page) of
        None \<Rightarrow> Inl KeyError
      | Some q \<Rightarrow> rbind (lru_push refs page evict_first q) (\<lambda>q'. Inr (set_policy (priority page) q' ps')))"

definition prio_pop :: "int set \<Rightarrow> prio_policy \<Rightarrow> (evictable_page \<times> prio_policy) result" where
  "prio_pop refs ps =
     (case ps of
        [] \<Rightarrow> Inl StopIteration
      | (k, q) # rest \<Rightarrow> rbind (lru_pop refs q) (\<lambda>(page, q'). Inr (page, (k, q') # rest)))"

definition prio_remove :: "int set \<Rightarrow> evictable_page \<Rightarrow> prio_policy \<Rightarrow> prio_policy result" where
  "prio_remove refs page ps =
     (case map_of ps (priority page) of
        None \<Rightarrow> Inl KeyError
      | Some q \<Rightarrow> rbind (lru_remove refs page q) (\<lambda>q'.
          Inr (if q' = [] then filter (\<lambda>(k, _). k \<noteq> priority page) ps else set_policy (priority page) q' ps)))"

section \<open>The controller\<close>

record eviction_controller =
  life_cycle_grouping :: "nat list"
  ctrl_policies :: "prio_policy list"
  ctrl_cache_level :: nat
  node_refs :: "int set"

definition controller_init :: "nat list \<Rightarrow> nat \<Rightarrow> eviction_controller result" where
  "controller_init grouping level =
     (if grouping = [] then Inl ValueError
      else
        let num_pool_groups = Max (set grouping) + 1 in
        py_assert (num_pool_groups = card (set grouping))
          (Inr \<lparr>life_cycle_grouping = grouping, ctrl_policies = replicate num_pool_groups [],
                ctrl_cache_level = level, node_refs = {}\<rparr>))"

text \<open>\<open>_get_policy\<close>: the pool group of a life cycle.\<close>

definition ctrl_group :: "eviction_controller \<Rightarrow> nat \<Rightarrow> nat result" where
  "ctrl_group c lc =
     (if lc < length (life_cycle_grouping c) \<and> life_cycle_grouping c ! lc < length (ctrl_policies c)
      then Inr (life_cycle_grouping c ! lc) else Inl IndexError)"

definition schedule_for_eviction ::
  "evictable_page \<Rightarrow> bool \<Rightarrow> eviction_controller \<Rightarrow> eviction_controller result" where
  "schedule_for_eviction page evict_first c =
     py_assert (page_id page \<notin> node_refs c \<and> cache_level page = ctrl_cache_level c)
     (rbind (ctrl_group c (page_life_cycle page)) (\<lambda>i.
      rbind (prio_push (node_refs c) page evict_first (ctrl_policies c ! i)) (\<lambda>ps.
      Inr (c\<lparr>ctrl_policies := (ctrl_policies c)[i := ps], node_refs := insert (page_id page) (node_refs c)\<rparr>))))"

definition ctrl_remove :: "evictable_page \<Rightarrow> eviction_controller \<Rightarrow> eviction_controller result" where
  "ctrl_remove page c =
     py_assert (page_id page \<in> node_refs c)
     (rbind (ctrl_group c (page_life_cycle page)) (\<lambda>i.
      rbind (prio_remove (node_refs c) page (ctrl_policies c ! i)) (\<lambda>ps.
      Inr (c\<lparr>ctrl_policies := (ctrl_policies c)[i := ps], node_refs := node_refs c - {page_id page}\<rparr>))))"

definition num_evictable_pages :: "eviction_controller \<Rightarrow> nat \<Rightarrow> nat result" where
  "num_evictable_pages c i =
     (if i < length (ctrl_policies c) then Inr (prio_len (ctrl_policies c ! i)) else Inl IndexError)"

text \<open>
  The inner loop of \<open>evict\<close>: it pops pages until the group has enough. \<open>_evict_dependencies\<close> returns
  empty lists, so nothing else is added. An exception ends it with what was popped so far.
\<close>

fun pop_pages ::
  "nat \<Rightarrow> int set \<Rightarrow> prio_policy \<Rightarrow> evictable_page list
     \<Rightarrow> int set \<times> prio_policy \<times> evictable_page list \<times> py_error option" where
  "pop_pages 0 refs ps acc = (refs, ps, acc, None)"
| "pop_pages (Suc n) refs ps acc =
     (case prio_pop refs ps of
        Inl e \<Rightarrow> (refs, ps, acc, Some e)
      | Inr (page, ps') \<Rightarrow> pop_pages n (refs - {page_id page}) ps' (acc @ [page]))"

fun evict_loop ::
  "nat \<Rightarrow> int list \<Rightarrow> eviction_controller \<Rightarrow> evictable_page list list
     \<Rightarrow> eviction_controller \<times> evictable_page list list \<times> py_error option" where
  "evict_loop i [] c ret = (c, ret, None)"
| "evict_loop i (n # ns) c ret =
     (if i \<ge> length (ctrl_policies c) then (c, ret, Some IndexError)
      else
        let ps = ctrl_policies c ! i in
        if int (prio_len ps + length (ret ! i)) < n then (c, ret, Some OutOfPagesError)
        else
          case pop_pages (nat (n - int (length (ret ! i)))) (node_refs c) ps (ret ! i) of (refs', ps', pages, err) \<Rightarrow>
            let c' = c\<lparr>ctrl_policies := (ctrl_policies c)[i := ps'], node_refs := refs'\<rparr>;
                ret' = ret[i := pages]
            in (case err of Some e \<Rightarrow> (c', ret', Some e) | None \<Rightarrow> evict_loop (Suc i) ns c' ret'))"

text \<open>The handler: the popped pages go back to the front of their queues, the last one first.\<close>

fun reschedule :: "evictable_page list \<Rightarrow> eviction_controller \<Rightarrow> eviction_controller \<times> py_error option" where
  "reschedule [] c = (c, None)"
| "reschedule (p # ps) c =
     (case schedule_for_eviction p True c of
        Inl e \<Rightarrow> (c, Some e)
      | Inr c' \<Rightarrow> reschedule ps c')"

definition evict ::
  "int list \<Rightarrow> eviction_controller \<Rightarrow> eviction_controller \<times> evictable_page list list result" where
  "evict min_num_pages c =
     (case evict_loop 0 min_num_pages c (replicate (length (ctrl_policies c)) []) of (c', ret, err) \<Rightarrow>
        (case err of
           Some e \<Rightarrow>
             (case reschedule (rev (concat ret)) c' of
                (c'', None) \<Rightarrow> (c'', Inl e)
              | (c'', Some e') \<Rightarrow> (c'', Inl e'))
         | None \<Rightarrow>
             (c', py_assert (list_all (\<lambda>p. cache_level p = ctrl_cache_level c') (concat ret)) (Inr ret))))"

section \<open>Invariant\<close>

definition front_queue :: "prio_policy \<Rightarrow> lru_policy" where
  "front_queue ps = (case ps of [] \<Rightarrow> [] | (k, q) # _ \<Rightarrow> q)"

definition group_ok :: "eviction_controller \<Rightarrow> nat \<Rightarrow> prio_policy \<Rightarrow> bool" where
  "group_ok c i ps \<longleftrightarrow> sorted (map fst ps) \<and> distinct (map fst ps) \<and>
     (\<forall>(k, q) \<in> set ps. \<forall>p \<in> set q. priority p = k \<and> ctrl_group c (page_life_cycle p) = Inr i \<and>
        cache_level p = ctrl_cache_level c)"

definition queued :: "eviction_controller \<Rightarrow> evictable_page list" where
  "queued c = concat (map prio_pages (ctrl_policies c))"

definition ctrl_inv :: "eviction_controller \<Rightarrow> bool" where
  "ctrl_inv c \<longleftrightarrow> distinct (map page_id (queued c)) \<and> node_refs c = page_id ` set (queued c) \<and>
     (\<forall>i < length (ctrl_policies c). group_ok c i (ctrl_policies c ! i))"

lemma ctrl_inv_group: "ctrl_inv c \<Longrightarrow> i < length (ctrl_policies c) \<Longrightarrow> group_ok c i (ctrl_policies c ! i)"
  by (simp add: ctrl_inv_def)

lemma prio_len_pages: "prio_len ps = length (prio_pages ps)"
  by (induction ps) (auto simp: prio_len_def prio_pages_def)

lemma ctrl_group_frame:
  "life_cycle_grouping c' = life_cycle_grouping c \<Longrightarrow> length (ctrl_policies c') = length (ctrl_policies c) \<Longrightarrow>
     ctrl_group c' lc = ctrl_group c lc"
  by (simp add: ctrl_group_def)

lemma group_ok_frame:
  assumes "group_ok c i ps" "life_cycle_grouping c' = life_cycle_grouping c"
    "length (ctrl_policies c') = length (ctrl_policies c)" "ctrl_cache_level c' = ctrl_cache_level c"
  shows "group_ok c' i ps"
  using assms by (simp add: group_ok_def ctrl_group_frame [of c' c])

lemma queued_update:
  assumes "i < length (ctrl_policies c)"
  shows "mset (queued (c\<lparr>ctrl_policies := (ctrl_policies c)[i := ps], node_refs := r\<rparr>)) + mset (prio_pages (ctrl_policies c ! i))
     = mset (queued c) + mset (prio_pages ps)"
proof -
  have "ctrl_policies c = take i (ctrl_policies c) @ ctrl_policies c ! i # drop (Suc i) (ctrl_policies c)"
    using assms by (rule id_take_nth_drop)
  then have "mset (queued c) = mset (concat (map prio_pages (take i (ctrl_policies c)))) + mset (prio_pages (ctrl_policies c ! i))
      + mset (concat (map prio_pages (drop (Suc i) (ctrl_policies c))))"
    unfolding queued_def by (metis (no_types, lifting) concat.simps(2) concat_append list.simps(9) map_append mset_append union_assoc)
  then show ?thesis using assms by (simp add: queued_def upd_conv_take_nth_drop)
qed

lemma group_pages_queued:
  "i < length (ctrl_policies c) \<Longrightarrow> set (prio_pages (ctrl_policies c ! i)) \<subseteq> set (queued c)"
  using nth_mem by (fastforce simp: queued_def)

text \<open>Popping takes pages off the queue of the lowest priority only.\<close>

lemma pop_pages_front:
  assumes "distinct (map page_id q)" "page_id ` set q \<subseteq> refs"
  shows "pop_pages n refs ((k, q) # rest) acc =
     (refs - page_id ` set (take n q), (k, drop n q) # rest, acc @ take n q,
      if n \<le> length q then None else Some AssertionError)"
  using assms
proof (induction n arbitrary: refs q acc)
  case (Suc n)
  show ?case
  proof (cases q)
    case Nil
    then show ?thesis by (simp add: prio_pop_def lru_pop_def)
  next
    case (Cons x xs)
    then have "prio_pop refs ((k, q) # rest) = Inr (x, (k, xs) # rest)"
      using Suc.prems by (simp add: prio_pop_def lru_pop_def lru_remove_def)
    moreover have "distinct (map page_id xs)" "page_id ` set xs \<subseteq> refs - {page_id x}"
      using Suc.prems Cons by (auto simp: image_iff)
    note Suc.IH [OF this, of "acc @ [x]"]
    ultimately show ?thesis using Cons by (simp add: Diff_insert2 [symmetric])
  qed
qed simp

section \<open>Putting pages back\<close>

lemma reschedule_append:
  "reschedule (xs @ ys) c = (case reschedule xs c of (c', None) \<Rightarrow> reschedule ys c' | (c', Some e) \<Rightarrow> (c', Some e))"
  by (induction xs arbitrary: c) (auto split: sum.splits)

lemma set_policy_front: "set_policy k q' ((k, q) # rest) = (k, q') # rest" if "k \<notin> fst ` set rest"
  using that by (induction rest) (auto simp: set_policy_def)

lemma schedule_front:
  assumes "ctrl_policies c ! i = (k, q) # rest" "k \<notin> fst ` set rest" "priority p = k"
    and "ctrl_group c (page_life_cycle p) = Inr i" "cache_level p = ctrl_cache_level c" "page_id p \<notin> node_refs c"
  shows "schedule_for_eviction p True c =
     Inr (c\<lparr>ctrl_policies := (ctrl_policies c)[i := (k, p # q) # rest], node_refs := insert (page_id p) (node_refs c)\<rparr>)"
  using assms set_policy_front [OF assms(2)]
  by (simp add: schedule_for_eviction_def prio_push_def get_policy_def lru_push_def)

lemma ctrl_group_Inr: "ctrl_group c lc = Inr i \<Longrightarrow> i < length (ctrl_policies c)"
  by (auto simp: ctrl_group_def split: if_splits)

lemma reschedule_group:
  assumes "i < length (ctrl_policies c)" "ctrl_policies c ! i = (k, q) # rest" "k \<notin> fst ` set rest"
    and "\<forall>p \<in> set xs. priority p = k \<and> ctrl_group c (page_life_cycle p) = Inr i \<and> cache_level p = ctrl_cache_level c"
    and "distinct (map page_id xs)" "page_id ` set xs \<inter> node_refs c = {}"
  shows "reschedule (rev xs) c =
     (c\<lparr>ctrl_policies := (ctrl_policies c)[i := (k, xs @ q) # rest], node_refs := page_id ` set xs \<union> node_refs c\<rparr>, None)"
  using assms(4-)
proof (induction xs)
  case Nil
  then show ?case using list_update_id [of "ctrl_policies c" i] assms(2) by simp
next
  case (Cons x xs)
  let ?c = "c\<lparr>ctrl_policies := (ctrl_policies c)[i := (k, xs @ q) # rest], node_refs := page_id ` set xs \<union> node_refs c\<rparr>"
  have "reschedule (rev xs) c = (?c, None)" using Cons by auto
  moreover have "schedule_for_eviction x True ?c =
      Inr (?c\<lparr>ctrl_policies := (ctrl_policies ?c)[i := (k, x # xs @ q) # rest],
              node_refs := insert (page_id x) (node_refs ?c)\<rparr>)"
    using Cons.prems assms(1,3) by (intro schedule_front) (auto simp: ctrl_group_frame [of ?c c])
  ultimately show ?case by (simp add: reschedule_append)
qed

section \<open>Popping and putting back cancel\<close>

definition group_popped :: "prio_policy \<Rightarrow> prio_policy \<Rightarrow> evictable_page list \<Rightarrow> bool" where
  "group_popped ps0 ps xs \<longleftrightarrow> (xs = [] \<and> ps = ps0) \<or> (\<exists>k q rest. ps0 = (k, xs @ q) # rest \<and> ps = (k, q) # rest)"

definition ret_at :: "evictable_page list list \<Rightarrow> nat \<Rightarrow> evictable_page list" where
  "ret_at ret i = (if i < length ret then ret ! i else [])"

definition popped :: "eviction_controller \<Rightarrow> eviction_controller \<Rightarrow> evictable_page list list \<Rightarrow> bool" where
  "popped c0 c ret \<longleftrightarrow> length (ctrl_policies c) = length (ctrl_policies c0) \<and> length ret \<le> length (ctrl_policies c0) \<and>
     life_cycle_grouping c = life_cycle_grouping c0 \<and> ctrl_cache_level c = ctrl_cache_level c0 \<and>
     node_refs c = node_refs c0 - page_id ` set (concat ret) \<and>
     (\<forall>i < length (ctrl_policies c0). group_popped (ctrl_policies c0 ! i) (ctrl_policies c ! i) (ret_at ret i))"

lemma popped_group:
  "popped c0 c ret \<Longrightarrow> i < length (ctrl_policies c0) \<Longrightarrow>
     group_popped (ctrl_policies c0 ! i) (ctrl_policies c ! i) (ret_at ret i)"
  by (simp add: popped_def)

lemma ret_at_snoc: "ret_at (rs @ [xs]) i = (if i = length rs then xs else ret_at rs i)"
  by (auto simp: ret_at_def nth_append)

lemma group_popped_pages: "group_popped ps0 ps xs \<Longrightarrow> prio_pages ps0 = xs @ prio_pages ps"
  by (auto simp: group_popped_def prio_pages_def)

lemma concat_submset:
  assumes "length ret \<le> length pss" "\<And>i. i < length ret \<Longrightarrow> mset (ret ! i) \<subseteq># mset (f (pss ! i))"
  shows "mset (concat ret) \<subseteq># mset (concat (map f pss))"
  using assms
proof (induction ret arbitrary: pss)
  case (Cons r ret)
  then obtain ps pss' where pss: "pss = ps # pss'" by (cases pss) auto
  have "mset (concat ret) \<subseteq># mset (concat (map f pss'))"
    using Cons.prems(1) Cons.prems(2) [of "Suc i" for i] pss by (intro Cons.IH) auto
  moreover have "mset r \<subseteq># mset (f ps)" using Cons.prems(2) [of 0] pss by simp
  ultimately show ?case using pss by (simp add: subset_mset.add_mono)
qed simp

lemma popped_distinct:
  assumes "ctrl_inv c0" "popped c0 c ret"
  shows "distinct (map page_id (concat ret))" "set (concat ret) \<subseteq> set (queued c0)"
proof -
  have "mset (ret ! i) \<subseteq># mset (prio_pages (ctrl_policies c0 ! i))" if "i < length ret" for i
  proof -
    have "i < length (ctrl_policies c0)" "ret_at ret i = ret ! i"
      using that assms(2) by (auto simp: popped_def ret_at_def)
    then have "group_popped (ctrl_policies c0 ! i) (ctrl_policies c ! i) (ret ! i)"
      using popped_group [OF assms(2)] by metis
    then show ?thesis by (simp add: group_popped_pages)
  qed
  then have sub: "mset (concat ret) \<subseteq># mset (queued c0)"
    using assms(2) unfolding queued_def by (intro concat_submset) (auto simp: popped_def)
  then have "mset (map page_id (concat ret)) \<subseteq># mset (map page_id (queued c0))"
    by (simp add: image_mset_subseteq_mono)
  then show "distinct (map page_id (concat ret))"
    using assms(1) unfolding ctrl_inv_def by (metis distinct_append mset_append mset_eq_imp_distinct_iff
      mset_subset_eq_exists_conv ex_mset)
  show "set (concat ret) \<subseteq> set (queued c0)" using set_mset_mono [OF sub] by simp
qed

lemma group_ok_front:
  assumes "group_ok c i ((k, xs @ q) # rest)"
  shows "k \<notin> fst ` set rest"
    "\<forall>p \<in> set xs. priority p = k \<and> ctrl_group c (page_life_cycle p) = Inr i \<and> cache_level p = ctrl_cache_level c"
    "group_ok c i ((k, q) # rest)"
  using assms by (auto simp: group_ok_def)

lemma give_back: "A \<inter> B = {} \<Longrightarrow> A \<subseteq> R \<Longrightarrow> A \<union> (R - (B \<union> A)) = R - B"
  by blast

lemma popped_restore:
  assumes "ctrl_inv c0" "popped c0 c (rs @ [xs])"
    and "ctrl_policies c0 ! length rs = (k, xs @ q) # rest"
  shows "popped c0 (c\<lparr>ctrl_policies := (ctrl_policies c)[length rs := (k, xs @ q) # rest],
     node_refs := page_id ` set xs \<union> node_refs c\<rparr>) rs" (is "popped c0 ?c rs")
proof -
  have dist: "distinct (map page_id (concat rs @ xs))" and sub: "set (concat rs @ xs) \<subseteq> set (queued c0)"
    using popped_distinct [OF assms(1,2)] by simp_all
  have "page_id ` set xs \<inter> page_id ` set (concat rs) = {}" using dist by auto
  moreover have "page_id ` set xs \<subseteq> node_refs c0" using sub assms(1) by (auto simp: ctrl_inv_def)
  ultimately have "page_id ` set xs \<union> (node_refs c0 - (page_id ` set (concat rs) \<union> page_id ` set xs))
      = node_refs c0 - page_id ` set (concat rs)"
    by (rule give_back)
  moreover have "node_refs c = node_refs c0 - (page_id ` set (concat rs) \<union> page_id ` set xs)"
    using assms(2) by (simp add: popped_def image_Un)
  ultimately have refs: "node_refs ?c = node_refs c0 - page_id ` set (concat rs)" by simp
  have "group_popped (ctrl_policies c0 ! i) (ctrl_policies ?c ! i) (ret_at rs i)"
    if i: "i < length (ctrl_policies c0)" for i
  proof (cases "i = length rs")
    case True
    then have "ctrl_policies ?c ! i = ctrl_policies c0 ! i" "ret_at rs i = []"
      using i assms(2,3) by (simp_all add: popped_def ret_at_def)
    then show ?thesis by (simp add: group_popped_def)
  next
    case False
    then have "group_popped (ctrl_policies c0 ! i) (ctrl_policies c ! i) (ret_at rs i)"
      using popped_group [OF assms(2) i] ret_at_snoc [of rs xs i] by simp
    then show ?thesis using False by simp
  qed
  then show ?thesis using assms(2) refs unfolding popped_def by simp
qed

lemma reschedule_all:
  assumes "ctrl_inv c0" "popped c0 c ret"
  shows "reschedule (rev (concat ret)) c = (c0, None)"
  using assms(2)
proof (induction ret arbitrary: c rule: rev_induct)
  case Nil
  then have "ctrl_policies c = ctrl_policies c0"
    by (intro nth_equalityI) (auto simp: popped_def group_popped_def ret_at_def)
  then have "c = c0" using Nil by (intro eviction_controller.equality) (simp_all add: popped_def)
  then show ?case by simp
next
  case (snoc xs rs)
  let ?i = "length rs"
  have i: "?i < length (ctrl_policies c0)" using snoc.prems by (simp add: popped_def)
  have fields: "length (ctrl_policies c) = length (ctrl_policies c0)" "life_cycle_grouping c = life_cycle_grouping c0"
      "ctrl_cache_level c = ctrl_cache_level c0" "node_refs c = node_refs c0 - page_id ` set (concat (rs @ [xs]))"
    using snoc.prems unfolding popped_def by blast+
  have pop: "group_popped (ctrl_policies c0 ! ?i) (ctrl_policies c ! ?i) xs"
    using popped_group [OF snoc.prems i] by (simp add: ret_at_snoc)
  show ?case
  proof (cases "xs = []")
    case True
    have "ret_at (rs @ [xs]) = ret_at rs" using True by (intro ext) (auto simp: ret_at_def nth_append less_Suc_eq)
    then have "popped c0 c rs" using snoc.prems True by (simp add: popped_def)
    then show ?thesis using snoc.IH True by simp
  next
    case False
    then obtain k q rest where ps: "ctrl_policies c0 ! ?i = (k, xs @ q) # rest" "ctrl_policies c ! ?i = (k, q) # rest"
      using pop by (auto simp: group_popped_def)
    have "group_ok c0 ?i (ctrl_policies c0 ! ?i)" using assms(1) i unfolding ctrl_inv_def by blast
    then have ok: "group_ok c ?i ((k, xs @ q) # rest)" unfolding ps(1) using fields(2,1,3) by (rule group_ok_frame)
    have "page_id ` set xs \<inter> node_refs c = {}" unfolding fields(4) by auto
    moreover have "distinct (map page_id xs)" using popped_distinct(1) [OF assms(1) snoc.prems] by simp
    ultimately have "reschedule (rev xs) c = (c\<lparr>ctrl_policies := (ctrl_policies c)[?i := (k, xs @ q) # rest],
        node_refs := page_id ` set xs \<union> node_refs c\<rparr>, None)"
      using i fields(1) group_ok_front [OF ok] by (intro reschedule_group ps(2)) simp_all
    then show ?thesis
      using snoc.IH [OF popped_restore [OF assms(1) snoc.prems ps(1)]] by (simp add: reschedule_append)
  qed
qed

section \<open>Eviction\<close>

lemma ctrl_inv_update:
  assumes "ctrl_inv c" "i < length (ctrl_policies c)" "group_ok c i ps"
    and "mset (prio_pages (ctrl_policies c ! i)) = mset xs + mset (prio_pages ps)"
  shows "ctrl_inv (c\<lparr>ctrl_policies := (ctrl_policies c)[i := ps], node_refs := node_refs c - page_id ` set xs\<rparr>)"
    (is "ctrl_inv ?c")
proof -
  have "mset (queued ?c) + (mset xs + mset (prio_pages ps)) = mset (queued c) + mset (prio_pages ps)"
    using queued_update [OF assms(2)] assms(4) by metis
  then have q: "mset (queued c) = mset (queued ?c @ xs)" by (simp add: ac_simps)
  then have "mset (map page_id (queued c)) = mset (map page_id (queued ?c @ xs))" by (metis mset_map)
  then have "distinct (map page_id (queued ?c @ xs))"
    using assms(1) mset_eq_imp_distinct_iff unfolding ctrl_inv_def by blast
  then have dist: "distinct (map page_id (queued ?c))" "page_id ` set (queued ?c) \<inter> page_id ` set xs = {}" by auto
  have "set (queued c) = set (queued ?c) \<union> set xs" using mset_eq_setD [OF q] by simp
  moreover have "node_refs c = page_id ` set (queued c)" using assms(1) unfolding ctrl_inv_def by blast
  ultimately have "node_refs c = page_id ` set (queued ?c) \<union> page_id ` set xs" by (metis image_Un)
  then have "node_refs ?c = page_id ` set (queued ?c)" using dist(2) by auto
  moreover have "group_ok ?c j (ctrl_policies ?c ! j)" if "j < length (ctrl_policies ?c)" for j
    using that assms(1-3) group_ok_frame [of c _ _ ?c] by (cases "j = i") (simp_all add: ctrl_inv_def)
  ultimately show ?thesis using dist(1) unfolding ctrl_inv_def by blast
qed

lemma concat_update_nil: "i < length ret \<Longrightarrow> ret ! i = [] \<Longrightarrow> set (concat (ret[i := xs])) = set (concat ret) \<union> set xs"
proof -
  assume i: "i < length ret" "ret ! i = []"
  then have "ret = take i ret @ [] # drop (Suc i) ret" using id_take_nth_drop [OF i(1)] by simp
  then have "set (concat ret) = set (concat (take i ret)) \<union> set (concat (drop (Suc i) ret))"
    by (metis append_Nil concat.simps(2) concat_append set_append)
  then show ?thesis using i(1) by (auto simp: upd_conv_take_nth_drop)
qed

lemma popped_pop:
  assumes "popped c0 c ret" "i < length ret" "ret ! i = []" "ctrl_policies c0 ! i = (k, xs @ q) # rest"
  shows "popped c0 (c\<lparr>ctrl_policies := (ctrl_policies c)[i := (k, q) # rest], node_refs := node_refs c - page_id ` set xs\<rparr>)
     (ret[i := xs])" (is "popped c0 ?c ?ret")
proof -
  have refs: "node_refs ?c = node_refs c0 - page_id ` set (concat ?ret)"
    unfolding concat_update_nil [OF assms(2,3)] using assms(1) by (auto simp: popped_def)
  have "group_popped (ctrl_policies c0 ! j) (ctrl_policies ?c ! j) (ret_at ?ret j)" if j: "j < length (ctrl_policies c0)" for j
  proof (cases "j = i")
    case True
    then show ?thesis using assms j by (auto simp: group_popped_def ret_at_def popped_def)
  next
    case False
    then have "ret_at ?ret j = ret_at ret j" by (simp add: ret_at_def)
    then show ?thesis using popped_group [OF assms(1) j] False by simp
  qed
  then show ?thesis using assms(1) refs unfolding popped_def by simp
qed

definition group_error :: "prio_policy \<Rightarrow> int \<Rightarrow> py_error option" where
  "group_error ps n =
     (if int (prio_len ps) < n then Some OutOfPagesError
      else if int (length (front_queue ps)) < n then Some AssertionError else None)"

primrec first_error :: "py_error option list \<Rightarrow> py_error option" where
  "first_error [] = None"
| "first_error (e # es) = (case e of Some x \<Rightarrow> Some x | None \<Rightarrow> first_error es)"

lemma first_error_None: "first_error es = None \<longleftrightarrow> (\<forall>e \<in> set es. e = None)"
  by (induction es) (auto split: option.splits)

lemma first_error_Some: "first_error es = Some e \<Longrightarrow> Some e \<in> set es"
  by (induction es) (auto split: option.splits)

text \<open>One group: what was popped, and with which error.\<close>

lemma evict_group:
  assumes inv: "ctrl_inv c0" "ctrl_inv c" "popped c0 c ret"
    and ret: "length ret = length (ctrl_policies c0)" "i < length ret" "ret ! i = []"
    and enough: "n \<le> int (prio_len (ctrl_policies c0 ! i))"
  shows "\<exists>c' xs. pop_pages (nat (n - int (length (ret ! i)))) (node_refs c) (ctrl_policies c ! i) (ret ! i) =
      (node_refs c', ctrl_policies c' ! i, xs, group_error (ctrl_policies c0 ! i) n) \<and>
     c\<lparr>ctrl_policies := (ctrl_policies c)[i := ctrl_policies c' ! i], node_refs := node_refs c'\<rparr> = c' \<and>
     xs = take (nat n) (front_queue (ctrl_policies c0 ! i)) \<and> popped c0 c' (ret[i := xs]) \<and> ctrl_inv c'"
proof -
  have i: "i < length (ctrl_policies c0)" "i < length (ctrl_policies c)" using ret inv(3) by (simp_all add: popped_def)
  have same: "ctrl_policies c ! i = ctrl_policies c0 ! i"
    using popped_group [OF inv(3) i(1)] ret by (auto simp: ret_at_def group_popped_def)
  show ?thesis
  proof (cases "ctrl_policies c0 ! i")
    case Nil
    then have n: "n \<le> 0" using enough by (simp add: prio_len_def)
    have "ret[i := []] = ret" using ret(3) by (metis list_update_id)
    then show ?thesis
      using Nil n same ret(3) inv list_update_id [of "ctrl_policies c" i]
      by (intro exI [of _ c] exI [of _ "[]"]) (simp add: group_error_def prio_len_def front_queue_def)
  next
    case (Cons kq rest)
    then obtain k q where ps: "ctrl_policies c0 ! i = (k, q) # rest" by (cases kq) auto
    let ?xs = "take (nat n) q" and ?q = "drop (nat n) q"
    let ?c = "c\<lparr>ctrl_policies := (ctrl_policies c)[i := (k, ?q) # rest], node_refs := node_refs c - page_id ` set ?xs\<rparr>"
    have sub: "set q \<subseteq> set (queued c)" using group_pages_queued [OF i(2)] same ps by (auto simp: prio_pages_def)
    have "mset q \<subseteq># mset (queued c)"
      using queued_update [OF i(2), where ps = "[]" and r = "{}"] same ps
      by (simp add: prio_pages_def) (metis add.commute mset_subset_eq_add_left subset_mset.order_trans)
    then have "distinct (map page_id q)"
      using inv(2) unfolding ctrl_inv_def
      by (metis (no_types, lifting) distinct_append ex_mset map_append mset_append mset_eq_imp_distinct_iff mset_map
        mset_subset_eq_exists_conv)
    moreover have "page_id ` set q \<subseteq> node_refs c" using sub inv(2) unfolding ctrl_inv_def by blast
    ultimately have pop: "pop_pages (nat n) (node_refs c) ((k, q) # rest) [] =
        (node_refs ?c, (k, ?q) # rest, ?xs, if nat n \<le> length q then None else Some AssertionError)"
      using pop_pages_front by simp
    have "ctrl_inv ?c"
    proof (rule ctrl_inv_update [OF inv(2) i(2)])
      have "group_ok c i ((k, ?xs @ ?q) # rest)" using ctrl_inv_group [OF inv(2) i(2)] same ps by simp
      then show "group_ok c i ((k, ?q) # rest)" by (rule group_ok_front)
      show "mset (prio_pages (ctrl_policies c ! i)) = mset ?xs + mset (prio_pages ((k, ?q) # rest))"
        unfolding same ps prio_pages_def
        by (metis append.assoc append_take_drop_id concat.simps(2) list.simps(9) mset_append snd_conv)
    qed
    moreover have "popped c0 ?c (ret[i := ?xs])" using popped_pop [OF inv(3) ret(2,3), of k ?xs ?q rest] ps by simp
    moreover have "(if nat n \<le> length q then None else Some AssertionError) = group_error (ctrl_policies c0 ! i) n"
      using enough ps by (auto simp: group_error_def front_queue_def)
    ultimately show ?thesis
      using pop same ps ret(3) i(2) by (intro exI [of _ ?c] exI [of _ ?xs]) (simp add: front_queue_def)
  qed
qed

lemma evict_loop_ok:
  assumes "ctrl_inv c0" "ctrl_inv c" "popped c0 c ret" "length ret = length (ctrl_policies c0)"
    and "\<And>j. i \<le> j \<Longrightarrow> j < length ret \<Longrightarrow> ret ! j = []" "i + length ns = length ret"
  shows "\<exists>c' ret'. evict_loop i ns c ret =
      (c', ret', first_error (map2 group_error (drop i (ctrl_policies c0)) ns)) \<and>
     popped c0 c' ret' \<and> ctrl_inv c' \<and> length ret' = length ret \<and> (\<forall>j < i. ret' ! j = ret ! j) \<and>
     (first_error (map2 group_error (drop i (ctrl_policies c0)) ns) = None \<longrightarrow>
        (\<forall>j < length ns. ret' ! (i + j) = take (nat (ns ! j)) (front_queue (ctrl_policies c0 ! (i + j)))))"
  using assms(2-)
proof (induction ns arbitrary: i c ret)
  case Nil
  then show ?case by auto
next
  case (Cons n ns)
  have i: "i < length ret" "i < length (ctrl_policies c)" "i < length (ctrl_policies c0)"
    using Cons.prems by (auto simp: popped_def)
  have nil: "ret ! i = []" using Cons.prems(4) i by blast
  have same: "ctrl_policies c ! i = ctrl_policies c0 ! i"
    using popped_group [OF Cons.prems(2) i(3)] i nil by (auto simp: ret_at_def group_popped_def)
  have errs: "map2 group_error (drop i (ctrl_policies c0)) (n # ns) =
      group_error (ctrl_policies c0 ! i) n # map2 group_error (drop (Suc i) (ctrl_policies c0)) ns"
    using Cons_nth_drop_Suc [OF i(3), symmetric] by simp
  show ?case
  proof (cases "int (prio_len (ctrl_policies c0 ! i)) < n")
    case True
    then have "group_error (ctrl_policies c0 ! i) n = Some OutOfPagesError" by (simp add: group_error_def)
    moreover have "evict_loop i (n # ns) c ret = (c, ret, Some OutOfPagesError)"
      using True same nil i(2) by (simp add: Let_def)
    ultimately show ?thesis using Cons.prems errs by simp
  next
    case False
    then have "n \<le> int (prio_len (ctrl_policies c0 ! i))" by simp
    then obtain c' xs where grp: "pop_pages (nat (n - int (length (ret ! i)))) (node_refs c) (ctrl_policies c ! i) (ret ! i) =
        (node_refs c', ctrl_policies c' ! i, xs, group_error (ctrl_policies c0 ! i) n)"
        "c\<lparr>ctrl_policies := (ctrl_policies c)[i := ctrl_policies c' ! i], node_refs := node_refs c'\<rparr> = c'"
        "xs = take (nat n) (front_queue (ctrl_policies c0 ! i))" "popped c0 c' (ret[i := xs])" "ctrl_inv c'"
      using evict_group [OF assms(1) Cons.prems(1,2,3) i(1) nil] by blast
    have step: "evict_loop i (n # ns) c ret =
        (case group_error (ctrl_policies c0 ! i) n of Some e \<Rightarrow> (c', ret[i := xs], Some e)
         | None \<Rightarrow> evict_loop (Suc i) ns c' (ret[i := xs]))"
      using False same i(2) grp(1,2) nil by (simp add: Let_def)
    show ?thesis
    proof (cases "group_error (ctrl_policies c0 ! i) n")
      case (Some e)
      then show ?thesis using step errs grp(4,5) by auto
    next
      case None
      have "\<exists>c'' ret''. evict_loop (Suc i) ns c' (ret[i := xs]) =
          (c'', ret'', first_error (map2 group_error (drop (Suc i) (ctrl_policies c0)) ns)) \<and>
         popped c0 c'' ret'' \<and> ctrl_inv c'' \<and> length ret'' = length (ret[i := xs]) \<and>
         (\<forall>j < Suc i. ret'' ! j = ret[i := xs] ! j) \<and>
         (first_error (map2 group_error (drop (Suc i) (ctrl_policies c0)) ns) = None \<longrightarrow>
            (\<forall>j < length ns. ret'' ! (Suc i + j) = take (nat (ns ! j)) (front_queue (ctrl_policies c0 ! (Suc i + j)))))"
        using Cons.prems(3-5) by (intro Cons.IH grp(4,5)) auto
      then obtain c'' ret'' where rec: "evict_loop (Suc i) ns c' (ret[i := xs]) =
          (c'', ret'', first_error (map2 group_error (drop (Suc i) (ctrl_policies c0)) ns))"
         "popped c0 c'' ret''" "ctrl_inv c''" "length ret'' = length ret" "\<forall>j < Suc i. ret'' ! j = ret[i := xs] ! j"
         "first_error (map2 group_error (drop (Suc i) (ctrl_policies c0)) ns) = None \<longrightarrow>
            (\<forall>j < length ns. ret'' ! (Suc i + j) = take (nat (ns ! j)) (front_queue (ctrl_policies c0 ! (Suc i + j))))"
        by auto
      have "ret'' ! i = xs" using rec(5) i(1) by simp
      then have "first_error (map2 group_error (drop (Suc i) (ctrl_policies c0)) ns) = None \<longrightarrow>
          (\<forall>j < length (n # ns). ret'' ! (i + j) = take (nat ((n # ns) ! j)) (front_queue (ctrl_policies c0 ! (i + j))))"
        using rec(6) grp(3) by (auto simp: less_Suc_eq_0_disj)
      then show ?thesis using step None errs rec(1-5) i(1) by auto
    qed
  qed
qed

lemma popped_refl: "popped c c (replicate (length (ctrl_policies c)) [])"
  by (auto simp: popped_def ret_at_def group_popped_def)

lemma map2_error_None:
  assumes "length ns = length pss"
  shows "first_error (map2 group_error pss ns) = None \<longleftrightarrow>
     (\<forall>i < length pss. group_error (pss ! i) (ns ! i) = None)"
  using assms by (simp add: first_error_None all_set_conv_all_nth del: set_map)

lemma group_error_None: "group_error ps n = None \<longleftrightarrow> n \<le> int (length (front_queue ps))"
proof -
  have "length (front_queue ps) \<le> prio_len ps"
    by (cases ps) (auto simp: front_queue_def prio_len_def)
  then show ?thesis by (auto simp: group_error_def)
qed

lemma queued_level:
  assumes "ctrl_inv c" "p \<in> set (queued c)"
  shows "cache_level p = ctrl_cache_level c"
proof -
  obtain ps where "ps \<in> set (ctrl_policies c)" "p \<in> set (prio_pages ps)" using assms(2) by (auto simp: queued_def)
  then obtain i where i: "i < length (ctrl_policies c)" "p \<in> set (prio_pages (ctrl_policies c ! i))"
    by (auto simp: in_set_conv_nth)
  then obtain k q where "(k, q) \<in> set (ctrl_policies c ! i)" "p \<in> set q" by (auto simp: prio_pages_def)
  then show ?thesis using ctrl_inv_group [OF assms(1) i(1)] unfolding group_ok_def by blast
qed

lemma evict_result:
  assumes "ctrl_inv c" "length ns = length (ctrl_policies c)"
  shows "(\<exists>e. first_error (map2 group_error (ctrl_policies c) ns) = Some e \<and> evict ns c = (c, Inl e)) \<or>
     (\<exists>c' ret. first_error (map2 group_error (ctrl_policies c) ns) = None \<and> evict ns c = (c', Inr ret) \<and>
        popped c c' ret \<and> ctrl_inv c' \<and> length ret = length ns \<and>
        (\<forall>i < length ns. ret ! i = take (nat (ns ! i)) (front_queue (ctrl_policies c ! i))))"
proof -
  let ?err = "first_error (map2 group_error (ctrl_policies c) ns)"
  obtain c' ret where ev: "evict_loop 0 ns c (replicate (length (ctrl_policies c)) []) = (c', ret, ?err)"
      "popped c c' ret" "ctrl_inv c'" "length ret = length (ctrl_policies c)"
      "?err = None \<longrightarrow> (\<forall>i < length ns. ret ! i = take (nat (ns ! i)) (front_queue (ctrl_policies c ! i)))"
    using evict_loop_ok [OF assms(1) assms(1) popped_refl, of 0 ns] assms(2) by auto
  show ?thesis
  proof (cases ?err)
    case (Some e)
    then show ?thesis using ev(1) reschedule_all [OF assms(1) ev(2)] by (simp add: evict_def)
  next
    case None
    have "list_all (\<lambda>p. cache_level p = ctrl_cache_level c') (concat ret)"
      using popped_distinct(2) [OF assms(1) ev(2)] queued_level [OF assms(1)] ev(2)
      by (simp add: list_all_iff popped_def subset_iff)
    then have "evict ns c = (c', Inr ret)" using None ev(1) by (simp add: evict_def)
    then show ?thesis using None ev(2-5) assms(2) by simp
  qed
qed

section \<open>Scheduling and removing pages\<close>

lemma prio_pages_perm: "mset xs = mset ys \<Longrightarrow> mset (prio_pages xs) = mset (prio_pages ys)"
  unfolding prio_pages_def mset_concat by (metis (no_types, lifting) mset_map sum_mset_sum_list)

lemma get_policy_ok:
  assumes "group_ok c i ps"
  shows "group_ok c i (get_policy k ps)" "mset (prio_pages (get_policy k ps)) = mset (prio_pages ps)"
proof -
  show "mset (prio_pages (get_policy k ps)) = mset (prio_pages ps)"
    using prio_pages_perm [of "sort_key fst (ps @ [(k, [])])" "ps @ [(k, [])]"]
    by (simp add: get_policy_def) (simp add: prio_pages_def)
  show "group_ok c i (get_policy k ps)"
  proof (cases "map_of ps k")
    case None
    then have "distinct (map fst (ps @ [(k, [])]))"
      using assms by (auto simp: group_ok_def map_of_eq_None_iff)
    moreover have "mset (map fst (sort_key fst (ps @ [(k, [])]))) = mset (map fst (ps @ [(k, [])]))" by simp
    ultimately have "distinct (map fst (sort_key fst (ps @ [(k, [])])))" using mset_eq_imp_distinct_iff by blast
    then show ?thesis using assms None by (auto simp: get_policy_def group_ok_def)
  next
    case (Some q)
    then show ?thesis using assms by (simp add: get_policy_def)
  qed
qed

lemma set_policy_pages:
  assumes "distinct (map fst ps)" "map_of ps k = Some q"
  shows "mset (prio_pages (set_policy k q' ps)) + mset q = mset (prio_pages ps) + mset q'"
  using assms
proof (induction ps)
  case (Cons kq ps)
  obtain k1 q1 where kq: "kq = (k1, q1)" by (cases kq)
  show ?case
  proof (cases "k1 = k")
    case True
    then have "k \<notin> fst ` set ps" using Cons.prems kq by auto
    then have "set_policy k q' (kq # ps) = (k, q') # ps" using set_policy_front kq True by blast
    then show ?thesis using Cons.prems kq True by (simp add: prio_pages_def ac_simps)
  next
    case False
    then show ?thesis using Cons kq by (simp add: prio_pages_def set_policy_def ac_simps)
  qed
qed simp

lemma set_policy_ok:
  assumes "group_ok c i ps"
    and "\<forall>p \<in> set q'. priority p = k \<and> ctrl_group c (page_life_cycle p) = Inr i \<and> cache_level p = ctrl_cache_level c"
  shows "group_ok c i (set_policy k q' ps)"
proof -
  have "map fst (set_policy k q' ps) = map fst ps" by (simp add: set_policy_def case_prod_beta comp_def)
  moreover have "\<forall>(k1, q1) \<in> set (set_policy k q' ps). (k1, q1) \<in> set ps \<or> (k1 = k \<and> q1 = q')"
    by (auto simp: set_policy_def split: if_splits)
  ultimately show ?thesis using assms unfolding group_ok_def by fastforce
qed

lemma ctrl_inv_add:
  assumes "ctrl_inv c" "i < length (ctrl_policies c)" "group_ok c i ps" "page_id p \<notin> node_refs c"
    and "mset (prio_pages ps) = add_mset p (mset (prio_pages (ctrl_policies c ! i)))"
  shows "ctrl_inv (c\<lparr>ctrl_policies := (ctrl_policies c)[i := ps], node_refs := insert (page_id p) (node_refs c)\<rparr>)"
    (is "ctrl_inv ?c")
proof -
  have "mset (queued ?c) + mset (prio_pages (ctrl_policies c ! i))
      = mset (queued c) + add_mset p (mset (prio_pages (ctrl_policies c ! i)))"
    using queued_update [OF assms(2)] assms(5) by metis
  then have q: "mset (queued ?c) = mset (p # queued c)" by simp
  then have "mset (map page_id (queued ?c)) = mset (map page_id (p # queued c))" by (metis mset_map)
  moreover have "distinct (map page_id (p # queued c))" using assms(1,4) by (simp add: ctrl_inv_def)
  ultimately have "distinct (map page_id (queued ?c))" using mset_eq_imp_distinct_iff by blast
  moreover have "node_refs c = page_id ` set (queued c)" using assms(1) unfolding ctrl_inv_def by blast
  then have "node_refs ?c = page_id ` set (queued ?c)" using mset_eq_setD [OF q] by simp
  moreover have "group_ok ?c j (ctrl_policies ?c ! j)" if "j < length (ctrl_policies ?c)" for j
    using that ctrl_inv_group [OF assms(1)] assms(3) group_ok_frame [of c _ _ ?c] by (cases "j = i") simp_all
  ultimately show ?thesis unfolding ctrl_inv_def by blast
qed

lemma group_ok_queue:
  "group_ok c i ps \<Longrightarrow> map_of ps k = Some q \<Longrightarrow> p \<in> set q \<Longrightarrow>
     priority p = k \<and> ctrl_group c (page_life_cycle p) = Inr i \<and> cache_level p = ctrl_cache_level c"
  unfolding group_ok_def by (drule map_of_SomeD) blast

lemma schedule_inv:
  assumes "ctrl_inv c" "schedule_for_eviction p evict_first c = Inr c'"
  shows "ctrl_inv c'"
proof -
  let ?k = "priority p"
  obtain i ps where i: "ctrl_group c (page_life_cycle p) = Inr i"
      and ps: "prio_push (node_refs c) p evict_first (ctrl_policies c ! i) = Inr ps"
      and c': "c' = c\<lparr>ctrl_policies := (ctrl_policies c)[i := ps], node_refs := insert (page_id p) (node_refs c)\<rparr>"
      and new: "page_id p \<notin> node_refs c" "cache_level p = ctrl_cache_level c"
    using assms(2) by (auto simp: schedule_for_eviction_def py_assert_eq_Inr rbind_eq_Inr)
  have len: "i < length (ctrl_policies c)" using i by (rule ctrl_group_Inr)
  note ok = get_policy_ok [OF ctrl_inv_group [OF assms(1) len], of ?k]
  obtain q where q: "map_of (get_policy ?k (ctrl_policies c ! i)) ?k = Some q"
      "ps = set_policy ?k (if evict_first then p # q else q @ [p]) (get_policy ?k (ctrl_policies c ! i))"
    using ps by (auto simp: prio_push_def Let_def lru_push_def py_assert_eq_Inr rbind_eq_Inr split: option.splits)
  have "group_ok c i ps"
    unfolding q(2) using group_ok_queue [OF ok(1) q(1)] i new by (intro set_policy_ok ok(1)) auto
  moreover have "distinct (map fst (get_policy ?k (ctrl_policies c ! i)))" using ok(1) by (simp add: group_ok_def)
  from set_policy_pages [OF this q(1), of "if evict_first then p # q else q @ [p]"]
  have "mset (prio_pages ps) + mset q = add_mset p (mset (prio_pages (ctrl_policies c ! i))) + mset q"
    unfolding q(2) [symmetric] ok(2) by simp
  then have "mset (prio_pages ps) = add_mset p (mset (prio_pages (ctrl_policies c ! i)))" by (rule add_right_imp_eq)
  ultimately show ?thesis unfolding c' using ctrl_inv_add [OF assms(1) len _ new(1)] by blast
qed

lemma drop_policy_pages:
  assumes "distinct (map fst ps)" "map_of ps k = Some q"
  shows "mset (prio_pages ps) = mset q + mset (prio_pages (filter (\<lambda>(k', _). k' \<noteq> k) ps))"
  using assms
proof (induction ps)
  case (Cons kq ps)
  obtain k1 q1 where kq: "kq = (k1, q1)" by (cases kq)
  show ?case
  proof (cases "k1 = k")
    case True
    then have "filter (\<lambda>(k', _). k' \<noteq> k) ps = ps" using Cons.prems kq by (intro filter_True) force
    then show ?thesis using Cons.prems kq True by (simp add: prio_pages_def)
  next
    case False
    then show ?thesis using Cons kq by (simp add: prio_pages_def)
  qed
qed simp

lemma remove_inv:
  assumes "ctrl_inv c" "ctrl_remove p c = Inr c'"
  shows "ctrl_inv c'"
proof -
  let ?k = "priority p"
  obtain i ps where i: "ctrl_group c (page_life_cycle p) = Inr i"
      and ps: "prio_remove (node_refs c) p (ctrl_policies c ! i) = Inr ps"
      and c': "c' = c\<lparr>ctrl_policies := (ctrl_policies c)[i := ps], node_refs := node_refs c - page_id ` set [p]\<rparr>"
    using assms(2) by (auto simp: ctrl_remove_def py_assert_eq_Inr rbind_eq_Inr)
  have len: "i < length (ctrl_policies c)" using i by (rule ctrl_group_Inr)
  note ok = ctrl_inv_group [OF assms(1) len]
  have dist: "distinct (map fst (ctrl_policies c ! i))" using ok by (simp add: group_ok_def)
  obtain q where q: "map_of (ctrl_policies c ! i) ?k = Some q" "p \<in> set q"
      "ps = (if remove1 p q = [] then filter (\<lambda>(k, _). k \<noteq> ?k) (ctrl_policies c ! i)
             else set_policy ?k (remove1 p q) (ctrl_policies c ! i))"
    using ps by (auto simp: prio_remove_def lru_remove_def py_assert_eq_Inr rbind_eq_Inr split: option.splits if_splits)
  have mq: "mset q = add_mset p (mset (remove1 p q))" using q(2) by simp
  have "group_ok c i ps \<and> mset (prio_pages (ctrl_policies c ! i)) = mset [p] + mset (prio_pages ps)"
  proof (cases "remove1 p q = []")
    case True
    then have "mset q = mset [p]" using mq by simp
    then show ?thesis
      using True ok drop_policy_pages [OF dist q(1)] q(3)
      by (auto simp: group_ok_def sorted_filter distinct_map_filter)
  next
    case False
    have "group_ok c i ps"
      using False q(3) group_ok_queue [OF ok q(1)] set_policy_ok [OF ok, of "remove1 p q" ?k]
      by (auto dest: in_set_remove1 [THEN iffD1, rotated] notin_set_remove1)
    moreover have "mset (prio_pages ps) + mset q = mset (prio_pages (ctrl_policies c ! i)) + mset (remove1 p q)"
      using set_policy_pages [OF dist q(1), of "remove1 p q"] q(3) False by simp
    then have "add_mset p (mset (prio_pages ps)) + mset (remove1 p q) = mset (prio_pages (ctrl_policies c ! i)) + mset (remove1 p q)"
      unfolding mq by simp
    then have "mset (prio_pages (ctrl_policies c ! i)) = add_mset p (mset (prio_pages ps))"
      using add_right_imp_eq by metis
    ultimately show ?thesis by simp
  qed
  then show ?thesis unfolding c' using ctrl_inv_update [OF assms(1) len] by blast
qed

text \<open>The states a controller can reach.\<close>

inductive ctrl_reach :: "eviction_controller \<Rightarrow> bool" where
  init: "controller_init grouping level = Inr c \<Longrightarrow> ctrl_reach c"
| schedule: "ctrl_reach c \<Longrightarrow> schedule_for_eviction p evict_first c = Inr c' \<Longrightarrow> ctrl_reach c'"
| remove: "ctrl_reach c \<Longrightarrow> ctrl_remove p c = Inr c' \<Longrightarrow> ctrl_reach c'"
| evict: "ctrl_reach c \<Longrightarrow> length ns = length (ctrl_policies c) \<Longrightarrow> evict ns c = (c', r) \<Longrightarrow> ctrl_reach c'"

lemma empty_inv:
  "ctrl_inv \<lparr>life_cycle_grouping = g, ctrl_policies = replicate n [], ctrl_cache_level = level, node_refs = {}\<rparr>"
  by (simp add: ctrl_inv_def queued_def prio_pages_def group_ok_def)

lemma controller_init_inv: "controller_init grouping level = Inr c \<Longrightarrow> ctrl_inv c"
  using empty_inv [of grouping "Suc (Max (set grouping))" level]
  by (auto simp: controller_init_def Let_def py_assert_eq_Inr split: if_splits)

lemma ctrl_reach_inv: "ctrl_reach c \<Longrightarrow> ctrl_inv c"
proof (induction rule: ctrl_reach.induct)
  case (evict c ns c' r)
  then show ?case using evict_result [OF evict.IH evict.hyps(2)] by auto
qed (blast intro: controller_init_inv schedule_inv remove_inv)+

section \<open>Properties\<close>

lemma group_sorted:
  "group_ok c i ps \<Longrightarrow> sorted (map priority (prio_pages ps)) \<and>
     (\<forall>p \<in> set (prio_pages ps). ctrl_group c (page_life_cycle p) = Inr i \<and> cache_level p = ctrl_cache_level c)"
proof (induction ps)
  case (Cons kq ps)
  obtain k q where kq: "kq = (k, q)" by (cases kq)
  have "group_ok c i ps" using Cons.prems by (auto simp: group_ok_def)
  then have IH: "sorted (map priority (prio_pages ps))"
      "\<forall>p \<in> set (prio_pages ps). ctrl_group c (page_life_cycle p) = Inr i \<and> cache_level p = ctrl_cache_level c"
    using Cons.IH by blast+
  have q: "\<forall>p \<in> set q. priority p = k \<and> ctrl_group c (page_life_cycle p) = Inr i \<and> cache_level p = ctrl_cache_level c"
    using Cons.prems kq by (auto simp: group_ok_def)
  have "\<forall>p \<in> set (prio_pages ps). k \<le> priority p"
    using Cons.prems kq by (fastforce simp: group_ok_def prio_pages_def)
  moreover have "map priority q = replicate (length q) k" using q by (simp add: map_replicate_const [symmetric])
  then have "sorted (map priority q)" by simp
  ultimately have "sorted (map priority (q @ prio_pages ps))" using IH(1) q by (auto simp: sorted_append)
  then show ?case using IH(2) q kq by (auto simp: prio_pages_def)
qed (simp add: prio_pages_def)

text \<open>
  C32. Over every history of a controller a page is queued at most once, exactly the queued pages carry a
  \<open>node_ref\<close>, and every group yields its pages by ascending priority, each page in the group of its life
  cycle and of the cache level of the controller.
\<close>

theorem eviction_queues_consistent:
  assumes "ctrl_reach c"
  shows "distinct (map page_id (queued c)) \<and> node_refs c = page_id ` set (queued c) \<and>
     (\<forall>i < length (ctrl_policies c). sorted (map priority (prio_pages (ctrl_policies c ! i))) \<and>
        (\<forall>p \<in> set (prio_pages (ctrl_policies c ! i)).
           ctrl_group c (page_life_cycle p) = Inr i \<and> cache_level p = ctrl_cache_level c))"
  using ctrl_reach_inv [OF assms] group_sorted unfolding ctrl_inv_def by blast

abbreviation demo_page :: "int \<Rightarrow> int \<Rightarrow> evictable_page" where
  "demo_page i pr \<equiv> \<lparr>page_id = i, priority = pr, page_life_cycle = 0, cache_level = 0\<rparr>"

abbreviation demo_ctrl :: eviction_controller where
  "demo_ctrl \<equiv> \<lparr>life_cycle_grouping = [0], ctrl_policies = [[(1, [demo_page 10 1]), (2, [demo_page 11 2])]],
     ctrl_cache_level = 0, node_refs = {10, 11}\<rparr>"

lemma demo_ctrl_reach: "ctrl_reach demo_ctrl"
proof -
  let ?c0 = "\<lparr>life_cycle_grouping = [0], ctrl_policies = [[]], ctrl_cache_level = 0, node_refs = {}\<rparr>"
  let ?c1 = "\<lparr>life_cycle_grouping = [0], ctrl_policies = [[(2, [demo_page 11 2])]], ctrl_cache_level = 0, node_refs = {11}\<rparr>"
  have "controller_init [0] 0 = Inr ?c0" by (simp add: controller_init_def)
  then have "ctrl_reach ?c0" by (rule ctrl_reach.init)
  moreover have "schedule_for_eviction (demo_page 11 2) False ?c0 = Inr ?c1"
    by (simp add: schedule_for_eviction_def ctrl_group_def prio_push_def get_policy_def set_policy_def lru_push_def)
  ultimately have "ctrl_reach ?c1" by (rule ctrl_reach.schedule)
  moreover have "schedule_for_eviction (demo_page 10 1) False ?c1 = Inr demo_ctrl"
    by (simp add: schedule_for_eviction_def ctrl_group_def prio_push_def get_policy_def set_policy_def lru_push_def)
  ultimately show ?thesis by (rule ctrl_reach.schedule)
qed

theorem eviction_queues_consistent_witness:
  "sorted (map priority (prio_pages (ctrl_policies demo_ctrl ! 0)))"
  using eviction_queues_consistent [OF demo_ctrl_reach] by simp

text \<open>
  C8. \<open>evict\<close> is all or nothing. Either it returns for every group exactly the number of pages asked for,
  the ones first in eviction order, and leaves the others queued in their order; or it raises, and then
  every page is back at its place and the controller is as before.
\<close>

theorem evict_all_or_nothing:
  assumes "ctrl_reach c" "length ns = length (ctrl_policies c)"
  shows "(\<exists>e. evict ns c = (c, Inl e)) \<or>
     (\<exists>c' ret. evict ns c = (c', Inr ret) \<and> length ret = length ns \<and>
        node_refs c' = node_refs c - page_id ` set (concat ret) \<and>
        (\<forall>i < length ns. int (length (ret ! i)) = max 0 (ns ! i) \<and>
           prio_pages (ctrl_policies c ! i) = ret ! i @ prio_pages (ctrl_policies c' ! i)))"
proof -
  have inv: "ctrl_inv c" using assms(1) by (rule ctrl_reach_inv)
  show ?thesis
    using evict_result [OF inv assms(2)]
  proof (elim disjE exE conjE)
    fix c' ret
    assume res: "first_error (map2 group_error (ctrl_policies c) ns) = None" "evict ns c = (c', Inr ret)" "popped c c' ret"
      "length ret = length ns" "\<forall>i < length ns. ret ! i = take (nat (ns ! i)) (front_queue (ctrl_policies c ! i))"
    have "int (length (ret ! i)) = max 0 (ns ! i) \<and> prio_pages (ctrl_policies c ! i) = ret ! i @ prio_pages (ctrl_policies c' ! i)"
      if i: "i < length ns" for i
    proof
      have "group_error (ctrl_policies c ! i) (ns ! i) = None"
        using map2_error_None [OF assms(2)] res(1) i assms(2) by simp
      then have "ns ! i \<le> int (length (front_queue (ctrl_policies c ! i)))" by (simp add: group_error_None)
      moreover have "length (ret ! i) = min (length (front_queue (ctrl_policies c ! i))) (nat (ns ! i))"
        using res(5) i by simp
      ultimately show "int (length (ret ! i)) = max 0 (ns ! i)" by linarith
      have "group_popped (ctrl_policies c ! i) (ctrl_policies c' ! i) (ret_at ret i)"
        using popped_group [OF res(3)] i assms(2) by simp
      then show "prio_pages (ctrl_policies c ! i) = ret ! i @ prio_pages (ctrl_policies c' ! i)"
        using group_popped_pages i res(4) by (simp add: ret_at_def)
    qed
    then show ?thesis using res(2-4) by (auto simp: popped_def)
  qed blast
qed

theorem evict_all_or_nothing_witness:
  "(\<exists>e. evict [1] demo_ctrl = (demo_ctrl, Inl e)) \<or> (\<exists>c' ret. evict [1] demo_ctrl = (c', Inr ret) \<and> length (ret ! 0) = 1)"
  using evict_all_or_nothing [OF demo_ctrl_reach, of "[1]"] by auto

lemma first_error_at:
  "i < length es \<Longrightarrow> (\<And>j. j < i \<Longrightarrow> es ! j = None) \<Longrightarrow> es ! i = Some e \<Longrightarrow> first_error es = Some e"
proof (induction es arbitrary: i)
  case (Cons x es)
  show ?case
  proof (cases i)
    case 0
    then show ?thesis using Cons.prems by simp
  next
    case (Suc k)
    have "x = None" using Cons.prems(2) [of 0] Suc by simp
    moreover have "first_error es = Some e"
      using Cons.prems(1,3) Cons.prems(2) [of "Suc _"] Suc by (intro Cons.IH [of k]) auto
    ultimately show ?thesis by simp
  qed
qed simp

text \<open>
  C38. \<open>evict\<close> cannot cross a priority boundary. When a group has enough evictable pages but the queue of its
  lowest priority is shorter than the number asked for, the emptied queue stays in the dictionary, the
  next pop runs into it, and the call fails with an \<open>AssertionError\<close> instead of taking pages of the next
  priority.
\<close>

theorem evict_fails_across_priorities:
  assumes "ctrl_reach c" "length ns = length (ctrl_policies c)" "i < length ns"
    and "\<And>j. j < i \<Longrightarrow> ns ! j \<le> int (length (front_queue (ctrl_policies c ! j)))"
    and "int (length (front_queue (ctrl_policies c ! i))) < ns ! i" "num_evictable_pages c i = Inr m" "ns ! i \<le> int m"
  shows "evict ns c = (c, Inl AssertionError)"
proof -
  let ?es = "map2 group_error (ctrl_policies c) ns"
  have nth: "?es ! j = group_error (ctrl_policies c ! j) (ns ! j)" if "j < length ns" for j
    using that assms(2) by simp
  have "?es ! i = Some AssertionError"
    using nth [OF assms(3)] assms(2,3,5-7) by (auto simp: group_error_def num_evictable_pages_def)
  moreover have "?es ! j = None" if "j < i" for j
    using nth [of j] that assms(3,4) by (simp add: group_error_None)
  ultimately have "first_error ?es = Some AssertionError"
    using first_error_at [of i ?es] assms(2,3) by simp
  then show ?thesis using evict_result [OF ctrl_reach_inv [OF assms(1)] assms(2)] by auto
qed

theorem evict_fails_across_priorities_witness:
  "num_evictable_pages demo_ctrl 0 = Inr 2 \<and> evict [2] demo_ctrl = (demo_ctrl, Inl AssertionError)"
proof -
  have n: "num_evictable_pages demo_ctrl 0 = Inr 2" by (simp add: num_evictable_pages_def prio_len_def)
  have "evict [2] demo_ctrl = (demo_ctrl, Inl AssertionError)"
    by (rule evict_fails_across_priorities [OF demo_ctrl_reach _ _ _ _ n]) (simp_all add: front_queue_def)
  then show ?thesis using n by simp
qed

end
