(* ===== verification/LifeCycle.thy ===== *)
theory LifeCycle
  imports KvUtils Complex_Main
begin

text \<open>
  The configuration of the KV cache (\<^verbatim>\<open>kv_cache_manager_v2/_config.py\<close>) with the checks of its
  \<open>__post_init__\<close> methods, and the life cycles of its layers (\<^verbatim>\<open>_life_cycle_registry.py\<close>): which blocks
  of a sequence are stale, because attention with a sliding window or a recurrent state no longer reads
  them, and which blocks of a prompt chunk may share scratch memory. Layers with equal life cycles form
  a layer group, numbered by the registry.
\<close>

section \<open>Configuration\<close>

datatype cache_tier = GPU_MEM | HOST_MEM | DISK

datatype cache_tier_config =
    GpuCacheTierConfig (quota: int)
  | HostCacheTierConfig (quota: int)
  | DiskCacheTierConfig (quota: int) (path: string)

primrec tier :: "cache_tier_config \<Rightarrow> cache_tier" where
  "tier (GpuCacheTierConfig q) = GPU_MEM"
| "tier (HostCacheTierConfig q) = HOST_MEM"
| "tier (DiskCacheTierConfig q p) = DISK"

primrec assert_valid :: "(string \<Rightarrow> bool) \<Rightarrow> cache_tier_config \<Rightarrow> unit result" where
  "assert_valid isdir (GpuCacheTierConfig q) = py_assert (q > 0) (Inr ())"
| "assert_valid isdir (HostCacheTierConfig q) = py_assert (q > 0) (Inr ())"
| "assert_valid isdir (DiskCacheTierConfig q p) = py_assert (q > 0) (py_assert (isdir p) (Inr ()))"

record buffer_config =
  role :: string
  buf_size :: int
  tokens_per_block_override :: "int option"

datatype layer_config =
    AttentionLayerConfig (layer_id: int) (buffers: "buffer_config list") (sliding_window_size: "int option")
      (num_sink_tokens: "int option")
  | SsmLayerConfig (layer_id: int) (buffers: "buffer_config list")

definition layer_init :: "layer_config \<Rightarrow> layer_config result" where
  "layer_init l =
     py_assert (distinct (map role (buffers l)))
       (case l of
          AttentionLayerConfig _ _ _ _ \<Rightarrow> Inr l
        | SsmLayerConfig _ bs \<Rightarrow> py_assert (list_all (\<lambda>b. tokens_per_block_override b = None) bs) (Inr l))"

record kv_cache_desc =
  kv_capacity :: int
  history_length :: int

definition kv_cache_desc_init :: "int \<Rightarrow> int \<Rightarrow> kv_cache_desc result" where
  "kv_cache_desc_init cap hist = py_assert (0 \<le> hist \<and> hist \<le> cap) (Inr \<lparr>kv_capacity = cap, history_length = hist\<rparr>)"

record batch_desc =
  kv_caches :: "kv_cache_desc list"
  system_prompt_length :: int

definition batch_desc_init :: "kv_cache_desc list \<Rightarrow> int \<Rightarrow> batch_desc result" where
  "batch_desc_init kvs n = py_assert (n \<ge> 0) (Inr \<lparr>kv_caches = kvs, system_prompt_length = n\<rparr>)"

text \<open>\<open>swa_scratch_reuse\<close> holds the \<open>max_rewind_len\<close> of its configuration object; Helix is not supported by the code yet.\<close>

record kv_config =
  tokens_per_block :: int
  vocab_size :: int
  cache_tiers :: "cache_tier_config list"
  layers :: "layer_config list"
  max_util_for_resume :: real
  enable_partial_reuse :: bool
  constraints :: "batch_desc list"
  typical_step :: "batch_desc option"
  ssm_reuse_interval :: int
  swa_scratch_reuse :: "int option"
  enable_stats :: bool

text \<open>\<open>a % b\<close> and \<open>all(...)\<close> over a generator that may raise.\<close>

definition py_mod :: "int \<Rightarrow> int \<Rightarrow> int result" where
  "py_mod a b = (if b = 0 then Inl ZeroDivisionError else Inr (a mod b))"

fun py_all :: "('a \<Rightarrow> bool result) \<Rightarrow> 'a list \<Rightarrow> bool result" where
  "py_all p [] = Inr True"
| "py_all p (x # xs) = rbind (p x) (\<lambda>b. if b then py_all p xs else Inr False)"

definition is_ssm_layer :: "layer_config \<Rightarrow> bool" where
  "is_ssm_layer l = (case l of SsmLayerConfig _ _ \<Rightarrow> True | _ \<Rightarrow> False)"

definition override_divides :: "int \<Rightarrow> buffer_config \<Rightarrow> bool result" where
  "override_divides tpb b =
     (case tokens_per_block_override b of
        None \<Rightarrow> Inr True
      | Some t \<Rightarrow> rbind (py_mod tpb t) (\<lambda>m. Inr (m = 0)))"

definition kv_config_init :: "kv_config \<Rightarrow> kv_config result" where
  "kv_config_init cfg =
     py_assert (cache_tiers cfg \<noteq> [] \<and> tier (hd (cache_tiers cfg)) = GPU_MEM)
     (py_assert (distinct (map layer_id (layers cfg)))
     (rbind (py_all (override_divides (tokens_per_block cfg)) (concat (map buffers (layers cfg)))) (\<lambda>ok.
      py_assert ok
      (if list_ex is_ssm_layer (layers cfg)
       then py_assert (ssm_reuse_interval cfg > 0)
         (rbind (py_mod (ssm_reuse_interval cfg) (tokens_per_block cfg)) (\<lambda>m.
          py_assert (m = 0) (py_assert (\<not> enable_partial_reuse cfg) (Inr cfg))))
       else Inr cfg))))"

section \<open>Life cycles\<close>

datatype life_cycle = AttnLifeCycle (window_size: "int option") (num_sink_blocks: int) | SsmLifeCycle

definition attn_make :: "int option \<Rightarrow> int option \<Rightarrow> int \<Rightarrow> life_cycle result" where
  "attn_make window sinks tpb =
     py_assert (tpb > 0)
     (py_assert (case window of None \<Rightarrow> True | Some w \<Rightarrow> w > 0)
     (py_assert (case sinks of None \<Rightarrow> True | Some n \<Rightarrow> n \<ge> 0)
     (py_assert (sinks = None \<or> sinks = Some 0 \<or> window \<noteq> None)
     (Inr (AttnLifeCycle window (div_up (value_or sinks 0) tpb))))))"

definition get_stale_range :: "life_cycle \<Rightarrow> int \<Rightarrow> int \<Rightarrow> half_open_range" where
  "get_stale_range lc history tpb =
     (case lc of
        AttnLifeCycle window sink_blocks \<Rightarrow>
          (let num_blocks = div_up history tpb; start = min num_blocks sink_blocks in
           case window of
             None \<Rightarrow> (start, start)
           | Some w \<Rightarrow> (start, max start ((history + 1 - w) div tpb)))
      | SsmLifeCycle \<Rightarrow> (0, history div tpb))"

definition make_life_cycle :: "layer_config \<Rightarrow> int \<Rightarrow> life_cycle result" where
  "make_life_cycle l tpb =
     (case l of
        SsmLayerConfig _ _ \<Rightarrow> Inr SsmLifeCycle
      | AttentionLayerConfig _ _ w s \<Rightarrow> attn_make w s tpb)"

definition compute_scratch_range :: "life_cycle \<Rightarrow> int \<Rightarrow> int \<Rightarrow> int \<Rightarrow> int \<Rightarrow> half_open_range" where
  "compute_scratch_range lc history cap tpb rewind =
     (case lc of
        AttnLifeCycle (Some w) sink_blocks \<Rightarrow>
          (let non_rewindable = max 0 (cap - rewind);
               cap_stale = get_stale_range lc non_rewindable tpb;
               input_range = (div_up history tpb, div_up cap tpb)
           in intersect cap_stale input_range)
      | _ \<Rightarrow> (0, 0))"

section \<open>The registry\<close>

record life_cycle_registry =
  life_cycle_list :: "life_cycle list"
  life_cycle_id_dict :: "(life_cycle \<times> nat) list"

definition registry_add :: "int \<Rightarrow> layer_config \<Rightarrow> life_cycle_registry \<Rightarrow> life_cycle_registry result" where
  "registry_add tpb l reg =
     rbind (make_life_cycle l tpb) (\<lambda>details.
       if map_of (life_cycle_id_dict reg) details = None
       then py_assert (length (life_cycle_id_dict reg) = length (life_cycle_list reg))
         (Inr \<lparr>life_cycle_list = life_cycle_list reg @ [details],
               life_cycle_id_dict = life_cycle_id_dict reg @ [(details, length (life_cycle_list reg))]\<rparr>)
       else Inr reg)"

definition registry_init :: "kv_config \<Rightarrow> life_cycle_registry result" where
  "registry_init cfg =
     rfold (registry_add (tokens_per_block cfg)) (layers cfg) \<lparr>life_cycle_list = [], life_cycle_id_dict = []\<rparr>"

definition get_life_cycle :: "life_cycle_registry \<Rightarrow> nat \<Rightarrow> life_cycle result" where
  "get_life_cycle reg i = (if i < length (life_cycle_list reg) then Inr (life_cycle_list reg ! i) else Inl IndexError)"

definition get_id :: "life_cycle_registry \<Rightarrow> life_cycle \<Rightarrow> nat result" where
  "get_id reg lc = (case map_of (life_cycle_id_dict reg) lc of None \<Rightarrow> Inl KeyError | Some i \<Rightarrow> Inr i)"

definition registry_size :: "life_cycle_registry \<Rightarrow> nat result" where
  "registry_size reg =
     py_assert (length (life_cycle_list reg) = length (life_cycle_id_dict reg)) (Inr (length (life_cycle_list reg)))"

definition registry_items :: "life_cycle_registry \<Rightarrow> (nat \<times> life_cycle) list" where
  "registry_items reg = enumerate 0 (life_cycle_list reg)"

definition registry_contains :: "life_cycle_registry \<Rightarrow> life_cycle \<Rightarrow> bool" where
  "registry_contains reg lc = (map_of (life_cycle_id_dict reg) lc \<noteq> None)"

definition ssm_life_cycle_id :: "life_cycle_registry \<Rightarrow> nat option" where
  "ssm_life_cycle_id reg = map_of (life_cycle_id_dict reg) SsmLifeCycle"

definition has_ssm :: "life_cycle_registry \<Rightarrow> bool" where
  "has_ssm reg = (map_of (life_cycle_id_dict reg) SsmLifeCycle \<noteq> None)"

definition attention_life_cycles :: "life_cycle_registry \<Rightarrow> (nat \<times> life_cycle) list" where
  "attention_life_cycles reg = filter (\<lambda>(i, lc). lc \<noteq> SsmLifeCycle) (registry_items reg)"

section \<open>What stale means\<close>

text \<open>
  Block \<open>b\<close> holds the tokens from \<open>b * tpb\<close> to before \<open>(b + 1) * tpb\<close>. With a window of \<open>w\<close> tokens the
  next token, number \<open>history\<close>, reads the tokens from \<open>history + 1 - w\<close> on.
\<close>

lemma stale_attn:
  assumes "0 < tpb" "0 \<le> history" "0 < w" "0 \<le> s"
  shows "range_contains (get_stale_range (AttnLifeCycle (Some w) s) history tpb) b \<longleftrightarrow>
     s \<le> b \<and> (b + 1) * tpb \<le> history + 1 - w"
proof -
  have iff: "b < (history + 1 - w) div tpb \<longleftrightarrow> (b + 1) * tpb \<le> history + 1 - w"
    using div_le_iff [OF assms(1), of "b + 1" "history + 1 - w"] by auto
  have few: "b < div_up history tpb" if "(b + 1) * tpb \<le> history + 1 - w"
  proof -
    have "(b + 1) * tpb \<le> history" using that assms(3) by linarith
    then have "b + 1 \<le> history div tpb" using div_le_iff [OF assms(1)] by blast
    then show ?thesis using div_up_ge_div [OF assms(1), of history] by linarith
  qed
  show ?thesis
    using iff few by (auto simp: range_contains_def get_stale_range_def Let_def min_def max_def split: if_splits)
qed

lemma stale_ssm:
  "0 < tpb \<Longrightarrow> range_contains (get_stale_range SsmLifeCycle history tpb) b \<longleftrightarrow> 0 \<le> b \<and> (b + 1) * tpb \<le> history"
  using div_le_iff [of tpb "b + 1" history] by (auto simp: range_contains_def get_stale_range_def)

lemma stale_full: "\<not> range_contains (get_stale_range (AttnLifeCycle None s) history tpb) b"
  by (auto simp: range_contains_def get_stale_range_def Let_def)

definition wf_life_cycle :: "life_cycle \<Rightarrow> bool" where
  "wf_life_cycle lc \<longleftrightarrow> (case lc of AttnLifeCycle w s \<Rightarrow> 0 \<le> s \<and> (\<forall>n. w = Some n \<longrightarrow> 0 < n) | SsmLifeCycle \<Rightarrow> True)"

lemma make_life_cycle_wf: "make_life_cycle l tpb = Inr lc \<Longrightarrow> wf_life_cycle lc"
  by (cases l) (auto simp: make_life_cycle_def attn_make_def wf_life_cycle_def py_assert_eq_Inr value_or_def
      div_up_nonneg split: option.splits)

lemma stale_grows:
  assumes "0 < tpb" "0 \<le> h" "h \<le> h'" "wf_life_cycle lc" "range_contains (get_stale_range lc h tpb) b"
  shows "range_contains (get_stale_range lc h' tpb) b"
proof (cases lc)
  case SsmLifeCycle
  then show ?thesis using assms by (simp add: stale_ssm)
next
  case (AttnLifeCycle win s)
  then show ?thesis
    using assms by (cases win) (auto simp: stale_attn stale_full wf_life_cycle_def)
qed

lemma scratch_iff:
  assumes "0 < tpb" "0 \<le> h" "wf_life_cycle lc"
  shows "range_contains (compute_scratch_range lc h cap tpb rewind) b \<longleftrightarrow>
    (\<exists>w s. lc = AttnLifeCycle (Some w) s) \<and>
    range_contains (get_stale_range lc (max 0 (cap - rewind)) tpb) b \<and> h \<le> b * tpb \<and> b * tpb < cap"
proof -
  have "div_up h tpb \<le> b \<longleftrightarrow> h \<le> b * tpb" "b < div_up cap tpb \<longleftrightarrow> b * tpb < cap"
    using div_up_le_iff [OF assms(1)] by (auto simp: not_le [symmetric])
  then show ?thesis
    by (cases lc rule: life_cycle.exhaust)
      (auto simp: compute_scratch_range_def range_contains_intersect range_contains_def Let_def intersect_def
        split: option.splits)
qed

section \<open>Numbering of the layer groups\<close>

definition registry_inv :: "life_cycle_registry \<Rightarrow> bool" where
  "registry_inv reg \<longleftrightarrow> distinct (life_cycle_list reg) \<and>
     life_cycle_id_dict reg = zip (life_cycle_list reg) [0..<length (life_cycle_list reg)]"

lemma registry_lookup:
  assumes "registry_inv reg"
  shows "map_of (life_cycle_id_dict reg) lc = Some i \<longleftrightarrow> i < length (life_cycle_list reg) \<and> life_cycle_list reg ! i = lc"
    and "map_of (life_cycle_id_dict reg) lc = None \<longleftrightarrow> lc \<notin> set (life_cycle_list reg)"
proof -
  let ?l = "life_cycle_list reg"
  have d: "distinct (map fst (life_cycle_id_dict reg))" using assms by (simp add: registry_inv_def)
  have "map_of (life_cycle_id_dict reg) lc = Some i \<longleftrightarrow> (lc, i) \<in> set (life_cycle_id_dict reg)"
    using d by (rule map_of_eq_Some_iff)
  also have "\<dots> \<longleftrightarrow> i < length ?l \<and> ?l ! i = lc"
    using assms by (auto simp: registry_inv_def in_set_zip)
  finally show "map_of (life_cycle_id_dict reg) lc = Some i \<longleftrightarrow> i < length ?l \<and> ?l ! i = lc" .
  show "map_of (life_cycle_id_dict reg) lc = None \<longleftrightarrow> lc \<notin> set ?l"
    using assms by (simp add: registry_inv_def map_of_eq_None_iff set_map [symmetric] del: set_map)
qed

lemma registry_add_inv:
  assumes "registry_inv reg" "registry_add tpb l reg = Inr reg'"
  shows "registry_inv reg' \<and> (\<exists>lc. make_life_cycle l tpb = Inr lc \<and>
     life_cycle_list reg' = life_cycle_list reg @ (if lc \<in> set (life_cycle_list reg) then [] else [lc]))"
proof -
  obtain lc where lc: "make_life_cycle l tpb = Inr lc"
    using assms(2) by (auto simp: registry_add_def rbind_eq_Inr)
  show ?thesis
  proof (cases "lc \<in> set (life_cycle_list reg)")
    case True
    then have "reg' = reg" using assms lc registry_lookup(2) by (auto simp: registry_add_def)
    then show ?thesis using True assms(1) lc by simp
  next
    case False
    then have "map_of (life_cycle_id_dict reg) lc = None" using assms(1) registry_lookup(2) by blast
    then show ?thesis
      using False assms lc by (auto simp: registry_add_def registry_inv_def py_assert_eq_Inr zip_append)
  qed
qed

text \<open>The groups in the order in which the layers first mention them.\<close>

definition first_seen :: "'a list \<Rightarrow> 'a list" where
  "first_seen xs = rev (remdups (rev xs))"

lemma first_seen_snoc: "first_seen (xs @ [x]) = first_seen xs @ (if x \<in> set xs then [] else [x])"
  by (simp add: first_seen_def)

lemma set_first_seen [simp]: "set (first_seen xs) = set xs"
  by (simp add: first_seen_def)

lemma registry_init_list:
  assumes "registry_init cfg = Inr reg"
  shows "registry_inv reg \<and> (\<exists>lcs. map (\<lambda>l. make_life_cycle l (tokens_per_block cfg)) (layers cfg) = map Inr lcs \<and>
     life_cycle_list reg = first_seen lcs)"
proof -
  let ?start = "\<lparr>life_cycle_list = [], life_cycle_id_dict = []\<rparr>"
  have "rfold (registry_add tpb) ls ?start = Inr reg \<Longrightarrow> registry_inv reg \<and>
      (\<exists>lcs. map (\<lambda>l. make_life_cycle l tpb) ls = map Inr lcs \<and> life_cycle_list reg = first_seen lcs)" for tpb ls reg
  proof (induction ls arbitrary: reg rule: rev_induct)
    case Nil
    then show ?case by (auto simp: registry_inv_def first_seen_def)
  next
    case (snoc l ls)
    then obtain r1 where r1: "rfold (registry_add tpb) ls ?start = Inr r1" "registry_add tpb l r1 = Inr reg"
      by (auto simp: rfold_append rbind_eq_Inr)
    then obtain lcs where lcs: "registry_inv r1" "map (\<lambda>l. make_life_cycle l tpb) ls = map Inr lcs"
        "life_cycle_list r1 = first_seen lcs"
      using snoc.IH by blast
    obtain lc where "registry_inv reg" "make_life_cycle l tpb = Inr lc"
        "life_cycle_list reg = life_cycle_list r1 @ (if lc \<in> set (life_cycle_list r1) then [] else [lc])"
      using registry_add_inv [OF lcs(1) r1(2)] by blast
    then show ?case
      using lcs by (intro conjI exI [of _ "lcs @ [lc]"]) (simp_all add: first_seen_snoc)
  qed
  then show ?thesis using assms by (simp add: registry_init_def)
qed

section \<open>Properties\<close>

text \<open>
  C20. \<open>get_stale_range\<close> is exact: for a layer with a sliding window a block is stale when it is behind
  the blocks of the sink tokens and the next token reads none of its tokens; without a window no block
  is; for a recurrent layer every full block is. A stale block stays stale as the history grows, so
  its memory can be given up for good.
\<close>

theorem stale_range_exact:
  assumes "make_life_cycle l tpb = Inr lc" "0 < tpb" "0 \<le> h"
  shows "(range_contains (get_stale_range lc h tpb) b \<longleftrightarrow>
       (case l of
          AttentionLayerConfig _ _ (Some w) sinks \<Rightarrow>
            div_up (value_or sinks 0) tpb \<le> b \<and> (\<forall>t. b * tpb \<le> t \<and> t < (b + 1) * tpb \<longrightarrow> t + w \<le> h)
        | AttentionLayerConfig _ _ None sinks \<Rightarrow> False
        | SsmLayerConfig _ _ \<Rightarrow> 0 \<le> b \<and> (b + 1) * tpb \<le> h)) \<and>
     (\<forall>h' \<ge> h. range_contains (get_stale_range lc h tpb) b \<longrightarrow> range_contains (get_stale_range lc h' tpb) b)"
proof
  have wf: "wf_life_cycle lc" using assms(1) by (rule make_life_cycle_wf)
  then show "\<forall>h' \<ge> h. range_contains (get_stale_range lc h tpb) b \<longrightarrow> range_contains (get_stale_range lc h' tpb) b"
    using stale_grows [OF assms(2,3)] by blast
  have tokens: "(\<forall>t. b * tpb \<le> t \<and> t < (b + 1) * tpb \<longrightarrow> t + w \<le> h) \<longleftrightarrow> (b + 1) * tpb \<le> h + 1 - w" for w
  proof
    assume all: "\<forall>t. b * tpb \<le> t \<and> t < (b + 1) * tpb \<longrightarrow> t + w \<le> h"
    have "b * tpb \<le> (b + 1) * tpb - 1" using assms(2) by (simp add: algebra_simps)
    then show "(b + 1) * tpb \<le> h + 1 - w" using all [rule_format, of "(b + 1) * tpb - 1"] by simp
  qed auto
  show "range_contains (get_stale_range lc h tpb) b \<longleftrightarrow>
       (case l of
          AttentionLayerConfig _ _ (Some w) sinks \<Rightarrow>
            div_up (value_or sinks 0) tpb \<le> b \<and> (\<forall>t. b * tpb \<le> t \<and> t < (b + 1) * tpb \<longrightarrow> t + w \<le> h)
        | AttentionLayerConfig _ _ None sinks \<Rightarrow> False
        | SsmLayerConfig _ _ \<Rightarrow> 0 \<le> b \<and> (b + 1) * tpb \<le> h)"
  proof (cases l)
    case (SsmLayerConfig i bs)
    then have "lc = SsmLifeCycle" using assms(1) by (simp add: make_life_cycle_def)
    then show ?thesis using SsmLayerConfig stale_ssm [OF assms(2)] by simp
  next
    case (AttentionLayerConfig i bs win sinks)
    then have lc: "lc = AttnLifeCycle win (div_up (value_or sinks 0) tpb)"
      using assms(1) by (simp add: make_life_cycle_def attn_make_def py_assert_eq_Inr)
    show ?thesis
    proof (cases win)
      case None
      then show ?thesis using lc AttentionLayerConfig by (simp add: stale_full)
    next
      case (Some w)
      then have "0 < w" "0 \<le> div_up (value_or sinks 0) tpb" using wf lc by (simp_all add: wf_life_cycle_def)
      then show ?thesis
        using lc AttentionLayerConfig Some stale_attn [OF assms(2,3)] tokens [of w] by simp
    qed
  qed
qed

abbreviation demo_layer :: layer_config where
  "demo_layer \<equiv> AttentionLayerConfig 0 [\<lparr>role = ''key'', buf_size = 64, tokens_per_block_override = None\<rparr>] (Some 100) (Some 4)"

theorem stale_range_exact_witness:
  "range_contains (get_stale_range (AttnLifeCycle (Some 100) 1) 200 32) 2"
proof -
  have mk: "make_life_cycle demo_layer 32 = Inr (AttnLifeCycle (Some 100) 1)"
    by (simp add: make_life_cycle_def attn_make_def value_or_def div_up_def)
  show ?thesis
    using stale_range_exact [OF mk, of 200 2] by (auto simp: value_or_def div_up_def)
qed

text \<open>
  C21. The blocks that share scratch memory during a prompt chunk are expendable: they hold no token of the
  history, they lie within the capacity, and whatever of the speculative tail of at most
  \<open>max_rewind_len\<close> tokens is rewound afterwards, they are stale.
\<close>

theorem scratch_blocks_expendable:
  assumes "make_life_cycle l tpb = Inr lc" "0 < tpb" "0 \<le> h"
    and "range_contains (compute_scratch_range lc h cap tpb rewind) b"
  shows "(\<forall>t. b * tpb \<le> t \<and> t < (b + 1) * tpb \<longrightarrow> h \<le> t) \<and> b * tpb < cap \<and>
     (\<forall>h'. 0 \<le> h' \<and> cap - rewind \<le> h' \<longrightarrow> range_contains (get_stale_range lc h' tpb) b)"
proof -
  have wf: "wf_life_cycle lc" using assms(1) by (rule make_life_cycle_wf)
  note scr = scratch_iff [OF assms(2,3) wf, of cap rewind b, THEN iffD1, OF assms(4)]
  have "range_contains (get_stale_range lc h' tpb) b" if "0 \<le> h'" "cap - rewind \<le> h'" for h'
    using stale_grows [OF assms(2) _ _ wf, of "max 0 (cap - rewind)" h' b] scr that by simp
  then show ?thesis using scr by auto
qed

theorem scratch_blocks_expendable_witness:
  "range_contains (get_stale_range (AttnLifeCycle (Some 100) 1) 500 32) 5"
proof -
  have mk: "make_life_cycle demo_layer 32 = Inr (AttnLifeCycle (Some 100) 1)"
    by (simp add: make_life_cycle_def attn_make_def value_or_def div_up_def)
  have "range_contains (compute_scratch_range (AttnLifeCycle (Some 100) 1) 64 500 32 4) 5"
    by (simp add: compute_scratch_range_def get_stale_range_def range_contains_def intersect_def div_up_def Let_def)
  then show ?thesis using scratch_blocks_expendable [OF mk, of 64 500 4 5] by simp
qed

text \<open>
  The registry numbers the layer groups without gaps in the order in which the layers first mention
  them, and its two tables are inverse to each other: every layer of the configuration finds its
  group, every number below the size is the number of its group, and nothing else has one.
\<close>

theorem registry_numbers_groups:
  assumes "registry_init cfg = Inr reg"
  shows "registry_size reg = Inr (length (life_cycle_list reg)) \<and> distinct (life_cycle_list reg) \<and>
     (\<forall>lc i. get_id reg lc = Inr i \<longleftrightarrow> get_life_cycle reg i = Inr lc) \<and>
     (\<forall>l \<in> set (layers cfg). \<exists>lc i. make_life_cycle l (tokens_per_block cfg) = Inr lc \<and> get_id reg lc = Inr i) \<and>
     (\<forall>i < length (life_cycle_list reg). \<exists>l \<in> set (layers cfg).
        make_life_cycle l (tokens_per_block cfg) = get_life_cycle reg i)"
proof -
  obtain lcs where inv: "registry_inv reg"
    and lcs: "map (\<lambda>l. make_life_cycle l (tokens_per_block cfg)) (layers cfg) = map Inr lcs"
      "life_cycle_list reg = first_seen lcs"
    using registry_init_list [OF assms] by blast
  have look: "get_id reg lc = Inr i \<longleftrightarrow> get_life_cycle reg i = Inr lc" for lc i
    using registry_lookup(1) [OF inv, of lc i] by (auto simp: get_id_def get_life_cycle_def split: option.splits)
  have img: "(\<lambda>l. make_life_cycle l (tokens_per_block cfg)) ` set (layers cfg) = Inr ` set (life_cycle_list reg)"
    using arg_cong [OF lcs(1), of set] lcs(2) by simp
  have "\<exists>lc i. make_life_cycle l (tokens_per_block cfg) = Inr lc \<and> get_id reg lc = Inr i" if l: "l \<in> set (layers cfg)" for l
  proof -
    have "make_life_cycle l (tokens_per_block cfg) \<in> Inr ` set (life_cycle_list reg)" using img l by blast
    then obtain lc where lc: "make_life_cycle l (tokens_per_block cfg) = Inr lc" "lc \<in> set (life_cycle_list reg)" by blast
    then obtain i where "i < length (life_cycle_list reg)" "life_cycle_list reg ! i = lc" by (auto simp: in_set_conv_nth)
    then have "get_life_cycle reg i = Inr lc" by (simp add: get_life_cycle_def)
    then show ?thesis using lc(1) look by blast
  qed
  moreover have "\<exists>l \<in> set (layers cfg). make_life_cycle l (tokens_per_block cfg) = get_life_cycle reg i"
    if i: "i < length (life_cycle_list reg)" for i
  proof -
    have "Inr (life_cycle_list reg ! i) \<in> (\<lambda>l. make_life_cycle l (tokens_per_block cfg)) ` set (layers cfg)"
      using img nth_mem [OF i] by blast
    then show ?thesis using i by (auto simp: get_life_cycle_def)
  qed
  ultimately show ?thesis
    using inv look by (simp add: registry_inv_def registry_size_def)
qed

definition demo_kv_config :: kv_config where
  "demo_kv_config = \<lparr>tokens_per_block = 32, vocab_size = 1000, cache_tiers = [GpuCacheTierConfig 1000000],
     layers = [demo_layer, SsmLayerConfig 1 [], AttentionLayerConfig 2 [] None None],
     max_util_for_resume = 1, enable_partial_reuse = False, constraints = [], typical_step = None, ssm_reuse_interval = 512,
     swa_scratch_reuse = None, enable_stats = True\<rparr>"

theorem registry_numbers_groups_witness:
  "\<exists>reg. registry_init demo_kv_config = Inr reg \<and> get_id reg SsmLifeCycle = Inr 1 \<and> get_life_cycle reg 1 = Inr SsmLifeCycle"
proof -
  obtain reg where reg: "registry_init demo_kv_config = Inr reg"
      "life_cycle_list reg = [AttnLifeCycle (Some 100) 1, SsmLifeCycle, AttnLifeCycle None 0]"
    by (simp add: registry_init_def demo_kv_config_def registry_add_def make_life_cycle_def attn_make_def
        value_or_def div_up_def)
  have "get_life_cycle reg 1 = Inr SsmLifeCycle" using reg(2) by (simp add: get_life_cycle_def)
  then show ?thesis using registry_numbers_groups [OF reg(1)] reg(1) by blast
qed

end
