(* ===== verification/StorageConfig.thy ===== *)
theory StorageConfig
  imports LifeCycle "HOL-Library.AList"
begin

text \<open>
  How the buffers of all layers are laid out in memory pools, \<^verbatim>\<open>kv_cache_manager_v2/_storage/_config.py\<close>.
  Buffers of one life cycle and one size are coalesced into one slot of a pool; the pools of a life
  cycle form a pool group, which life cycles with equal slot sizes share. Dictionaries are association
  lists in the order of first insertion.
\<close>

section \<open>Data\<close>

type_synonym buffer_id = "int \<times> string"

record coalesced_buffer =
  single_buffer_size :: int
  buffer_ids :: "buffer_id list"

definition cb_size :: "coalesced_buffer \<Rightarrow> int" where
  "cb_size cb = single_buffer_size cb * int (length (buffer_ids cb))"

definition num_buffers :: "coalesced_buffer \<Rightarrow> nat" where
  "num_buffers cb = length (buffer_ids cb)"

record slot_desc_variant =
  sv_life_cycle_id :: nat
  coalesced_buffers :: "coalesced_buffer list"

definition slot_size_list :: "slot_desc_variant \<Rightarrow> int list" where
  "slot_size_list v = map cb_size (coalesced_buffers v)"

fun is_sorted_desc :: "int list \<Rightarrow> bool" where
  "is_sorted_desc (a # b # xs) = (a \<ge> b \<and> is_sorted_desc (b # xs))"
| "is_sorted_desc _ = True"

definition slot_desc_variant_init :: "nat \<Rightarrow> coalesced_buffer list \<Rightarrow> slot_desc_variant result" where
  "slot_desc_variant_init lc cbs =
     py_assert (is_sorted_desc (map cb_size cbs)) (Inr \<lparr>sv_life_cycle_id = lc, coalesced_buffers = cbs\<rparr>)"

type_synonym slot_desc = "slot_desc_variant list"

definition slot_desc_size_list :: "slot_desc \<Rightarrow> int list result" where
  "slot_desc_size_list vs = (case vs of [] \<Rightarrow> Inl StopIteration | v # _ \<Rightarrow> Inr (slot_size_list v))"

record buffer_attr =
  ba_life_cycle_id :: nat
  ba_pool_index :: nat
  ba_offset :: int
  ba_size :: int
  ba_expansion :: int

record storage_config =
  sc_cache_tiers :: "cache_tier_config list"
  slot_desc_list :: "slot_desc list"
  expansion :: "(buffer_id \<times> int) list"

definition sc_variants :: "storage_config \<Rightarrow> slot_desc_variant list" where
  "sc_variants sc = concat (slot_desc_list sc)"

definition num_life_cycles :: "storage_config \<Rightarrow> nat" where
  "num_life_cycles sc = sum_list (map length (slot_desc_list sc))"

definition storage_config_init :: "storage_config \<Rightarrow> storage_config result" where
  "storage_config_init sc = py_assert (distinct (map sv_life_cycle_id (sc_variants sc))) (Inr sc)"

section \<open>Queries\<close>

text \<open>An assignment \<open>ret[i] = v\<close> beyond the end of a list raises \<open>IndexError\<close>; \<open>-1\<close> marks a life cycle without a group.\<close>

definition list_store :: "nat \<Rightarrow> 'a \<Rightarrow> 'a list \<Rightarrow> 'a list result" where
  "list_store i v xs = (if i < length xs then Inr (xs[i := v]) else Inl IndexError)"

definition sc_life_cycle_grouping :: "storage_config \<Rightarrow> int list result" where
  "sc_life_cycle_grouping sc =
     rfold (\<lambda>(i, pg). rfold (\<lambda>v. list_store (sv_life_cycle_id v) (int i)) pg) (enumerate 0 (slot_desc_list sc))
       (replicate (num_life_cycles sc) (- 1))"

definition slot_to_page_indices :: "storage_config \<Rightarrow> nat list list result" where
  "slot_to_page_indices sc =
     rfold (rfold (\<lambda>v. list_store (sv_life_cycle_id v) (map num_buffers (coalesced_buffers v)))) (slot_desc_list sc)
       (replicate (num_life_cycles sc) [])"

fun place_buffers ::
  "nat \<Rightarrow> nat \<Rightarrow> int \<Rightarrow> (buffer_id \<times> int) list \<Rightarrow> int \<Rightarrow> buffer_id list \<Rightarrow> (buffer_id \<times> buffer_attr) list" where
  "place_buffers lc pool sz exps off [] = []"
| "place_buffers lc pool sz exps off (b # bs) =
     (b, \<lparr>ba_life_cycle_id = lc, ba_pool_index = pool, ba_offset = off, ba_size = sz,
          ba_expansion = value_or (map_of exps b) 1\<rparr>) # place_buffers lc pool sz exps (off + sz) bs"

definition variant_attrs :: "(buffer_id \<times> int) list \<Rightarrow> slot_desc_variant \<Rightarrow> (buffer_id \<times> buffer_attr) list" where
  "variant_attrs exps v =
     concat (map (\<lambda>(pool, cb). place_buffers (sv_life_cycle_id v) pool (single_buffer_size cb) exps 0 (buffer_ids cb))
       (enumerate 0 (coalesced_buffers v)))"

definition buffer_attributes :: "storage_config \<Rightarrow> (buffer_id \<times> buffer_attr) list" where
  "buffer_attributes sc =
     fold (\<lambda>(b, a) ret. AList.update b a ret) (concat (map (variant_attrs (expansion sc)) (sc_variants sc))) []"

definition layer_to_life_cycle_ids :: "storage_config \<Rightarrow> (int \<times> nat) list result" where
  "layer_to_life_cycle_ids sc =
     rfold (\<lambda>((lid, _), attr) d.
        case map_of d lid of
          None \<Rightarrow> Inr (d @ [(lid, ba_life_cycle_id attr)])
        | Some lc \<Rightarrow> py_assert (lc = ba_life_cycle_id attr) (Inr d)) (buffer_attributes sc) []"

section \<open>Construction\<close>

type_synonym size_groups = "(int \<times> buffer_id list) list"

fun dict_modify :: "'k \<Rightarrow> ('v \<Rightarrow> 'v) \<Rightarrow> 'v \<Rightarrow> ('k \<times> 'v) list \<Rightarrow> ('k \<times> 'v) list" where
  "dict_modify k f d0 [] = [(k, f d0)]"
| "dict_modify k f d0 ((k', v) # d) = (if k' = k then (k', f v) # d else (k', v) # dict_modify k f d0 d)"

definition add_buffer ::
  "int \<Rightarrow> int \<Rightarrow> nat \<Rightarrow> buffer_config \<Rightarrow> (nat \<times> size_groups) list \<times> (buffer_id \<times> int) list
     \<Rightarrow> ((nat \<times> size_groups) list \<times> (buffer_id \<times> int) list) result" where
  "add_buffer tpb lid lc b st =
     (case st of (groups, exps) \<Rightarrow>
        rbind (exact_div tpb (value_or (tokens_per_block_override b) tpb)) (\<lambda>e.
        let bid = (lid, role b) in
        Inr (dict_modify lc (\<lambda>g. dict_append g (buf_size b * e) bid) [] groups, AList.update bid e exps)))"

definition add_layer ::
  "int \<Rightarrow> life_cycle_registry \<Rightarrow> layer_config \<Rightarrow> (nat \<times> size_groups) list \<times> (buffer_id \<times> int) list
     \<Rightarrow> ((nat \<times> size_groups) list \<times> (buffer_id \<times> int) list) result" where
  "add_layer tpb reg l st =
     rbind (make_life_cycle l tpb) (\<lambda>lc.
     rbind (get_id reg lc) (\<lambda>i.
     rfold (add_buffer tpb (layer_id l) i) (buffers l) (dict_modify i (\<lambda>g. g) [] (fst st), snd st)))"

definition make_variant :: "nat \<times> size_groups \<Rightarrow> slot_desc_variant result" where
  "make_variant g =
     slot_desc_variant_init (fst g)
       (sort_key (\<lambda>cb. - cb_size cb) (map (\<lambda>(sz, bs). \<lparr>single_buffer_size = sz, buffer_ids = bs\<rparr>) (snd g)))"

definition create_storage_config :: "kv_config \<Rightarrow> storage_config result" where
  "create_storage_config cfg =
     rbind (registry_init cfg) (\<lambda>reg.
     rbind (rfold (add_layer (tokens_per_block cfg) reg) (layers cfg) ([], [])) (\<lambda>(groups, exps).
     rbind (rfold (\<lambda>g vs. rbind (make_variant g) (\<lambda>v. Inr (vs @ [v]))) groups []) (\<lambda>slot_groups.
     storage_config_init
       \<lparr>sc_cache_tiers = cache_tiers cfg,
        slot_desc_list = map snd (partition_by slot_groups slot_size_list),
        expansion = exps\<rparr>)))"

section \<open>Every buffer is placed once\<close>

text \<open>The triples of life cycle, size and buffer that the tables of the construction hold.\<close>

type_synonym placement = "nat \<times> int \<times> buffer_id"

definition size_entries :: "nat \<Rightarrow> size_groups \<Rightarrow> placement list" where
  "size_entries lc g = concat (map (\<lambda>(sz, bs). map (\<lambda>b. (lc, sz, b)) bs) g)"

definition group_entries :: "(nat \<times> size_groups) list \<Rightarrow> placement list" where
  "group_entries groups = concat (map (\<lambda>(lc, g). size_entries lc g) groups)"

definition variant_entries :: "slot_desc_variant \<Rightarrow> placement list" where
  "variant_entries v =
     concat (map (\<lambda>cb. map (\<lambda>b. (sv_life_cycle_id v, single_buffer_size cb, b)) (buffer_ids cb)) (coalesced_buffers v))"

lemma size_entries_append: "mset (size_entries lc (dict_append g sz b)) = add_mset (lc, sz, b) (mset (size_entries lc g))"
  by (induction g sz b rule: dict_append.induct) (auto simp: size_entries_def)

lemma group_entries_modify:
  assumes "\<And>g. mset (size_entries lc (f g)) = mset xs + mset (size_entries lc g)" "size_entries lc d0 = []"
  shows "mset (group_entries (dict_modify lc f d0 groups)) = mset xs + mset (group_entries groups)"
  by (induction groups) (auto simp: group_entries_def assms)

lemma keys_dict_modify: "fst ` set (dict_modify k f d0 d) = insert k (fst ` set d)"
  by (induction k f d0 d rule: dict_modify.induct) auto

lemma distinct_dict_modify: "distinct (map fst d) \<Longrightarrow> distinct (map fst (dict_modify k f d0 d))"
  by (induction k f d0 d rule: dict_modify.induct) (auto simp: keys_dict_modify)

text \<open>What the configuration says about one buffer.\<close>

definition buffer_expansion :: "int \<Rightarrow> buffer_config \<Rightarrow> int" where
  "buffer_expansion tpb b = tpb div value_or (tokens_per_block_override b) tpb"

definition layer_group_id :: "int \<Rightarrow> life_cycle_registry \<Rightarrow> layer_config \<Rightarrow> nat" where
  "layer_group_id tpb reg l = (case make_life_cycle l tpb of Inr lc \<Rightarrow> (case get_id reg lc of Inr i \<Rightarrow> i | Inl _ \<Rightarrow> 0) | Inl _ \<Rightarrow> 0)"

definition layer_entries :: "int \<Rightarrow> life_cycle_registry \<Rightarrow> layer_config \<Rightarrow> placement list" where
  "layer_entries tpb reg l =
     map (\<lambda>b. (layer_group_id tpb reg l, buf_size b * buffer_expansion tpb b, (layer_id l, role b))) (buffers l)"

definition divides :: "int \<Rightarrow> buffer_config \<Rightarrow> bool" where
  "divides tpb b \<longleftrightarrow> value_or (tokens_per_block_override b) tpb \<noteq> 0 \<and> tpb mod value_or (tokens_per_block_override b) tpb = 0"

lemma add_buffers_ok:
  assumes "\<forall>b \<in> set bs. divides tpb b" "distinct (map fst groups)"
  shows "\<exists>groups' exps'. rfold (add_buffer tpb lid lc) bs (groups, exps) = Inr (groups', exps') \<and>
     distinct (map fst groups') \<and>
     mset (group_entries groups') =
       mset (map (\<lambda>b. (lc, buf_size b * buffer_expansion tpb b, (lid, role b))) bs) + mset (group_entries groups)"
  using assms
proof (induction bs arbitrary: groups exps)
  case (Cons b bs)
  let ?e = "buffer_expansion tpb b"
  let ?g = "dict_modify lc (\<lambda>g. dict_append g (buf_size b * ?e) (lid, role b)) [] groups"
  have "add_buffer tpb lid lc b (groups, exps) = Inr (?g, AList.update (lid, role b) ?e exps)"
    using Cons.prems by (simp add: add_buffer_def exact_div_def divides_def buffer_expansion_def Let_def)
  moreover have "mset (group_entries ?g) = mset [(lc, buf_size b * ?e, (lid, role b))] + mset (group_entries groups)"
    by (rule group_entries_modify) (simp_all add: size_entries_append, simp add: size_entries_def)
  moreover have "distinct (map fst ?g)" using Cons.prems by (simp add: distinct_dict_modify)
  ultimately show ?case
    using Cons.IH [of ?g "AList.update (lid, role b) ?e exps"] Cons.prems by auto
qed simp

lemma add_layers_ok:
  assumes "\<forall>l \<in> set ls. (\<exists>lc i. make_life_cycle l tpb = Inr lc \<and> get_id reg lc = Inr i) \<and> (\<forall>b \<in> set (buffers l). divides tpb b)"
    and "distinct (map fst groups)"
  shows "\<exists>groups' exps'. rfold (add_layer tpb reg) ls (groups, exps) = Inr (groups', exps') \<and>
     distinct (map fst groups') \<and>
     mset (group_entries groups') = mset (concat (map (layer_entries tpb reg) ls)) + mset (group_entries groups)"
  using assms
proof (induction ls arbitrary: groups exps)
  case (Cons l ls)
  obtain lc i where lc: "make_life_cycle l tpb = Inr lc" "get_id reg lc = Inr i" using Cons.prems by auto
  let ?g0 = "dict_modify i (\<lambda>g. g) [] groups"
  have div: "\<forall>b \<in> set (buffers l). divides tpb b" and d0: "distinct (map fst ?g0)"
    using Cons.prems by (simp_all add: distinct_dict_modify)
  obtain g1 e1 where g1: "rfold (add_buffer tpb (layer_id l) i) (buffers l) (?g0, exps) = Inr (g1, e1)"
      "distinct (map fst g1)"
      "mset (group_entries g1) = mset (map (\<lambda>b. (i, buf_size b * buffer_expansion tpb b, (layer_id l, role b))) (buffers l))
         + mset (group_entries ?g0)"
    using add_buffers_ok [OF div d0, of "layer_id l" i exps] by blast
  have "mset (group_entries ?g0) = mset [] + mset (group_entries groups)"
    by (rule group_entries_modify) (simp_all add: size_entries_def)
  moreover have "layer_group_id tpb reg l = i" using lc by (simp add: layer_group_id_def)
  ultimately have "mset (group_entries g1) = mset (layer_entries tpb reg l) + mset (group_entries groups)"
    using g1(3) by (simp add: layer_entries_def)
  moreover have "add_layer tpb reg l (groups, exps) = Inr (g1, e1)" using lc g1(1) by (simp add: add_layer_def)
  ultimately show ?case using Cons.IH [OF _ g1(2), of e1] Cons.prems(1) by (auto simp: ac_simps)
qed simp

lemma sorted_uminus_desc: "sorted (map uminus xs) \<Longrightarrow> is_sorted_desc xs"
  by (induction xs rule: is_sorted_desc.induct) auto

lemma make_variant_ok:
  "\<exists>v. make_variant g = Inr v \<and> sv_life_cycle_id v = fst g \<and> mset (variant_entries v) = mset (size_entries (fst g) (snd g))"
proof -
  let ?cbs = "map (\<lambda>(sz, bs). \<lparr>single_buffer_size = sz, buffer_ids = bs\<rparr>) (snd g)"
  let ?v = "\<lparr>sv_life_cycle_id = fst g, coalesced_buffers = sort_key (\<lambda>cb. - cb_size cb) ?cbs\<rparr>"
  have "sorted (map (\<lambda>cb. - cb_size cb) (sort_key (\<lambda>cb. - cb_size cb) ?cbs))" by (rule sorted_sort_key)
  then have "is_sorted_desc (map cb_size (sort_key (\<lambda>cb. - cb_size cb) ?cbs))"
    by (intro sorted_uminus_desc) (simp add: comp_def)
  then have "make_variant g = Inr ?v" by (simp add: make_variant_def slot_desc_variant_init_def)
  moreover have "mset (variant_entries ?v) = mset (concat (map (\<lambda>cb. map (\<lambda>b. (fst g, single_buffer_size cb, b)) (buffer_ids cb)) ?cbs))"
    unfolding variant_entries_def by (simp only: slot_desc_variant.simps) (rule mset_concat_perm, simp)
  moreover have "concat (map (\<lambda>cb. map (\<lambda>b. (fst g, single_buffer_size cb, b)) (buffer_ids cb)) ?cbs) = size_entries (fst g) (snd g)"
    unfolding size_entries_def map_map comp_def by (intro arg_cong [of _ _ concat] map_cong) auto
  ultimately show ?thesis by auto
qed

lemma make_variants_ok:
  "\<exists>vs. rfold (\<lambda>g vs. rbind (make_variant g) (\<lambda>v. Inr (vs @ [v]))) groups acc = Inr (acc @ vs) \<and>
     map sv_life_cycle_id vs = map fst groups \<and> mset (concat (map variant_entries vs)) = mset (group_entries groups)"
proof (induction groups arbitrary: acc)
  case (Cons g groups)
  obtain v where v: "make_variant g = Inr v" "sv_life_cycle_id v = fst g"
      "mset (variant_entries v) = mset (size_entries (fst g) (snd g))"
    using make_variant_ok by blast
  obtain vs where "rfold (\<lambda>g vs. rbind (make_variant g) (\<lambda>v. Inr (vs @ [v]))) groups (acc @ [v]) = Inr ((acc @ [v]) @ vs)"
      "map sv_life_cycle_id vs = map fst groups" "mset (concat (map variant_entries vs)) = mset (group_entries groups)"
    using Cons.IH by blast
  then show ?case using v by (intro exI [of _ "v # vs"]) (auto simp: group_entries_def case_prod_beta)
qed (simp add: group_entries_def)

section \<open>Placement in the slots\<close>

lemma place_entries:
  "map (\<lambda>(b, a). (ba_life_cycle_id a, ba_size a, b)) (place_buffers lc pool sz exps off bs) = map (\<lambda>b. (lc, sz, b)) bs"
  by (induction bs arbitrary: off) auto

lemma attr_entries: "map (\<lambda>(b, a). (ba_life_cycle_id a, ba_size a, b)) (variant_attrs exps v) = variant_entries v"
proof -
  have "map (\<lambda>(b, a). (ba_life_cycle_id a, ba_size a, b))
      (concat (map (\<lambda>(pool, cb). place_buffers lc pool (single_buffer_size cb) exps 0 (buffer_ids cb)) (enumerate n cbs)))
    = concat (map (\<lambda>cb. map (\<lambda>b. (lc, single_buffer_size cb, b)) (buffer_ids cb)) cbs)" for lc n cbs
    by (induction cbs arbitrary: n) (simp_all add: place_entries)
  then show ?thesis by (simp add: variant_attrs_def variant_entries_def)
qed

lemma place_member:
  "(b, a) \<in> set (place_buffers lc pool sz exps off bs) \<Longrightarrow>
   \<exists>j < length bs. b = bs ! j \<and> ba_life_cycle_id a = lc \<and> ba_pool_index a = pool \<and> ba_offset a = off + int j * sz \<and> ba_size a = sz"
proof (induction bs arbitrary: off)
  case (Cons x bs)
  show ?case
  proof (cases "(b, a) \<in> set (place_buffers lc pool sz exps (off + sz) bs)")
    case True
    then obtain j where "j < length bs" "b = bs ! j" "ba_life_cycle_id a = lc" "ba_pool_index a = pool"
        "ba_offset a = off + sz + int j * sz" "ba_size a = sz"
      using Cons.IH by blast
    then show ?thesis by (intro exI [of _ "Suc j"]) (simp add: algebra_simps)
  next
    case False
    then show ?thesis using Cons.prems by (intro exI [of _ 0]) auto
  qed
qed simp

lemma variant_attrs_member:
  assumes "(b, a) \<in> set (variant_attrs exps v)"
  shows "\<exists>pool j cb. pool < length (coalesced_buffers v) \<and> cb = coalesced_buffers v ! pool \<and> j < length (buffer_ids cb) \<and>
     b = buffer_ids cb ! j \<and> ba_life_cycle_id a = sv_life_cycle_id v \<and> ba_pool_index a = pool \<and>
     ba_offset a = int j * single_buffer_size cb \<and> ba_size a = single_buffer_size cb"
proof -
  obtain pool cb where "(pool, cb) \<in> set (enumerate 0 (coalesced_buffers v))"
      and mem: "(b, a) \<in> set (place_buffers (sv_life_cycle_id v) pool (single_buffer_size cb) exps 0 (buffer_ids cb))"
    using assms by (auto simp: variant_attrs_def)
  then have "pool < length (coalesced_buffers v)" "cb = coalesced_buffers v ! pool"
    by (auto simp: in_set_enumerate_eq)
  then show ?thesis using place_member [OF mem] by auto
qed

lemma update_new: "k \<notin> fst ` set d \<Longrightarrow> AList.update k v d = d @ [(k, v)]"
  by (induction d) auto

lemma fold_update_new:
  "distinct (map fst xs) \<Longrightarrow> fst ` set xs \<inter> fst ` set d = {} \<Longrightarrow>
     fold (\<lambda>(k, v) ret. AList.update k v ret) xs d = d @ xs"
proof (induction xs arbitrary: d)
  case (Cons x xs)
  then show ?case using Cons.IH [of "d @ [x]"] by (cases x) (auto simp: update_new)
qed simp

section \<open>The whole construction\<close>

definition cfg_buffers :: "kv_config \<Rightarrow> buffer_id list" where
  "cfg_buffers cfg = concat (map (\<lambda>l. map (\<lambda>b. (layer_id l, role b)) (buffers l)) (layers cfg))"

text \<open>A configuration that passed the checks of its classes, with its registry.\<close>

definition valid_config :: "kv_config \<Rightarrow> life_cycle_registry \<Rightarrow> bool" where
  "valid_config cfg reg \<longleftrightarrow> kv_config_init cfg = Inr cfg \<and> (\<forall>l \<in> set (layers cfg). layer_init l = Inr l) \<and>
     registry_init cfg = Inr reg \<and> 0 < tokens_per_block cfg"

lemma py_all_True: "py_all p xs = Inr True \<longleftrightarrow> (\<forall>x \<in> set xs. p x = Inr True)"
proof (induction xs)
  case (Cons x xs)
  then show ?case by (cases "p x") auto
qed simp

lemma valid_config_divides:
  assumes "valid_config cfg reg" "l \<in> set (layers cfg)" "b \<in> set (buffers l)"
  shows "divides (tokens_per_block cfg) b"
proof -
  have "py_all (override_divides (tokens_per_block cfg)) (concat (map buffers (layers cfg))) = Inr True"
    using assms(1) by (auto simp: valid_config_def kv_config_init_def py_assert_eq_Inr rbind_eq_Inr)
  then have "override_divides (tokens_per_block cfg) b = Inr True" using assms(2,3) by (auto simp: py_all_True)
  then show ?thesis
    using assms(1) by (auto simp: override_divides_def divides_def value_or_def py_mod_def valid_config_def
        split: option.splits if_splits)
qed

lemma valid_config_group:
  assumes "valid_config cfg reg" "l \<in> set (layers cfg)"
  shows "\<exists>lc. make_life_cycle l (tokens_per_block cfg) = Inr lc \<and> get_id reg lc = Inr (layer_group_id (tokens_per_block cfg) reg l)"
proof -
  have reg: "registry_init cfg = Inr reg" using assms(1) by (simp add: valid_config_def)
  obtain lcs where inv: "registry_inv reg"
      and lcs: "map (\<lambda>l. make_life_cycle l (tokens_per_block cfg)) (layers cfg) = map Inr lcs" "life_cycle_list reg = first_seen lcs"
    using registry_init_list [OF reg] by blast
  have "make_life_cycle l (tokens_per_block cfg) \<in> Inr ` set lcs"
    using arg_cong [OF lcs(1), of set] assms(2) by (metis imageI list.set_map)
  then obtain lc where lc: "make_life_cycle l (tokens_per_block cfg) = Inr lc" "lc \<in> set (life_cycle_list reg)"
    using lcs(2) by auto
  then obtain i where "map_of (life_cycle_id_dict reg) lc = Some i" using registry_lookup(2) [OF inv, of lc] by auto
  then have "get_id reg lc = Inr i" by (simp add: get_id_def)
  then show ?thesis using lc(1) by (simp add: layer_group_id_def)
qed

lemma cfg_buffers_distinct:
  assumes "valid_config cfg reg"
  shows "distinct (cfg_buffers cfg)"
proof -
  have "distinct (map layer_id ls) \<Longrightarrow> \<forall>l \<in> set ls. distinct (map role (buffers l)) \<Longrightarrow>
      distinct (concat (map (\<lambda>l. map (\<lambda>b. (layer_id l, role b)) (buffers l)) ls))" for ls
  proof (induction ls)
    case (Cons l ls)
    have "distinct (map (\<lambda>b. (layer_id l, role b)) (buffers l))"
      using Cons.prems(2) by (simp add: distinct_map inj_on_def)
    then show ?case using Cons by auto
  qed simp
  moreover have "distinct (map layer_id (layers cfg))"
    using assms by (auto simp: valid_config_def kv_config_init_def py_assert_eq_Inr)
  moreover have "\<forall>l \<in> set (layers cfg). distinct (map role (buffers l))"
    using assms by (auto simp: valid_config_def layer_init_def py_assert_eq_Inr)
  ultimately show ?thesis by (simp add: cfg_buffers_def)
qed

lemma create_ok:
  assumes "valid_config cfg reg"
  shows "\<exists>sc. create_storage_config cfg = Inr sc \<and> distinct (map sv_life_cycle_id (sc_variants sc)) \<and>
     mset (concat (map variant_entries (sc_variants sc))) =
       mset (concat (map (layer_entries (tokens_per_block cfg) reg) (layers cfg)))"
proof -
  let ?tpb = "tokens_per_block cfg"
  have "\<forall>l \<in> set (layers cfg). (\<exists>lc i. make_life_cycle l ?tpb = Inr lc \<and> get_id reg lc = Inr i) \<and> (\<forall>b \<in> set (buffers l). divides ?tpb b)"
    using valid_config_divides [OF assms] valid_config_group [OF assms] by blast
  then obtain groups exps where g: "rfold (add_layer ?tpb reg) (layers cfg) ([], []) = Inr (groups, exps)"
      "distinct (map fst groups)" "mset (group_entries groups) = mset (concat (map (layer_entries ?tpb reg) (layers cfg)))"
    using add_layers_ok [of "layers cfg" ?tpb reg "[]" "[]"] by (auto simp: group_entries_def)
  obtain vs where vs: "rfold (\<lambda>g vs. rbind (make_variant g) (\<lambda>v. Inr (vs @ [v]))) groups [] = Inr vs"
      "map sv_life_cycle_id vs = map fst groups" "mset (concat (map variant_entries vs)) = mset (group_entries groups)"
    using make_variants_ok [of groups "[]"] by auto
  let ?sc = "\<lparr>sc_cache_tiers = cache_tiers cfg, slot_desc_list = map snd (partition_by vs slot_size_list), expansion = exps\<rparr>"
  have perm: "mset (sc_variants ?sc) = mset vs" by (simp add: sc_variants_def partition_by_values)
  then have "mset (map sv_life_cycle_id (sc_variants ?sc)) = mset (map sv_life_cycle_id vs)" by (metis mset_map)
  then have dist: "distinct (map sv_life_cycle_id (sc_variants ?sc))"
    using g(2) vs(2) mset_eq_imp_distinct_iff by metis
  moreover have "create_storage_config cfg = Inr ?sc"
    using assms g(1) vs(1) dist by (simp add: create_storage_config_def storage_config_init_def valid_config_def)
  moreover have "mset (concat (map variant_entries (sc_variants ?sc))) = mset (concat (map variant_entries vs))"
    using perm by (rule mset_concat_perm)
  ultimately show ?thesis using vs(3) g(3) by (intro exI [of _ ?sc]) simp
qed

lemma entry_keys:
  "mset (map fst xs) = image_mset (snd \<circ> snd) (mset (map (\<lambda>(b, a). (ba_life_cycle_id a, ba_size a, b)) xs))"
  by (induction xs) auto

lemma attributes_list:
  assumes "valid_config cfg reg" "create_storage_config cfg = Inr sc"
  shows "buffer_attributes sc = concat (map (variant_attrs (expansion sc)) (sc_variants sc))"
    "distinct (map fst (buffer_attributes sc))" "distinct (map sv_life_cycle_id (sc_variants sc))"
    "mset (map (\<lambda>(b, a). (ba_life_cycle_id a, ba_size a, b)) (buffer_attributes sc)) =
       mset (concat (map (layer_entries (tokens_per_block cfg) reg) (layers cfg)))"
proof -
  let ?L = "concat (map (variant_attrs (expansion sc)) (sc_variants sc))"
  let ?E = "concat (map (layer_entries (tokens_per_block cfg) reg) (layers cfg))"
  have sc: "distinct (map sv_life_cycle_id (sc_variants sc))" "mset (concat (map variant_entries (sc_variants sc))) = mset ?E"
    using create_ok [OF assms(1)] assms(2) by auto
  have ent: "map (\<lambda>(b, a). (ba_life_cycle_id a, ba_size a, b)) ?L = concat (map variant_entries (sc_variants sc))"
    by (simp add: map_concat comp_def attr_entries)
  then have m: "mset (map (\<lambda>(b, a). (ba_life_cycle_id a, ba_size a, b)) ?L) = mset ?E" using sc(2) by simp
  have "mset (map fst ?L) = image_mset (snd \<circ> snd) (mset (map (\<lambda>(b, a). (ba_life_cycle_id a, ba_size a, b)) ?L))"
    by (rule entry_keys)
  also have "\<dots> = mset (map (snd \<circ> snd) ?E)" unfolding m by (rule mset_map [symmetric])
  also have "map (snd \<circ> snd) ?E = cfg_buffers cfg"
    by (simp add: cfg_buffers_def layer_entries_def map_concat comp_def)
  finally have dist: "distinct (map fst ?L)"
    using cfg_buffers_distinct [OF assms(1)] mset_eq_imp_distinct_iff by blast
  show L: "buffer_attributes sc = ?L"
    using fold_update_new [OF dist, of "[]"] by (simp add: buffer_attributes_def)
  show "distinct (map fst (buffer_attributes sc))" using dist L by simp
  show "distinct (map sv_life_cycle_id (sc_variants sc))" by (rule sc(1))
  show "mset (map (\<lambda>(b, a). (ba_life_cycle_id a, ba_size a, b)) (buffer_attributes sc)) = mset ?E" using m L by simp
qed

section \<open>Properties\<close>

lemma interval_before:
  fixes sz :: int
  assumes "j1 < j2" "0 < sz"
  shows "int j1 * sz + sz \<le> int j2 * sz"
proof -
  have "(int j1 + 1) * sz \<le> int j2 * sz" using assms by (intro mult_right_mono) auto
  then show ?thesis by (simp add: algebra_simps)
qed

lemma interval_disjoint:
  fixes sz :: int
  assumes "j1 \<noteq> j2" "int j1 * sz \<le> t" "t < int j1 * sz + sz" "int j2 * sz \<le> t" "t < int j2 * sz + sz"
  shows False
proof -
  have sz: "0 < sz" using assms(2,3) by linarith
  from assms(1) consider "j1 < j2" | "j2 < j1" by linarith
  then show False
  proof cases
    case 1
    then show False using interval_before [OF 1 sz] assms by linarith
  next
    case 2
    then show False using interval_before [OF 2 sz] assms by linarith
  qed
qed

lemma interval_bounded:
  fixes sz :: int
  assumes "j < n" "int j * sz \<le> t" "t < int j * sz + sz"
  shows "0 \<le> t \<and> t < sz * int n"
proof -
  have sz: "0 < sz" using assms(2,3) by linarith
  have "int j * sz + sz \<le> int n * sz" using interval_before [OF assms(1) sz] .
  moreover have "0 \<le> int j * sz" using sz by simp
  moreover have "sz * int n = int n * sz" by simp
  ultimately show ?thesis using assms(2,3) by linarith
qed

text \<open>
  C31. The storage of a valid configuration can always be laid out, and the layout is complete: the
  attributes list every configured buffer exactly once and nothing else, each with the layer group of
  its layer and with its size scaled to the common block size.
\<close>

theorem storage_config_complete:
  assumes "valid_config cfg reg"
  shows "\<exists>sc. create_storage_config cfg = Inr sc \<and> distinct (map fst (buffer_attributes sc)) \<and>
     fst ` set (buffer_attributes sc) = set (cfg_buffers cfg) \<and>
     (\<forall>l \<in> set (layers cfg). \<forall>b \<in> set (buffers l). \<exists>a lc.
        map_of (buffer_attributes sc) (layer_id l, role b) = Some a \<and>
        make_life_cycle l (tokens_per_block cfg) = Inr lc \<and> get_id reg lc = Inr (ba_life_cycle_id a) \<and>
        ba_size a = buf_size b * (tokens_per_block cfg div value_or (tokens_per_block_override b) (tokens_per_block cfg)))"
proof -
  let ?tpb = "tokens_per_block cfg"
  obtain sc where sc: "create_storage_config cfg = Inr sc" using create_ok [OF assms] by blast
  note attrs = attributes_list [OF assms sc]
  let ?E = "concat (map (layer_entries ?tpb reg) (layers cfg))"
  have E: "(\<lambda>(b, a). (ba_life_cycle_id a, ba_size a, b)) ` set (buffer_attributes sc) = set ?E"
    using mset_eq_setD [OF attrs(4)] by simp
  have "fst ` set (buffer_attributes sc) = (snd \<circ> snd) ` (\<lambda>(b, a). (ba_life_cycle_id a, ba_size a, b)) ` set (buffer_attributes sc)"
    by (simp add: image_image case_prod_beta)
  also have "\<dots> = set (map (snd \<circ> snd) ?E)" unfolding E by (rule set_map [symmetric])
  also have "map (snd \<circ> snd) ?E = cfg_buffers cfg"
    by (simp add: cfg_buffers_def layer_entries_def map_concat comp_def)
  finally have keys: "fst ` set (buffer_attributes sc) = set (cfg_buffers cfg)" .
  have "\<exists>a lc. map_of (buffer_attributes sc) (layer_id l, role b) = Some a \<and> make_life_cycle l ?tpb = Inr lc \<and>
      get_id reg lc = Inr (ba_life_cycle_id a) \<and> ba_size a = buf_size b * buffer_expansion ?tpb b"
    if l: "l \<in> set (layers cfg)" and b: "b \<in> set (buffers l)" for l b
  proof -
    have "(layer_group_id ?tpb reg l, buf_size b * buffer_expansion ?tpb b, (layer_id l, role b)) \<in> set ?E"
      using l b by (auto simp: layer_entries_def)
    then obtain a where a: "((layer_id l, role b), a) \<in> set (buffer_attributes sc)"
        "ba_life_cycle_id a = layer_group_id ?tpb reg l" "ba_size a = buf_size b * buffer_expansion ?tpb b"
      unfolding E [symmetric] by auto
    moreover have "map_of (buffer_attributes sc) (layer_id l, role b) = Some a"
      using attrs(2) a(1) by (rule map_of_is_SomeI)
    ultimately show ?thesis using valid_config_group [OF assms l] by auto
  qed
  then show ?thesis using sc attrs(2) keys unfolding buffer_expansion_def by blast
qed

definition demo_storage :: kv_config where
  "demo_storage = \<lparr>tokens_per_block = 32, vocab_size = 1000, cache_tiers = [GpuCacheTierConfig 1000000],
     layers = [AttentionLayerConfig 0 [\<lparr>role = ''key'', buf_size = 64, tokens_per_block_override = None\<rparr>,
                                       \<lparr>role = ''value'', buf_size = 64, tokens_per_block_override = None\<rparr>] (Some 100) (Some 4),
               AttentionLayerConfig 1 [\<lparr>role = ''key'', buf_size = 32, tokens_per_block_override = Some 16\<rparr>] None None],
     max_util_for_resume = 1, enable_partial_reuse = True, constraints = [], typical_step = None, ssm_reuse_interval = 512,
     swa_scratch_reuse = None, enable_stats = True\<rparr>"

definition demo_registry :: life_cycle_registry where
  "demo_registry = \<lparr>life_cycle_list = [AttnLifeCycle (Some 100) 1, AttnLifeCycle None 0],
     life_cycle_id_dict = [(AttnLifeCycle (Some 100) 1, 0), (AttnLifeCycle None 0, 1)]\<rparr>"

lemma demo_storage_valid: "valid_config demo_storage demo_registry"
  by (simp add: valid_config_def demo_storage_def demo_registry_def kv_config_init_def layer_init_def override_divides_def
      py_mod_def is_ssm_layer_def registry_init_def registry_add_def make_life_cycle_def attn_make_def value_or_def div_up_def)

theorem storage_config_complete_witness:
  "\<exists>sc a. create_storage_config demo_storage = Inr sc \<and>
     map_of (buffer_attributes sc) (1, ''key'') = Some a \<and> ba_size a = 64"
proof -
  have l: "AttentionLayerConfig 1 [\<lparr>role = ''key'', buf_size = 32, tokens_per_block_override = Some 16\<rparr>] None None
      \<in> set (layers demo_storage)" by (simp add: demo_storage_def)
  then show ?thesis
    using storage_config_complete [OF demo_storage_valid] by (fastforce simp: demo_storage_def value_or_def)
qed

text \<open>
  C12. No two buffers overlap: two buffers of one layer group and one pool occupy disjoint bytes of a
  slot, and all bytes of a buffer lie within the slot of its pool.
\<close>

theorem buffers_disjoint:
  assumes "valid_config cfg reg" "create_storage_config cfg = Inr sc"
    and "map_of (buffer_attributes sc) b1 = Some a1" "map_of (buffer_attributes sc) b2 = Some a2"
  shows "(\<exists>v \<in> set (sc_variants sc). sv_life_cycle_id v = ba_life_cycle_id a1 \<and>
        ba_pool_index a1 < length (slot_size_list v) \<and>
        (\<forall>t. ba_offset a1 \<le> t \<and> t < ba_offset a1 + ba_size a1 \<longrightarrow> 0 \<le> t \<and> t < slot_size_list v ! ba_pool_index a1)) \<and>
     (b1 \<noteq> b2 \<and> ba_life_cycle_id a1 = ba_life_cycle_id a2 \<and> ba_pool_index a1 = ba_pool_index a2 \<longrightarrow>
        \<not> (\<exists>t. ba_offset a1 \<le> t \<and> t < ba_offset a1 + ba_size a1 \<and> ba_offset a2 \<le> t \<and> t < ba_offset a2 + ba_size a2))"
proof -
  note attrs = attributes_list [OF assms(1,2)]
  have placed: "\<exists>v j. v \<in> set (sc_variants sc) \<and> ba_life_cycle_id a = sv_life_cycle_id v \<and>
      ba_pool_index a < length (coalesced_buffers v) \<and> j < length (buffer_ids (coalesced_buffers v ! ba_pool_index a)) \<and>
      b = buffer_ids (coalesced_buffers v ! ba_pool_index a) ! j \<and>
      ba_offset a = int j * single_buffer_size (coalesced_buffers v ! ba_pool_index a) \<and>
      ba_size a = single_buffer_size (coalesced_buffers v ! ba_pool_index a)"
    if "map_of (buffer_attributes sc) b = Some a" for b a
  proof -
    have "(b, a) \<in> set (concat (map (variant_attrs (expansion sc)) (sc_variants sc)))"
      using map_of_SomeD [OF that] unfolding attrs(1) .
    then obtain v where v: "v \<in> set (sc_variants sc)" "(b, a) \<in> set (variant_attrs (expansion sc) v)" by auto
    then show ?thesis using variant_attrs_member [OF v(2)] by blast
  qed
  obtain v1 j1 where p1: "v1 \<in> set (sc_variants sc)" "ba_life_cycle_id a1 = sv_life_cycle_id v1"
      "ba_pool_index a1 < length (coalesced_buffers v1)" "j1 < length (buffer_ids (coalesced_buffers v1 ! ba_pool_index a1))"
      "b1 = buffer_ids (coalesced_buffers v1 ! ba_pool_index a1) ! j1"
      "ba_offset a1 = int j1 * single_buffer_size (coalesced_buffers v1 ! ba_pool_index a1)"
      "ba_size a1 = single_buffer_size (coalesced_buffers v1 ! ba_pool_index a1)"
    using placed [OF assms(3)] by blast
  obtain v2 j2 where p2: "v2 \<in> set (sc_variants sc)" "ba_life_cycle_id a2 = sv_life_cycle_id v2"
      "b2 = buffer_ids (coalesced_buffers v2 ! ba_pool_index a2) ! j2"
      "ba_offset a2 = int j2 * single_buffer_size (coalesced_buffers v2 ! ba_pool_index a2)"
      "ba_size a2 = single_buffer_size (coalesced_buffers v2 ! ba_pool_index a2)"
    using placed [OF assms(4)] by blast
  have "0 \<le> t \<and> t < slot_size_list v1 ! ba_pool_index a1" if "ba_offset a1 \<le> t" "t < ba_offset a1 + ba_size a1" for t
    using interval_bounded [OF p1(4)] that p1(3,6,7) by (simp add: slot_size_list_def cb_size_def)
  moreover have "ba_pool_index a1 < length (slot_size_list v1)" using p1(3) by (simp add: slot_size_list_def)
  moreover have False if same: "b1 \<noteq> b2" "ba_life_cycle_id a1 = ba_life_cycle_id a2" "ba_pool_index a1 = ba_pool_index a2"
    and t: "ba_offset a1 \<le> t" "t < ba_offset a1 + ba_size a1" "ba_offset a2 \<le> t" "t < ba_offset a2 + ba_size a2" for t
  proof -
    have v: "v1 = v2" using attrs(3) p1(1,2) p2(1,2) same(2) by (auto simp: distinct_map inj_on_def)
    then have "j1 \<noteq> j2" using same(1,3) p1(5) p2(3) by auto
    then show False
      using interval_disjoint [of j1 j2 "single_buffer_size (coalesced_buffers v1 ! ba_pool_index a1)" t] t v same(3)
        p1(6,7) p2(4,5) by simp
  qed
  ultimately show ?thesis using p1(1,2) by metis
qed

lemma demo_storage_created:
  "create_storage_config demo_storage = Inr \<lparr>sc_cache_tiers = [GpuCacheTierConfig 1000000],
     slot_desc_list =
       [[\<lparr>sv_life_cycle_id = 0, coalesced_buffers = [\<lparr>single_buffer_size = 64, buffer_ids = [(0, ''key''), (0, ''value'')]\<rparr>]\<rparr>],
        [\<lparr>sv_life_cycle_id = 1, coalesced_buffers = [\<lparr>single_buffer_size = 64, buffer_ids = [(1, ''key'')]\<rparr>]\<rparr>]],
     expansion = [((0, ''key''), 1), ((0, ''value''), 1), ((1, ''key''), 2)]\<rparr>"
  by code_simp

theorem buffers_disjoint_witness:
  "\<exists>sc a1 a2. create_storage_config demo_storage = Inr sc \<and> map_of (buffer_attributes sc) (0, ''key'') = Some a1 \<and>
     map_of (buffer_attributes sc) (0, ''value'') = Some a2 \<and>
     \<not> (\<exists>t. ba_offset a1 \<le> t \<and> t < ba_offset a1 + ba_size a1 \<and> ba_offset a2 \<le> t \<and> t < ba_offset a2 + ba_size a2)"
proof -
  note attr_simps = buffer_attributes_def sc_variants_def variant_attrs_def value_or_def
  note dis = buffers_disjoint [OF demo_storage_valid demo_storage_created, of "(0, ''key'')" _ "(0, ''value'')"]
  show ?thesis unfolding demo_storage_created
    using dis by (simp add: attr_simps)
qed

end
