(* ===== verification/PoolSizing.thy ===== *)
theory PoolSizing
  imports KvUtils Complex_Main
begin

text \<open>
  How the memory of a cache level is divided among its pool groups, class \<open>CacheLevelStorage\<close> of
  \<^verbatim>\<open>kv_cache_manager_v2/_storage/_core.py\<close>. Memory is counted in grains. The code divides budgets with
  floating-point numbers and \<open>round\<close>: \<open>round(budget * (weight / total))\<close> is the argument \<open>share\<close> of the
  model, applied to the budget, the weight and the total. A search loop that might not end is a
  function into \<open>option\<close>, \<open>None\<close> meaning that it does not return.
\<close>

section \<open>Results of loops\<close>

type_synonym 'a outcome = "'a result option"

definition obind :: "'a outcome \<Rightarrow> ('a \<Rightarrow> 'b outcome) \<Rightarrow> 'b outcome" where
  "obind m f = (case m of None \<Rightarrow> None | Some (Inl e) \<Rightarrow> Some (Inl e) | Some (Inr x) \<Rightarrow> f x)"

lemma obind_simps [simp]:
  "obind None f = None" "obind (Some (Inl e)) f = Some (Inl e)" "obind (Some (Inr x)) f = f x"
  by (simp_all add: obind_def)

lemma obind_cong [fundef_cong]:
  "m = m' \<Longrightarrow> (\<And>x. m' = Some (Inr x) \<Longrightarrow> f x = f' x) \<Longrightarrow> obind m f = obind m' f'"
  by (auto simp: obind_def split: option.split sum.split)

lemma obind_eq_Inr: "obind m f = Some (Inr y) \<longleftrightarrow> (\<exists>x. m = Some (Inr x) \<and> f x = Some (Inr y))"
  by (auto simp: obind_def split: option.split sum.split)

section \<open>Grains and slots\<close>

definition grains_for_slots :: "int \<Rightarrow> int list \<Rightarrow> int \<Rightarrow> int" where
  "grains_for_slots num_slots slot_sizes granularity = sum_list (map (\<lambda>s. div_up (num_slots * s) granularity) slot_sizes)"

text \<open>The division of the budget among the pools, from the smallest slot size to the largest.\<close>

fun pool_shares ::
  "(int \<Rightarrow> int \<Rightarrow> int \<Rightarrow> int) \<Rightarrow> int \<Rightarrow> int list \<Rightarrow> int \<Rightarrow> int \<Rightarrow> (int \<times> int) result" where
  "pool_shares share g [] num_slots remaining = Inr (num_slots, remaining)"
| "pool_shares share g (s # ss) num_slots remaining =
     (if s = 0 then Inl ZeroDivisionError
      else
        let pool_grains = max (div_up s g) (share remaining s (sum_list (s # ss)))
        in pool_shares share g ss (min num_slots (pool_grains * g div s)) (remaining - pool_grains))"

partial_function (option) search_up :: "int list \<Rightarrow> int \<Rightarrow> int \<Rightarrow> int \<Rightarrow> int \<Rightarrow> (int \<times> int) option" where
  "search_up sizes g grains lo step =
     (if grains_for_slots (lo + step) sizes g \<le> grains
      then search_up sizes g grains (lo + step) (step * 2)
      else Some (lo, lo + step))"

function bisect :: "int list \<Rightarrow> int \<Rightarrow> int \<Rightarrow> int \<Rightarrow> int \<Rightarrow> int" where
  "bisect sizes g grains lo hi =
     (if lo + 1 < hi
      then
        let mid = (lo + hi) div 2 in
        if grains_for_slots mid sizes g \<le> grains then bisect sizes g grains mid hi
        else bisect sizes g grains lo mid
      else lo)"
  by pat_completeness auto
termination
  by (relation "measure (\<lambda>(_, _, _, lo, hi). nat (hi - lo))") auto

declare bisect.simps [simp del]

definition grains_to_slots ::
  "(int \<Rightarrow> int \<Rightarrow> int \<Rightarrow> int) \<Rightarrow> int \<Rightarrow> int list \<Rightarrow> int \<Rightarrow> (int \<times> int) outcome" where
  "grains_to_slots share pg_grains slot_sizes g =
     (if pg_grains < sum_list (map (\<lambda>s. div_up s g) slot_sizes) then Some (Inr (0, 0))
      else
        case pool_shares share g (sort_key (\<lambda>s. s) slot_sizes) (2 ^ 63) pg_grains of
          Inl e \<Rightarrow> Some (Inl e)
        | Inr (num_slots, remaining) \<Rightarrow>
            if remaining \<noteq> 0 then Some (Inl AssertionError)
            else if num_slots \<le> 0 then Some (Inl AssertionError)
            else
              case search_up slot_sizes g pg_grains num_slots 1 of
                None \<Rightarrow> None
              | Some (lo, hi) \<Rightarrow>
                  let slots = bisect slot_sizes g pg_grains lo hi; used = grains_for_slots slots slot_sizes g in
                  Some (py_assert (used \<le> pg_grains)
                    (py_assert (grains_for_slots (slots + 1) slot_sizes g > pg_grains) (Inr (slots, used)))))"

section \<open>Slots from ratios\<close>

record sizing =
  share_grains :: "int \<Rightarrow> int \<Rightarrow> int \<Rightarrow> int"
  share_ratio :: "int \<Rightarrow> real \<Rightarrow> real \<Rightarrow> int"
  slot_size_lists :: "int list list"
  ratio_list :: "real list"
  granularity :: int
  min_slots :: "int list"

text \<open>
  One round: the active pool groups, from the smallest ratio to the largest, get their part of what is
  left. The result lists the groups with their slots and grains.
\<close>

fun distribute :: "sizing \<Rightarrow> nat list \<Rightarrow> int \<Rightarrow> ((nat \<times> int \<times> int) list \<times> int) outcome" where
  "distribute z [] budget = Some (Inr ([], budget))"
| "distribute z (pg # pgs) budget =
     obind (grains_to_slots (share_grains z)
              (share_ratio z budget (ratio_list z ! pg) (sum_list (map (\<lambda>j. ratio_list z ! j) (pg # pgs))))
              (slot_size_lists z ! pg) (granularity z)) (\<lambda>(slots, used).
     obind (distribute z pgs (budget - used)) (\<lambda>(res, left).
     Some (Inr ((pg, slots, used) # res, left))))"

definition slots_of :: "(nat \<times> int \<times> int) list \<Rightarrow> nat \<Rightarrow> int" where
  "slots_of res pg = (case map_of res pg of Some (slots, _) \<Rightarrow> slots | None \<Rightarrow> 0)"

text \<open>Pinning the constrained groups to their minimum.\<close>

fun pin_groups :: "sizing \<Rightarrow> nat list \<Rightarrow> int list \<Rightarrow> int \<Rightarrow> (int list \<times> int) outcome" where
  "pin_groups z [] counts remaining = Some (Inr (counts, remaining))"
| "pin_groups z (pg # pgs) counts remaining =
     obind (grains_to_slots (share_grains z)
              (grains_for_slots (min_slots z ! pg) (slot_size_lists z ! pg) (granularity z))
              (slot_size_lists z ! pg) (granularity z)) (\<lambda>(slots, used).
     pin_groups z pgs (counts[pg := slots]) (remaining - used))"

function ratio_loop :: "sizing \<Rightarrow> nat list \<Rightarrow> int list \<Rightarrow> int \<Rightarrow> int list outcome" where
  "ratio_loop z active counts remaining =
     (if active = [] then Some (Inr counts)
      else
        obind (distribute z (sort_key (\<lambda>pg. ratio_list z ! pg) active) remaining) (\<lambda>(res, budget).
        if budget < 0 then Some (Inl AssertionError)
        else
          let constrained = filter (\<lambda>pg. slots_of res pg \<le> min_slots z ! pg) active;
              unconstrained = filter (\<lambda>pg. \<not> slots_of res pg \<le> min_slots z ! pg) active
          in if constrained = [] then Some (Inr (fold (\<lambda>pg cs. cs[pg := slots_of res pg]) active counts))
             else
               obind (pin_groups z constrained counts remaining) (\<lambda>(counts', remaining').
               if unconstrained = [] then Some (Inr counts')
               else if remaining' \<le> 0 then Some (Inl ValueError)
               else ratio_loop z unconstrained counts' remaining')))"
  by pat_completeness auto
termination
proof (relation "measure (\<lambda>(z, active, counts, remaining). length active)", goal_cases)
  case (2 z active counts remaining x res budget constrained unconstrained y counts' remaining')
  then have "length constrained + length unconstrained = length active"
    using sum_length_filter_compl [of "\<lambda>pg. slots_of res pg \<le> min_slots z ! pg" active] by simp
  moreover have "length constrained > 0" using 2 by simp
  ultimately have "length unconstrained < length active" by linarith
  then show ?case by simp
qed simp

declare ratio_loop.simps [simp del]

partial_function (option) bump :: "int list \<Rightarrow> int \<Rightarrow> int \<Rightarrow> int \<Rightarrow> int option" where
  "bump sizes g grains n =
     (if grains_for_slots (n + 1) sizes g \<le> grains then bump sizes g grains (n + 1) else Some n)"

fun bump_all :: "sizing \<Rightarrow> nat list \<Rightarrow> int list \<Rightarrow> int list outcome" where
  "bump_all z [] counts = Some (Inr counts)"
| "bump_all z (pg # pgs) counts =
     (case bump (slot_size_lists z ! pg) (granularity z)
             (grains_for_slots (counts ! pg) (slot_size_lists z ! pg) (granularity z)) (counts ! pg) of
        None \<Rightarrow> None
      | Some n \<Rightarrow> bump_all z pgs (counts[pg := n]))"

definition ratio_to_slot_count_list :: "int \<Rightarrow> sizing \<Rightarrow> int list outcome" where
  "ratio_to_slot_count_list total_quota z =
     (if \<not> list_all (\<lambda>x. x > 0) (ratio_list z) then Some (Inl AssertionError)
      else if length (ratio_list z) \<noteq> length (slot_size_lists z) then Some (Inl AssertionError)
      else if total_quota mod granularity z \<noteq> 0 then Some (Inl AssertionError)
      else
        let total_grains = total_quota div granularity z; n = length (ratio_list z) in
        if total_grains < sum_list (map (\<lambda>sizes. int (length sizes)) (slot_size_lists z)) then Some (Inl AssertionError)
        else
          obind (ratio_loop z [0..<n] (replicate n 0) total_grains) (\<lambda>counts.
          bump_all z [0..<n] counts))"

section \<open>The search finds the maximum\<close>

definition pos_sizes :: "int list \<Rightarrow> bool" where
  "pos_sizes sizes \<longleftrightarrow> sizes \<noteq> [] \<and> (\<forall>s \<in> set sizes. 0 < s)"

lemma grains_nonneg: "0 < g \<Longrightarrow> \<forall>s \<in> set sizes. 0 < s \<Longrightarrow> 0 \<le> n \<Longrightarrow> 0 \<le> grains_for_slots n sizes g"
  unfolding grains_for_slots_def by (intro sum_list_nonneg) (auto intro!: div_up_nonneg mult_nonneg_nonneg simp: less_imp_le)

lemma grains_mono:
  assumes "0 < g" "\<forall>s \<in> set sizes. 0 < s" "n \<le> n'"
  shows "grains_for_slots n sizes g \<le> grains_for_slots n' sizes g"
  unfolding grains_for_slots_def using assms by (intro sum_list_mono div_up_mono mult_right_mono) auto

lemma grains_zero [simp]: "0 < g \<Longrightarrow> grains_for_slots 0 sizes g = 0"
  by (induction sizes) (simp_all add: grains_for_slots_def)

lemma grains_one: "grains_for_slots 1 sizes g = sum_list (map (\<lambda>s. div_up s g) sizes)"
  by (simp add: grains_for_slots_def)

lemma grains_ge:
  assumes "0 < g" "pos_sizes sizes" "0 \<le> n"
  shows "n \<le> grains_for_slots n sizes g * g"
proof -
  obtain s ss where sizes: "sizes = s # ss" using assms(2) by (cases sizes) (auto simp: pos_sizes_def)
  have "n * 1 \<le> n * s" using assms(2,3) sizes by (intro mult_left_mono) (auto simp: pos_sizes_def)
  also have "\<dots> \<le> div_up (n * s) g * g" using div_up_mult_ge [OF assms(1)] .
  also have "\<dots> \<le> (div_up (n * s) g + grains_for_slots n ss g) * g"
    using assms sizes grains_nonneg [of g ss n] by (intro mult_right_mono) (auto simp: pos_sizes_def)
  finally show ?thesis using sizes by (simp add: grains_for_slots_def)
qed

lemma search_up_returns:
  assumes "0 < g" "pos_sizes sizes"
  shows "0 < step \<Longrightarrow> 0 \<le> lo \<Longrightarrow> grains_for_slots lo sizes g \<le> grains \<Longrightarrow>
    \<exists>lo' hi. search_up sizes g grains lo step = Some (lo', hi) \<and> lo \<le> lo' \<and> lo' < hi \<and>
      grains_for_slots lo' sizes g \<le> grains \<and> grains < grains_for_slots hi sizes g"
proof (induction "nat (grains * g - lo)" arbitrary: lo step rule: less_induct)
  case less
  show ?case
  proof (cases "grains_for_slots (lo + step) sizes g \<le> grains")
    case True
    have "lo + step \<le> grains_for_slots (lo + step) sizes g * g"
      using grains_ge [OF assms, of "lo + step"] less.prems by simp
    also have "\<dots> \<le> grains * g" using True assms(1) by (simp add: mult_right_mono)
    finally have "nat (grains * g - (lo + step)) < nat (grains * g - lo)" using less.prems by linarith
    moreover have "0 < step * 2" "0 \<le> lo + step" using less.prems by linarith+
    ultimately obtain lo' hi where "search_up sizes g grains (lo + step) (step * 2) = Some (lo', hi)" "lo + step \<le> lo'"
        "lo' < hi" "grains_for_slots lo' sizes g \<le> grains" "grains < grains_for_slots hi sizes g"
      using less.hyps [of "lo + step" "step * 2"] True by blast
    then show ?thesis using True less.prems by (subst search_up.simps) auto
  next
    case False
    then show ?thesis using less.prems by (subst search_up.simps) auto
  qed
qed

lemma bisect_maximal:
  "lo < hi \<Longrightarrow> grains_for_slots lo sizes g \<le> grains \<Longrightarrow> grains < grains_for_slots hi sizes g \<Longrightarrow>
   lo \<le> bisect sizes g grains lo hi \<and> grains_for_slots (bisect sizes g grains lo hi) sizes g \<le> grains \<and>
   grains < grains_for_slots (bisect sizes g grains lo hi + 1) sizes g"
proof (induction sizes g grains lo hi rule: bisect.induct)
  case (1 sizes g grains lo hi)
  show ?case
  proof (cases "lo + 1 < hi")
    case True
    let ?mid = "(lo + hi) div 2"
    have mid: "lo < ?mid" "?mid < hi" using True by auto
    show ?thesis
    proof (cases "grains_for_slots ?mid sizes g \<le> grains")
      case le: True
      then have "bisect sizes g grains lo hi = bisect sizes g grains ?mid hi"
        using True by (subst bisect.simps) (simp add: Let_def)
      then show ?thesis using "1.IH"(1) [OF True refl le mid(2) le "1.prems"(3)] mid by simp
    next
      case gt: False
      then have "bisect sizes g grains lo hi = bisect sizes g grains lo ?mid"
        using True by (subst bisect.simps) (simp add: Let_def)
      then show ?thesis using "1.IH"(2) [OF True refl gt mid(1) "1.prems"(2)] gt by simp
    qed
  next
    case False
    then have "bisect sizes g grains lo hi = lo" "hi = lo + 1" using "1.prems"(1) by (auto simp: bisect.simps)
    then show ?thesis using "1.prems" by simp
  qed
qed

lemma pool_shares_fit:
  assumes "0 < g" "\<forall>s \<in> set ss. 0 < s" "0 < num"
  shows "\<exists>num' rem'. pool_shares share g ss num rem = Inr (num', rem') \<and> 0 < num' \<and> num' \<le> num \<and>
     grains_for_slots num' ss g \<le> rem - rem'"
  using assms
proof (induction ss arbitrary: num rem)
  case (Cons s ss)
  let ?pg = "max (div_up s g) (share rem s (sum_list (s # ss)))"
  have s: "0 < s" using Cons.prems by simp
  have "s \<le> div_up s g * g" using div_up_mult_ge [OF Cons.prems(1)] .
  also have "\<dots> \<le> ?pg * g" using Cons.prems(1) by (intro mult_right_mono) auto
  finally have "1 \<le> ?pg * g div s" using div_le_iff [OF s, of 1] by simp
  then have pos: "0 < min num (?pg * g div s)" using Cons.prems by simp
  have ss: "\<forall>s \<in> set ss. 0 < s" using Cons.prems(2) by simp
  obtain num' rem' where rec: "pool_shares share g ss (min num (?pg * g div s)) (rem - ?pg) = Inr (num', rem')"
      "0 < num'" "num' \<le> min num (?pg * g div s)" "grains_for_slots num' ss g \<le> rem - ?pg - rem'"
    using Cons.IH [OF Cons.prems(1) ss pos, of "rem - ?pg"] by blast
  have "num' * s \<le> ?pg * g" using rec(3) div_le_iff [OF s, of num' "?pg * g"] by simp
  then have "div_up (num' * s) g \<le> ?pg" using div_up_le_iff [OF Cons.prems(1)] by blast
  then show ?case using rec s by (simp add: grains_for_slots_def Let_def)
qed (simp add: grains_for_slots_def)

lemma grains_sort: "grains_for_slots n (sort_key (\<lambda>s. s) sizes) g = grains_for_slots n sizes g"
proof -
  have "mset (map (\<lambda>s. div_up (n * s) g) (sort_key (\<lambda>s. s) sizes)) = mset (map (\<lambda>s. div_up (n * s) g) sizes)" by simp
  then show ?thesis unfolding grains_for_slots_def by (metis sum_mset_sum_list)
qed

definition maximal_slots :: "int \<Rightarrow> int list \<Rightarrow> int \<Rightarrow> int \<Rightarrow> int \<Rightarrow> bool" where
  "maximal_slots grains sizes g n used \<longleftrightarrow> 0 \<le> n \<and> used = grains_for_slots n sizes g \<and> used \<le> max 0 grains \<and>
     grains < grains_for_slots (n + 1) sizes g \<and> used < grains_for_slots (n + 1) sizes g"

lemma grains_to_slots_result:
  assumes "0 < g" "pos_sizes sizes"
  shows "(\<exists>n used. grains_to_slots share grains sizes g = Some (Inr (n, used)) \<and> maximal_slots grains sizes g n used) \<or>
     grains_to_slots share grains sizes g = Some (Inl AssertionError)"
proof (cases "grains < sum_list (map (\<lambda>s. div_up s g) sizes)")
  case True
  have "1 \<le> grains_for_slots 1 sizes g * g" using grains_ge [OF assms, of 1] by simp
  then have "0 < grains_for_slots 1 sizes g"
    using assms(1) by (metis int_one_le_iff_zero_less zero_less_mult_pos2)
  then show ?thesis
    using True assms(1) by (simp add: grains_to_slots_def maximal_slots_def grains_one)
next
  case False
  let ?ss = "sort_key (\<lambda>s. s) sizes"
  have pos: "\<forall>s \<in> set ?ss. 0 < s" using assms(2) by (simp add: pos_sizes_def)
  obtain num rem where ps: "pool_shares share g ?ss (2 ^ 63) grains = Inr (num, rem)" "0 < num"
      "grains_for_slots num sizes g \<le> grains - rem"
    using pool_shares_fit [OF assms(1) pos, of "2 ^ 63" share grains] by (auto simp: grains_sort)
  show ?thesis
  proof (cases "rem = 0")
    case True
    then obtain lo hi where up: "search_up sizes g grains num 1 = Some (lo, hi)" "num \<le> lo" "lo < hi"
        "grains_for_slots lo sizes g \<le> grains" "grains < grains_for_slots hi sizes g"
      using search_up_returns [OF assms, of 1 num grains] ps by auto
    let ?n = "bisect sizes g grains lo hi"
    have n: "lo \<le> ?n" "grains_for_slots ?n sizes g \<le> grains" "grains < grains_for_slots (?n + 1) sizes g"
      using bisect_maximal [OF up(3-5)] by blast+
    have "grains_to_slots share grains sizes g = Some (Inr (?n, grains_for_slots ?n sizes g))"
      using False ps(1,2) True up(1) n by (simp add: grains_to_slots_def Let_def)
    moreover have "maximal_slots grains sizes g ?n (grains_for_slots ?n sizes g)"
      using n up(2) ps(2) by (simp add: maximal_slots_def)
    ultimately show ?thesis by blast
  next
    case rem: False
    then show ?thesis using False ps(1) by (simp add: grains_to_slots_def)
  qed
qed

section \<open>Ratios and minimums\<close>

definition wf_sizing :: "sizing \<Rightarrow> bool" where
  "wf_sizing z \<longleftrightarrow> 0 < granularity z \<and> (\<forall>sizes \<in> set (slot_size_lists z). pos_sizes sizes) \<and>
     length (ratio_list z) = length (slot_size_lists z) \<and> length (min_slots z) = length (slot_size_lists z) \<and>
     (\<forall>m \<in> set (min_slots z). 0 \<le> m)"

abbreviation num_groups :: "sizing \<Rightarrow> nat" where
  "num_groups z \<equiv> length (slot_size_lists z)"

definition group_grains :: "sizing \<Rightarrow> nat \<Rightarrow> int \<Rightarrow> int" where
  "group_grains z pg n = grains_for_slots n (slot_size_lists z ! pg) (granularity z)"

text \<open>A slot count that no larger one fits into the same grains.\<close>

definition tight :: "sizing \<Rightarrow> nat \<Rightarrow> int \<Rightarrow> bool" where
  "tight z pg n \<longleftrightarrow> group_grains z pg n < group_grains z pg (n + 1)"

lemma wf_group:
  assumes "wf_sizing z" "pg < num_groups z"
  shows "0 < granularity z" "pos_sizes (slot_size_lists z ! pg)" "0 \<le> min_slots z ! pg"
  using assms by (auto simp: wf_sizing_def)

lemma group_slots:
  assumes "wf_sizing z" "pg < num_groups z"
  shows "(\<exists>n used. grains_to_slots share grains (slot_size_lists z ! pg) (granularity z) = Some (Inr (n, used)) \<and>
       used = group_grains z pg n \<and> tight z pg n \<and> used \<le> max 0 grains \<and> grains < group_grains z pg (n + 1)) \<or>
     grains_to_slots share grains (slot_size_lists z ! pg) (granularity z) = Some (Inl AssertionError)"
  using grains_to_slots_result [OF wf_group(1,2) [OF assms], of share grains]
  by (auto simp: maximal_slots_def group_grains_def tight_def)

lemma group_grains_mono:
  "wf_sizing z \<Longrightarrow> pg < num_groups z \<Longrightarrow> n \<le> n' \<Longrightarrow> group_grains z pg n \<le> group_grains z pg n'"
  unfolding group_grains_def using wf_group by (intro grains_mono) (auto simp: pos_sizes_def)

lemma distribute_ok:
  assumes "wf_sizing z" "\<forall>pg \<in> set pgs. pg < num_groups z" "distinct pgs"
  shows "distribute z pgs budget = Some (Inl AssertionError) \<or>
    (\<exists>res left. distribute z pgs budget = Some (Inr (res, left)) \<and> map fst res = pgs \<and>
       (\<forall>pg \<in> set pgs. tight z pg (slots_of res pg)) \<and>
       left = budget - (\<Sum>pg \<in> set pgs. group_grains z pg (slots_of res pg)))"
  using assms(2,3)
proof (induction pgs arbitrary: budget)
  case (Cons pg pgs)
  have pg: "pg < num_groups z" using Cons.prems by simp
  let ?call = "grains_to_slots (share_grains z) (share_ratio z budget (ratio_list z ! pg)
      (sum_list (map (\<lambda>j. ratio_list z ! j) (pg # pgs)))) (slot_size_lists z ! pg) (granularity z)"
  show ?case
  proof (cases "?call = Some (Inl AssertionError)")
    case True
    then show ?thesis by simp
  next
    case False
    then obtain n used where call: "?call = Some (Inr (n, used))" "used = group_grains z pg n" "tight z pg n"
      using group_slots [OF assms(1) pg] by blast
    show ?thesis
    proof (cases "distribute z pgs (budget - used) = Some (Inl AssertionError)")
      case True
      then show ?thesis using call(1) by simp
    next
      case False
      then obtain res left where rec: "distribute z pgs (budget - used) = Some (Inr (res, left))" "map fst res = pgs"
          "\<forall>pg \<in> set pgs. tight z pg (slots_of res pg)"
          "left = budget - used - (\<Sum>pg \<in> set pgs. group_grains z pg (slots_of res pg))"
        using Cons.IH [of "budget - used"] Cons.prems by auto
      let ?res = "(pg, n, used) # res"
      have new: "slots_of ?res pg = n" "\<And>j. j \<in> set pgs \<Longrightarrow> slots_of ?res j = slots_of res j"
        using Cons.prems(2) by (auto simp: slots_of_def)
      have "(\<Sum>j \<in> set (pg # pgs). group_grains z j (slots_of ?res j)) =
          group_grains z pg n + (\<Sum>j \<in> set pgs. group_grains z j (slots_of res j))"
        using Cons.prems(2) new by simp
      then have "left = budget - (\<Sum>j \<in> set (pg # pgs). group_grains z j (slots_of ?res j))"
        using rec(4) call(2) by simp
      moreover have "distribute z (pg # pgs) budget = Some (Inr (?res, left))" using call(1) rec(1) by simp
      moreover have "\<forall>j \<in> set (pg # pgs). tight z j (slots_of ?res j)" using new rec(3) call(3) by auto
      ultimately show ?thesis using rec(2) by (intro disjI2 exI [of _ ?res] exI [of _ left]) simp
    qed
  qed
qed (simp add: slots_of_def)

lemma pin_ok:
  assumes "wf_sizing z" "\<forall>pg \<in> set pgs. pg < num_groups z" "distinct pgs" "length counts = num_groups z"
  shows "pin_groups z pgs counts remaining = Some (Inl AssertionError) \<or>
    (\<exists>counts'. pin_groups z pgs counts remaining =
         Some (Inr (counts', remaining - (\<Sum>pg \<in> set pgs. group_grains z pg (counts' ! pg)))) \<and>
       length counts' = num_groups z \<and> (\<forall>pg. pg \<notin> set pgs \<longrightarrow> counts' ! pg = counts ! pg) \<and>
       (\<forall>pg \<in> set pgs. min_slots z ! pg \<le> counts' ! pg \<and> tight z pg (counts' ! pg) \<and>
          group_grains z pg (counts' ! pg) \<le> group_grains z pg (min_slots z ! pg)))"
  using assms(2-)
proof (induction pgs arbitrary: counts remaining)
  case (Cons pg pgs)
  have pg: "pg < num_groups z" using Cons.prems by simp
  let ?min = "group_grains z pg (min_slots z ! pg)"
  let ?call = "grains_to_slots (share_grains z) ?min (slot_size_lists z ! pg) (granularity z)"
  show ?case
  proof (cases "?call = Some (Inl AssertionError)")
    case True
    then show ?thesis by (simp add: group_grains_def)
  next
    case False
    then obtain n used where call: "?call = Some (Inr (n, used))" "used = group_grains z pg n" "tight z pg n"
        "used \<le> max 0 ?min" "?min < group_grains z pg (n + 1)"
      using group_slots [OF assms(1) pg] by blast
    have nonneg: "0 \<le> ?min"
      using grains_nonneg wf_group [OF assms(1) pg] by (simp add: group_grains_def pos_sizes_def)
    have "min_slots z ! pg \<le> n"
    proof (rule ccontr)
      assume "\<not> ?thesis"
      then have "group_grains z pg (n + 1) \<le> ?min" by (intro group_grains_mono assms(1) pg) simp
      then show False using call(5) by simp
    qed
    note facts = this call(3) call(4) [unfolded max_absorb2 [OF nonneg]]
    have unfold: "pin_groups z (pg # pgs) counts remaining = pin_groups z pgs (counts[pg := n]) (remaining - used)"
      using call(1) by (simp add: group_grains_def)
    have len: "length (counts[pg := n]) = num_groups z" using Cons.prems by simp
    show ?thesis
    proof (cases "pin_groups z pgs (counts[pg := n]) (remaining - used) = Some (Inl AssertionError)")
      case True
      then show ?thesis using unfold by simp
    next
      case False
      then obtain cs where cs: "pin_groups z pgs (counts[pg := n]) (remaining - used) =
            Some (Inr (cs, remaining - used - (\<Sum>j \<in> set pgs. group_grains z j (cs ! j))))" "length cs = num_groups z"
          "\<forall>j. j \<notin> set pgs \<longrightarrow> cs ! j = counts[pg := n] ! j"
          "\<forall>j \<in> set pgs. min_slots z ! j \<le> cs ! j \<and> tight z j (cs ! j) \<and>
             group_grains z j (cs ! j) \<le> group_grains z j (min_slots z ! j)"
        using Cons.IH [OF _ _ len, of "remaining - used"] Cons.prems by auto
      have n: "cs ! pg = n" using cs(3) Cons.prems pg by auto
      have "(\<Sum>j \<in> set (pg # pgs). group_grains z j (cs ! j)) = used + (\<Sum>j \<in> set pgs. group_grains z j (cs ! j))"
        using Cons.prems(2) n call(2) by simp
      then have "pin_groups z (pg # pgs) counts remaining =
          Some (Inr (cs, remaining - (\<Sum>j \<in> set (pg # pgs). group_grains z j (cs ! j))))"
        using unfold cs(1) by (simp add: algebra_simps)
      moreover have "\<forall>j. j \<notin> set (pg # pgs) \<longrightarrow> cs ! j = counts ! j" using cs(3) by simp
      moreover have "\<forall>j \<in> set (pg # pgs). min_slots z ! j \<le> cs ! j \<and> tight z j (cs ! j) \<and>
             group_grains z j (cs ! j) \<le> group_grains z j (min_slots z ! j)"
        using cs(4) n facts call(2) by auto
      ultimately show ?thesis using cs(2) by blast
    qed
  qed
qed simp

lemma fold_store:
  "distinct pgs \<Longrightarrow> \<forall>pg \<in> set pgs. pg < length cs \<Longrightarrow>
   length (fold (\<lambda>pg cs. cs[pg := f pg]) pgs cs) = length cs \<and>
   (\<forall>pg. fold (\<lambda>pg cs. cs[pg := f pg]) pgs cs ! pg = (if pg \<in> set pgs then f pg else cs ! pg))"
proof (induction pgs arbitrary: cs)
  case (Cons pg pgs)
  then show ?case using Cons.IH [of "cs[pg := f pg]"] by auto
qed simp

definition sized :: "sizing \<Rightarrow> nat set \<Rightarrow> int list \<Rightarrow> int list \<Rightarrow> int \<Rightarrow> bool" where
  "sized z active counts counts' remaining \<longleftrightarrow> length counts' = num_groups z \<and>
     (\<forall>pg. pg \<notin> active \<longrightarrow> counts' ! pg = counts ! pg) \<and>
     (\<forall>pg \<in> active. min_slots z ! pg \<le> counts' ! pg \<and> tight z pg (counts' ! pg)) \<and>
     ((\<Sum>pg \<in> active. group_grains z pg (counts' ! pg)) \<le> remaining \<or>
      (\<Sum>pg \<in> active. group_grains z pg (counts' ! pg)) \<le> (\<Sum>pg \<in> active. group_grains z pg (min_slots z ! pg)))"

lemma sized_union:
  assumes "A \<inter> B = {}" "finite A" "finite B" "length counts1 = num_groups z" "\<forall>pg. pg \<notin> A \<longrightarrow> counts1 ! pg = counts ! pg"
    and "\<forall>pg \<in> A. min_slots z ! pg \<le> counts1 ! pg \<and> tight z pg (counts1 ! pg) \<and>
          group_grains z pg (counts1 ! pg) \<le> group_grains z pg (min_slots z ! pg)"
    and "sized z B counts1 counts2 (remaining - (\<Sum>pg \<in> A. group_grains z pg (counts1 ! pg)))"
  shows "sized z (A \<union> B) counts counts2 remaining"
proof -
  have same: "counts2 ! pg = counts1 ! pg" if "pg \<in> A" for pg using assms(1,7) that by (auto simp: sized_def)
  have sumA: "(\<Sum>pg \<in> A. group_grains z pg (counts2 ! pg)) = (\<Sum>pg \<in> A. group_grains z pg (counts1 ! pg))"
    using same by simp
  have leA: "(\<Sum>pg \<in> A. group_grains z pg (counts1 ! pg)) \<le> (\<Sum>pg \<in> A. group_grains z pg (min_slots z ! pg))"
    using assms(6) by (intro sum_mono) blast
  have split: "sum f (A \<union> B) = sum f A + sum f B" for f :: "nat \<Rightarrow> int"
    using assms(1-3) by (rule sum.union_disjoint [rotated -1])
  have "(\<Sum>pg \<in> A \<union> B. group_grains z pg (counts2 ! pg)) \<le> remaining \<or>
      (\<Sum>pg \<in> A \<union> B. group_grains z pg (counts2 ! pg)) \<le> (\<Sum>pg \<in> A \<union> B. group_grains z pg (min_slots z ! pg))"
    unfolding split sumA using assms(7) leA by (auto simp: sized_def)
  then show ?thesis using assms(5-7) same by (auto simp: sized_def)
qed

lemma ratio_loop_ok:
  assumes "wf_sizing z"
  shows "\<forall>pg \<in> set active. pg < num_groups z \<Longrightarrow> distinct active \<Longrightarrow> length counts = num_groups z \<Longrightarrow>
    ratio_loop z active counts remaining \<in> {Some (Inl AssertionError), Some (Inl ValueError)} \<or>
    (\<exists>counts'. ratio_loop z active counts remaining = Some (Inr counts') \<and> sized z (set active) counts counts' remaining)"
  using assms
proof (induction z active counts remaining rule: ratio_loop.induct)
  case (1 z active counts remaining)
  note ind = "1.IH" and act = "1.prems"(1) and dist = "1.prems"(2) and len = "1.prems"(3) and wf = "1.prems"(4)
  let ?sorted = "sort_key (\<lambda>pg. ratio_list z ! pg) active"
  show ?case
  proof (cases "active = [] \<or> distribute z ?sorted remaining = Some (Inl AssertionError)")
    case True
    then show ?thesis using len by (auto simp: ratio_loop.simps [of z active] sized_def)
  next
    case False
    then have ne: "active \<noteq> []" by blast
    obtain res budget where d: "distribute z ?sorted remaining = Some (Inr (res, budget))"
        "\<forall>pg \<in> set active. tight z pg (slots_of res pg)"
        "budget = remaining - (\<Sum>pg \<in> set active. group_grains z pg (slots_of res pg))"
      using distribute_ok [OF wf, of ?sorted remaining] act dist False by auto
    let ?con = "filter (\<lambda>pg. slots_of res pg \<le> min_slots z ! pg) active"
    let ?unc = "filter (\<lambda>pg. \<not> slots_of res pg \<le> min_slots z ! pg) active"
    consider (neg) "budget < 0" | (free) "0 \<le> budget" "?con = []" | (pin) "0 \<le> budget" "?con \<noteq> []" by linarith
    then show ?thesis
    proof cases
      case neg
      then show ?thesis using d(1) ne by (simp add: ratio_loop.simps [of z active])
    next
      case free
      let ?cs = "fold (\<lambda>pg cs. cs[pg := slots_of res pg]) active counts"
      have cs: "length ?cs = num_groups z" "\<forall>pg. ?cs ! pg = (if pg \<in> set active then slots_of res pg else counts ! pg)"
        using fold_store [OF dist, of counts "slots_of res"] act len by auto
      have "ratio_loop z active counts remaining = Some (Inr ?cs)"
        using d(1) ne free by (simp add: ratio_loop.simps [of z active] Let_def del: filter_empty_conv)
      moreover have "min_slots z ! pg \<le> slots_of res pg" if "pg \<in> set active" for pg
        using free(2) that by (auto simp: filter_empty_conv)
      ultimately show ?thesis using cs d(2,3) free(1) by (auto simp: sized_def)
    next
      case pin
      have loop: "ratio_loop z active counts remaining =
          obind (pin_groups z ?con counts remaining) (\<lambda>(counts', remaining').
               if ?unc = [] then Some (Inr counts')
               else if remaining' \<le> 0 then Some (Inl ValueError)
               else ratio_loop z ?unc counts' remaining')"
        using d(1) ne pin by (simp add: ratio_loop.simps [of z active] Let_def del: filter_empty_conv)
      show ?thesis
      proof (cases "pin_groups z ?con counts remaining = Some (Inl AssertionError)")
        case True
        then show ?thesis using loop by simp
      next
        case False
        then obtain cs where cs: "pin_groups z ?con counts remaining =
             Some (Inr (cs, remaining - (\<Sum>pg \<in> set ?con. group_grains z pg (cs ! pg))))" "length cs = num_groups z"
           "\<forall>pg. pg \<notin> set ?con \<longrightarrow> cs ! pg = counts ! pg"
           "\<forall>pg \<in> set ?con. min_slots z ! pg \<le> cs ! pg \<and> tight z pg (cs ! pg) \<and>
              group_grains z pg (cs ! pg) \<le> group_grains z pg (min_slots z ! pg)"
          using pin_ok [OF wf, of ?con counts remaining] act dist len by auto
        let ?rem = "remaining - (\<Sum>pg \<in> set ?con. group_grains z pg (cs ! pg))"
        have parts: "set ?con \<union> set ?unc = set active" "set ?con \<inter> set ?unc = {}" by auto
        show ?thesis
        proof (cases "?unc \<noteq> [] \<and> ?rem \<le> 0")
          case True
          then show ?thesis using loop cs(1) by (simp del: filter_empty_conv set_filter)
        next
          case more: False
          have "ratio_loop z active counts remaining \<in> {Some (Inl AssertionError), Some (Inl ValueError)} \<or>
            (\<exists>counts'. ratio_loop z active counts remaining = Some (Inr counts') \<and> sized z (set ?unc) cs counts' ?rem)"
          proof (cases "?unc = []")
            case True
            have "ratio_loop z active counts remaining = Some (Inr cs)"
              using loop cs(1) True by (simp del: filter_empty_conv set_filter)
            moreover have "sized z (set ?unc) cs cs ?rem" unfolding True using cs(2) by (simp add: sized_def)
            ultimately show ?thesis by blast
          next
            case False
            then have pos: "\<not> ?rem \<le> 0" using more by blast
            have "ratio_loop z active counts remaining = ratio_loop z ?unc cs ?rem"
              using loop cs(1) False pos by (simp del: filter_empty_conv set_filter)
            then show ?thesis
              using ind [OF ne d(1) refl _ refl refl pin(2) cs(1) refl False pos] act dist cs(2) wf pin(1) by auto
          qed
          then show ?thesis
            using sized_union [OF parts(2) _ _ cs(2-4)] unfolding parts(1) by blast
        qed
      qed
    qed
  qed
qed

text \<open>The last loop of the code, which tries to raise the counts, never finds anything to raise.\<close>

lemma bump_all_tight:
  "\<forall>pg \<in> set pgs. tight z pg (counts ! pg) \<Longrightarrow> bump_all z pgs counts = Some (Inr counts)"
proof (induction pgs)
  case (Cons pg pgs)
  then have "bump (slot_size_lists z ! pg) (granularity z)
      (grains_for_slots (counts ! pg) (slot_size_lists z ! pg) (granularity z)) (counts ! pg) = Some (counts ! pg)"
    by (subst bump.simps) (simp add: tight_def group_grains_def)
  then show ?case using Cons by simp
qed simp

lemma ratio_to_slots_result:
  assumes "wf_sizing z"
  shows "(\<exists>e. ratio_to_slot_count_list quota z = Some (Inl e)) \<or>
    (\<exists>counts. ratio_to_slot_count_list quota z = Some (Inr counts) \<and>
       sized z {0..<num_groups z} (replicate (num_groups z) 0) counts (quota div granularity z))"
proof -
  let ?n = "num_groups z" and ?total = "quota div granularity z"
  have n: "length (ratio_list z) = ?n" using assms by (simp add: wf_sizing_def)
  have main: "(\<exists>e. ratio_loop z [0..<?n] (replicate ?n 0) ?total = Some (Inl e)) \<or>
      (\<exists>counts. ratio_loop z [0..<?n] (replicate ?n 0) ?total = Some (Inr counts) \<and>
         sized z {0..<?n} (replicate ?n 0) counts ?total)"
    using ratio_loop_ok [OF assms, of "[0..<?n]" "replicate ?n 0" ?total] by auto
  have bump: "bump_all z [0..<?n] counts = Some (Inr counts)" if "sized z {0..<?n} (replicate ?n 0) counts ?total" for counts
    using that by (intro bump_all_tight) (simp add: sized_def)
  show ?thesis using main bump by (auto simp: ratio_to_slot_count_list_def n Let_def)
qed

lemma single_pool_slots:
  assumes "0 < g" "0 < s" "\<And>b w. share b w w = b" "0 \<le> grains"
  shows "\<exists>n used. grains_to_slots share grains [s] g = Some (Inr (n, used)) \<and> maximal_slots grains [s] g n used"
proof (cases "grains < div_up s g")
  case True
  then have "grains_to_slots share grains [s] g = Some (Inr (0, 0))" by (simp add: grains_to_slots_def)
  moreover have "pos_sizes [s]" using assms(2) by (simp add: pos_sizes_def)
  ultimately show ?thesis using grains_to_slots_result [OF assms(1), of "[s]" share grains] by auto
next
  case False
  let ?num = "min (2 ^ 63) (grains * g div s)"
  have sizes: "pos_sizes [s]" using assms(2) by (simp add: pos_sizes_def)
  have ps: "pool_shares share g [s] (2 ^ 63) grains = Inr (?num, 0)"
    using False assms(2,3) by (simp add: max_def)
  then have pos: "0 < ?num" "grains_for_slots ?num [s] g \<le> grains"
    using pool_shares_fit [OF assms(1), of "[s]" "2 ^ 63" share grains] assms(2) by auto
  obtain lo hi where up: "search_up [s] g grains ?num 1 = Some (lo, hi)" "lo < hi"
      "grains_for_slots lo [s] g \<le> grains" "grains < grains_for_slots hi [s] g"
    using search_up_returns [OF assms(1) sizes, of 1 ?num grains] pos by auto
  have "grains_to_slots share grains [s] g =
      Some (Inr (bisect [s] g grains lo hi, grains_for_slots (bisect [s] g grains lo hi) [s] g))"
    using False ps pos(1) up(1) bisect_maximal [OF up(2-4)]
    by (simp add: grains_to_slots_def Let_def del: pool_shares.simps)
  then show ?thesis using grains_to_slots_result [OF assms(1) sizes, of share grains] by auto
qed

section \<open>Properties\<close>

text \<open>
  C25. \<open>_grains_to_slots\<close> always returns, and its answer is the largest number of slots whose pools fit
  into the grains, with the grains they need. With a single pool it always has an answer; with several
  it may fail its assertion.
\<close>

theorem grains_to_slots_maximal:
  assumes "0 < g" "pos_sizes sizes" "0 \<le> grains" "\<And>b w. share b w w = b"
  shows "(\<exists>n. grains_to_slots share grains sizes g = Some (Inr (n, grains_for_slots n sizes g)) \<and>
       0 \<le> n \<and> grains_for_slots n sizes g \<le> grains \<and> (\<forall>m > n. grains < grains_for_slots m sizes g)) \<or>
     (2 \<le> length sizes \<and> grains_to_slots share grains sizes g = Some (Inl AssertionError))"
proof -
  have max: "\<exists>n. grains_to_slots share grains sizes g = Some (Inr (n, grains_for_slots n sizes g)) \<and> 0 \<le> n \<and>
      grains_for_slots n sizes g \<le> grains \<and> (\<forall>m > n. grains < grains_for_slots m sizes g)"
    if r: "grains_to_slots share grains sizes g = Some (Inr (n, used))" "maximal_slots grains sizes g n used" for n used
  proof -
    have "grains < grains_for_slots m sizes g" if "n < m" for m
      using grains_mono [OF assms(1), of sizes "n + 1" m] assms(2) r(2) that by (simp add: maximal_slots_def pos_sizes_def)
    then show ?thesis using r assms(3) by (auto simp: maximal_slots_def)
  qed
  show ?thesis
  proof (cases "2 \<le> length sizes")
    case True
    then show ?thesis using grains_to_slots_result [OF assms(1,2), of share grains] max by blast
  next
    case False
    then obtain s where s: "sizes = [s]" "0 < s" using assms(2) by (cases sizes) (auto simp: pos_sizes_def Suc_le_eq)
    then show ?thesis using single_pool_slots [of g s share grains] assms(1,3,4) max by blast
  qed
qed

text \<open>Python's \<open>round(a / c)\<close> of an exact quotient: to the nearest integer, ties to the even one.\<close>

definition round_div :: "int \<Rightarrow> int \<Rightarrow> int" where
  "round_div a c = (let q = (2 * a + c) div (2 * c) in if (2 * a + c) mod (2 * c) = 0 \<and> odd q then q - 1 else q)"

definition exact_share :: "int \<Rightarrow> int \<Rightarrow> int \<Rightarrow> int" where
  "exact_share b w t = (if w = t then b else round_div (b * w) t)"

lemma exact_share_self [simp]: "exact_share b w w = b"
  by (simp add: exact_share_def)

theorem grains_to_slots_maximal_witness:
  "\<exists>n. grains_to_slots exact_share 10 [30] 100 = Some (Inr (n, grains_for_slots n [30] 100)) \<and>
     (\<forall>m > n. 10 < grains_for_slots m [30] 100)"
  using grains_to_slots_maximal [of 100 "[30]" 10 exact_share] by (auto simp: pos_sizes_def)

text \<open>
  The assertion of \<open>_grains_to_slots\<close> can fail although the slots fit: four pools with slots a little
  larger than a grain need seven grains for one slot, but dividing seven grains gives six to the first
  three pools and leaves one for the last, which needs two.
\<close>

theorem grains_to_slots_assertion_fails:
  "grains_for_slots 1 [100, 101, 101, 101] 100 = 7 \<and>
   grains_to_slots exact_share 7 [100, 101, 101, 101] 100 = Some (Inl AssertionError)"
  by code_simp

text \<open>
  C28. \<open>ratio_to_slot_count_list\<close> always returns. When it gives slot counts, every pool group has at least
  its minimum, no group could have one more slot in the grains it uses, and together the groups stay
  within the quota whenever the minimums do.
\<close>

theorem slot_counts_respect_minimums:
  assumes "wf_sizing z"
  shows "(\<exists>e. ratio_to_slot_count_list quota z = Some (Inl e)) \<or>
    (\<exists>counts. ratio_to_slot_count_list quota z = Some (Inr counts) \<and> length counts = length (slot_size_lists z) \<and>
       (\<forall>pg < length counts. min_slots z ! pg \<le> counts ! pg \<and>
          group_grains z pg (counts ! pg) < group_grains z pg (counts ! pg + 1)) \<and>
       ((\<Sum>pg < length counts. group_grains z pg (min_slots z ! pg)) \<le> quota div granularity z \<longrightarrow>
          (\<Sum>pg < length counts. group_grains z pg (counts ! pg)) \<le> quota div granularity z))"
proof -
  have "?thesis" if r: "ratio_to_slot_count_list quota z = Some (Inr counts)"
      "sized z {0..<num_groups z} (replicate (num_groups z) 0) counts (quota div granularity z)" for counts
  proof -
    have len: "length counts = num_groups z" and set: "{..<length counts} = {0..<num_groups z}"
      using r(2) by (auto simp: sized_def)
    have "(\<Sum>pg < length counts. group_grains z pg (counts ! pg)) \<le> quota div granularity z \<or>
        (\<Sum>pg < length counts. group_grains z pg (counts ! pg)) \<le> (\<Sum>pg < length counts. group_grains z pg (min_slots z ! pg))"
      unfolding set using r(2) unfolding sized_def by blast
    then show ?thesis using r len by (auto simp: sized_def tight_def)
  qed
  then show ?thesis using ratio_to_slots_result [OF assms, of quota] by blast
qed

abbreviation demo_sizing :: "int \<Rightarrow> sizing" where
  "demo_sizing m \<equiv> \<lparr>share_grains = exact_share, share_ratio = (\<lambda>b r t. \<lfloor>of_int b * (r / t)\<rfloor>),
     slot_size_lists = [[30]], ratio_list = [1], granularity = 100, min_slots = [m]\<rparr>"

theorem slot_counts_respect_minimums_witness:
  "(\<exists>e. ratio_to_slot_count_list 1000 (demo_sizing 2) = Some (Inl e)) \<or>
   (\<exists>counts. ratio_to_slot_count_list 1000 (demo_sizing 2) = Some (Inr counts) \<and> 2 \<le> counts ! 0)"
  using slot_counts_respect_minimums [of "demo_sizing 2" 1000] by (auto simp: wf_sizing_def pos_sizes_def)

text \<open>
  The quota is not enforced when every pool group is at its minimum. A single group with one pool whose
  minimum needs more grains than the quota is given that minimum all the same; the check for an
  insufficient quota is only reached when another group is left.
\<close>

theorem quota_exceeded_silently:
  assumes "wf_sizing z" "slot_size_lists z = [[s]]" "ratio_list z = [r]" "0 < r"
    and "\<And>b w. share_grains z b w w = b" "\<And>b. share_ratio z b r r = b"
    and "quota mod granularity z = 0" "1 \<le> quota div granularity z"
    and "quota div granularity z < group_grains z 0 (min_slots z ! 0)"
  shows "\<exists>n. ratio_to_slot_count_list quota z = Some (Inr [n]) \<and> quota div granularity z < group_grains z 0 n"
proof -
  let ?g = "granularity z" and ?total = "quota div granularity z" and ?min = "group_grains z 0 (min_slots z ! 0)"
  have g: "0 < ?g" "0 < s" using assms(1,2) by (auto simp: wf_sizing_def pos_sizes_def)
  have nonneg: "0 \<le> ?total" "0 \<le> ?min" using assms(8,9) by linarith+
  obtain n1 u1 where n1: "grains_to_slots (share_grains z) ?total [s] ?g = Some (Inr (n1, u1))" "maximal_slots ?total [s] ?g n1 u1"
    using single_pool_slots [of ?g s "share_grains z" ?total] g assms(5) nonneg(1) by blast
  obtain n2 u2 where n2: "grains_to_slots (share_grains z) ?min [s] ?g = Some (Inr (n2, u2))" "maximal_slots ?min [s] ?g n2 u2"
    using single_pool_slots [of ?g s "share_grains z" ?min] g assms(5) nonneg(2) by blast
  have grp: "0 < num_groups z" using assms(2) by simp
  have low: "n1 \<le> min_slots z ! 0"
  proof (rule ccontr)
    assume "\<not> ?thesis"
    then have "?min \<le> group_grains z 0 n1" by (intro group_grains_mono assms(1) grp) simp
    then show False using n1(2) assms(2,9) nonneg by (simp add: maximal_slots_def group_grains_def)
  qed
  have dist: "distribute z [0] ?total = Some (Inr ([(0, n1, u1)], ?total - u1))"
    using n1(1) assms(2,3,6) by simp
  have "u1 \<le> ?total" using n1(2) nonneg by (simp add: maximal_slots_def)
  then have main: "ratio_loop z [0] [0] ?total = Some (Inr [n2])"
    using dist low n2(1) assms(2)
    by (simp add: ratio_loop.simps [of z "[0]" "[0]" ?total] Let_def slots_of_def group_grains_def)
  have tight: "tight z 0 n2" using n2(2) assms(2) by (simp add: maximal_slots_def tight_def group_grains_def)
  have "ratio_to_slot_count_list quota z = bump_all z [0] [n2]"
    using main assms(2-4,7,8) by (simp add: ratio_to_slot_count_list_def Let_def del: bump_all.simps)
  then have res: "ratio_to_slot_count_list quota z = Some (Inr [n2])" using bump_all_tight [of "[0]" z "[n2]"] tight by simp
  have "min_slots z ! 0 \<le> n2"
  proof (rule ccontr)
    assume "\<not> ?thesis"
    then have "group_grains z 0 (n2 + 1) \<le> ?min" by (intro group_grains_mono assms(1) grp) simp
    then show False using n2(2) assms(2) by (simp add: maximal_slots_def group_grains_def)
  qed
  then have "?min \<le> group_grains z 0 n2" by (intro group_grains_mono assms(1) grp)
  then show ?thesis using res assms(9) by auto
qed

theorem quota_exceeded_silently_witness:
  "\<exists>n. ratio_to_slot_count_list 200 (demo_sizing 20) = Some (Inr [n]) \<and> 2 < group_grains (demo_sizing 20) 0 n"
  using quota_exceeded_silently [of "demo_sizing 20" 30 1 200]
  by (simp add: wf_sizing_def pos_sizes_def group_grains_def grains_for_slots_def div_up_def)

end
