(* ===== verification/RadixTree.thy ===== *)
theory RadixTree
  imports LifeCycle "HOL-Library.AList" "HOL-Library.Sublist"
begin

text \<open>
  The tree of cached blocks, \<^verbatim>\<open>runtime/kv_cache_manager_v2/_block_radix_tree.py\<close>: a block holds up to
  \<open>tokens_per_block\<close> tokens and is found under a key that hashes its tokens and the key of its parent. The tree is
  asked for the longest prefix of a prompt whose cached pages can be reused.

  Blocks own their children; the references to parents are the path by which a block is reached here, so an
  operation on a block takes the keys that lead to it. Pages are numbers. SHA-256 is a parameter. Events and the
  finalizers of blocks, which run when the last cache that holds a block lets go of it, are not modelled.
\<close>

section \<open>Keys\<close>

datatype token = TokenId int | TokenBytes "nat list"

text \<open>\<open>v.to_bytes(n, "little", signed=False)\<close>.\<close>

definition to_bytes :: "int \<Rightarrow> nat \<Rightarrow> nat list result" where
  "to_bytes v n =
     (if 0 \<le> v \<and> v < 256 ^ n then Inr (map (\<lambda>i. nat (v div 256 ^ i mod 256)) [0..<n]) else Inl OverflowError)"

record reuse_scope =
  lora_id :: "int option"
  salt :: "int option"

definition scope_fields :: "reuse_scope \<Rightarrow> int option list" where
  "scope_fields s = [lora_id s, salt s]"

definition scope_mask :: "reuse_scope \<Rightarrow> nat list result" where
  "scope_mask s =
     to_bytes (sum_list (map (\<lambda>(i, v). if v \<noteq> None then 2 ^ i else 0) (enumerate 0 (scope_fields s))))
       (nat (div_up (int (length (scope_fields s))) 8))"

definition scope_to_bytes :: "reuse_scope \<Rightarrow> nat list result" where
  "scope_to_bytes s =
     rbind (scope_mask s) (rfold (\<lambda>v ret. case v of None \<Rightarrow> Inr ret
       | Some n \<Rightarrow> rbind (to_bytes n 8) (\<lambda>bs. Inr (ret @ bs))) (scope_fields s))"

text \<open>
  \<open>Hasher\<close>: what it digests is the concatenation of the pieces it was updated with. A token that is an integer is
  eight bytes, in both ways of the code to feed a block of tokens.
\<close>

record 'k hashlib =
  sha256 :: "nat list \<Rightarrow> 'k"
  key_bytes :: "'k \<Rightarrow> nat list"

primrec token_bytes :: "token \<Rightarrow> nat list result" where
  "token_bytes (TokenId v) = to_bytes v 8"
| "token_bytes (TokenBytes bs) = Inr bs"

definition tokens_bytes :: "token list \<Rightarrow> nat list result" where
  "tokens_bytes ts = rfold (\<lambda>t ret. rbind (token_bytes t) (\<lambda>bs. Inr (ret @ bs))) ts []"

definition root_make_key :: "'k hashlib \<Rightarrow> reuse_scope \<Rightarrow> 'k result" where
  "root_make_key h s = rbind (scope_to_bytes s) (\<lambda>bs. Inr (sha256 h bs))"

definition make_key :: "'k hashlib \<Rightarrow> 'k \<Rightarrow> token list \<Rightarrow> 'k result" where
  "make_key h prev_key ts = rbind (tokens_bytes ts) (\<lambda>bs. Inr (sha256 h (key_bytes h prev_key @ bs)))"

text \<open>The tokens that stand for an image or a sound in the keys.\<close>

definition gen_multimodal_cache_key_tokens :: "int \<Rightarrow> nat list \<Rightarrow> nat \<Rightarrow> nat \<Rightarrow> token list result" where
  "gen_multimodal_cache_key_tokens id_offset digest num_tokens token_offset =
     py_assert (num_tokens > 0)
       (Inr (map (\<lambda>i. if token_offset + i = 0 then TokenBytes digest else TokenId (id_offset + int token_offset + int i))
         [0..<num_tokens]))"

section \<open>The tree\<close>

datatype 'k block =
  Block (blk_key: 'k) (blk_tokens: "token list") (blk_ordinal: int) (blk_storage: "nat option list")
    (blk_next: "('k \<times> 'k block) list")

type_synonym 'k children = "('k \<times> 'k block) list"

record 'k root_block =
  root_key :: 'k
  root_reuse_scope :: reuse_scope
  root_next :: "'k children"

record 'k radix_tree =
  rt_life_cycles :: life_cycle_registry
  rt_tokens_per_block :: nat
  rt_next :: "('k \<times> 'k root_block) list"

definition radix_tree_init :: "life_cycle_registry \<Rightarrow> nat \<Rightarrow> 'k radix_tree" where
  "radix_tree_init reg tpb = \<lparr>rt_life_cycles = reg, rt_tokens_per_block = tpb, rt_next = []\<rparr>"

text \<open>\<open>BlockRadixTree.add_or_get_existing\<close> returns the key of the root block.\<close>

definition add_or_get_existing :: "'k hashlib \<Rightarrow> reuse_scope \<Rightarrow> 'k radix_tree \<Rightarrow> ('k \<times> 'k radix_tree) result" where
  "add_or_get_existing h s t =
     rbind (root_make_key h s) (\<lambda>k.
       if map_of (rt_next t) k \<noteq> None then Inr (k, t)
       else Inr (k, t\<lparr>rt_next := rt_next t @ [(k, \<lparr>root_key = k, root_reuse_scope = s, root_next = []\<rparr>)]\<rparr>))"

subsection \<open>Adding a block\<close>

datatype 'k block_error = UselessBlock 'k | PyError py_error

text \<open>
  \<open>Block.__init__\<close> below a parent with the children \<open>next\<close>: \<open>tpb\<close> is \<open>self.tokens_per_block\<close>. \<open>UselessBlock\<close> carries the key of
  the block that covers the tokens.
\<close>

definition add_child ::
  "nat \<Rightarrow> nat \<Rightarrow> int \<Rightarrow> 'k \<Rightarrow> token list \<Rightarrow> 'k children \<Rightarrow> 'k block_error + 'k children" where
  "add_child tpb num_life_cycles ordinal key tokens next =
     (if map_of next key \<noteq> None then Inl (UselessBlock key)
      else case (if length tokens < tpb
                 then List.find (\<lambda>(k, b). take (length tokens) (blk_tokens b) = tokens) next else None) of
        Some (k, b) \<Rightarrow> Inl (UselessBlock (blk_key b))
      | None \<Rightarrow>
          Inr (filter (\<lambda>(k, b). \<not> (length (blk_tokens b) < length tokens \<and>
                 take (length (blk_tokens b)) tokens = blk_tokens b)) next
               @ [(key, Block key tokens ordinal (replicate num_life_cycles None) [])]))"

text \<open>
  \<open>tokens_per_block\<close> of the block below ancestors with the given numbers of tokens, the nearest first, and the test
  at the start of the constructor: \<open>prev.tokens_per_block == prev.prev.tokens_per_block\<close>.
\<close>

fun tokens_per_block_of :: "nat \<Rightarrow> nat list \<Rightarrow> nat" where
  "tokens_per_block_of tpb [] = tpb"
| "tokens_per_block_of tpb (l # ls) = l"

fun prev_is_full :: "nat \<Rightarrow> nat list \<Rightarrow> bool" where
  "prev_is_full tpb [] = True"
| "prev_is_full tpb [l] = True"
| "prev_is_full tpb (l # l' # ls) = (l' = tokens_per_block_of tpb ls)"

definition kbind :: "'k block_error + 'a \<Rightarrow> ('a \<Rightarrow> 'k block_error + 'b) \<Rightarrow> 'k block_error + 'b" where
  "kbind m f = (case m of Inl e \<Rightarrow> Inl e | Inr x \<Rightarrow> f x)"

definition klift :: "'a result \<Rightarrow> 'k block_error + 'a" where
  "klift m = (case m of Inl e \<Rightarrow> Inl (PyError e) | Inr x \<Rightarrow> Inr x)"

fun insert_under ::
  "'k hashlib \<Rightarrow> nat \<Rightarrow> nat \<Rightarrow> 'k \<Rightarrow> int \<Rightarrow> nat list \<Rightarrow> 'k list \<Rightarrow> token list \<Rightarrow> 'k children
     \<Rightarrow> 'k block_error + 'k \<times> 'k children" where
  "insert_under h tpb nlc prev_key ordinal lens [] tokens next =
     (if \<not> prev_is_full tpb lens then Inl (PyError AssertionError)
      else kbind (klift (make_key h prev_key tokens)) (\<lambda>key.
           kbind (add_child (tokens_per_block_of tpb lens) nlc (ordinal + 1) key tokens next) (\<lambda>next'.
             Inr (key, next'))))"
| "insert_under h tpb nlc prev_key ordinal lens (k # ks) tokens next =
     (case map_of next k of
        None \<Rightarrow> Inl (PyError KeyError)
      | Some b \<Rightarrow>
          kbind (insert_under h tpb nlc (blk_key b) (blk_ordinal b) (length (blk_tokens b) # lens) ks tokens (blk_next b))
            (\<lambda>(key, nx). Inr (key, AList.update k (Block (blk_key b) (blk_tokens b) (blk_ordinal b) (blk_storage b) nx) next)))"

text \<open>\<open>Block(tokens, prev)\<close> where \<open>prev\<close> is reached from the root block \<open>rk\<close> by the keys \<open>ks\<close>.\<close>

definition insert_block ::
  "'k hashlib \<Rightarrow> 'k \<Rightarrow> 'k list \<Rightarrow> token list \<Rightarrow> 'k radix_tree \<Rightarrow> 'k block_error + 'k \<times> 'k radix_tree" where
  "insert_block h rk ks tokens t =
     (case map_of (rt_next t) rk of
        None \<Rightarrow> Inl (PyError KeyError)
      | Some r \<Rightarrow>
          kbind (klift (registry_size (rt_life_cycles t))) (\<lambda>nlc.
          kbind (insert_under h (rt_tokens_per_block t) nlc (root_key r) (- 1) [] ks tokens (root_next r)) (\<lambda>(key, nx).
            Inr (key, t\<lparr>rt_next := AList.update rk (r\<lparr>root_next := nx\<rparr>) (rt_next t)\<rparr>))))"

text \<open>
  The module function \<open>_add_or_get_existing\<close>: it catches \<open>DuplicateKeyError\<close>, which nothing raises, and answers
  \<open>None\<close> to a useless block.
\<close>

definition add_or_get_existing_block ::
  "'k hashlib \<Rightarrow> 'k \<Rightarrow> 'k list \<Rightarrow> token list \<Rightarrow> 'k radix_tree \<Rightarrow> ('k option \<times> 'k radix_tree) result" where
  "add_or_get_existing_block h rk ks tokens t =
     (case insert_block h rk ks tokens t of
        Inr (key, t') \<Rightarrow> Inr (Some key, t')
      | Inl (UselessBlock k) \<Rightarrow> Inr (None, t)
      | Inl (PyError e) \<Rightarrow> Inl e)"

subsection \<open>Storing and dropping pages\<close>

text \<open>Applying a change to the block that a path leads to.\<close>

fun change_block :: "('k block \<Rightarrow> 'k block) \<Rightarrow> 'k list \<Rightarrow> 'k children \<Rightarrow> 'k children" where
  "change_block f [] next = next"
| "change_block f [k] next =
     (case map_of next k of None \<Rightarrow> next | Some b \<Rightarrow> AList.update k (f b) next)"
| "change_block f (k # ks) next =
     (case map_of next k of None \<Rightarrow> next
      | Some b \<Rightarrow> AList.update k (Block (blk_key b) (blk_tokens b) (blk_ordinal b) (blk_storage b)
                    (change_block f ks (blk_next b))) next)"

definition store_page :: "nat \<Rightarrow> nat option \<Rightarrow> 'k block \<Rightarrow> 'k block" where
  "store_page lc p b = Block (blk_key b) (blk_tokens b) (blk_ordinal b) ((blk_storage b)[lc := p]) (blk_next b)"

definition change_root :: "('k children \<Rightarrow> 'k children) \<Rightarrow> 'k \<Rightarrow> 'k radix_tree \<Rightarrow> 'k radix_tree" where
  "change_root f rk t =
     (case map_of (rt_next t) rk of None \<Rightarrow> t
      | Some r \<Rightarrow> t\<lparr>rt_next := AList.update rk (r\<lparr>root_next := f (root_next r)\<rparr>) (rt_next t)\<rparr>)"

text \<open>The assignment \<open>tree_block.storage[lc] = page\<close> of \<^verbatim>\<open>_core/_kv_cache.py\<close>.\<close>

definition set_page :: "'k \<Rightarrow> 'k list \<Rightarrow> nat \<Rightarrow> nat \<Rightarrow> 'k radix_tree \<Rightarrow> 'k radix_tree" where
  "set_page rk ks lc p t = change_root (change_block (store_page lc (Some p)) ks) rk t"

text \<open>
  \<open>remove_subtree\<close> goes down along first children, takes the leaf it arrives at out of its parent, and goes on
  from there until the block it started with is gone.
\<close>

definition pages_of :: "nat option list \<Rightarrow> nat list" where
  "pages_of st = map the (filter (\<lambda>p. p \<noteq> None) st)"

fun remove_leaf :: "'k block \<Rightarrow> ('k \<times> nat list) \<times> 'k block option" where
  "remove_leaf (Block k ts i st []) = ((k, pages_of st), None)"
| "remove_leaf (Block k ts i st ((k', b) # rest)) =
     (case remove_leaf b of
        (r, None) \<Rightarrow> (r, Some (Block k ts i st rest))
      | (r, Some b') \<Rightarrow> (r, Some (Block k ts i st ((k', b') # rest))))"

lemma remove_leaf_size: "remove_leaf b = (r, Some b') \<Longrightarrow> size b' < size b"
proof (induction b arbitrary: r b' rule: remove_leaf.induct)
  case (2 k ts i st k' b rest)
  then show ?case by (auto split: prod.splits option.splits)
qed simp

function remove_subtree :: "'k block \<Rightarrow> 'k list \<times> nat list" where
  "remove_subtree b =
     (case remove_leaf b of
        ((k, ps), None) \<Rightarrow> ([k], ps)
      | ((k, ps), Some b') \<Rightarrow> (case remove_subtree b' of (ks, qs) \<Rightarrow> (k # ks, ps @ qs)))"
  by pat_completeness auto
termination
  by (relation "measure size") (auto dest: remove_leaf_size [OF sym])

declare remove_subtree.simps [simp del]

definition clear_tree :: "'k radix_tree \<Rightarrow> nat list \<times> 'k radix_tree" where
  "clear_tree t =
     (concat (map (\<lambda>(_, r). concat (map (\<lambda>(_, b). snd (remove_subtree b)) (root_next r))) (rt_next t)), t\<lparr>rt_next := []\<rparr>)"

text \<open>
  \<open>Block.unset_page\<close>: the block loses its page of a life cycle. When no later block can be used without it, the subtree
  goes, and with it the pages returned here. Then the loop at the end takes out leaves without a page of the life
  cycle, from the block upwards; the flag tells whether the loop has reached the parent.
\<close>

definition needed_by_successors :: "life_cycle \<Rightarrow> int \<Rightarrow> bool" where
  "needed_by_successors lc ordinal =
     (case lc of AttnLifeCycle w s \<Rightarrow> w = None \<or> ordinal < s | SsmLifeCycle \<Rightarrow> False)"

fun unset_at :: "nat \<Rightarrow> life_cycle \<Rightarrow> 'k list \<Rightarrow> 'k children \<Rightarrow> 'k children \<times> nat list \<times> bool" where
  "unset_at i lc [] next = (next, [], False)"
| "unset_at i lc [k] next =
     (case map_of next k of
        None \<Rightarrow> (next, [], False)
      | Some b \<Rightarrow>
          if blk_storage b ! i = None then (next, [], False)
          else
            let b1 = store_page i None b in
            if needed_by_successors lc (blk_ordinal b) then (AList.delete k next, snd (remove_subtree b1), True)
            else if blk_next b = [] then (AList.delete k next, [], True)
            else (AList.update k b1 next, [], False))"
| "unset_at i lc (k # ks) next =
     (case map_of next k of
        None \<Rightarrow> (next, [], False)
      | Some b \<Rightarrow>
          (case unset_at i lc ks (blk_next b) of (nx, ps, up) \<Rightarrow>
             if up \<and> blk_storage b ! i = None \<and> nx = [] then (AList.delete k next, ps, True)
             else (AList.update k (Block (blk_key b) (blk_tokens b) (blk_ordinal b) (blk_storage b) nx) next, ps, False)))"

definition unset_page :: "'k \<Rightarrow> 'k list \<Rightarrow> nat \<Rightarrow> life_cycle \<Rightarrow> 'k radix_tree \<Rightarrow> nat list \<times> 'k radix_tree" where
  "unset_page rk ks i lc t =
     (case map_of (rt_next t) rk of
        None \<Rightarrow> ([], t)
      | Some r \<Rightarrow> (case unset_at i lc ks (root_next r) of (nx, ps, _) \<Rightarrow>
          (ps, t\<lparr>rt_next := AList.update rk (r\<lparr>root_next := nx\<rparr>) (rt_next t)\<rparr>)))"

section \<open>Matching\<close>

definition partial_match_this_node :: "'k block \<Rightarrow> token list \<Rightarrow> nat" where
  "partial_match_this_node b tokens = length (takeWhile (\<lambda>(x, y). x = y) (zip tokens (blk_tokens b)))"

definition find_best_partial_match_in_next_nodes :: "'k children \<Rightarrow> token list \<Rightarrow> 'k block option \<times> nat" where
  "find_best_partial_match_in_next_nodes next tokens =
     (if length next \<ge> 32 then (None, 0)
      else fold (\<lambda>(k, b) (best, n). let m = partial_match_this_node b tokens in if m > n then (Some b, m) else (best, n))
             next (None, 0))"

text \<open>
  The loop of \<open>_match_token_path\<close> over the keys that \<open>sequence_to_blockchain_keys\<close> produces one by one: the matched blocks, the
  children of the last one, and the first block of tokens that was not found.
\<close>

fun match_walk ::
  "'k hashlib \<Rightarrow> 'k \<Rightarrow> token list list \<Rightarrow> 'k children \<Rightarrow> (('k block \<times> nat) list \<times> 'k children \<times> token list) result" where
  "match_walk h digest [] next = Inr ([], next, [])"
| "match_walk h digest (c # cs) next =
     rbind (make_key h digest c) (\<lambda>key.
       case map_of next key of
         None \<Rightarrow> Inr ([], next, c)
       | Some b \<Rightarrow> rbind (match_walk h key cs (blk_next b)) (\<lambda>(ms, nx, mis). Inr ((b, length c) # ms, nx, mis)))"

definition match_token_path ::
  "'k hashlib \<Rightarrow> 'k radix_tree \<Rightarrow> reuse_scope \<Rightarrow> token list \<Rightarrow> bool \<Rightarrow> ('k block \<times> nat) list result" where
  "match_token_path h t scope tokens enable_partial =
     rbind (root_make_key h scope) (\<lambda>k.
       case map_of (rt_next t) k of
         None \<Rightarrow> Inr []
       | Some r \<Rightarrow>
           rbind (match_walk h k (chunked tokens (rt_tokens_per_block t)) (root_next r)) (\<lambda>(ms, nx, mis).
             if mis \<noteq> [] \<and> enable_partial
             then (case find_best_partial_match_in_next_nodes nx mis of
                     (None, _) \<Rightarrow> Inr ms
                   | (Some b, n) \<Rightarrow> Inr (ms @ [(b, n)]))
             else Inr ms))"

subsection \<open>What of a match can be reused\<close>

definition num_matched_tokens :: "nat \<Rightarrow> ('k block \<times> nat) list \<Rightarrow> nat" where
  "num_matched_tokens tpb ms = (if ms = [] then 0 else tpb * (length ms - 1) + snd (last ms))"

definition has_page :: "nat \<Rightarrow> 'k block \<times> nat \<Rightarrow> bool" where
  "has_page lc m = (blk_storage (fst m) ! lc \<noteq> None)"

definition has_pages :: "nat list \<Rightarrow> 'k block \<times> nat \<Rightarrow> bool" where
  "has_pages lcs m = list_all (\<lambda>lc. has_page lc m) lcs"

definition full_life_cycles :: "life_cycle_registry \<Rightarrow> nat list" where
  "full_life_cycles reg = map fst (filter (\<lambda>(i, lc). window_size lc = None) (attention_life_cycles reg))"

definition swa_life_cycles :: "life_cycle_registry \<Rightarrow> (nat \<times> life_cycle) list" where
  "swa_life_cycles reg = filter (\<lambda>(i, lc). window_size lc \<noteq> None) (attention_life_cycles reg)"

definition prune_full :: "nat list \<Rightarrow> ('k block \<times> nat) list \<Rightarrow> ('k block \<times> nat) list" where
  "prune_full lcs ms = (if lcs \<noteq> [] then take (find_index ms (\<lambda>m. \<not> has_pages lcs m)) ms else ms)"

definition prune_sink :: "nat \<times> life_cycle \<Rightarrow> ('k block \<times> nat) list \<Rightarrow> ('k block \<times> nat) list" where
  "prune_sink x ms =
     (let (i, lc) = x; s = nat (num_sink_blocks lc); n = find_index (take s ms) (\<lambda>m. \<not> has_page i m)
      in if n < s then take n ms else ms)"

text \<open>Back to the last block with a snapshot of the recurrent state.\<close>

definition ssm_truncate :: "nat \<Rightarrow> ('k block \<times> nat) list \<Rightarrow> ('k block \<times> nat) list" where
  "ssm_truncate i ms =
     (case List.find (\<lambda>j. has_page i (ms ! j)) (rev [0..<length ms]) of None \<Rightarrow> [] | Some j \<Rightarrow> take (Suc j) ms)"

text \<open>The body of the loop over the windows: \<open>Some\<close> is a \<open>break\<close> with a shorter match.\<close>

definition swa_cut :: "nat \<Rightarrow> ('k block \<times> nat) list \<Rightarrow> nat \<times> life_cycle \<Rightarrow> ('k block \<times> nat) list option" where
  "swa_cut tpb ms x =
     (let (i, lc) = x; n = find_index (rev ms) (has_page i) in
      if n \<noteq> 0 then Some (take (length ms - n) ms)
      else
        let stale_end = nat (snd (get_stale_range lc (int (num_matched_tokens tpb ms)) (int tpb)));
            n = find_index (rev (drop stale_end ms)) (\<lambda>m. \<not> has_page i m)
        in if length ms > stale_end + n then Some (take (length ms - n - 1) ms) else None)"

fun swa_check :: "nat \<Rightarrow> ('k block \<times> nat) list \<Rightarrow> (nat \<times> life_cycle) list \<Rightarrow> ('k block \<times> nat) list option" where
  "swa_check tpb ms [] = None"
| "swa_check tpb ms (x # xs) = (case swa_cut tpb ms x of Some ms' \<Rightarrow> Some ms' | None \<Rightarrow> swa_check tpb ms xs)"

lemma swa_check_shorter: "swa_check tpb ms xs = Some ms' \<Longrightarrow> ms \<noteq> [] \<Longrightarrow> length ms' < length ms"
  by (induction xs) (auto simp: swa_cut_def Let_def split: option.splits prod.splits if_splits)

definition ssm_step :: "life_cycle_registry \<Rightarrow> ('k block \<times> nat) list \<Rightarrow> ('k block \<times> nat) list" where
  "ssm_step reg ms = (case ssm_life_cycle_id reg of None \<Rightarrow> ms | Some i \<Rightarrow> ssm_truncate i ms)"

lemma ssm_step_length: "length (ssm_step reg ms) \<le> length ms"
  by (auto simp: ssm_step_def ssm_truncate_def split: option.splits)

function prune_loop :: "life_cycle_registry \<Rightarrow> nat \<Rightarrow> ('k block \<times> nat) list \<Rightarrow> ('k block \<times> nat) list" where
  "prune_loop reg tpb ms =
     (if ms = [] then []
      else let ms1 = ssm_step reg ms in
        if ms1 = [] then []
        else case swa_check tpb ms1 (swa_life_cycles reg) of
               None \<Rightarrow> ms1
             | Some ms2 \<Rightarrow> prune_loop reg tpb ms2)"
  by pat_completeness auto
termination
  by (relation "measure (\<lambda>(_, _, ms). length ms)")
    (auto dest!: swa_check_shorter intro: less_le_trans [OF _ ssm_step_length])

declare prune_loop.simps [simp del]

definition prune_match :: "life_cycle_registry \<Rightarrow> nat \<Rightarrow> ('k block \<times> nat) list \<Rightarrow> ('k block \<times> nat) list result" where
  "prune_match reg tpb ms =
     py_assert (list_all (\<lambda>m. snd m = tpb) (butlast ms))
       (Inr (prune_loop reg tpb (fold prune_sink (swa_life_cycles reg) (prune_full (full_life_cycles reg) ms))))"

text \<open>\<open>match\<close>: the blocks whose pages can be reused, and the number of tokens they cover.\<close>

definition match_prefix ::
  "'k hashlib \<Rightarrow> 'k radix_tree \<Rightarrow> reuse_scope \<Rightarrow> token list \<Rightarrow> bool \<Rightarrow> ('k block list \<times> nat) result" where
  "match_prefix h t scope tokens enable_partial =
     rbind (match_token_path h t scope tokens enable_partial) (\<lambda>ms.
     rbind (prune_match (rt_life_cycles t) (rt_tokens_per_block t) ms) (\<lambda>ms'.
       Inr (map fst ms', num_matched_tokens (rt_tokens_per_block t) ms')))"

end
