(* ===== verification/RadixPrune.thy ===== *)
theory RadixPrune
  imports RadixTree
begin

text \<open>
  What of a match can be reused: \<open>prune_match\<close> returns the longest prefix of a match in which every block that a
  layer still reads has its page, and the last block the snapshot of the recurrent state if there is one.
\<close>

section \<open>Reuse of a match\<close>

text \<open>
  When a prefix of the prompt is reused, the layers of a life cycle read the blocks that are not stale, and the recurrent
  layers start from the snapshot at its last block.
\<close>

definition usable :: "life_cycle_registry \<Rightarrow> nat \<Rightarrow> ('k block \<times> nat) list \<Rightarrow> bool" where
  "usable reg tpb ms \<longleftrightarrow>
     (\<forall>(i, lc) \<in> set (attention_life_cycles reg). \<forall>j < length ms.
        \<not> range_contains (get_stale_range lc (int (num_matched_tokens tpb ms)) (int tpb)) (int j) \<longrightarrow> has_page i (ms ! j)) \<and>
     (case ssm_life_cycle_id reg of None \<Rightarrow> True | Some i \<Rightarrow> ms = [] \<or> has_page i (last ms))"

text \<open>No usable prefix of a match has more than \<open>k\<close> blocks.\<close>

definition no_longer :: "life_cycle_registry \<Rightarrow> nat \<Rightarrow> ('k block \<times> nat) list \<Rightarrow> nat \<Rightarrow> bool" where
  "no_longer reg tpb ms k \<longleftrightarrow> (\<forall>k' \<le> length ms. usable reg tpb (take k' ms) \<longrightarrow> k' \<le> k)"

lemma no_longer_take:
  assumes "no_longer reg tpb ms k" "no_longer reg tpb (take k ms) k2"
  shows "no_longer reg tpb ms k2"
  unfolding no_longer_def
proof (intro allI impI)
  fix k' assume k': "k' \<le> length ms" "usable reg tpb (take k' ms)"
  then have "k' \<le> k" using assms(1) by (simp add: no_longer_def)
  then show "k' \<le> k2" using assms(2) k' by (simp add: no_longer_def min_absorb1)
qed

lemma find_index_take: "take (find_index xs p) xs = takeWhile (\<lambda>x. \<not> p x) xs"
  by (cases "xs = []") (simp_all add: find_index_eq takeWhile_eq_take [symmetric])

lemma trailing:
  assumes "length xs - length (takeWhile P (rev xs)) \<le> j" "j < length xs"
  shows "P (xs ! j)"
proof -
  have "length xs - 1 - j < length (takeWhile P (rev xs))" using assms by linarith
  then have "P (rev xs ! (length xs - 1 - j))" by (metis nth_mem set_takeWhileD takeWhile_nth)
  then show ?thesis using assms(2) by (simp add: rev_nth)
qed

lemma before_trailing:
  assumes "length (takeWhile P (rev xs)) < length xs"
  shows "\<not> P (xs ! (length xs - length (takeWhile P (rev xs)) - 1))"
proof -
  have "\<not> P (rev xs ! length (takeWhile P (rev xs)))" using assms by (intro nth_length_takeWhile) simp
  then show ?thesis using assms by (simp add: rev_nth)
qed

text \<open>The windows that the registry of a configuration may have, and the shape of a match.\<close>

definition windows_ok :: "life_cycle_registry \<Rightarrow> bool" where
  "windows_ok reg \<longleftrightarrow> (\<forall>(i, lc) \<in> set (attention_life_cycles reg). wf_life_cycle lc \<and> (\<forall>w. window_size lc = Some w \<longrightarrow> 2 \<le> w))"

definition match_shape :: "nat \<Rightarrow> ('k block \<times> nat) list \<Rightarrow> bool" where
  "match_shape tpb ms \<longleftrightarrow> (\<forall>m \<in> set (butlast ms). snd m = tpb) \<and> (\<forall>m \<in> set ms. snd m \<le> tpb)"

lemma match_shape_take: "match_shape tpb ms \<Longrightarrow> match_shape tpb (take k ms)"
  by (cases "k < length ms")
    (auto simp: match_shape_def butlast_take take_butlast [symmetric] dest!: in_set_takeD)

lemma matched_mono:
  assumes "match_shape tpb ms" "k \<le> k'" "k' \<le> length ms"
  shows "num_matched_tokens tpb (take k ms) \<le> num_matched_tokens tpb (take k' ms)"
proof (cases "k = k' \<or> k = 0")
  case False
  then have k: "0 < k" "k < k'" "k < length ms" using assms(2,3) by auto
  have "last (take k ms) \<in> set (take k ms)" using k by (intro last_in_set) auto
  then have "snd (last (take k ms)) \<le> tpb" using assms(1) by (auto simp: match_shape_def dest: in_set_takeD)
  then have "num_matched_tokens tpb (take k ms) \<le> tpb * (k - 1) + tpb"
    using k by (auto simp: num_matched_tokens_def)
  also have "\<dots> = tpb * k" using k(1) by (cases k) auto
  also have "\<dots> \<le> tpb * (k' - 1)" using k by (intro mult_le_mono2) simp
  also have "\<dots> \<le> num_matched_tokens tpb (take k' ms)" using k assms(3) by (auto simp: num_matched_tokens_def min_absorb2)
  finally show ?thesis .
qed (auto simp: num_matched_tokens_def)

lemma matched_le: "match_shape tpb ms \<Longrightarrow> num_matched_tokens tpb ms \<le> tpb * length ms"
  by (cases ms rule: rev_cases) (auto simp: num_matched_tokens_def match_shape_def)

lemma usable_page:
  assumes "usable reg tpb ms" "(i, lc) \<in> set (attention_life_cycles reg)" "j < length ms"
    and "\<not> range_contains (get_stale_range lc (int (num_matched_tokens tpb ms)) (int tpb)) (int j)"
  shows "has_page i (ms ! j)"
  using assms unfolding usable_def by blast

text \<open>Cutting at the first block without the pages of full attention, or of the sinks of a window.\<close>

lemma window_cases:
  assumes "windows_ok reg" "(i, lc) \<in> set (attention_life_cycles reg)"
  obtains w s where "lc = AttnLifeCycle w s" "0 \<le> s" "\<And>n. w = Some n \<Longrightarrow> 2 \<le> n"
  using assms by (cases lc) (fastforce simp: windows_ok_def wf_life_cycle_def attention_life_cycles_def)+

lemma full_member: "i \<in> set (full_life_cycles reg) \<longleftrightarrow> (\<exists>lc. (i, lc) \<in> set (attention_life_cycles reg) \<and> window_size lc = None)"
  by (auto simp: full_life_cycles_def image_iff)

lemma swa_member: "(i, lc) \<in> set (swa_life_cycles reg) \<longleftrightarrow> (i, lc) \<in> set (attention_life_cycles reg) \<and> window_size lc \<noteq> None"
  by (auto simp: swa_life_cycles_def)

lemma usable_full:
  assumes "windows_ok reg" "usable reg tpb ms" "j < length ms"
  shows "has_pages (full_life_cycles reg) (ms ! j)"
  unfolding has_pages_def list_all_iff
proof
  fix i assume "i \<in> set (full_life_cycles reg)"
  then obtain lc where lc: "(i, lc) \<in> set (attention_life_cycles reg)" "window_size lc = None" by (auto simp: full_member)
  then obtain s where "lc = AttnLifeCycle None s" by (metis window_cases [OF assms(1)] life_cycle.sel(1))
  then show "has_page i (ms ! j)" using usable_page [OF assms(2) lc(1) assms(3)] stale_full by blast
qed

lemma usable_sink:
  assumes "windows_ok reg" "usable reg tpb ms" "0 < tpb" "(i, lc) \<in> set (swa_life_cycles reg)" "j < length ms"
    "int j < num_sink_blocks lc"
  shows "has_page i (ms ! j)"
proof -
  have at: "(i, lc) \<in> set (attention_life_cycles reg)" "window_size lc \<noteq> None" using assms(4) by (auto simp: swa_member)
  then obtain w s where lc: "lc = AttnLifeCycle (Some w) s" "0 \<le> s" "2 \<le> w"
    by (metis window_cases [OF assms(1)] life_cycle.sel(1) not_None_eq)
  have "\<not> range_contains (get_stale_range lc (int (num_matched_tokens tpb ms)) (int tpb)) (int j)"
    using assms(3,6) lc by (simp add: stale_attn)
  then show ?thesis by (rule usable_page [OF assms(2) at(1) assms(5)])
qed

lemma usable_last:
  assumes "windows_ok reg" "usable reg tpb ms" "0 < tpb" "match_shape tpb ms" "(i, lc) \<in> set (swa_life_cycles reg)" "ms \<noteq> []"
  shows "has_page i (last ms)"
proof -
  have at: "(i, lc) \<in> set (attention_life_cycles reg)" "window_size lc \<noteq> None" using assms(5) by (auto simp: swa_member)
  then obtain w s where lc: "lc = AttnLifeCycle (Some w) s" "0 \<le> s" "2 \<le> w"
    by (metis window_cases [OF assms(1)] life_cycle.sel(1) not_None_eq)
  have "int (num_matched_tokens tpb ms) \<le> int tpb * int (length ms)"
    using matched_le [OF assms(4)] by (simp flip: of_nat_mult)
  moreover have "(int (length ms - 1) + 1) * int tpb = int tpb * int (length ms)" using assms(6) by (cases ms) (auto simp: algebra_simps)
  ultimately have "\<not> range_contains (get_stale_range lc (int (num_matched_tokens tpb ms)) (int tpb)) (int (length ms - 1))"
    using assms(3) lc by (auto simp: stale_attn mult.commute)
  then show ?thesis using usable_page [OF assms(2) at(1), of "length ms - 1"] assms(6) by (simp add: last_conv_nth)
qed

lemma takeWhile_no_longer:
  assumes "\<And>k'. k' \<le> length ms \<Longrightarrow> usable reg tpb (take k' ms) \<Longrightarrow> \<forall>j < min k' s. P (ms ! j)" "length (takeWhile P (take s ms)) < length (take s ms)"
  shows "no_longer reg tpb ms (length (takeWhile P (take s ms)))"
  unfolding no_longer_def
proof (intro allI impI leI notI)
  fix k' assume k': "k' \<le> length ms" "usable reg tpb (take k' ms)" "length (takeWhile P (take s ms)) < k'"
  have "\<not> P (take s ms ! length (takeWhile P (take s ms)))" by (rule nth_length_takeWhile [OF assms(2)])
  then show False using assms(1) [OF k'(1,2)] assms(2) k'(3) by auto
qed

lemma prune_full_ok:
  assumes "windows_ok reg"
  obtains k where "prune_full (full_life_cycles reg) ms = take k ms" "no_longer reg tpb ms k"
    "\<forall>m \<in> set (take k ms). has_pages (full_life_cycles reg) m"
proof (cases "full_life_cycles reg = []")
  case True
  then show thesis using that [of "length ms"] by (simp add: prune_full_def no_longer_def has_pages_def)
next
  case False
  let ?P = "has_pages (full_life_cycles reg)"
  have eq: "prune_full (full_life_cycles reg) ms = takeWhile ?P ms" using False by (simp add: prune_full_def find_index_take)
  have "no_longer reg tpb ms (length (takeWhile ?P ms))"
  proof (cases "length (takeWhile ?P ms) < length ms")
    case True
    have "\<forall>j < min k' (length ms). ?P (ms ! j)" if "k' \<le> length ms" "usable reg tpb (take k' ms)" for k'
      using usable_full [OF assms that(2)] that(1) by auto
    then show ?thesis using takeWhile_no_longer [of ms reg tpb "length ms" ?P] True by simp
  qed (simp add: no_longer_def)
  then show thesis using that [of "length (takeWhile ?P ms)"] eq by (metis set_takeWhileD takeWhile_eq_take)
qed

definition sinks_ok :: "(nat \<times> life_cycle) list \<Rightarrow> ('k block \<times> nat) list \<Rightarrow> bool" where
  "sinks_ok xs ms \<longleftrightarrow> (\<forall>(i, lc) \<in> set xs. \<forall>j < length ms. int j < num_sink_blocks lc \<longrightarrow> has_page i (ms ! j))"

lemma sinks_ok_take: "sinks_ok xs ms \<Longrightarrow> sinks_ok xs (take k ms)"
  by (auto simp: sinks_ok_def)

lemma prune_sink_ok:
  assumes "windows_ok reg" "0 < tpb" "(i, lc) \<in> set (swa_life_cycles reg)"
  obtains k where "prune_sink (i, lc) ms = take k ms" "no_longer reg tpb ms k" "sinks_ok [(i, lc)] (take k ms)"
proof -
  define s where "s = nat (num_sink_blocks lc)"
  let ?P = "has_page i" and ?n = "find_index (take s ms) (\<lambda>m. \<not> has_page i m)"
  have s: "int j < num_sink_blocks lc \<longleftrightarrow> j < s" for j by (auto simp: s_def)
  have eq: "prune_sink (i, lc) ms = (if ?n < s then take ?n ms else ms)" by (simp add: prune_sink_def s_def Let_def)
  show thesis
  proof (cases "take s ms \<noteq> [] \<and> length (takeWhile ?P (take s ms)) < length (take s ms)")
    case True
    then have n: "?n = length (takeWhile ?P (take s ms))" "?n < s" by (auto simp: find_index_eq)
    have "\<forall>j < min k' s. ?P (ms ! j)" if "k' \<le> length ms" "usable reg tpb (take k' ms)" for k'
      using usable_sink [OF assms(1) that(2) assms(2,3)] that(1) s by auto
    then have "no_longer reg tpb ms ?n" unfolding n(1) using True by (intro takeWhile_no_longer) auto
    moreover have "?P (ms ! j)" if "j < ?n" for j
      using that n takeWhile_nth [of j ?P "take s ms"] nth_mem [of j "takeWhile ?P (take s ms)"] set_takeWhileD by fastforce
    ultimately show thesis using that [of ?n] eq n(2) by (auto simp: sinks_ok_def)
  next
    case False
    have "prune_sink (i, lc) ms = ms"
      using False eq by (auto simp: find_index_eq not_less dest!: le_antisym [OF length_takeWhile_le])
    moreover have "?P (ms ! j)" if "j < length ms" "j < s" for j
    proof -
      have "takeWhile ?P (take s ms) = take s ms"
        using False that by (metis length_takeWhile_le linorder_not_less nat_less_le length_0_conv less_nat_zero_code take_all takeWhile_eq_take take_eq_Nil)
      then show ?thesis using that set_takeWhileD [of "ms ! j" ?P "take s ms"] by (metis in_set_conv_nth length_take min_less_iff_conj nth_take)
    qed
    ultimately show thesis using that [of "length ms"] s by (auto simp: sinks_ok_def no_longer_def)
  qed
qed

lemma prune_sinks_ok:
  assumes "windows_ok reg" "0 < tpb" "set xs \<subseteq> set (swa_life_cycles reg)"
  shows "\<exists>k. fold prune_sink xs ms = take k ms \<and> no_longer reg tpb ms k \<and> sinks_ok xs (take k ms)"
  using assms(3)
proof (induction xs arbitrary: ms)
  case Nil
  then show ?case by (intro exI [of _ "length ms"]) (simp add: no_longer_def sinks_ok_def)
next
  case (Cons x xs)
  obtain i lc where x: "x = (i, lc)" by force
  obtain k1 where k1: "prune_sink (i, lc) ms = take k1 ms" "no_longer reg tpb ms k1" "sinks_ok [(i, lc)] (take k1 ms)"
    using prune_sink_ok [OF assms(1,2)] Cons.prems x by (metis insert_subset list.simps(15))
  obtain k2 where k2: "fold prune_sink xs (take k1 ms) = take k2 (take k1 ms)" "no_longer reg tpb (take k1 ms) k2"
      "sinks_ok xs (take k2 (take k1 ms))"
    using Cons.IH [of "take k1 ms"] Cons.prems by auto
  have "no_longer reg tpb ms (min k2 k1)"
    using no_longer_take [OF k1(2) k2(2)] k1(2) by (simp add: no_longer_def)
  moreover have "sinks_ok (x # xs) (take (min k2 k1) ms)"
    using k2(3) sinks_ok_take [OF k1(3), of k2] x by (auto simp: sinks_ok_def min.commute)
  ultimately show ?case using k1(1) k2(1) x by (intro exI [of _ "min k2 k1"]) (simp add: min.commute)
qed

lemma last_take_nth: "0 < k \<Longrightarrow> k \<le> length xs \<Longrightarrow> last (take k xs) = xs ! (k - 1)"
  by (subst last_conv_nth) auto

text \<open>A prefix is too long when its last block lacks a page it needs.\<close>

lemma last_no_longer:
  assumes "\<And>k'. 0 < k' \<Longrightarrow> k' \<le> length ms \<Longrightarrow> usable reg tpb (take k' ms) \<Longrightarrow> P (last (take k' ms))"
    and "\<And>j. k \<le> j \<Longrightarrow> j < length ms \<Longrightarrow> \<not> P (ms ! j)"
  shows "no_longer reg tpb ms k"
  unfolding no_longer_def
proof (intro allI impI leI notI)
  fix k' assume k': "k' \<le> length ms" "usable reg tpb (take k' ms)" "k < k'"
  then have "P (ms ! (k' - 1))" using assms(1) [of k'] last_take_nth [of k' ms] by simp
  moreover have "k \<le> k' - 1" "k' - 1 < length ms" using k' by linarith+
  ultimately show False using assms(2) by blast
qed

lemma ssm_step_ok:
  obtains k where "ssm_step reg ms = take k ms" "no_longer reg tpb ms k"
    "case ssm_life_cycle_id reg of None \<Rightarrow> True | Some i \<Rightarrow> take k ms = [] \<or> has_page i (last (take k ms))"
proof (cases "ssm_life_cycle_id reg")
  case None
  then show thesis using that [of "length ms"] by (simp add: ssm_step_def no_longer_def)
next
  case (Some i)
  have need: "has_page i (last (take k' ms))" if "0 < k'" "k' \<le> length ms" "usable reg tpb (take k' ms)" for k'
    using that Some by (auto simp: usable_def)
  show thesis
  proof (cases "List.find (\<lambda>j. has_page i (ms ! j)) (rev [0..<length ms])")
    case None
    then have "\<not> has_page i (ms ! j)" if "j < length ms" for j using that by (auto simp: find_None_iff)
    then have "no_longer reg tpb ms 0" using need by (intro last_no_longer [where P = "has_page i"]) auto
    then show thesis using that [of 0] None Some by (simp add: ssm_step_def ssm_truncate_def)
  next
    case (Some j)
    then obtain n where n: "n < length ms" "rev [0..<length ms] ! n = j" "has_page i (ms ! j)"
        "\<forall>m < n. \<not> has_page i (ms ! (rev [0..<length ms] ! m))"
      by (auto simp: find_Some_iff)
    then have j: "j = length ms - 1 - n" "j < length ms" by (auto simp: rev_nth)
    have "\<not> has_page i (ms ! j')" if "j < j'" "j' < length ms" for j'
      using n(4) [rule_format, of "length ms - 1 - j'"] that j n(1) by (auto simp: rev_nth)
    then have "no_longer reg tpb ms (Suc j)"
      using need by (intro last_no_longer [where P = "has_page i"]) auto
    then show thesis
      using that [of "Suc j"] Some \<open>ssm_life_cycle_id reg = Some i\<close> n(3) j(2)
      by (simp add: ssm_step_def ssm_truncate_def take_Suc_conv_app_nth)
  qed
qed

lemma swa_end:
  assumes "windows_ok reg" "(i, lc) \<in> set (swa_life_cycles reg)"
  obtains w s where "lc = AttnLifeCycle (Some w) s" "0 \<le> s" "2 \<le> w" "(i, lc) \<in> set (attention_life_cycles reg)"
proof -
  have at: "(i, lc) \<in> set (attention_life_cycles reg)" "window_size lc \<noteq> None" using assms(2) by (auto simp: swa_member)
  then show thesis using that window_cases [OF assms(1) at(1)] by (metis life_cycle.sel(1) not_None_eq)
qed

text \<open>The bound of the stale blocks that the code looks at.\<close>

abbreviation stale_end :: "nat \<Rightarrow> ('k block \<times> nat) list \<Rightarrow> life_cycle \<Rightarrow> nat" where
  "stale_end tpb ms lc \<equiv> nat (snd (get_stale_range lc (int (num_matched_tokens tpb ms)) (int tpb)))"

lemma beyond_stale_end:
  assumes "0 < tpb" "0 \<le> h" "lc = AttnLifeCycle (Some w) s" "2 \<le> w" "0 \<le> s" "nat (snd (get_stale_range lc h (int tpb))) \<le> j"
  shows "\<not> range_contains (get_stale_range lc h (int tpb)) (int j)"
  using assms by (auto simp: range_contains_def)

lemma before_stale_end:
  assumes "lc = AttnLifeCycle (Some w) s" "0 \<le> s" "j < nat (snd (get_stale_range lc h (int tpb)))"
    and "\<not> range_contains (get_stale_range lc h (int tpb)) (int j)"
  shows "int j < num_sink_blocks lc"
  using assms by (auto simp: range_contains_def get_stale_range_def Let_def)

lemma swa_cut_Some:
  assumes "windows_ok reg" "0 < tpb" "match_shape tpb ms" "(i, lc) \<in> set (swa_life_cycles reg)" "ms \<noteq> []"
    and "swa_cut tpb ms (i, lc) = Some ms'"
  obtains k where "ms' = take k ms" "no_longer reg tpb ms k"
proof -
  let ?n = "length (takeWhile (\<lambda>m. \<not> has_page i m) (rev ms))"
  obtain w s where lc: "lc = AttnLifeCycle (Some w) s" "0 \<le> s" "2 \<le> w" "(i, lc) \<in> set (attention_life_cycles reg)"
    using swa_end [OF assms(1,4)] by blast
  have n: "find_index (rev ms) (has_page i) = ?n" using assms(5) by (simp add: find_index_eq)
  show thesis
  proof (cases "?n = 0")
    case False
    then have "ms' = take (length ms - ?n) ms" using assms(6) n by (simp add: swa_cut_def)
    moreover have "no_longer reg tpb ms (length ms - ?n)"
    proof (rule last_no_longer [where P = "has_page i"])
      show "has_page i (last (take k' ms))" if "0 < k'" "k' \<le> length ms" "usable reg tpb (take k' ms)" for k'
        using usable_last [OF assms(1) that(3) assms(2) match_shape_take [OF assms(3)] assms(4)] that assms(5) by auto
      show "\<not> has_page i (ms ! j)" if "length ms - ?n \<le> j" "j < length ms" for j
        using trailing [of ms "\<lambda>m. \<not> has_page i m" j] that by simp
    qed
    ultimately show thesis by (rule that)
  next
    case True
    let ?e = "stale_end tpb ms lc" and ?P = "has_page i"
    let ?d = "drop ?e ms"
    let ?m = "find_index (rev ?d) (\<lambda>m. \<not> has_page i m)"
    have cut: "length ms > ?e + ?m" "ms' = take (length ms - ?m - 1) ms"
      using assms(6) n True by (auto simp: swa_cut_def Let_def split: if_splits)
    then have d: "?m = length (takeWhile ?P (rev ?d))" "?m < length ?d" by (auto simp: find_index_eq split: if_splits)
    define j where "j = length ms - ?m - 1"
    have j: "?e \<le> j" "j < length ms" using cut(1) by (auto simp: j_def)
    have "\<not> ?P (?d ! (length ?d - ?m - 1))" using before_trailing [of ?P ?d] d by simp
    then have gap: "\<not> ?P (ms ! j)" using cut(1) by (simp add: j_def)
    have "no_longer reg tpb ms j"
      unfolding no_longer_def
    proof (intro allI impI leI notI)
      fix k' assume k': "k' \<le> length ms" "usable reg tpb (take k' ms)" "j < k'"
      let ?h = "int (num_matched_tokens tpb (take k' ms))"
      have "?h \<le> int (num_matched_tokens tpb ms)" using matched_mono [OF assms(3) k'(1)] by simp
      moreover have "\<not> range_contains (get_stale_range lc (int (num_matched_tokens tpb ms)) (int tpb)) (int j)"
        using beyond_stale_end [OF assms(2) _ lc(1,3,2)] j(1) by simp
      ultimately have "\<not> range_contains (get_stale_range lc ?h (int tpb)) (int j)"
        using stale_grows [of "int tpb" ?h "int (num_matched_tokens tpb ms)" lc] assms(2) lc by (auto simp: wf_life_cycle_def)
      then show False using usable_page [OF k'(2) lc(4), of j] k' gap by simp
    qed
    then show thesis using that [of j] cut(2) by (simp add: j_def)
  qed
qed

lemma swa_cut_None:
  assumes "windows_ok reg" "(i, lc) \<in> set (swa_life_cycles reg)" "ms \<noteq> []" "sinks_ok [(i, lc)] ms" "swa_cut tpb ms (i, lc) = None"
    and "j < length ms" "\<not> range_contains (get_stale_range lc (int (num_matched_tokens tpb ms)) (int tpb)) (int j)"
  shows "has_page i (ms ! j)"
proof (cases "j < stale_end tpb ms lc")
  case True
  obtain w s where lc: "lc = AttnLifeCycle (Some w) s" "0 \<le> s" using swa_end [OF assms(1,2)] by blast
  then show ?thesis using before_stale_end [OF lc True assms(7)] assms(4,6) by (simp add: sinks_ok_def)
next
  case False
  let ?d = "drop (stale_end tpb ms lc) ms" and ?P = "has_page i"
  have "?d \<noteq> []" using False assms(6) by simp
  then have "length ?d \<le> length (takeWhile ?P (rev ?d))"
    using assms(5) by (auto simp: swa_cut_def Let_def find_index_eq split: if_splits)
  then have "?P (?d ! (j - stale_end tpb ms lc))" using trailing [of ?d ?P "j - stale_end tpb ms lc"] False assms(6) by simp
  then show ?thesis using False assms(6) by simp
qed

lemma swa_check_Some:
  assumes "windows_ok reg" "0 < tpb" "match_shape tpb ms" "ms \<noteq> []" "set xs \<subseteq> set (swa_life_cycles reg)" "swa_check tpb ms xs = Some ms'"
  shows "\<exists>k. ms' = take k ms \<and> no_longer reg tpb ms k"
  using assms(5,6)
proof (induction xs)
  case (Cons x xs)
  obtain i lc where x: "x = (i, lc)" by force
  then have swa: "(i, lc) \<in> set (swa_life_cycles reg)" using Cons.prems(1) by simp
  show ?case
  proof (cases "swa_cut tpb ms x")
    case None
    then show ?thesis using Cons by simp
  next
    case (Some ms2)
    then have "swa_cut tpb ms (i, lc) = Some ms'" using Cons.prems(2) x by simp
    then show ?thesis by (rule swa_cut_Some [OF assms(1-3) swa assms(4)]) blast
  qed
qed simp

lemma swa_check_None: "swa_check tpb ms xs = None \<Longrightarrow> x \<in> set xs \<Longrightarrow> swa_cut tpb ms x = None"
  by (induction xs) (auto split: option.splits)

lemma sinks_ok_single: "sinks_ok xs ms \<Longrightarrow> x \<in> set xs \<Longrightarrow> sinks_ok [x] ms"
  by (auto simp: sinks_ok_def)

lemma prune_loop_ok:
  assumes "windows_ok reg" "0 < tpb"
  shows "match_shape tpb ms \<Longrightarrow> \<forall>m \<in> set ms. has_pages (full_life_cycles reg) m \<Longrightarrow> sinks_ok (swa_life_cycles reg) ms \<Longrightarrow>
     \<exists>k. prune_loop reg tpb ms = take k ms \<and> usable reg tpb (take k ms) \<and> no_longer reg tpb ms k"
proof (induction "length ms" arbitrary: ms rule: less_induct)
  case less
  note shape = less.prems(1) and full = less.prems(2) and sinks = less.prems(3)
  have empty: "usable reg tpb []" by (simp add: usable_def split: option.splits)
  obtain k1 where k1: "ssm_step reg ms = take k1 ms" "no_longer reg tpb ms k1"
      "case ssm_life_cycle_id reg of None \<Rightarrow> True | Some i \<Rightarrow> take k1 ms = [] \<or> has_page i (last (take k1 ms))"
    by (rule ssm_step_ok)
  let ?ms1 = "take k1 ms"
  consider "ms = [] \<or> ?ms1 = []" | "?ms1 \<noteq> []" "swa_check tpb ?ms1 (swa_life_cycles reg) = None"
    | ms2 where "?ms1 \<noteq> []" "swa_check tpb ?ms1 (swa_life_cycles reg) = Some ms2" by fastforce
  then show ?case
  proof cases
    case 1
    then have "prune_loop reg tpb ms = take 0 ms" using k1(1) by (subst prune_loop.simps) (auto simp: Let_def)
    moreover have "no_longer reg tpb ms 0" using 1 k1(2) by (auto simp: no_longer_def)
    ultimately show ?thesis using empty by (metis take_0)
  next
    case 2
    have "has_page i (?ms1 ! j)" if "(i, lc) \<in> set (attention_life_cycles reg)" "j < length ?ms1"
        "\<not> range_contains (get_stale_range lc (int (num_matched_tokens tpb ?ms1)) (int tpb)) (int j)" for i lc j
    proof (cases "window_size lc = None")
      case True
      then have "i \<in> set (full_life_cycles reg)" using that(1) by (auto simp: full_member)
      moreover have "?ms1 ! j \<in> set ms" using that(2) in_set_takeD nth_mem by metis
      ultimately show ?thesis using full by (auto simp: has_pages_def list_all_iff)
    next
      case False
      then have swa: "(i, lc) \<in> set (swa_life_cycles reg)" using that(1) by (simp add: swa_member)
      then have "sinks_ok [(i, lc)] ?ms1" using sinks_ok_single [OF sinks_ok_take [OF sinks]] by blast
      then show ?thesis using swa_cut_None [OF assms(1) swa 2(1) _ swa_check_None [OF 2(2) swa] that(2,3)] by blast
    qed
    then have "usable reg tpb ?ms1" using k1(3) by (auto simp: usable_def split: option.splits)
    moreover have "prune_loop reg tpb ms = ?ms1" using 2 k1(1) by (subst prune_loop.simps) (auto simp: Let_def)
    ultimately show ?thesis using k1(2) by blast
  next
    case (3 ms2)
    obtain k2 where k2: "ms2 = take k2 ?ms1" "no_longer reg tpb ?ms1 k2"
      using swa_check_Some [OF assms match_shape_take [OF shape] 3(1) subset_refl 3(2)] by blast
    have "length ms2 < length ms" using swa_check_shorter [OF 3(2,1)] by simp
    moreover have "match_shape tpb ms2" "\<forall>m \<in> set ms2. has_pages (full_life_cycles reg) m" "sinks_ok (swa_life_cycles reg) ms2"
      using match_shape_take [OF match_shape_take [OF shape]] full sinks_ok_take [OF sinks_ok_take [OF sinks]] k2(1)
      by (auto dest!: in_set_takeD)
    ultimately obtain k3 where k3: "prune_loop reg tpb ms2 = take k3 ms2" "usable reg tpb (take k3 ms2)" "no_longer reg tpb ms2 k3"
      using less.hyps by blast
    define k where "k = min k3 (min k2 k1)"
    have eq: "take k3 ms2 = take k ms" using k2(1) by (simp add: k_def min.assoc)
    have "no_longer reg tpb ms k3" using no_longer_take [OF k1(2) no_longer_take [OF k2(2)]] k3(3) k2(1) by blast
    moreover have "no_longer reg tpb ms k2" by (rule no_longer_take [OF k1(2) k2(2)])
    ultimately have "no_longer reg tpb ms k" using k1(2) by (auto simp: no_longer_def k_def)
    moreover have "prune_loop reg tpb ms = prune_loop reg tpb ms2" using 3 k1(1) by (subst prune_loop.simps) (auto simp: Let_def)
    ultimately show ?thesis using k3(1,2) eq by (metis)
  qed
qed

lemma prune_match_ok:
  assumes "windows_ok reg" "0 < tpb" "match_shape tpb ms"
  shows "\<exists>k \<le> length ms. prune_match reg tpb ms = Inr (take k ms) \<and> usable reg tpb (take k ms) \<and> no_longer reg tpb ms k"
proof -
  obtain k1 where k1: "prune_full (full_life_cycles reg) ms = take k1 ms" "no_longer reg tpb ms k1"
      "\<forall>m \<in> set (take k1 ms). has_pages (full_life_cycles reg) m"
    using prune_full_ok [OF assms(1)] by blast
  obtain k2 where k2: "fold prune_sink (swa_life_cycles reg) (take k1 ms) = take k2 (take k1 ms)" "no_longer reg tpb (take k1 ms) k2"
      "sinks_ok (swa_life_cycles reg) (take k2 (take k1 ms))"
    using prune_sinks_ok [OF assms(1,2) subset_refl] by blast
  let ?ms = "take k2 (take k1 ms)"
  have full: "\<forall>m \<in> set ?ms. has_pages (full_life_cycles reg) m" using k1(3) in_set_takeD by metis
  obtain k3 where k3: "prune_loop reg tpb ?ms = take k3 ?ms" "usable reg tpb (take k3 ?ms)" "no_longer reg tpb ?ms k3"
    using prune_loop_ok [OF assms(1,2) match_shape_take [OF match_shape_take [OF assms(3)]] full k2(3)] by blast
  define k where "k = min (length ms) (min k3 (min k2 k1))"
  have "take (min (length ms) n) ms = take n ms" for n by (simp add: min_def)
  then have eq: "take k3 ?ms = take k ms" by (simp add: k_def min.assoc)
  have "no_longer reg tpb ms k2" "no_longer reg tpb ms k3"
    using no_longer_take [OF k1(2) k2(2)] no_longer_take [OF k1(2) no_longer_take [OF k2(2) k3(3)]] by blast+
  then have "no_longer reg tpb ms k" using k1(2) by (auto simp: no_longer_def k_def)
  moreover have "prune_match reg tpb ms = Inr (take k3 ?ms)"
    using assms(3) k1(1) k2(1) k3(1) by (auto simp: prune_match_def match_shape_def list_all_iff py_assert_def)
  ultimately show ?thesis using k3(2) unfolding eq by (intro exI [of _ k]) (simp add: k_def)
qed

end
