(* ===== verification/RadixMatch.thy ===== *)
theory RadixMatch
  imports RadixPrune
begin

text \<open>
  The keys of blocks determine their tokens, the invariant of the tree and that every operation keeps it, and the
  properties of matching: a tree that is walked by hashes answers as one that is walked by tokens.
\<close>

section \<open>Keys determine tokens\<close>

lemma digits_unique:
  fixes v v' :: int
  assumes "0 \<le> v" "v < 256 ^ n" "0 \<le> v'" "v' < 256 ^ n" "\<And>i. i < n \<Longrightarrow> v div 256 ^ i mod 256 = v' div 256 ^ i mod 256"
  shows "v = v'"
  using assms
proof (induction n arbitrary: v v')
  case (Suc n)
  have low: "v mod 256 = v' mod 256" using Suc.prems(5) [of 0] by simp
  have "v div 256 = v' div 256"
  proof (rule Suc.IH)
    show "v div 256 < 256 ^ n" "v' div 256 < 256 ^ n" using Suc.prems(2,4) by (simp_all add: div_less_iff_less_mult mult.commute)
    show "v div 256 div 256 ^ i mod 256 = v' div 256 div 256 ^ i mod 256" if "i < n" for i
      using Suc.prems(5) [of "Suc i"] that by (simp add: zdiv_zmult2_eq)
  qed (use Suc.prems in simp_all)
  then show ?case using low by (metis div_mult_mod_eq)
qed simp

lemma to_bytes_length: "to_bytes v n = Inr bs \<Longrightarrow> length bs = n"
  by (auto simp: to_bytes_def split: if_splits)

lemma to_bytes_inject:
  assumes "to_bytes v n = Inr bs" "to_bytes v' n = Inr bs"
  shows "v = v'"
proof (rule digits_unique)
  show "0 \<le> v" "v < 256 ^ n" "0 \<le> v'" "v' < 256 ^ n" using assms by (auto simp: to_bytes_def split: if_splits)
  show "v div 256 ^ i mod 256 = v' div 256 ^ i mod 256" if "i < n" for i
  proof -
    have "bs ! i = nat (v div 256 ^ i mod 256)" "bs ! i = nat (v' div 256 ^ i mod 256)"
      using assms that by (auto simp: to_bytes_def split: if_splits)
    then show ?thesis by (metis eq_nat_nat_iff pos_mod_sign zero_less_numeral)
  qed
qed

lemma bytes_fold:
  "rfold (\<lambda>x ret. rbind (f x) (\<lambda>bs. Inr (ret @ bs))) xs acc =
   rbind (rfold (\<lambda>x ret. rbind (f x) (\<lambda>bs. Inr (ret @ bs))) xs []) (\<lambda>bs. Inr (acc @ bs))"
proof (induction xs arbitrary: acc)
  case (Cons x xs)
  show ?case
  proof (cases "f x")
    case (Inr bs)
    then show ?thesis using Cons.IH [of "acc @ bs"] Cons.IH [of bs] by (cases "rfold (\<lambda>x ret. rbind (f x) (\<lambda>bs. Inr (ret @ bs))) xs []") auto
  qed simp
qed simp

lemma tokens_bytes_simps:
  "tokens_bytes [] = Inr []"
  "tokens_bytes (t # ts) = rbind (token_bytes t) (\<lambda>bs. rbind (tokens_bytes ts) (\<lambda>cs. Inr (bs @ cs)))"
proof -
  show "tokens_bytes (t # ts) = rbind (token_bytes t) (\<lambda>bs. rbind (tokens_bytes ts) (\<lambda>cs. Inr (bs @ cs)))"
  proof (cases "token_bytes t")
    case (Inr bs)
    then show ?thesis using bytes_fold [of token_bytes ts bs] by (simp add: tokens_bytes_def)
  qed (simp add: tokens_bytes_def)
qed (simp add: tokens_bytes_def)

text \<open>The tokens of a text are integers of at most 64 bits.\<close>

definition plain :: "token \<Rightarrow> bool" where
  "plain t = (case t of TokenId v \<Rightarrow> 0 \<le> v \<and> v < 2 ^ 64 | TokenBytes _ \<Rightarrow> False)"

lemma plain_bytes: "plain t \<Longrightarrow> \<exists>bs. token_bytes t = Inr bs \<and> length bs = 8"
  by (cases t) (auto simp: plain_def to_bytes_def)

lemma plain_tokens_bytes: "\<forall>t \<in> set ts. plain t \<Longrightarrow> \<exists>bs. tokens_bytes ts = Inr bs \<and> length bs = 8 * length ts"
proof (induction ts)
  case (Cons t ts)
  then show ?case using plain_bytes [of t] by (auto simp: tokens_bytes_simps)
qed (simp add: tokens_bytes_simps)

lemma tokens_bytes_inject:
  assumes "\<forall>t \<in> set ts. plain t" "\<forall>t \<in> set ts'. plain t" "tokens_bytes ts = Inr bs" "tokens_bytes ts' = Inr bs"
  shows "ts = ts'"
  using assms
proof (induction ts arbitrary: ts' bs)
  case Nil
  then show ?case using plain_tokens_bytes [of ts'] by (auto simp: tokens_bytes_simps)
next
  case (Cons t ts)
  then have "length ts' = Suc (length ts)" using plain_tokens_bytes [of ts'] plain_tokens_bytes [of "t # ts"] by auto
  then obtain t' us where ts': "ts' = t' # us" by (cases ts') auto
  obtain b b' c c' where b: "token_bytes t = Inr b" "token_bytes t' = Inr b'" "tokens_bytes ts = Inr c" "tokens_bytes us = Inr c'"
      "length b = 8" "length b' = 8"
    using plain_bytes [of t] plain_bytes [of t'] plain_tokens_bytes [of ts] plain_tokens_bytes [of us] Cons.prems ts' by auto
  then have eq: "b = b'" "c = c'" using Cons.prems(3,4) ts' by (auto simp: tokens_bytes_simps)
  then have "ts = us" using Cons.IH [of us c] Cons.prems b ts' by auto
  moreover have "t = t'" using b(1,2) eq(1) Cons.prems(1,2) ts' to_bytes_inject by (cases t; cases t') (auto simp: plain_def)
  ultimately show ?case by (simp add: ts')
qed

text \<open>That SHA-256 has no collisions is what the code relies on.\<close>

definition collision_free :: "'k hashlib \<Rightarrow> bool" where
  "collision_free h \<longleftrightarrow> inj (sha256 h)"

lemma make_key_plain: "\<forall>t \<in> set ts. plain t \<Longrightarrow> \<exists>k'. make_key h k ts = Inr k'"
  using plain_tokens_bytes [of ts] by (auto simp: make_key_def)

lemma make_key_inject:
  assumes "collision_free h" "make_key h k ts = Inr k'" "make_key h k ts' = Inr k'" "\<forall>t \<in> set ts. plain t" "\<forall>t \<in> set ts'. plain t"
  shows "ts = ts'"
proof -
  obtain bs bs' where "tokens_bytes ts = Inr bs" "tokens_bytes ts' = Inr bs'"
      "sha256 h (key_bytes h k @ bs) = k'" "sha256 h (key_bytes h k @ bs') = k'"
    using assms(2,3) by (auto simp: make_key_def rbind_eq_Inr)
  moreover from this have "bs = bs'" using assms(1) by (auto simp: collision_free_def dest: injD)
  ultimately show ?thesis using tokens_bytes_inject assms(4,5) by blast
qed

text \<open>The bytes of a scope: which fields there are, and their values.\<close>

definition field_bytes :: "int option \<Rightarrow> nat list result" where
  "field_bytes v = (case v of None \<Rightarrow> Inr [] | Some n \<Rightarrow> to_bytes n 8)"

definition scope_bits :: "int option \<Rightarrow> int option \<Rightarrow> nat" where
  "scope_bits l a = (if l = None then 0 else 1) + (if a = None then 0 else 2)"

lemma scope_bytes:
  "scope_to_bytes s = rbind (field_bytes (lora_id s)) (\<lambda>b. rbind (field_bytes (salt s)) (\<lambda>c.
     Inr (scope_bits (lora_id s) (salt s) # b @ c)))"
proof -
  have "nat (div_up 2 8) = 1" by (simp add: div_up_def)
  then have "scope_mask s = Inr [scope_bits (lora_id s) (salt s)]"
    by (simp add: scope_mask_def scope_fields_def to_bytes_def scope_bits_def enumerate_eq_zip)
  then show ?thesis
    by (cases "lora_id s"; cases "salt s"; cases "to_bytes (the (lora_id s)) 8"; cases "to_bytes (the (salt s)) 8")
      (simp_all add: scope_to_bytes_def scope_fields_def field_bytes_def)
qed

lemma field_bytes_inject:
  "field_bytes v = Inr b \<Longrightarrow> field_bytes v' = Inr b \<Longrightarrow> v = None \<longleftrightarrow> v' = None \<Longrightarrow> v = v'"
  by (cases v; cases v') (auto simp: field_bytes_def dest: to_bytes_inject)

lemma field_bytes_length: "field_bytes v = Inr b \<Longrightarrow> length b = (if v = None then 0 else 8)"
  by (cases v) (auto simp: field_bytes_def dest: to_bytes_length)

lemma scope_bits_inject: "scope_bits l a = scope_bits l' a' \<Longrightarrow> (l = None \<longleftrightarrow> l' = None) \<and> (a = None \<longleftrightarrow> a' = None)"
  by (auto simp: scope_bits_def split: if_splits)

lemma scope_bytes_inject:
  assumes "scope_to_bytes s = Inr bs" "scope_to_bytes s' = Inr bs"
  shows "s = s'"
proof -
  obtain b c b' c' where b: "field_bytes (lora_id s) = Inr b" "field_bytes (salt s) = Inr c"
      "field_bytes (lora_id s') = Inr b'" "field_bytes (salt s') = Inr c'"
    and bs: "bs = scope_bits (lora_id s) (salt s) # b @ c" "bs = scope_bits (lora_id s') (salt s') # b' @ c'"
    using assms by (auto simp: scope_bytes rbind_eq_Inr)
  have none: "lora_id s = None \<longleftrightarrow> lora_id s' = None" "salt s = None \<longleftrightarrow> salt s' = None"
    using scope_bits_inject [of "lora_id s" "salt s" "lora_id s'" "salt s'"] bs by simp_all
  have "length b = length b'" using b none by (simp add: field_bytes_length)
  then have "b = b'" "c = c'" using bs by simp_all
  then have "lora_id s = lora_id s'" "salt s = salt s'"
    using field_bytes_inject [OF b(1) _ none(1)] field_bytes_inject [OF b(2) _ none(2)] b(3,4) by simp_all
  then show ?thesis by simp
qed

lemma root_key_inject:
  "collision_free h \<Longrightarrow> root_make_key h s = Inr k \<Longrightarrow> root_make_key h s' = Inr k \<Longrightarrow> s = s'"
  by (auto simp: root_make_key_def rbind_eq_Inr collision_free_def dest: injD intro: scope_bytes_inject)

section \<open>The invariant of the tree\<close>

text \<open>
  Below a node with key \<open>k\<close>: every block is stored under the key made of \<open>k\<close> and its tokens, its ordinal counts from the
  root, only full blocks have children, and of two siblings neither begins with the tokens of the other.
\<close>

definition block_ok :: "'k hashlib \<Rightarrow> nat \<Rightarrow> nat \<Rightarrow> int \<Rightarrow> 'k \<Rightarrow> 'k \<times> 'k block \<Rightarrow> bool" where
  "block_ok h tpb nlc i k x \<longleftrightarrow>
     blk_key (snd x) = fst x \<and> make_key h k (blk_tokens (snd x)) = Inr (fst x) \<and> blk_ordinal (snd x) = i \<and>
     length (blk_storage (snd x)) = nlc \<and> (\<forall>t \<in> set (blk_tokens (snd x)). plain t) \<and>
     blk_tokens (snd x) \<noteq> [] \<and> length (blk_tokens (snd x)) \<le> tpb \<and>
     (blk_next (snd x) \<noteq> [] \<longrightarrow> length (blk_tokens (snd x)) = tpb)"

definition siblings_ok :: "'k children \<Rightarrow> bool" where
  "siblings_ok nx \<longleftrightarrow> distinct (map fst nx) \<and>
     (\<forall>x \<in> set nx. \<forall>y \<in> set nx. prefix (blk_tokens (snd x)) (blk_tokens (snd y)) \<longrightarrow> x = y)"

lemma blk_next_size: "x \<in> set nx \<Longrightarrow> size_list (\<lambda>y. size (snd y)) (blk_next (snd x)) < size_list (\<lambda>y. size (snd y)) nx"
proof -
  assume x: "x \<in> set nx"
  obtain k ts i st cs where b: "snd x = Block k ts i st cs" by (cases "snd x")
  have "size_list (\<lambda>y. size (snd y)) cs \<le> size_list (size_prod (\<lambda>_. 0) size) cs"
    by (rule size_list_pointwise) auto
  then have "size_list (\<lambda>y. size (snd y)) (blk_next (snd x)) < size (snd x)" by (simp add: b)
  also have "\<dots> \<le> size_list (\<lambda>y. size (snd y)) nx" using x by (rule size_list_estimation') simp
  finally show ?thesis .
qed

function forest_ok :: "'k hashlib \<Rightarrow> nat \<Rightarrow> nat \<Rightarrow> int \<Rightarrow> 'k \<Rightarrow> 'k children \<Rightarrow> bool" where
  "forest_ok h tpb nlc i k nx \<longleftrightarrow> siblings_ok nx \<and>
     (\<forall>x \<in> set nx. block_ok h tpb nlc i k x \<and> forest_ok h tpb nlc (i + 1) (fst x) (blk_next (snd x)))"
  by pat_completeness auto
termination
  by (relation "measure (\<lambda>(_, _, _, _, _, nx). size_list (\<lambda>y. size (snd y)) nx)") (auto simp: blk_next_size)

declare forest_ok.simps [simp del]

definition tree_ok :: "'k hashlib \<Rightarrow> 'k radix_tree \<Rightarrow> bool" where
  "tree_ok h t \<longleftrightarrow> 0 < rt_tokens_per_block t \<and> registry_inv (rt_life_cycles t) \<and> distinct (map fst (rt_next t)) \<and>
     (\<forall>(k, r) \<in> set (rt_next t). root_key r = k \<and> root_make_key h (root_reuse_scope r) = Inr k \<and>
        forest_ok h (rt_tokens_per_block t) (length (life_cycle_list (rt_life_cycles t))) 0 k (root_next r))"

lemma forest_child:
  assumes "forest_ok h tpb nlc i k nx" "map_of nx k' = Some b"
  shows "block_ok h tpb nlc i k (k', b)" "forest_ok h tpb nlc (i + 1) k' (blk_next b)" "(k', b) \<in> set nx"
  using assms map_of_SomeD [OF assms(2)] by (auto simp: forest_ok.simps [of h tpb nlc i k])

lemma forest_lookup:
  assumes "forest_ok h tpb nlc i k nx" "(k', b) \<in> set nx"
  shows "map_of nx k' = Some b"
  using assms by (simp add: forest_ok.simps [of h tpb nlc i k] siblings_ok_def)

section \<open>Matching by keys is matching by tokens\<close>

fun token_walk :: "token list list \<Rightarrow> 'k children \<Rightarrow> 'k block list" where
  "token_walk [] nx = []"
| "token_walk (c # cs) nx =
     (case List.find (\<lambda>(k, b). blk_tokens b = c) nx of None \<Rightarrow> [] | Some (k, b) \<Rightarrow> b # token_walk cs (blk_next b))"

lemma child_by_tokens:
  assumes "collision_free h" "forest_ok h tpb nlc i k nx" "\<forall>t \<in> set c. plain t" "make_key h k c = Inr key"
  shows "map_option snd (List.find (\<lambda>(k, b). blk_tokens b = c) nx) = map_of nx key"
proof (cases "List.find (\<lambda>(k, b). blk_tokens b = c) nx")
  case None
  have "map_of nx key = None"
  proof (rule ccontr)
    assume "map_of nx key \<noteq> None"
    then obtain b where b: "map_of nx key = Some b" by blast
    then have "block_ok h tpb nlc i k (key, b)" "(key, b) \<in> set nx" using forest_child [OF assms(2)] by auto
    then have "blk_tokens b = c" using make_key_inject [OF assms(1) _ assms(4)] assms(3) by (auto simp: block_ok_def)
    then show False using None \<open>(key, b) \<in> set nx\<close> by (auto simp: find_None_iff)
  qed
  then show ?thesis using None by simp
next
  case (Some x)
  obtain k' b where x: "x = (k', b)" by force
  then have b: "(k', b) \<in> set nx" "blk_tokens b = c" using Some by (auto simp: find_Some_iff in_set_conv_nth)
  then have "map_of nx k' = Some b" using forest_lookup [OF assms(2)] by blast
  moreover have "k' = key" using forest_child(1) [OF assms(2) calculation] b(2) assms(4) by (simp add: block_ok_def)
  ultimately show ?thesis using Some x by simp
qed

lemma match_walk_tokens:
  assumes "collision_free h"
  shows "forest_ok h tpb nlc i k nx \<Longrightarrow> \<forall>c \<in> set cs. \<forall>t \<in> set c. plain t \<Longrightarrow>
    \<exists>ms nx' mis i' k'. match_walk h k cs nx = Inr (ms, nx', mis) \<and> map fst ms = token_walk cs nx \<and>
      length ms \<le> length cs \<and> map (\<lambda>m. blk_tokens (fst m)) ms = take (length ms) cs \<and>
      map snd ms = map length (take (length ms) cs) \<and> mis = (if length ms < length cs then cs ! length ms else []) \<and>
      forest_ok h tpb nlc i' k' nx'"
proof (induction cs arbitrary: i k nx)
  case Nil
  then show ?case by auto
next
  case (Cons c cs)
  obtain key where key: "make_key h k c = Inr key" using make_key_plain Cons.prems(2) by (metis list.set_intros(1))
  have find: "map_option snd (List.find (\<lambda>(k, b). blk_tokens b = c) nx) = map_of nx key"
    using child_by_tokens [OF assms Cons.prems(1) _ key] Cons.prems(2) by simp
  show ?case
  proof (cases "map_of nx key")
    case None
    then show ?thesis using find key Cons.prems(1) by auto
  next
    case (Some b)
    have b: "block_ok h tpb nlc i k (key, b)" "forest_ok h tpb nlc (i + 1) key (blk_next b)"
      using forest_child [OF Cons.prems(1) Some] by auto
    have tok: "blk_tokens b = c" using make_key_inject [OF assms _ key] b(1) Cons.prems(2) by (auto simp: block_ok_def)
    obtain kk where "List.find (\<lambda>(k, b). blk_tokens b = c) nx = Some (kk, b)" using find Some by auto
    moreover obtain ms nx' mis i' k' where "match_walk h key cs (blk_next b) = Inr (ms, nx', mis)"
        "map fst ms = token_walk cs (blk_next b)" "length ms \<le> length cs"
        "map (\<lambda>m. blk_tokens (fst m)) ms = take (length ms) cs" "map snd ms = map length (take (length ms) cs)"
        "mis = (if length ms < length cs then cs ! length ms else [])" "forest_ok h tpb nlc i' k' nx'"
      using Cons.IH [OF b(2)] Cons.prems(2) by auto
    ultimately show ?thesis using key Some tok by auto
  qed
qed

lemma best_partial_match:
  assumes "find_best_partial_match_in_next_nodes nx tokens = (Some b, n)"
  shows "\<exists>k. (k, b) \<in> set nx \<and> take n (blk_tokens b) = take n tokens \<and> 0 < n \<and> n \<le> length tokens"
proof -
  have partial: "take n (blk_tokens b) = take n tokens \<and> n \<le> length tokens" if "n = partial_match_this_node b tokens" for b :: "'a block" and n
  proof -
    let ?w = "takeWhile (\<lambda>(x, y). x = y) (zip tokens (blk_tokens b))"
    have n: "n \<le> length tokens" "n \<le> length (blk_tokens b)"
      using that length_takeWhile_le [of "\<lambda>(x, y). x = y" "zip tokens (blk_tokens b)"] by (auto simp: partial_match_this_node_def)
    have "tokens ! j = blk_tokens b ! j" if "j < n" for j
    proof -
      have j: "j < length ?w" using that \<open>n = partial_match_this_node b tokens\<close> by (simp add: partial_match_this_node_def)
      then have "case ?w ! j of (x, y) \<Rightarrow> x = y" using set_takeWhileD nth_mem by metis
      then show ?thesis using takeWhile_nth [OF j] j n that by simp
    qed
    then have "take n (blk_tokens b) = take n tokens" using n by (intro nth_equalityI) auto
    then show ?thesis using n by simp
  qed
  let ?f = "\<lambda>(k, b) (best, n). let m = partial_match_this_node b tokens in if m > n then (Some b, m) else (best, n)"
  let ?ok = "\<lambda>(best, n). case best of None \<Rightarrow> True
     | Some b \<Rightarrow> (\<exists>k. (k, b) \<in> set nx) \<and> n = partial_match_this_node b tokens \<and> 0 < n"
  have "?ok (fold ?f nx (None, 0))"
    by (rule fold_invariant [where Q = "\<lambda>x. x \<in> set nx"]) (auto simp: Let_def split: option.splits if_splits)
  then show ?thesis using assms partial by (auto simp: find_best_partial_match_in_next_nodes_def split: if_splits)
qed

lemma take_concat_take: "take (length (concat (take m cs))) (concat cs) = concat (take m cs)"
  by (metis append_eq_conv_conj append_take_drop_id concat_append)

lemma concat_chunk_length:
  assumes "0 < n" "m \<le> length (chunked xs n)" "\<forall>c \<in> set (butlast (take m (chunked xs n))). length c = n"
  shows "length (concat (take m (chunked xs n))) = (if m = 0 then 0 else n * (m - 1) + length (chunked xs n ! (m - 1)))"
proof (cases m)
  case (Suc j)
  let ?cs = "chunked xs n"
  have "take m ?cs = take j ?cs @ [?cs ! j]" using assms(2) Suc by (simp add: take_Suc_conv_app_nth)
  moreover have "sum_list (map length (take j ?cs)) = sum_list (map (\<lambda>_. n) (take j ?cs))"
    using assms(3) calculation by (intro arg_cong [of _ _ sum_list] map_cong) auto
  ultimately show ?thesis using assms(2) Suc by (simp add: length_concat sum_list_triv mult.commute)
qed simp

lemma chunks_before_full:
  assumes "0 < n" "m \<le> length (chunked xs n)" "j < m" "Suc j < m \<or> m < length (chunked xs n)"
  shows "length (chunked xs n ! j) = n"
proof -
  have "j < length (chunked xs n) - 1" using assms(2-4) by linarith
  then have "chunked xs n ! j \<in> set (butlast (chunked xs n))" by (metis length_butlast nth_butlast nth_mem)
  then show ?thesis using chunked_full_but_last [OF assms(1)] by blast
qed

lemma nth_chunk_le: "0 < n \<Longrightarrow> j < length (chunked xs n) \<Longrightarrow> length (chunked xs n ! j) \<le> n"
  using chunked_lengths [of n "chunked xs n ! j" xs] by simp

text \<open>What a match found by the tokens of blocks of equal size looks like.\<close>

lemma walk_shape:
  assumes "0 < tpb" "length ms \<le> length (chunked tokens tpb)" "map snd ms = map length (take (length ms) (chunked tokens tpb))"
    and "map (\<lambda>m. blk_tokens (fst m)) ms = take (length ms) (chunked tokens tpb)"
  shows "match_shape tpb ms" "concat (map (\<lambda>(b, n). take n (blk_tokens b)) ms) = take (num_matched_tokens tpb ms) tokens"
    "length ms < length (chunked tokens tpb) \<Longrightarrow> \<forall>m \<in> set ms. snd m = tpb"
proof -
  let ?cs = "chunked tokens tpb" and ?m = "length ms"
  have snd: "snd (ms ! j) = length (?cs ! j)" if "j < ?m" for j
    using that assms(2) arg_cong [OF assms(3), of "\<lambda>l. l ! j"] by simp
  have tok: "blk_tokens (fst (ms ! j)) = ?cs ! j" if "j < ?m" for j
    using that assms(2) arg_cong [OF assms(4), of "\<lambda>l. l ! j"] by simp
  have bl: "snd (ms ! j) = tpb" if "Suc j < ?m \<or> j < ?m \<and> ?m < length ?cs" for j
    using that snd [of j] chunks_before_full [OF assms(1,2), of j] by auto
  then show "\<forall>m \<in> set ms. snd m = tpb" if "?m < length ?cs" using that by (metis in_set_conv_nth)
  show "match_shape tpb ms"
    unfolding match_shape_def
  proof (intro conjI ballI)
    show "snd m = tpb" if m: "m \<in> set (butlast ms)" for m
    proof -
      obtain j where "m = ms ! j" "Suc j < ?m" using m by (auto simp: in_set_conv_nth nth_butlast)
      then show ?thesis using bl by simp
    qed
    show "snd m \<le> tpb" if m: "m \<in> set ms" for m
    proof -
      obtain j where "m = ms ! j" "j < ?m" using m by (auto simp: in_set_conv_nth)
      then show ?thesis using snd nth_chunk_le [OF assms(1), of j tokens] assms(2) by simp
    qed
  qed
  have "map (\<lambda>(b, n). take n (blk_tokens b)) ms = take ?m ?cs"
    using assms(2) snd tok by (intro nth_equalityI) (auto simp: case_prod_beta)
  moreover have "\<forall>c \<in> set (butlast (take ?m ?cs)). length c = tpb"
    using chunks_before_full [OF assms(1,2)] assms(2) by (auto simp: in_set_conv_nth nth_butlast less_diff_conv)
  then have "length (concat (take ?m ?cs)) = num_matched_tokens tpb ms"
    using concat_chunk_length [OF assms(1,2)] snd [of "?m - 1"] by (simp add: num_matched_tokens_def last_conv_nth)
  ultimately show "concat (map (\<lambda>(b, n). take n (blk_tokens b)) ms) = take (num_matched_tokens tpb ms) tokens"
    using take_concat_take [of ?m ?cs] concat_chunked [OF assms(1), of tokens] by metis
qed

text \<open>The blocks cached for a scope.\<close>

definition scope_children :: "'k radix_tree \<Rightarrow> reuse_scope \<Rightarrow> 'k children" where
  "scope_children t s =
     (case List.find (\<lambda>(k, r). root_reuse_scope r = s) (rt_next t) of None \<Rightarrow> [] | Some (k, r) \<Rightarrow> root_next r)"

lemma root_lookup:
  assumes "tree_ok h t" "collision_free h" "root_make_key h s = Inr k"
  shows "scope_children t s = (case map_of (rt_next t) k of None \<Rightarrow> [] | Some r \<Rightarrow> root_next r)"
proof (cases "List.find (\<lambda>(k, r). root_reuse_scope r = s) (rt_next t)")
  case None
  have "map_of (rt_next t) k = None"
  proof (rule ccontr)
    assume "map_of (rt_next t) k \<noteq> None"
    then obtain r where r: "(k, r) \<in> set (rt_next t)" by (auto dest: map_of_SomeD)
    then have "root_make_key h (root_reuse_scope r) = Inr k" using assms(1) by (auto simp: tree_ok_def)
    then have "root_reuse_scope r = s" using root_key_inject [OF assms(2)] assms(3) by blast
    then show False using None r by (auto simp: find_None_iff)
  qed
  then show ?thesis using None by (simp add: scope_children_def)
next
  case (Some x)
  obtain k' r where x: "x = (k', r)" by force
  then have r: "(k', r) \<in> set (rt_next t)" "root_reuse_scope r = s" using Some by (auto simp: find_Some_iff in_set_conv_nth)
  then have "root_make_key h s = Inr k'" using assms(1) by (auto simp: tree_ok_def)
  then have "k' = k" using assms(3) by simp
  then have "map_of (rt_next t) k = Some r" using r(1) assms(1) by (auto simp: tree_ok_def)
  then show ?thesis using Some x by (simp add: scope_children_def)
qed

lemma scope_forest:
  assumes "tree_ok h t" "map_of (rt_next t) k = Some r"
  shows "forest_ok h (rt_tokens_per_block t) (length (life_cycle_list (rt_life_cycles t))) 0 k (root_next r)"
  using assms map_of_SomeD [OF assms(2)] by (auto simp: tree_ok_def)

lemma chunk_plain: "0 < n \<Longrightarrow> \<forall>t \<in> set xs. P t \<Longrightarrow> c \<in> set (chunked xs n) \<Longrightarrow> \<forall>t \<in> set c. P t"
  using concat_chunked [of n xs] by (metis in_set_conv_decomp concat_append concat.simps(2) Un_iff set_append)

lemma partial_tokens:
  assumes "0 < n" "m < length (chunked xs n)"
  shows "take (n * m + j) xs = concat (take m (chunked xs n)) @ take j (chunked xs n ! m @ concat (drop (Suc m) (chunked xs n)))"
proof -
  let ?cs = "chunked xs n"
  have "\<forall>c \<in> set (butlast (take (Suc m) ?cs)). length c = n"
    using chunks_before_full [OF assms(1), of "Suc m" xs] assms(2)
    by (auto simp: take_Suc_conv_app_nth in_set_conv_nth)
  then have "length (concat (take (Suc m) ?cs)) = n * m + length (?cs ! m)"
    using concat_chunk_length [OF assms(1), of "Suc m" xs] assms(2) by simp
  then have len: "length (concat (take m ?cs)) = n * m" using assms(2) by (simp add: take_Suc_conv_app_nth)
  have "xs = concat (take m ?cs) @ (?cs ! m @ concat (drop (Suc m) ?cs))"
    using concat_chunked [OF assms(1), of xs] id_take_nth_drop [OF assms(2)] by (metis concat_append concat.simps(2))
  then show ?thesis using len by (metis append_eq_conv_conj diff_add_inverse take_append take_all le_add1)
qed

lemma match_token_path_ok:
  assumes "tree_ok h t" "collision_free h" "\<forall>x \<in> set tokens. plain x" "root_make_key h s = Inr k"
  defines "tpb \<equiv> rt_tokens_per_block t"
  shows "\<exists>ms last. match_token_path h t s tokens partial = Inr ms \<and> match_shape tpb ms \<and>
     map fst ms = token_walk (chunked tokens tpb) (scope_children t s) @ last \<and> (\<not> partial \<longrightarrow> last = []) \<and> length last \<le> 1 \<and>
     (\<forall>m \<in> set ms. snd m \<le> length (blk_tokens (fst m))) \<and>
     concat (map (\<lambda>(b, n). take n (blk_tokens b)) ms) = take (num_matched_tokens tpb ms) tokens"
proof (cases "map_of (rt_next t) k")
  case None
  then have "scope_children t s = []" using root_lookup [OF assms(1,2,4)] by simp
  then have "token_walk (chunked tokens tpb) (scope_children t s) = []" by (cases "chunked tokens tpb") simp_all
  then show ?thesis using None assms(4) by (simp add: match_token_path_def match_shape_def num_matched_tokens_def)
next
  case (Some r)
  let ?cs = "chunked tokens tpb"
  have tpb: "0 < tpb" using assms(1) by (simp add: tree_ok_def tpb_def)
  have children: "scope_children t s = root_next r" using root_lookup [OF assms(1,2,4)] Some by simp
  obtain ms nx mis where w: "match_walk h k ?cs (root_next r) = Inr (ms, nx, mis)" "map fst ms = token_walk ?cs (root_next r)"
      "length ms \<le> length ?cs" "map (\<lambda>m. blk_tokens (fst m)) ms = take (length ms) ?cs" "map snd ms = map length (take (length ms) ?cs)"
      "mis = (if length ms < length ?cs then ?cs ! length ms else [])"
    using match_walk_tokens [OF assms(2) scope_forest [OF assms(1) Some], of ?cs] chunk_plain [OF tpb assms(3)] by auto
  note shape = walk_shape [OF tpb w(3,5,4)]
  have "map (length \<circ> (\<lambda>m. blk_tokens (fst m))) ms = map snd ms" using arg_cong [OF w(4), of "map length"] w(5) by simp
  then have lens: "\<forall>m \<in> set ms. length (blk_tokens (fst m)) = snd m" by (simp add: map_eq_conv)
  show ?thesis
  proof (cases "mis \<noteq> [] \<and> partial \<and> fst (find_best_partial_match_in_next_nodes nx mis) \<noteq> None")
    case False
    then have "match_token_path h t s tokens partial = Inr ms"
      using Some assms(4) w(1) by (auto simp: match_token_path_def tpb_def split: prod.splits option.splits)
    then show ?thesis using shape w(2) children lens by (intro exI [of _ ms] exI [of _ "[]"]) simp
  next
    case True
    then obtain b n where b: "find_best_partial_match_in_next_nodes nx mis = (Some b, n)" by (metis not_None_eq prod.collapse)
    then obtain kb where part: "(kb, b) \<in> set nx" "take n (blk_tokens b) = take n mis" "n \<le> length mis"
      using best_partial_match [OF b] by blast
    have run: "match_token_path h t s tokens partial = Inr (ms @ [(b, n)])"
      using Some assms(4) w(1) b True by (simp add: match_token_path_def tpb_def)
    have mis: "length ms < length ?cs" "mis = ?cs ! length ms" using True w(6) by (auto split: if_splits)
    have full: "\<forall>m \<in> set ms. snd m = tpb" using shape(3) mis(1) by blast
    have "n \<le> tpb" using part(3) mis nth_chunk_le [OF tpb mis(1)] by simp
    then have "match_shape tpb (ms @ [(b, n)])" using full by (auto simp: match_shape_def)
    moreover have "concat (map (\<lambda>(b, n). take n (blk_tokens b)) ms) = concat (take (length ms) ?cs)"
    proof -
      have "map (\<lambda>(b, n). take n (blk_tokens b)) ms = map (\<lambda>m. blk_tokens (fst m)) ms" using lens by (auto simp: map_eq_conv)
      then show ?thesis using w(4) by simp
    qed
    then have "concat (map (\<lambda>(b, n). take n (blk_tokens b)) (ms @ [(b, n)])) = take (num_matched_tokens tpb (ms @ [(b, n)])) tokens"
      using partial_tokens [OF tpb mis(1), of n] part(2,3) mis(2) by (simp add: num_matched_tokens_def)
    moreover have "n \<le> length (blk_tokens b)" using part(2,3) by (metis length_take min.absorb2 min.bounded_iff nle_le)
    ultimately show ?thesis
      using run w(2) children True lens by (intro exI [of _ "ms @ [(b, n)]"] exI [of _ "[b]"]) simp
  qed
qed

lemma matched_length:
  assumes "match_shape tpb ms" "\<forall>m \<in> set ms. snd m \<le> length (blk_tokens (fst m))"
  shows "length (concat (map (\<lambda>(b, n). take n (blk_tokens b)) ms)) = num_matched_tokens tpb ms"
proof (cases ms rule: rev_cases)
  case (snoc ys y)
  have "length (concat (map (\<lambda>(b, n). take n (blk_tokens b)) ys)) = sum_list (map (\<lambda>_. tpb) ys)"
    using assms snoc by (auto simp: length_concat match_shape_def comp_def case_prod_beta intro!: arg_cong [of _ _ sum_list])
  then show ?thesis using assms(2) snoc by (simp add: num_matched_tokens_def case_prod_beta sum_list_triv mult.commute)
qed (simp add: num_matched_tokens_def)

lemma prefix_tokens:
  assumes "match_shape tpb ms" "\<forall>m \<in> set ms. snd m \<le> length (blk_tokens (fst m))"
    and "concat (map (\<lambda>(b, n). take n (blk_tokens b)) ms) = take (num_matched_tokens tpb ms) tokens"
  shows "concat (map (\<lambda>(b, n). take n (blk_tokens b)) (take k ms)) = take (num_matched_tokens tpb (take k ms)) tokens"
proof -
  let ?f = "\<lambda>ms. concat (map (\<lambda>(b, n). take n (blk_tokens b)) ms)"
  have len: "length (?f (take k ms)) = num_matched_tokens tpb (take k ms)"
    using matched_length [OF match_shape_take [OF assms(1)]] assms(2) by (auto dest: in_set_takeD)
  have "?f ms = ?f (take k ms) @ ?f (drop k ms)" by (metis append_take_drop_id concat_append map_append)
  then have "?f (take k ms) = take (num_matched_tokens tpb (take k ms)) (take (num_matched_tokens tpb ms) tokens)"
    using assms(3) len by (metis append_eq_conv_conj)
  moreover have "num_matched_tokens tpb (take k ms) \<le> num_matched_tokens tpb ms"
    using matched_mono [OF assms(1), of k "length ms"] by (cases "k \<le> length ms") simp_all
  ultimately show ?thesis by (simp add: min_def)
qed

lemma match_reuses_longest:
  assumes "tree_ok h t" "collision_free h" "windows_ok (rt_life_cycles t)" "\<forall>x \<in> set tokens. plain x" "root_make_key h s = Inr key"
  defines "tpb \<equiv> rt_tokens_per_block t" and "reg \<equiv> rt_life_cycles t"
  shows "\<exists>ms last k. match_token_path h t s tokens partial = Inr ms \<and>
     map fst ms = token_walk (chunked tokens tpb) (scope_children t s) @ last \<and> length last \<le> (if partial then 1 else 0) \<and>
     match_prefix h t s tokens partial = Inr (map fst (take k ms), num_matched_tokens tpb (take k ms)) \<and>
     concat (map (\<lambda>(b, n). take n (blk_tokens b)) (take k ms)) = take (num_matched_tokens tpb (take k ms)) tokens \<and>
     usable reg tpb (take k ms) \<and> (\<forall>k' \<le> length ms. usable reg tpb (take k' ms) \<longrightarrow> k' \<le> k)"
proof -
  have tpb: "0 < tpb" using assms(1) by (simp add: tree_ok_def tpb_def)
  obtain ms last where ms: "match_token_path h t s tokens partial = Inr ms" "match_shape tpb ms"
      "map fst ms = token_walk (chunked tokens tpb) (scope_children t s) @ last" "\<not> partial \<longrightarrow> last = []" "length last \<le> 1"
      "\<forall>m \<in> set ms. snd m \<le> length (blk_tokens (fst m))"
      "concat (map (\<lambda>(b, n). take n (blk_tokens b)) ms) = take (num_matched_tokens tpb ms) tokens"
    using match_token_path_ok [OF assms(1,2,4,5), of partial, folded tpb_def] by blast
  obtain k where k: "prune_match reg tpb ms = Inr (take k ms)" "usable reg tpb (take k ms)" "no_longer reg tpb ms k"
    using prune_match_ok [OF assms(3) [folded reg_def] tpb ms(2)] by blast
  have "match_prefix h t s tokens partial = Inr (map fst (take k ms), num_matched_tokens tpb (take k ms))"
    using ms(1) k(1) by (simp add: match_prefix_def tpb_def reg_def)
  moreover have "length last \<le> (if partial then 1 else 0)" using ms(4,5) by auto
  ultimately show ?thesis using ms(1,3) k(2,3) prefix_tokens [OF ms(2,6,7), of k] unfolding no_longer_def by blast
qed

section \<open>The operations keep the invariant\<close>

lemma update_existing:
  "distinct (map fst xs) \<Longrightarrow> map_of xs k = Some v \<Longrightarrow> AList.update k v' xs = map (\<lambda>x. if fst x = k then (k, v') else x) xs"
proof (induction xs)
  case (Cons x xs)
  show ?case
  proof (cases "fst x = k")
    case True
    then have "map (\<lambda>x. if fst x = k then (k, v') else x) xs = xs" using Cons.prems(1) by (intro map_idI) (force simp: image_iff)
    then show ?thesis using True by (cases x) auto
  next
    case False
    then show ?thesis using Cons by (cases x) auto
  qed
qed simp

lemma forest_update:
  assumes "forest_ok h tpb nlc i k nx" "map_of nx k' = Some b" "block_ok h tpb nlc i k (k', b')" "blk_tokens b' = blk_tokens b"
    "forest_ok h tpb nlc (i + 1) k' (blk_next b')"
  shows "forest_ok h tpb nlc i k (AList.update k' b' nx)"
proof -
  let ?g = "\<lambda>x. if fst x = k' then (k', b') else x"
  have sib: "siblings_ok nx" and all: "\<forall>x \<in> set nx. block_ok h tpb nlc i k x \<and> forest_ok h tpb nlc (i + 1) (fst x) (blk_next (snd x))"
    using assms(1) by (auto simp: forest_ok.simps [of h tpb nlc i k])
  have d: "distinct (map fst nx)" using sib by (simp add: siblings_ok_def)
  have eq: "AList.update k' b' nx = map ?g nx" by (rule update_existing [OF d assms(2)])
  have tok: "blk_tokens (snd (?g x)) = blk_tokens (snd x)" if "x \<in> set nx" for x
  proof -
    obtain a c where x: "x = (a, c)" by force
    then have "map_of nx a = Some c" using that d by simp
    then show ?thesis using x assms(2,4) by auto
  qed
  have "map fst (map ?g nx) = map fst nx" by (simp add: comp_def if_distrib cong: if_cong)
  moreover have "?g x = ?g y" if "x \<in> set nx" "y \<in> set nx" "prefix (blk_tokens (snd (?g x))) (blk_tokens (snd (?g y)))" for x y
  proof -
    have "prefix (blk_tokens (snd x)) (blk_tokens (snd y))" using that(3) unfolding tok [OF that(1)] tok [OF that(2)] .
    then have "x = y" using sib that(1,2) unfolding siblings_ok_def by blast
    then show ?thesis by simp
  qed
  ultimately have "siblings_ok (map ?g nx)" using d unfolding siblings_ok_def set_map by (simp only: ball_simps) blast
  moreover have "block_ok h tpb nlc i k (?g x) \<and> forest_ok h tpb nlc (i + 1) (fst (?g x)) (blk_next (snd (?g x)))" if "x \<in> set nx" for x
    using all that assms(3,5) by (cases "fst x = k'") simp_all
  then have "\<forall>x \<in> set (map ?g nx). block_ok h tpb nlc i k x \<and> forest_ok h tpb nlc (i + 1) (fst x) (blk_next (snd x))"
    unfolding set_map by blast
  ultimately show ?thesis unfolding eq by (subst forest_ok.simps) blast
qed

lemma forest_filter: "forest_ok h tpb nlc i k nx \<Longrightarrow> forest_ok h tpb nlc i k (filter P nx)"
  by (subst forest_ok.simps, drule forest_ok.simps [THEN iffD1]) (auto simp: siblings_ok_def distinct_map_filter)

lemma forest_delete: "forest_ok h tpb nlc i k nx \<Longrightarrow> forest_ok h tpb nlc i k (AList.delete k' nx)"
  by (simp add: AList.delete_eq forest_filter)

lemma forest_Nil [simp]: "forest_ok h tpb nlc i k []"
  by (simp add: forest_ok.simps [of _ _ _ _ _ "[]"] siblings_ok_def)

text \<open>The tokens that a new block may have.\<close>

definition block_tokens_ok :: "nat \<Rightarrow> token list \<Rightarrow> bool" where
  "block_tokens_ok tpb ts \<longleftrightarrow> ts \<noteq> [] \<and> length ts \<le> tpb \<and> (\<forall>t \<in> set ts. plain t)"

lemma prefix_full: "prefix xs ys \<Longrightarrow> length ys \<le> length xs \<Longrightarrow> xs = ys"
  by (auto simp: prefix_def)

lemma prefix_take: "prefix xs ys \<Longrightarrow> take (length xs) ys = xs"
  by (auto simp: prefix_def)

lemma add_child_ok:
  assumes "forest_ok h tpb nlc i k nx" "block_tokens_ok tpb ts" "make_key h k ts = Inr key"
    and "add_child tpb nlc i key ts nx = Inr nx'"
  shows "forest_ok h tpb nlc i k nx' \<and> map_of nx' key = Some (Block key ts i (replicate nlc None) [])"
proof -
  let ?new = "(key, Block key ts i (replicate nlc None) [])"
  let ?kept = "filter (\<lambda>(k, b). \<not> (length (blk_tokens b) < length ts \<and> take (length (blk_tokens b)) ts = blk_tokens b)) nx"
  have none: "map_of nx key = None"
    and nofind: "length ts < tpb \<Longrightarrow> \<forall>x \<in> set nx. take (length ts) (blk_tokens (snd x)) \<noteq> ts"
    and nx': "nx' = ?kept @ [?new]"
    using assms(4) by (auto simp: add_child_def find_None_iff split: if_splits option.splits)
  have kept: "forest_ok h tpb nlc i k ?kept" by (rule forest_filter [OF assms(1)])
  have ok: "block_ok h tpb nlc i k x" if "x \<in> set nx" for x using assms(1) that by (simp add: forest_ok.simps [of h tpb nlc i k])
  have fresh: "fst x \<noteq> key" if "x \<in> set nx" for x using none that by (force simp: map_of_eq_None_iff)
  have same: "blk_tokens (snd x) \<noteq> ts" if "x \<in> set nx" for x
    using ok [OF that] fresh [OF that] assms(3) by (auto simp: block_ok_def)
  have np: "\<not> prefix ts (blk_tokens (snd x))" if x: "x \<in> set nx" for x
  proof
    assume p: "prefix ts (blk_tokens (snd x))"
    then have "tpb \<le> length ts" using nofind x prefix_take [OF p] by (meson not_le)
    moreover have "length (blk_tokens (snd x)) \<le> tpb" using ok [OF x] by (simp add: block_ok_def)
    ultimately show False using prefix_full [OF p] same [OF x] by simp
  qed
  have np': "\<not> prefix (blk_tokens (snd x)) ts" if "x \<in> set ?kept" for x
  proof
    assume p: "prefix (blk_tokens (snd x)) ts"
    have x: "x \<in> set nx" "\<not> (length (blk_tokens (snd x)) < length ts \<and> take (length (blk_tokens (snd x))) ts = blk_tokens (snd x))"
      using that by auto
    then have "length ts \<le> length (blk_tokens (snd x))" using prefix_take [OF p] by simp
    then show False using prefix_full [OF p] same [OF x(1)] by simp
  qed
  have "siblings_ok ?kept" and kept_ok: "\<forall>x \<in> set ?kept. block_ok h tpb nlc i k x \<and> forest_ok h tpb nlc (i + 1) (fst x) (blk_next (snd x))"
    using kept unfolding forest_ok.simps [of h tpb nlc i k ?kept] by blast+
  moreover have "prefix (blk_tokens (snd x)) (blk_tokens (snd y)) \<longrightarrow> x = y" if xy: "x \<in> set nx'" "y \<in> set nx'" for x y
  proof -
    have sub: "set ?kept \<subseteq> set nx" by auto
    consider "x \<in> set ?kept" "y \<in> set ?kept" | "x = ?new" "y \<in> set ?kept" | "x \<in> set ?kept" "y = ?new" | "x = ?new" "y = ?new"
      using xy unfolding nx' set_append by (simp del: set_filter) blast
    then show ?thesis
    proof cases
      case 1
      then show ?thesis using \<open>siblings_ok ?kept\<close> unfolding siblings_ok_def by blast
    next
      case 2
      then show ?thesis using np sub by auto
    next
      case 3
      then show ?thesis using np' by auto
    qed simp
  qed
  moreover have "distinct (map fst nx')"
    using \<open>siblings_ok ?kept\<close> fresh unfolding nx' siblings_ok_def by auto
  ultimately have "siblings_ok nx'" unfolding siblings_ok_def by blast
  moreover have "block_ok h tpb nlc i k ?new" using assms(2,3) by (simp add: block_ok_def block_tokens_ok_def)
  then have "\<forall>x \<in> set nx'. block_ok h tpb nlc i k x \<and> forest_ok h tpb nlc (i + 1) (fst x) (blk_next (snd x))"
    using kept_ok unfolding nx' by (simp del: set_filter add: ball_Un)
  ultimately have "forest_ok h tpb nlc i k nx'" by (subst forest_ok.simps) blast
  moreover have "map_of ?kept key = None" using fresh by (force simp: map_of_eq_None_iff)
  ultimately show ?thesis by (simp add: nx' map_add_def)
qed

text \<open>A path whose last block is full, and the tokens along it.\<close>

fun full_path :: "nat \<Rightarrow> 'k list \<Rightarrow> 'k children \<Rightarrow> bool" where
  "full_path tpb [] nx = True"
| "full_path tpb (k # ks) nx =
     (case map_of nx k of None \<Rightarrow> False | Some b \<Rightarrow> length (blk_tokens b) = tpb \<and> full_path tpb ks (blk_next b))"

fun path_tokens :: "'k list \<Rightarrow> 'k children \<Rightarrow> token list list" where
  "path_tokens [] nx = []"
| "path_tokens (k # ks) nx =
     (case map_of nx k of None \<Rightarrow> [] | Some b \<Rightarrow> blk_tokens b # path_tokens ks (blk_next b))"

lemma lens_equal: "set lens \<subseteq> {tpb} \<Longrightarrow> tokens_per_block_of tpb lens = tpb"
  by (cases lens) auto

lemma lens_full: "set lens \<subseteq> {tpb} \<Longrightarrow> tokens_per_block_of tpb lens = tpb \<and> prev_is_full tpb lens"
  by (cases "(tpb, lens)" rule: prev_is_full.cases) (auto simp: lens_equal)

lemma kbind_eq_Inr: "kbind m f = Inr y \<longleftrightarrow> (\<exists>x. m = Inr x \<and> f x = Inr y)"
  by (cases m) (auto simp: kbind_def)

lemma klift_eq_Inr: "klift m = Inr y \<longleftrightarrow> m = Inr y"
  by (cases m) (auto simp: klift_def)

text \<open>A new block is found under the tokens of its path and its own.\<close>

lemma insert_under_ok:
  assumes "block_tokens_ok tpb ts"
  shows "forest_ok h tpb nlc i pk nx \<Longrightarrow> set lens \<subseteq> {tpb} \<Longrightarrow> full_path tpb ks nx \<Longrightarrow>
    insert_under h tpb nlc pk (i - 1) lens ks ts nx = Inr (key, nx') \<Longrightarrow>
    forest_ok h tpb nlc i pk nx' \<and>
    (\<exists>ms nx2. match_walk h pk (path_tokens ks nx @ [ts]) nx' = Inr (ms, nx2, []) \<and> map (\<lambda>m. blk_key (fst m)) ms = ks @ [key])"
proof (induction ks arbitrary: i pk lens nx nx')
  case Nil
  then obtain k1 where k1: "make_key h pk ts = Inr k1" "add_child tpb nlc i k1 ts nx = Inr nx'" "key = k1"
    using lens_full [OF Nil.prems(2)] by (auto simp: kbind_eq_Inr klift_eq_Inr)
  then show ?case using add_child_ok [OF Nil.prems(1) assms k1(1,2)] by auto
next
  case (Cons k ks)
  obtain b where b: "map_of nx k = Some b" "length (blk_tokens b) = tpb" "full_path tpb ks (blk_next b)"
    using Cons.prems(3) by (auto split: option.splits)
  have bok: "block_ok h tpb nlc i pk (k, b)" "forest_ok h tpb nlc (i + 1) k (blk_next b)"
    using forest_child [OF Cons.prems(1) b(1)] by auto
  then have fields: "blk_key b = k" "blk_ordinal b = i" "make_key h pk (blk_tokens b) = Inr k" by (auto simp: block_ok_def)
  obtain nx1 where run: "insert_under h tpb nlc k i (tpb # lens) ks ts (blk_next b) = Inr (key, nx1)"
      and nx': "nx' = AList.update k (Block k (blk_tokens b) i (blk_storage b) nx1) nx"
    using Cons.prems(4) b fields by (auto simp: kbind_eq_Inr)
  have ih: "forest_ok h tpb nlc (i + 1) k nx1 \<and>
      (\<exists>ms nx2. match_walk h k (path_tokens ks (blk_next b) @ [ts]) nx1 = Inr (ms, nx2, []) \<and> map (\<lambda>m. blk_key (fst m)) ms = ks @ [key])"
    using Cons.IH [OF bok(2), of "tpb # lens" nx1] Cons.prems(2) b(3) run by simp
  have "block_ok h tpb nlc i pk (k, Block k (blk_tokens b) i (blk_storage b) nx1)"
    using bok(1) b(2) by (auto simp: block_ok_def)
  then have "forest_ok h tpb nlc i pk nx'" unfolding nx' using forest_update [OF Cons.prems(1) b(1)] ih by simp
  moreover have "map_of nx' k = Some (Block k (blk_tokens b) i (blk_storage b) nx1)" by (simp add: nx' update_conv')
  ultimately show ?case using ih fields(3) b(1) by auto
qed

lemma store_page_update:
  assumes "forest_ok h tpb nlc o' pk nx" "map_of nx k = Some b"
  shows "forest_ok h tpb nlc o' pk (AList.update k (store_page i p b) nx)"
proof -
  have "block_ok h tpb nlc o' pk (k, b)" "forest_ok h tpb nlc (o' + 1) k (blk_next b)" using forest_child [OF assms] by auto
  then show ?thesis using forest_update [OF assms] by (simp add: store_page_def block_ok_def)
qed

lemma unset_at_ok:
  "forest_ok h tpb nlc o' pk nx \<Longrightarrow> unset_at i lc ks nx = (nx', ps, up) \<Longrightarrow>
    forest_ok h tpb nlc o' pk nx' \<and> (nx = [] \<longrightarrow> nx' = [])"
proof (induction i lc ks nx arbitrary: o' pk nx' ps up rule: unset_at.induct)
  case (1 i lc nx)
  then show ?case by simp
next
  case (2 i lc k nx)
  show ?case
  proof (cases "map_of nx k")
    case (Some b)
    have "forest_ok h tpb nlc o' pk (AList.update k (store_page i None b) nx)" by (rule store_page_update [OF "2.prems"(1) Some])
    then show ?thesis
      using "2.prems" Some forest_delete [OF "2.prems"(1)] by (auto simp: Let_def split: if_splits)
  qed (use "2.prems" in simp)
next
  case (3 i lc k k2 ks nx)
  show ?case
  proof (cases "map_of nx k")
    case (Some b)
    obtain nx1 ps1 up1 where rec: "unset_at i lc (k2 # ks) (blk_next b) = (nx1, ps1, up1)" by (cases "unset_at i lc (k2 # ks) (blk_next b)")
    have b: "block_ok h tpb nlc o' pk (k, b)" "forest_ok h tpb nlc (o' + 1) k (blk_next b)" using forest_child [OF "3.prems"(1) Some] by auto
    have ih: "forest_ok h tpb nlc (o' + 1) k nx1" "blk_next b = [] \<longrightarrow> nx1 = []" using "3.IH" [OF Some b(2) rec] by auto
    have "block_ok h tpb nlc o' pk (k, Block (blk_key b) (blk_tokens b) (blk_ordinal b) (blk_storage b) nx1)"
      using b(1) ih(2) by (auto simp: block_ok_def)
    then have "forest_ok h tpb nlc o' pk (AList.update k (Block (blk_key b) (blk_tokens b) (blk_ordinal b) (blk_storage b) nx1) nx)"
      using forest_update [OF "3.prems"(1) Some] ih(1) by simp
    then show ?thesis using "3.prems" Some rec forest_delete [OF "3.prems"(1)] by (auto split: if_splits)
  qed (use "3.prems" in simp)
qed

lemma store_page_at_ok: "forest_ok h tpb nlc o' pk nx \<Longrightarrow> forest_ok h tpb nlc o' pk (change_block (store_page i p) ks nx) \<and>
    (nx = [] \<longrightarrow> change_block (store_page i p) ks nx = [])"
proof (induction "store_page i p :: 'a block \<Rightarrow> 'a block" ks nx arbitrary: o' pk rule: change_block.induct)
  case (2 k nx)
  then show ?case
    using store_page_update [OF "2.prems"] by (auto split: option.splits)
next
  case (3 k k2 ks nx)
  show ?case
  proof (cases "map_of nx k")
    case (Some b)
    have b: "block_ok h tpb nlc o' pk (k, b)" "forest_ok h tpb nlc (o' + 1) k (blk_next b)" using forest_child [OF "3.prems" Some] by auto
    then show ?thesis
      using "3.hyps" [OF Some b(2)] Some forest_update [OF "3.prems" Some] by (auto simp: block_ok_def)
  qed (use "3.prems" in simp)
qed simp

lemma tree_update:
  assumes "tree_ok h t" "map_of (rt_next t) rk = Some r"
    "forest_ok h (rt_tokens_per_block t) (length (life_cycle_list (rt_life_cycles t))) 0 rk nx"
  shows "tree_ok h (t\<lparr>rt_next := AList.update rk (r\<lparr>root_next := nx\<rparr>) (rt_next t)\<rparr>)"
proof -
  let ?g = "\<lambda>x. if fst x = rk then (rk, r\<lparr>root_next := nx\<rparr>) else x"
  have d: "distinct (map fst (rt_next t))" using assms(1) by (simp add: tree_ok_def)
  have eq: "AList.update rk (r\<lparr>root_next := nx\<rparr>) (rt_next t) = map ?g (rt_next t)" by (rule update_existing [OF d assms(2)])
  have "root_key r = rk \<and> root_make_key h (root_reuse_scope r) = Inr rk"
    using assms(1) map_of_SomeD [OF assms(2)] by (auto simp: tree_ok_def)
  moreover have "map fst (map ?g (rt_next t)) = map fst (rt_next t)" by simp
  then have "distinct (map fst (map ?g (rt_next t)))" using d by (simp only:)
  ultimately show ?thesis using assms(1,3) unfolding eq tree_ok_def by (auto simp del: map_map split: if_splits)
qed

inductive tree_history :: "'k hashlib \<Rightarrow> life_cycle_registry \<Rightarrow> nat \<Rightarrow> 'k radix_tree \<Rightarrow> bool" for h reg tpb where
  th_init: "0 < tpb \<Longrightarrow> registry_inv reg \<Longrightarrow> tree_history h reg tpb (radix_tree_init reg tpb)"
| th_root: "tree_history h reg tpb t \<Longrightarrow> add_or_get_existing h s t = Inr (k, t') \<Longrightarrow> tree_history h reg tpb t'"
| th_block: "tree_history h reg tpb t \<Longrightarrow> map_of (rt_next t) rk = Some r \<Longrightarrow> full_path tpb ks (root_next r) \<Longrightarrow> block_tokens_ok tpb ts \<Longrightarrow>
     insert_block h rk ks ts t = Inr (key, t') \<Longrightarrow> tree_history h reg tpb t'"
| th_store: "tree_history h reg tpb t \<Longrightarrow> tree_history h reg tpb (set_page rk ks i p t)"
| th_unset: "tree_history h reg tpb t \<Longrightarrow> unset_page rk ks i lc t = (ps, t') \<Longrightarrow> tree_history h reg tpb t'"
| th_clear: "tree_history h reg tpb t \<Longrightarrow> clear_tree t = (ps, t') \<Longrightarrow> tree_history h reg tpb t'"

lemma insert_block_ok:
  assumes "tree_ok h t" "map_of (rt_next t) rk = Some r" "full_path (rt_tokens_per_block t) ks (root_next r)"
    "block_tokens_ok (rt_tokens_per_block t) ts" "insert_block h rk ks ts t = Inr (key, t')"
  shows "\<exists>nx. t' = t\<lparr>rt_next := AList.update rk (r\<lparr>root_next := nx\<rparr>) (rt_next t)\<rparr> \<and> tree_ok h t' \<and>
    (\<exists>ms nx2. match_walk h rk (path_tokens ks (root_next r) @ [ts]) nx = Inr (ms, nx2, []) \<and> map (\<lambda>m. blk_key (fst m)) ms = ks @ [key])"
proof -
  let ?tpb = "rt_tokens_per_block t" and ?n = "length (life_cycle_list (rt_life_cycles t))"
  have size: "registry_size (rt_life_cycles t) = Inr ?n"
    using assms(1) by (simp add: tree_ok_def registry_inv_def registry_size_def py_assert_def)
  have key: "root_key r = rk" using assms(1) map_of_SomeD [OF assms(2)] by (auto simp: tree_ok_def)
  obtain nx where nx: "insert_under h ?tpb ?n rk (- 1) [] ks ts (root_next r) = Inr (key, nx)"
      "t' = t\<lparr>rt_next := AList.update rk (r\<lparr>root_next := nx\<rparr>) (rt_next t)\<rparr>"
    using assms(2,5) size key by (auto simp: insert_block_def kbind_eq_Inr klift_eq_Inr)
  have "forest_ok h ?tpb ?n 0 rk nx \<and>
    (\<exists>ms nx2. match_walk h rk (path_tokens ks (root_next r) @ [ts]) nx = Inr (ms, nx2, []) \<and> map (\<lambda>m. blk_key (fst m)) ms = ks @ [key])"
    using insert_under_ok [OF assms(4) scope_forest [OF assms(1,2)], of "[]" ks key nx] assms(3) nx(1) by simp
  then show ?thesis using nx(2) tree_update [OF assms(1,2)] by blast
qed

lemma tree_history_ok: "tree_history h reg tpb t \<Longrightarrow> tree_ok h t \<and> rt_life_cycles t = reg \<and> rt_tokens_per_block t = tpb"
proof (induction rule: tree_history.induct)
  case th_init
  then show ?case by (simp add: tree_ok_def radix_tree_init_def)
next
  case (th_root t s k t')
  then show ?case
    by (auto simp: add_or_get_existing_def rbind_eq_Inr tree_ok_def map_of_eq_None_iff split: if_splits)
next
  case (th_block t rk r ks ts key t')
  then show ?case using insert_block_ok [of h t rk r ks ts key t'] by auto
next
  case (th_store t rk ks i p)
  then show ?case
    using tree_update [of h t rk] store_page_at_ok [OF scope_forest [of h t rk]]
    by (auto simp: set_page_def change_root_def split: option.splits)
next
  case (th_unset t rk ks i lc ps t')
  then show ?case
    using tree_update [of h t rk] unset_at_ok [OF scope_forest [of h t rk]]
    by (auto simp: unset_page_def split: option.splits prod.splits)
next
  case (th_clear t ps t')
  then show ?case by (auto simp: clear_tree_def tree_ok_def)
qed

lemma chunked_blocks:
  assumes "0 < tpb" "ts \<noteq> []" "length ts \<le> tpb"
  shows "\<forall>c \<in> set cs. length c = tpb \<Longrightarrow> chunked (concat cs @ ts) tpb = cs @ [ts]"
proof (induction cs)
  case Nil
  then show ?case using assms by (simp add: chunked_Cons)
next
  case (Cons c cs)
  then show ?case using assms by (simp add: chunked_Cons)
qed

lemma full_path_tokens: "full_path tpb ks nx \<Longrightarrow> \<forall>c \<in> set (path_tokens ks nx). length c = tpb"
  by (induction ks arbitrary: nx) (auto split: option.splits)

section \<open>Removing a subtree\<close>

text \<open>The blocks of a subtree, children before their parent and in order.\<close>

fun post_order :: "'k block \<Rightarrow> ('k \<times> nat list) list" where
  "post_order (Block k ts i st cs) = concat (map (\<lambda>x. post_order (snd x)) cs) @ [(k, pages_of st)]"

lemma post_order_leaf:
  "remove_leaf b = (x, None) \<Longrightarrow> post_order b = [x]"
  "remove_leaf b = (x, Some b') \<Longrightarrow> post_order b = x # post_order b'"
proof (induction b arbitrary: x b' rule: remove_leaf.induct)
  case (2 k ts i st k' b rest)
  {
    case 1
    then show ?case by (auto split: prod.splits option.splits)
  next
    case 2
    then show ?case using "2.IH" by (auto split: prod.splits option.splits)
  }
qed auto

lemma remove_subtree_post_order: "remove_subtree b = (map fst (post_order b), concat (map snd (post_order b)))"
proof (induction b rule: remove_subtree.induct)
  case (1 b)
  obtain k ps o' where leaf: "remove_leaf b = ((k, ps), o')" by (metis prod.exhaust)
  show ?case
  proof (cases o')
    case None
    then show ?thesis using leaf post_order_leaf(1) [of b] by (subst remove_subtree.simps) simp
  next
    case (Some b')
    then show ?thesis using leaf post_order_leaf(2) [of b] "1" [of "(k, ps)" o' k ps b'] leaf by (subst remove_subtree.simps) simp
  qed
qed

section \<open>Properties\<close>

text \<open>
  C10. Whatever sequence of new scopes, new blocks, stored and dropped pages and clearings a tree has gone through,
  every block stands under the key of its tokens and its parent, counts its distance from the root, has children only
  when it is full, and no block begins with the tokens of a sibling.
\<close>

theorem radix_tree_invariant:
  assumes "tree_history h reg tpb t"
  shows "tree_ok h t"
  using tree_history_ok [OF assms] by simp

text \<open>A hash that keeps its input, and trees grown with it.\<close>

definition plain_hash :: "nat list hashlib" where
  "plain_hash = \<lparr>sha256 = (\<lambda>x. x), key_bytes = (\<lambda>x. x)\<rparr>"

lemma plain_hash_simps [simp]: "sha256 plain_hash = (\<lambda>x. x)" "key_bytes plain_hash = (\<lambda>x. x)"
  by (simp_all add: plain_hash_def)

lemma plain_hash_collision_free: "collision_free plain_hash"
  by (simp add: collision_free_def)

definition example_registry :: life_cycle_registry where
  "example_registry = \<lparr>life_cycle_list = [AttnLifeCycle None 0], life_cycle_id_dict = [(AttnLifeCycle None 0, 0)]\<rparr>"

definition example_scope :: reuse_scope where
  "example_scope = \<lparr>lora_id = None, salt = None\<rparr>"

definition example_block :: "int \<Rightarrow> token list" where
  "example_block n = [TokenId n, TokenId (n + 1)]"

definition example_with :: "nat list children \<Rightarrow> nat list radix_tree" where
  "example_with cs = \<lparr>rt_life_cycles = example_registry, rt_tokens_per_block = 2,
     rt_next = [([0], \<lparr>root_key = [0], root_reuse_scope = example_scope, root_next = cs\<rparr>)]\<rparr>"

definition example_key :: "nat list" where
  "example_key = [0, 5, 0, 0, 0, 0, 0, 0, 0, 6, 0, 0, 0, 0, 0, 0, 0]"

definition example_tree :: "nat option \<Rightarrow> nat list radix_tree" where
  "example_tree p = example_with [(example_key, Block example_key (example_block 5) 0 [p] [])]"

lemma example_history: "tree_history plain_hash example_registry 2 (example_tree (Some 9))"
proof -
  have "tree_history plain_hash example_registry 2 (radix_tree_init example_registry 2)"
    by (rule th_init) (simp_all add: registry_inv_def example_registry_def)
  moreover have "add_or_get_existing plain_hash example_scope (radix_tree_init example_registry 2) = Inr ([0], example_with [])"
    by code_simp
  ultimately have "tree_history plain_hash example_registry 2 (example_with [])" by (rule th_root)
  moreover have "map_of (rt_next (example_with [])) [0] = Some \<lparr>root_key = [0], root_reuse_scope = example_scope, root_next = []\<rparr>"
    by (simp add: example_with_def)
  moreover have "insert_block plain_hash [0] [] (example_block 5) (example_with []) = Inr (example_key, example_tree None)"
    by code_simp
  moreover have "block_tokens_ok 2 (example_block 5)" by code_simp
  ultimately have "tree_history plain_hash example_registry 2 (example_tree None)"
    using th_block [of plain_hash example_registry 2 "example_with []" "[0]" _ "[]"] by auto
  then have "tree_history plain_hash example_registry 2 (set_page [0] [example_key] 0 9 (example_tree None))" by (rule th_store)
  moreover have "set_page [0] [example_key] 0 9 (example_tree None) = example_tree (Some 9)" by code_simp
  ultimately show ?thesis by simp
qed

theorem radix_tree_invariant_witness:
  "tree_ok plain_hash (example_tree (Some 9)) \<and> map fst (root_next (snd (hd (rt_next (example_tree (Some 9)))))) = [example_key]"
  using radix_tree_invariant [OF example_history] by (simp add: example_tree_def example_with_def)

text \<open>
  C6. What \<open>match\<close> returns for a text is right and as long as possible. The tree is walked by hashes, but the blocks
  found are those found by comparing tokens, plus at most one that matches in part; the tokens of the reused blocks are
  the beginning of the prompt; every block that a layer still reads has its page, and the recurrent state its
  snapshot; and no longer part of the match could be reused. Windows of one token are left out: there the code asks
  for a page that no layer reads.
\<close>

theorem reuse_match_correct:
  assumes "tree_history h reg tpb t" "collision_free h" "windows_ok reg" "\<forall>x \<in> set tokens. plain x" "root_make_key h s = Inr key"
  shows "\<exists>ms last k. match_token_path h t s tokens partial = Inr ms \<and>
     map fst ms = token_walk (chunked tokens tpb) (scope_children t s) @ last \<and> length last \<le> (if partial then 1 else 0) \<and>
     match_prefix h t s tokens partial = Inr (map fst (take k ms), num_matched_tokens tpb (take k ms)) \<and>
     concat (map (\<lambda>(b, n). take n (blk_tokens b)) (take k ms)) = take (num_matched_tokens tpb (take k ms)) tokens \<and>
     usable reg tpb (take k ms) \<and> (\<forall>k' \<le> length ms. usable reg tpb (take k' ms) \<longrightarrow> k' \<le> k)"
  using match_reuses_longest [of h t tokens s key partial] tree_history_ok [OF assms(1)] assms(2-5) by auto

theorem reuse_match_correct_witness:
  "\<exists>ms k. match_token_path plain_hash (example_tree (Some 9)) example_scope [TokenId 5, TokenId 6, TokenId 7] True = Inr ms \<and>
     match_prefix plain_hash (example_tree (Some 9)) example_scope [TokenId 5, TokenId 6, TokenId 7] True =
       Inr (map fst (take k ms), num_matched_tokens 2 (take k ms)) \<and> num_matched_tokens 2 (take k ms) = 2 \<and>
     usable example_registry 2 (take k ms)"
proof -
  have "windows_ok example_registry"
    by (simp add: windows_ok_def example_registry_def attention_life_cycles_def registry_items_def wf_life_cycle_def)
  moreover have "\<forall>x \<in> set [TokenId 5, TokenId 6, TokenId 7]. plain x" "root_make_key plain_hash example_scope = Inr [0]"
    by code_simp+
  ultimately
  obtain ms k where "match_token_path plain_hash (example_tree (Some 9)) example_scope [TokenId 5, TokenId 6, TokenId 7] True = Inr ms"
      "match_prefix plain_hash (example_tree (Some 9)) example_scope [TokenId 5, TokenId 6, TokenId 7] True =
        Inr (map fst (take k ms), num_matched_tokens 2 (take k ms))" "usable example_registry 2 (take k ms)"
    using reuse_match_correct [OF example_history plain_hash_collision_free, of "[TokenId 5, TokenId 6, TokenId 7]" example_scope "[0]" True] by blast
  moreover have "map_sum id snd (match_prefix plain_hash (example_tree (Some 9)) example_scope [TokenId 5, TokenId 6, TokenId 7] True) = Inr 2"
    by code_simp
  ultimately show ?thesis by auto
qed

text \<open>
  C26. A block that was added below a path of full blocks is found again: matching the tokens of the path followed by
  those of the new block gives exactly the blocks of the path and the new one.
\<close>

theorem insert_then_match:
  assumes "tree_history h reg tpb t" "map_of (rt_next t) rk = Some r" "full_path tpb ks (root_next r)" "block_tokens_ok tpb ts"
    and "insert_block h rk ks ts t = Inr (key, t')"
  shows "\<exists>ms. match_token_path h t' (root_reuse_scope r) (concat (path_tokens ks (root_next r)) @ ts) False = Inr ms \<and>
    map (\<lambda>m. blk_key (fst m)) ms = ks @ [key]"
proof -
  have t: "tree_ok h t" "rt_tokens_per_block t = tpb" "0 < tpb" using tree_history_ok [OF assms(1)] by (auto simp: tree_ok_def)
  obtain nx ms nx2 where nx: "t' = t\<lparr>rt_next := AList.update rk (r\<lparr>root_next := nx\<rparr>) (rt_next t)\<rparr>"
      "match_walk h rk (path_tokens ks (root_next r) @ [ts]) nx = Inr (ms, nx2, [])" "map (\<lambda>m. blk_key (fst m)) ms = ks @ [key]"
    using insert_block_ok [OF t(1) assms(2) _ _ assms(5)] t(2) assms(3,4) by auto
  have "root_make_key h (root_reuse_scope r) = Inr rk" using t(1) map_of_SomeD [OF assms(2)] by (auto simp: tree_ok_def)
  moreover have "chunked (concat (path_tokens ks (root_next r)) @ ts) tpb = path_tokens ks (root_next r) @ [ts]"
    using assms(4) by (intro chunked_blocks [OF t(3) _ _ full_path_tokens [OF assms(3)]]) (simp_all add: block_tokens_ok_def)
  ultimately show ?thesis using nx t(2) by (simp add: match_token_path_def update_conv')
qed

theorem insert_then_match_witness:
  "\<exists>key t' ms. insert_block plain_hash [0] [example_key] [TokenId 7] (example_tree (Some 9)) = Inr (key, t') \<and>
     match_token_path plain_hash t' example_scope [TokenId 5, TokenId 6, TokenId 7] False = Inr ms \<and>
     map (\<lambda>m. blk_key (fst m)) ms = [example_key, key]"
proof -
  let ?r = "snd (hd (rt_next (example_tree (Some 9))))"
  have run: "\<not> isl (insert_block plain_hash [0] [example_key] [TokenId 7] (example_tree (Some 9)))" by code_simp
  then obtain key t' where ins: "insert_block plain_hash [0] [example_key] [TokenId 7] (example_tree (Some 9)) = Inr (key, t')"
    by (cases "insert_block plain_hash [0] [example_key] [TokenId 7] (example_tree (Some 9))") auto
  have r: "map_of (rt_next (example_tree (Some 9))) [0] = Some ?r" "root_reuse_scope ?r = example_scope"
    by (simp_all add: example_tree_def example_with_def)
  have "full_path 2 [example_key] (root_next ?r)" "block_tokens_ok 2 [TokenId 7]" by code_simp+
  from insert_then_match [OF example_history r(1) this ins]
  obtain ms where "match_token_path plain_hash t' example_scope (concat (path_tokens [example_key] (root_next ?r)) @ [TokenId 7]) False = Inr ms"
      "map (\<lambda>m. blk_key (fst m)) ms = [example_key] @ [key]"
    unfolding r(2) by blast
  moreover have "concat (path_tokens [example_key] (root_next ?r)) @ [TokenId 7] = [TokenId 5, TokenId 6, TokenId 7]" by code_simp
  ultimately show ?thesis using ins by auto
qed

text \<open>The blocks anywhere below a node with the given children.\<close>

inductive in_forest :: "'k children \<Rightarrow> 'k block \<Rightarrow> bool" where
  in_forest_child: "(k, b) \<in> set nx \<Longrightarrow> in_forest nx b"
| in_forest_below: "(k, c) \<in> set nx \<Longrightarrow> in_forest (blk_next c) b \<Longrightarrow> in_forest nx b"

lemma match_walk_in_forest:
  "match_walk h d cs nx = Inr (ms, nx', mis) \<Longrightarrow>
    (\<forall>m \<in> set ms. in_forest nx (fst m)) \<and> (\<forall>b. in_forest nx' b \<longrightarrow> in_forest nx b)"
proof (induction cs arbitrary: d nx ms)
  case (Cons c cs)
  obtain key where key: "make_key h d c = Inr key" using Cons.prems by (auto simp: rbind_eq_Inr)
  show ?case
  proof (cases "map_of nx key")
    case None
    then show ?thesis using Cons.prems key by auto
  next
    case (Some b)
    then obtain ms1 where w: "match_walk h key cs (blk_next b) = Inr (ms1, nx', mis)" "ms = (b, length c) # ms1"
      using Cons.prems key by (auto simp: rbind_eq_Inr)
    then show ?thesis using Cons.IH [OF w(1)] map_of_SomeD [OF Some] by (auto intro: in_forest.intros)
  qed
qed simp

lemma best_partial_in_forest:
  assumes "find_best_partial_match_in_next_nodes nx ts = (Some b, n)"
  shows "in_forest nx b"
  using best_partial_match [OF assms] by (auto intro: in_forest_child)

lemma match_path_in_scope:
  assumes "tree_ok h t" "collision_free h" "match_token_path h t s tokens partial = Inr ms" "m \<in> set ms"
  shows "in_forest (scope_children t s) (fst m)"
proof -
  obtain k where k: "root_make_key h s = Inr k" using assms(3) by (auto simp: match_token_path_def rbind_eq_Inr)
  have "\<exists>r. map_of (rt_next t) k = Some r" using assms(3,4) k by (auto simp: match_token_path_def split: option.splits)
  then obtain r where r: "map_of (rt_next t) k = Some r" ..
  have children: "scope_children t s = root_next r" using root_lookup [OF assms(1,2) k] r by simp
  obtain ms1 nx mis where w: "match_walk h k (chunked tokens (rt_tokens_per_block t)) (root_next r) = Inr (ms1, nx, mis)"
    using assms(3) k r by (auto simp: match_token_path_def rbind_eq_Inr)
  have "ms = ms1 \<or> (\<exists>b n. find_best_partial_match_in_next_nodes nx mis = (Some b, n) \<and> ms = ms1 @ [(b, n)])"
    using assms(3) k r w by (auto simp: match_token_path_def split: if_splits prod.splits option.splits)
  then show ?thesis
    using assms(4) match_walk_in_forest [OF w] best_partial_in_forest [of nx mis] by (auto simp: children)
qed

text \<open>What a request finds depends on the root of its scope alone.\<close>

lemma match_prefix_local:
  assumes "\<And>k. root_make_key h s = Inr k \<Longrightarrow> map_of (rt_next t') k = map_of (rt_next t) k"
    and "rt_life_cycles t' = rt_life_cycles t" "rt_tokens_per_block t' = rt_tokens_per_block t"
  shows "match_prefix h t' s tokens partial = match_prefix h t s tokens partial"
  using assms by (cases "root_make_key h s") (simp_all add: match_prefix_def match_token_path_def split: option.split)

text \<open>
  C27. Requests of different adapters or with different salts never share cached blocks, if the hash has no collisions.
  Whatever is done below the root of another scope \<open>s'\<close>, making the root, adding a block, storing a page or dropping one,
  a request of the scope \<open>s\<close> finds what it found before; and every block that is matched for \<open>s\<close> lies below the root
  of \<open>s\<close>.
\<close>

theorem reuse_scopes_isolated:
  fixes tokens :: "token list" and partial :: bool
  assumes "tree_history h reg tpb t" "collision_free h" "s \<noteq> s'" "add_or_get_existing h s' t = Inr (rk, t1)"
  defines "found \<equiv> match_prefix h t s tokens partial"
  shows "match_prefix h t1 s tokens partial = found \<and>
    (\<forall>ks ts key t2. insert_block h rk ks ts t1 = Inr (key, t2) \<longrightarrow> match_prefix h t2 s tokens partial = found) \<and>
    (\<forall>ks i p. match_prefix h (set_page rk ks i p t1) s tokens partial = found) \<and>
    (\<forall>ks i lc. match_prefix h (snd (unset_page rk ks i lc t1)) s tokens partial = found) \<and>
    (\<forall>ms. match_token_path h t s tokens partial = Inr ms \<longrightarrow> (\<forall>m \<in> set ms. in_forest (scope_children t s) (fst m)))"
proof -
  have t: "tree_ok h t" using tree_history_ok [OF assms(1)] by simp
  have rk: "root_make_key h s' = Inr rk" using assms(4) by (auto simp: add_or_get_existing_def rbind_eq_Inr split: if_splits)
  have other: "k \<noteq> rk" if "root_make_key h s = Inr k" for k using root_key_inject [OF assms(2)] rk that assms(3) by blast
  have same: "match_prefix h t2 s tokens partial = found"
    if "\<And>k. k \<noteq> rk \<Longrightarrow> map_of (rt_next t2) k = map_of (rt_next t1) k"
      "rt_life_cycles t2 = rt_life_cycles t1" "rt_tokens_per_block t2 = rt_tokens_per_block t1" for t2
  proof -
    have "map_of (rt_next t1) k = map_of (rt_next t) k" if "k \<noteq> rk" for k
      using assms(4) rk that by (auto simp: add_or_get_existing_def map_add_def split: if_splits option.splits)
    moreover have "rt_life_cycles t1 = rt_life_cycles t" "rt_tokens_per_block t1 = rt_tokens_per_block t"
      using assms(4) rk by (auto simp: add_or_get_existing_def split: if_splits)
    ultimately show ?thesis unfolding found_def using that other by (intro match_prefix_local) auto
  qed
  have "match_prefix h t1 s tokens partial = found" by (rule same) simp_all
  moreover have "match_prefix h t2 s tokens partial = found" if "insert_block h rk ks ts t1 = Inr (key, t2)" for ks ts key t2
    by (rule same) (use that in \<open>auto simp: insert_block_def kbind_eq_Inr klift_eq_Inr update_conv' split: option.splits\<close>)
  moreover have "match_prefix h (set_page rk ks i p t1) s tokens partial = found" for ks i p
    by (rule same) (auto simp: set_page_def change_root_def update_conv' split: option.splits)
  moreover have "match_prefix h (snd (unset_page rk ks i lc t1)) s tokens partial = found" for ks i lc
    by (rule same) (auto simp: unset_page_def update_conv' split: option.splits prod.splits)
  ultimately show ?thesis using match_path_in_scope [OF t assms(2)] by blast
qed

theorem reuse_scopes_isolated_witness:
  "\<exists>rk t1. add_or_get_existing plain_hash \<lparr>lora_id = Some 7, salt = None\<rparr> (example_tree (Some 9)) = Inr (rk, t1) \<and>
     match_prefix plain_hash t1 example_scope [TokenId 5, TokenId 6] False =
     match_prefix plain_hash (example_tree (Some 9)) example_scope [TokenId 5, TokenId 6] False"
proof -
  let ?s = "\<lparr>lora_id = Some 7, salt = None\<rparr> :: reuse_scope"
  have "\<not> isl (add_or_get_existing plain_hash ?s (example_tree (Some 9)))" by code_simp
  then obtain rk t1 where r: "add_or_get_existing plain_hash ?s (example_tree (Some 9)) = Inr (rk, t1)"
    by (cases "add_or_get_existing plain_hash ?s (example_tree (Some 9))") auto
  have "example_scope \<noteq> ?s" by (simp add: example_scope_def)
  from reuse_scopes_isolated [OF example_history plain_hash_collision_free this r] show ?thesis using r by blast
qed

text \<open>
  C34. Taking a subtree out leaf by leaf, without a stack, visits its blocks in post order, and gives back the pages of
  each block exactly once.
\<close>

theorem remove_subtree_correct: "remove_subtree b = (map fst (post_order b), concat (map snd (post_order b)))"
  by (rule remove_subtree_post_order)

text \<open>
  The helper that is to answer with the block that is already there never does: for tokens that a block of the tree
  holds already it answers \<open>None\<close>, since it waits for an error that is not raised.
\<close>

theorem existing_block_not_returned:
  assumes "tree_history h reg tpb t" "map_of (rt_next t) rk = Some r" "(key, b) \<in> set (root_next r)" "blk_tokens b = ts"
  shows "insert_block h rk [] ts t = Inl (UselessBlock key) \<and> add_or_get_existing_block h rk [] ts t = Inr (None, t)"
proof -
  have t: "tree_ok h t" using tree_history_ok [OF assms(1)] by simp
  have size: "\<exists>n. registry_size (rt_life_cycles t) = Inr n"
    using t by (simp add: tree_ok_def registry_inv_def registry_size_def py_assert_def)
  have rk: "root_key r = rk" using t map_of_SomeD [OF assms(2)] by (auto simp: tree_ok_def)
  have "map_of (root_next r) key = Some b" by (rule forest_lookup [OF scope_forest [OF t assms(2)] assms(3)])
  moreover from this have "make_key h rk ts = Inr key"
    using forest_child(1) [OF scope_forest [OF t assms(2)]] assms(4) by (auto simp: block_ok_def)
  ultimately have "insert_block h rk [] ts t = Inl (UselessBlock key)"
    using assms(2) size rk by (auto simp: insert_block_def kbind_def klift_def add_child_def)
  then show ?thesis by (simp add: add_or_get_existing_block_def)
qed

theorem existing_block_not_returned_witness:
  "\<exists>r b. map_of (rt_next (example_tree (Some 9))) [0] = Some r \<and> (example_key, b) \<in> set (root_next r) \<and> blk_tokens b = example_block 5 \<and>
   add_or_get_existing_block plain_hash [0] [] (example_block 5) (example_tree (Some 9)) = Inr (None, example_tree (Some 9))"
proof -
  let ?r = "snd (hd (rt_next (example_tree (Some 9))))" and ?b = "Block example_key (example_block 5) 0 [Some 9] []"
  have "map_of (rt_next (example_tree (Some 9))) [0] = Some ?r" "(example_key, ?b) \<in> set (root_next ?r)" "blk_tokens ?b = example_block 5"
    by (simp_all add: example_tree_def example_with_def)
  then show ?thesis using existing_block_not_returned [OF example_history] by blast
qed

end
