(* ===== verification/Topology.thy ===== *)
theory Topology
  imports Prelude "HOL-Library.AList"
begin

text \<open>
  The division of the GPUs among the kinds of parallelism, \<^verbatim>\<open>mapping.py\<close>: \<open>MappingBase\<close> with its checks and defaults, and
  \<open>MpiTopology\<close> with the ranks and groups of tensor, pipeline, context and expert parallelism. The constructor does not
  check that sizes are positive; the theorems assume it, and with it no division below is by zero. The device
  mesh of PyTorch, the other topology, is not modelled.
\<close>

section \<open>Construction\<close>

text \<open>Members of the enumeration \<open>CpType\<close> are strings and equal to their names.\<close>

datatype cp_value = CpText string | CpInt int

type_synonym cp_dict = "(string \<times> cp_value) list"

definition CpType :: "string list" where
  "CpType = [''ULYSSES'', ''STAR'', ''RING'', ''HELIX'']"

text \<open>The arguments of the constructor, which are also the attributes of the object; \<open>-1\<close> asks for a default.\<close>

record mapping_args =
  world_size :: int
  rank :: int
  gpus_per_node :: int
  cp_size :: int
  cp_config :: "cp_dict option"
  tp_size :: int
  pp_size :: int
  pp_partition :: "int list option"
  moe_cluster_size :: int
  moe_tp_size :: int
  moe_ep_size :: int
  attn_tp_size :: int
  attn_cp_size :: int
  enable_attention_dp :: bool
  enable_lm_head_tp_in_adp :: bool
  dwdp_size :: int
  dwdp_rank :: int

text \<open>The default values of the arguments.\<close>

definition default_args :: mapping_args where
  "default_args = \<lparr>world_size = 1, rank = 0, gpus_per_node = 8, cp_size = 1, cp_config = None, tp_size = 1, pp_size = 1,
     pp_partition = None, moe_cluster_size = -1, moe_tp_size = -1, moe_ep_size = -1, attn_tp_size = -1, attn_cp_size = -1,
     enable_attention_dp = False, enable_lm_head_tp_in_adp = False, dwdp_size = 0, dwdp_rank = 0\<rparr>"

record mapping = mapping_args +
  moe_tp_cluster_ep_size :: int

text \<open>\<open>str.upper\<close> on the letters that names of types have.\<close>

definition upper_char :: "char \<Rightarrow> char" where
  "upper_char c = (if 97 \<le> (of_char c :: nat) \<and> (of_char c :: nat) \<le> 122 then char_of (of_char c - 32 :: nat) else c)"

definition upper :: "string \<Rightarrow> string" where
  "upper s = map upper_char s"

definition normalize_cp_config :: "cp_dict option \<Rightarrow> cp_dict option result" where
  "normalize_cp_config cfg =
     (case cfg of
        None \<Rightarrow> Inr None
      | Some d \<Rightarrow>
          (case map_of d ''cp_type'' of
             Some (CpText s) \<Rightarrow>
               if upper s \<notin> set CpType then Inl ValueError
               else Inr (Some (AList.update ''cp_type'' (CpText (upper s)) d))
           | _ \<Rightarrow> Inr (Some d)))"

definition cp_type_of :: "cp_dict option \<Rightarrow> cp_value" where
  "cp_type_of cfg =
     (case cfg of
        None \<Rightarrow> CpText ''ULYSSES''
      | Some d \<Rightarrow> (case map_of d ''cp_type'' of None \<Rightarrow> CpText ''ULYSSES'' | Some v \<Rightarrow> v))"

definition floordiv :: "int \<Rightarrow> int \<Rightarrow> int result" where
  "floordiv a b = (if b = 0 then Inl ZeroDivisionError else Inr (a div b))"

text \<open>The sizes of expert and attention parallelism when some of them are left open.\<close>

definition moe_sizes :: "int \<Rightarrow> int \<Rightarrow> int \<Rightarrow> int \<Rightarrow> int \<Rightarrow> (int \<times> int \<times> int) result" where
  "moe_sizes dwdp moe_world_size cluster tp ep =
     (if dwdp > 1 then Inr (1, 1, 1)
      else if tp = -1 \<and> ep = -1 then rbind (floordiv moe_world_size cluster) (\<lambda>tp. Inr (tp, 1, cluster))
      else if tp = -1 then rbind (floordiv moe_world_size (ep * cluster)) (\<lambda>tp. Inr (tp, ep, cluster))
      else if ep = -1 then rbind (floordiv moe_world_size (tp * cluster)) (\<lambda>ep. Inr (tp, ep, cluster))
      else Inr (tp, ep, cluster))"

definition attn_sizes :: "bool \<Rightarrow> int \<Rightarrow> int \<Rightarrow> int \<Rightarrow> int \<Rightarrow> (int \<times> int) result" where
  "attn_sizes ulysses tp cp attn_tp attn_cp =
     (if attn_tp = -1 \<and> attn_cp = -1 then Inr (if ulysses then (tp * cp, 1) else (tp, cp))
      else if attn_tp = -1 then rbind (floordiv (tp * cp) attn_cp) (\<lambda>attn_tp. Inr (attn_tp, attn_cp))
      else if attn_cp = -1 then rbind (floordiv (tp * cp) attn_tp) (\<lambda>attn_cp. Inr (attn_tp, attn_cp))
      else Inr (attn_tp, attn_cp))"

text \<open>The setter of \<open>rank\<close>.\<close>

definition set_rank :: "bool \<Rightarrow> int \<Rightarrow> int \<Rightarrow> int result" where
  "set_rank adp world r = (if \<not> adp \<and> (r < 0 \<or> r \<ge> world) then Inl ValueError else Inr r)"

definition mapping_init :: "mapping_args \<Rightarrow> mapping result" where
  "mapping_init a =
     (if dwdp_size a < 0 \<or> dwdp_size a = 1 then Inl ValueError
      else if dwdp_size a > 1 \<and> (dwdp_rank a < 0 \<or> dwdp_rank a \<ge> dwdp_size a) then Inl ValueError
      else
        rbind (normalize_cp_config (cp_config a)) (\<lambda>cfg.
        let ulysses = (cp_type_of cfg = CpText ''ULYSSES'');
            moe_world_size = (if ulysses then tp_size a else tp_size a * cp_size a)
        in
        rbind (moe_sizes (dwdp_size a) moe_world_size (if moe_cluster_size a = -1 then 1 else moe_cluster_size a)
                 (moe_tp_size a) (moe_ep_size a)) (\<lambda>(mtp, mep, mcl).
        rbind (attn_sizes ulysses (tp_size a) (cp_size a) (attn_tp_size a) (attn_cp_size a)) (\<lambda>(atp, acp).
        if acp \<noteq> 1 \<and> ulysses then Inl ValueError
        else if tp_size a * pp_size a * cp_size a \<noteq> world_size a then Inl ValueError
        else if \<not> dwdp_size a > 1 \<and> mtp * mep * mcl \<noteq> moe_world_size then Inl ValueError
        else if atp * acp \<noteq> tp_size a * cp_size a then Inl ValueError
        else if mep \<noteq> 1 \<and> cp_size a > 1 \<and> cp_type_of cfg \<noteq> CpText ''HELIX'' then Inl NotImplementedError
        else py_assert (mcl > 1 \<longrightarrow> mep = 1) (
             py_assert (enable_lm_head_tp_in_adp a \<longrightarrow> enable_attention_dp a) (
        rbind (set_rank (enable_attention_dp a) (world_size a) (rank a)) (\<lambda>r.
          Inr \<lparr>world_size = world_size a, rank = r, gpus_per_node = gpus_per_node a, cp_size = cp_size a,
               cp_config = Some (case cfg of None \<Rightarrow> [] | Some d \<Rightarrow> d), tp_size = tp_size a, pp_size = pp_size a,
               pp_partition = pp_partition a, moe_cluster_size = mcl, moe_tp_size = mtp, moe_ep_size = mep,
               attn_tp_size = atp, attn_cp_size = acp, enable_attention_dp = enable_attention_dp a,
               enable_lm_head_tp_in_adp = enable_lm_head_tp_in_adp a, dwdp_size = dwdp_size a, dwdp_rank = dwdp_rank a,
               moe_tp_cluster_ep_size = (if dwdp_size a > 1 then mcl else mtp * mep * mcl)\<rparr>)))))))"

text \<open>\<open>to_dict\<close> leaves \<open>pp_partition\<close> out, so that \<open>from_dict\<close> takes the default for it.\<close>

definition to_dict :: "mapping \<Rightarrow> mapping_args" where
  "to_dict m = (mapping_args.truncate m)\<lparr>pp_partition := None\<rparr>"

definition from_dict :: "mapping_args \<Rightarrow> mapping result" where
  "from_dict d = mapping_init d"

definition cp_type_is :: "string \<Rightarrow> mapping \<Rightarrow> bool" where
  "cp_type_is t m = (cp_size m > 1 \<and> (case cp_config m of None \<Rightarrow> False | Some d \<Rightarrow> map_of d ''cp_type'' = Some (CpText t)))"

definition has_cp_ulysses :: "mapping \<Rightarrow> bool" where
  "has_cp_ulysses m = cp_type_is ''ULYSSES'' m"

definition has_cp_helix :: "mapping \<Rightarrow> bool" where
  "has_cp_helix m = cp_type_is ''HELIX'' m"

definition repurpose_helix_cp_to_tp :: "mapping \<Rightarrow> mapping result" where
  "repurpose_helix_cp_to_tp m =
     py_assert (has_cp_helix m) (mapping_init ((mapping_args.truncate m)
       \<lparr>cp_size := 1, cp_config := Some [], tp_size := tp_size m * cp_size m, attn_tp_size := -1, attn_cp_size := -1\<rparr>))"

section \<open>Ranks\<close>

definition tp_rank :: "mapping \<Rightarrow> int" where
  "tp_rank m = rank m mod (tp_size m * cp_size m) div cp_size m"

definition pp_rank :: "mapping \<Rightarrow> int" where
  "pp_rank m = rank m div (tp_size m * cp_size m)"

definition cp_rank :: "mapping \<Rightarrow> int" where
  "cp_rank m = rank m mod cp_size m"

definition moe_tp_rank :: "mapping \<Rightarrow> int" where
  "moe_tp_rank m = tp_rank m div (moe_ep_size m * moe_cluster_size m)"

definition moe_cluster_rank :: "mapping \<Rightarrow> int" where
  "moe_cluster_rank m = tp_rank m mod moe_cluster_size m"

definition moe_ep_rank :: "mapping \<Rightarrow> int" where
  "moe_ep_rank m = (if dwdp_size m > 1 then 0 else tp_rank m mod moe_ep_size m)"

definition prev_pp_rank :: "mapping \<Rightarrow> int" where
  "prev_pp_rank m = (let p = rank m - tp_size m * cp_size m in if p < 0 then p + world_size m else p)"

definition next_pp_rank :: "mapping \<Rightarrow> int" where
  "next_pp_rank m = (let p = rank m + tp_size m * cp_size m in if p \<ge> world_size m then p - world_size m else p)"

definition prev_cp_rank :: "mapping \<Rightarrow> int" where
  "prev_cp_rank m = (if cp_rank m = 0 then rank m + cp_size m - 1 else rank m - 1)"

definition next_cp_rank :: "mapping \<Rightarrow> int" where
  "next_cp_rank m = (if cp_rank m = cp_size m - 1 then rank m - cp_size m + 1 else rank m + 1)"

section \<open>Groups\<close>

text \<open>\<open>list(range(start, stop, step))\<close> for a positive step, and a loop over \<open>range(n)\<close>.\<close>

definition range_step :: "int \<Rightarrow> int \<Rightarrow> int \<Rightarrow> int list" where
  "range_step start stop step = map (\<lambda>i. start + int i * step) [0..<nat ((stop - start + step - 1) div step)]"

definition py_range :: "int \<Rightarrow> int list" where
  "py_range n = range_step 0 n 1"

definition pp_groups :: "mapping \<Rightarrow> int list list" where
  "pp_groups m = map (\<lambda>i. range_step i (world_size m) (tp_size m * cp_size m)) (py_range (tp_size m * cp_size m))"

definition cp_groups :: "mapping \<Rightarrow> int list list" where
  "cp_groups m = concat (map (\<lambda>i. map (\<lambda>j.
     range_step (i * tp_size m * cp_size m + j * cp_size m) (i * tp_size m * cp_size m + (j + 1) * cp_size m) 1)
       (py_range (tp_size m))) (py_range (pp_size m)))"

definition tp_groups :: "mapping \<Rightarrow> int list list" where
  "tp_groups m = concat (map (\<lambda>i. map (\<lambda>j.
     range_step (i * tp_size m * cp_size m + j) ((i + 1) * tp_size m * cp_size m + j) (cp_size m))
       (py_range (cp_size m))) (py_range (pp_size m)))"

definition moe_tp_groups :: "mapping \<Rightarrow> int list list" where
  "moe_tp_groups m = concat (map (\<lambda>i. map (\<lambda>j.
     range_step (i * moe_tp_cluster_ep_size m + j) ((i + 1) * moe_tp_cluster_ep_size m) (moe_cluster_size m * moe_ep_size m))
       (py_range (moe_cluster_size m * moe_ep_size m))) (py_range (pp_size m)))"

definition moe_cluster_groups :: "mapping \<Rightarrow> int list list" where
  "moe_cluster_groups m = concat (map (\<lambda>i. map (\<lambda>j.
     range_step (i * moe_tp_cluster_ep_size m + j * moe_cluster_size m * moe_ep_size m)
       (i * moe_tp_cluster_ep_size m + (j + 1) * moe_cluster_size m * moe_ep_size m) 1)
       (py_range (moe_tp_size m))) (py_range (pp_size m)))"

definition moe_ep_groups :: "mapping \<Rightarrow> int list list" where
  "moe_ep_groups m = concat (map (\<lambda>i. concat (map (\<lambda>j. map (\<lambda>k.
     range_step (i * moe_tp_cluster_ep_size m + j * moe_cluster_size m * moe_ep_size m + k * moe_ep_size m)
       (i * moe_tp_cluster_ep_size m + j * moe_cluster_size m * moe_ep_size m + (k + 1) * moe_ep_size m) 1)
       (py_range (moe_cluster_size m))) (py_range (moe_tp_size m)))) (py_range (pp_size m)))"

definition py_nth :: "'a list \<Rightarrow> int \<Rightarrow> 'a result" where
  "py_nth xs k = rbind (py_index (length xs) k) (\<lambda>i. Inr (xs ! i))"

definition tp_group :: "mapping \<Rightarrow> int list result" where
  "tp_group m = py_nth (tp_groups m) (pp_rank m * cp_size m + cp_rank m)"

definition pp_group :: "mapping \<Rightarrow> int list result" where
  "pp_group m = py_nth (pp_groups m) (tp_rank m * cp_size m + cp_rank m)"

definition cp_group :: "mapping \<Rightarrow> int list result" where
  "cp_group m = py_nth (cp_groups m) (pp_rank m * tp_size m + tp_rank m)"

definition moe_tp_group :: "mapping \<Rightarrow> int list result" where
  "moe_tp_group m = py_nth (moe_tp_groups m)
     (pp_rank m * moe_cluster_size m * moe_ep_size m + moe_cluster_rank m * moe_ep_size m + moe_ep_rank m)"

definition moe_ep_group :: "mapping \<Rightarrow> int list result" where
  "moe_ep_group m = py_nth (moe_ep_groups m)
     (pp_rank m * moe_tp_size m * moe_cluster_size m + moe_tp_rank m * moe_cluster_size m + moe_cluster_rank m)"

definition moe_cluster_group :: "mapping \<Rightarrow> int list result" where
  "moe_cluster_group m = py_nth (moe_cluster_groups m) (pp_rank m * moe_tp_size m + moe_tp_rank m)"

section \<open>Layers and experts\<close>

record torch_split =
  split_sizes :: "int list \<Rightarrow> int list \<Rightarrow> int list list result"
  split_sections :: "int \<Rightarrow> int list \<Rightarrow> int list list"

definition check_partition :: "mapping \<Rightarrow> int \<Rightarrow> int list \<Rightarrow> 'a result \<Rightarrow> 'a result" where
  "check_partition m num_layers ns k =
     (if int (length ns) \<noteq> pp_size m then Inl ValueError else if sum_list ns \<noteq> num_layers then Inl ValueError else k)"

definition pp_layers :: "torch_split \<Rightarrow> mapping \<Rightarrow> int \<Rightarrow> int list result" where
  "pp_layers ops m num_layers =
     (case pp_partition m of
        Some ns \<Rightarrow> check_partition m num_layers ns
          (rbind (split_sizes ops ns (py_range num_layers)) (\<lambda>parts. py_nth parts (pp_rank m)))
      | None \<Rightarrow> py_nth (split_sections ops (pp_size m) (py_range num_layers)) (pp_rank m))"

fun rank_by_partition :: "int \<Rightarrow> int \<Rightarrow> int \<Rightarrow> int list \<Rightarrow> int result" where
  "rank_by_partition layer_idx e r [] = Inl RuntimeError"
| "rank_by_partition layer_idx e r (n # ns) =
     (if layer_idx < e + n then Inr r else rank_by_partition layer_idx (e + n) (r + 1) ns)"

definition pp_rank_of_layer :: "mapping \<Rightarrow> int \<Rightarrow> int \<Rightarrow> int result" where
  "pp_rank_of_layer m layer_idx num_layers =
     (if layer_idx < 0 \<or> layer_idx \<ge> num_layers then Inl ValueError
      else if \<not> pp_size m > 1 then Inr 0
      else case pp_partition m of
        Some ns \<Rightarrow> check_partition m num_layers ns (rank_by_partition layer_idx 0 0 ns)
      | None \<Rightarrow>
          let base = num_layers div pp_size m; rem = num_layers mod pp_size m in
          if base = 0 then Inr layer_idx
          else let cutoff = (base + 1) * rem in
            if layer_idx < cutoff then Inr (layer_idx div (base + 1)) else Inr (rem + (layer_idx - cutoff) div base))"

definition ep_experts :: "mapping \<Rightarrow> int \<Rightarrow> int list result" where
  "ep_experts m num_experts =
     py_assert (cp_size m = 1)
       (rbind (floordiv num_experts (moe_ep_size m)) (\<lambda>n.
         Inr (range_step (moe_ep_rank m * n) ((moe_ep_rank m + 1) * n) 1)))"

end
