(* ===== verification/ParallelGroups.thy ===== *)
theory ParallelGroups
  imports Topology
begin

text \<open>
  The properties of a topology: ranks and groups of every kind of parallelism fit together, stages know their layers, and a
  mapping can be rebuilt from what was written of it.
\<close>

section \<open>Loops and groups\<close>

lemma range_step_count:
  assumes "0 < step" "0 \<le> n" "start + (n - 1) * step < stop" "stop \<le> start + n * step"
  shows "range_step start stop step = map (\<lambda>i. start + int i * step) [0..<nat n]"
proof -
  have "(stop - start + step - 1) div step = n"
  proof (rule int_div_pos_eq)
    show "stop - start + step - 1 = step * n + (stop - start + step - 1 - n * step)" by (simp add: mult.commute)
  qed (use assms in \<open>simp_all add: algebra_simps\<close>)
  then show ?thesis by (simp add: range_step_def)
qed

lemma range_step_one: "a \<le> b \<Longrightarrow> range_step a b 1 = map (\<lambda>i. a + int i) [0..<nat (b - a)]"
  by (simp add: range_step_def)

lemma py_range_map: "py_range n = map int [0..<nat n]"
  by (simp add: py_range_def range_step_def)

lemma length_concat_uniform: "\<forall>i < a. length (G i) = l \<Longrightarrow> length (concat (map G [0..<a])) = a * l"
  by (induction a) simp_all

lemma concat_uniform_nth:
  "\<forall>i < a. length (G i) = l \<Longrightarrow> i < a \<Longrightarrow> q < l \<Longrightarrow> concat (map G [0..<a]) ! (i * l + q) = G i ! q"
proof (induction a)
  case (Suc a)
  have len: "length (concat (map G [0..<a])) = a * l" using length_concat_uniform [of a G l] Suc.prems(1) by simp
  show ?case
  proof (cases "i < a")
    case True
    then have "Suc i * l \<le> a * l" by (intro mult_le_mono1) simp
    then have "i * l + q < a * l" using Suc.prems(3) by simp
    then show ?thesis using True Suc len by (simp add: nth_append)
  next
    case False
    then have "i = a" using Suc.prems(2) by simp
    then show ?thesis using len by (simp add: nth_append)
  qed
qed simp

lemma py_nth_nat: "k < length xs \<Longrightarrow> py_nth xs (int k) = Inr (xs ! k)"
  by (simp add: py_nth_def)

lemma py_nth_concat:
  assumes "\<forall>i. length (G i) = nat l" "0 \<le> i" "i < a" "0 \<le> q" "q < l"
  shows "py_nth (concat (map G (py_range a))) (i * l + q) = py_nth (G i) q"
proof -
  have k: "i * l + q = int (nat i * nat l + nat q)" using assms by (simp add: nat_mult_distrib)
  have len: "length (concat (map (\<lambda>x. G (int x)) [0..<nat a])) = nat a * nat l" by (rule length_concat_uniform) (simp add: assms(1))
  have "Suc (nat i) * nat l \<le> nat a * nat l" using assms by (intro mult_le_mono1) (simp add: nat_less_iff Suc_le_eq)
  moreover have "nat q < nat l" using assms by simp
  ultimately have lt: "nat i * nat l + nat q < nat a * nat l" unfolding mult_Suc by linarith
  have "concat (map (\<lambda>x. G (int x)) [0..<nat a]) ! (nat i * nat l + nat q) = G (int (nat i)) ! nat q"
    by (rule concat_uniform_nth) (use assms in auto)
  then have "py_nth (concat (map G (py_range a))) (i * l + q) = Inr (G i ! nat q)"
    using len lt assms(2) unfolding k py_range_map map_map comp_def by (simp add: py_nth_nat del: of_nat_add of_nat_mult)
  moreover have "py_nth (G i) q = Inr (G i ! nat q)" using py_nth_nat [of "nat q" "G i"] assms by simp
  ultimately show ?thesis by simp
qed

lemma py_nth_range: "0 \<le> q \<Longrightarrow> q < l \<Longrightarrow> py_nth (map F (py_range l)) q = Inr (F q)"
  using py_nth_nat [of "nat q" "map F (py_range l)"] by (simp add: py_range_map)

lemma length_py_range [simp]: "length (py_range l) = nat l"
  by (simp add: py_range_map)

lemma py_nth_grid:
  assumes "0 \<le> i" "i < a" "0 \<le> j" "j < b"
  shows "py_nth (concat (map (\<lambda>i. map (F i) (py_range b)) (py_range a))) (i * b + j) = Inr (F i j)"
  using py_nth_concat [of "\<lambda>i. map (F i) (py_range b)" b i a j] py_nth_range [of j b "F i"] assms by simp

text \<open>A list of \<open>w\<close> ranks that has all of them has each of them once.\<close>

lemma all_ranks_once:
  assumes "{0..<w} \<subseteq> set xs" "length xs = nat w"
  shows "distinct xs \<and> set xs = {0..<w :: int}"
proof -
  have "card (set xs) \<le> card {0..<w}" using card_length [of xs] assms(2) by simp
  then have eq: "set xs = {0..<w}" using card_seteq [OF finite_set assms(1)] by simp
  then have "card (set xs) = length xs" using assms(2) by simp
  then show ?thesis using eq card_distinct by blast
qed

lemma py_nth_mem: "py_nth xs k = Inr x \<Longrightarrow> x \<in> set xs"
  by (auto simp: py_nth_def py_index_def rbind_eq_Inr split: if_splits)

section \<open>What the constructor promises\<close>

definition topology :: "mapping \<Rightarrow> bool" where
  "topology m \<longleftrightarrow> 0 < tp_size m \<and> 0 < pp_size m \<and> 0 < cp_size m \<and> 0 \<le> rank m \<and> rank m < world_size m \<and>
     world_size m = tp_size m * pp_size m * cp_size m"

lemma checked_eq_Inr: "(if c then Inl e else k) = Inr y \<longleftrightarrow> \<not> c \<and> k = Inr y"
  by simp

text \<open>The checks that a construction passes, and the object that it gives.\<close>

definition mapping_checks :: "mapping_args \<Rightarrow> cp_dict option \<Rightarrow> int \<times> int \<times> int \<Rightarrow> int \<times> int \<Rightarrow> bool" where
  "mapping_checks a cfg moe attn =
     (let ulysses = (cp_type_of cfg = CpText ''ULYSSES''); w = (if ulysses then tp_size a else tp_size a * cp_size a) in
      dwdp_size a \<ge> 0 \<and> dwdp_size a \<noteq> 1 \<and> (dwdp_size a \<le> 1 \<or> 0 \<le> dwdp_rank a \<and> dwdp_rank a < dwdp_size a) \<and>
      normalize_cp_config (cp_config a) = Inr cfg \<and>
      moe_sizes (dwdp_size a) w (if moe_cluster_size a = -1 then 1 else moe_cluster_size a) (moe_tp_size a) (moe_ep_size a) = Inr moe \<and>
      attn_sizes ulysses (tp_size a) (cp_size a) (attn_tp_size a) (attn_cp_size a) = Inr attn \<and>
      (snd attn = 1 \<or> \<not> ulysses) \<and> tp_size a * pp_size a * cp_size a = world_size a \<and>
      (dwdp_size a > 1 \<or> fst moe * fst (snd moe) * snd (snd moe) = w) \<and> fst attn * snd attn = tp_size a * cp_size a \<and>
      (fst (snd moe) = 1 \<or> \<not> cp_size a > 1 \<or> cp_type_of cfg = CpText ''HELIX'') \<and>
      (snd (snd moe) > 1 \<longrightarrow> fst (snd moe) = 1) \<and> (enable_lm_head_tp_in_adp a \<longrightarrow> enable_attention_dp a) \<and>
      (enable_attention_dp a \<or> 0 \<le> rank a \<and> rank a < world_size a))"

definition mapping_of :: "mapping_args \<Rightarrow> cp_dict option \<Rightarrow> int \<times> int \<times> int \<Rightarrow> int \<times> int \<Rightarrow> mapping" where
  "mapping_of a cfg moe attn =
     \<lparr>world_size = world_size a, rank = rank a, gpus_per_node = gpus_per_node a, cp_size = cp_size a,
      cp_config = Some (case cfg of None \<Rightarrow> [] | Some d \<Rightarrow> d), tp_size = tp_size a, pp_size = pp_size a,
      pp_partition = pp_partition a, moe_cluster_size = snd (snd moe), moe_tp_size = fst moe, moe_ep_size = fst (snd moe),
      attn_tp_size = fst attn, attn_cp_size = snd attn, enable_attention_dp = enable_attention_dp a,
      enable_lm_head_tp_in_adp = enable_lm_head_tp_in_adp a, dwdp_size = dwdp_size a, dwdp_rank = dwdp_rank a,
      moe_tp_cluster_ep_size =
        (if dwdp_size a > 1 then snd (snd moe) else fst moe * fst (snd moe) * snd (snd moe))\<rparr>"

lemma mapping_init_passes:
  assumes "mapping_checks a cfg (mtp, mep, mcl) (atp, acp)"
  shows "mapping_init a = Inr (mapping_of a cfg (mtp, mep, mcl) (atp, acp))"
proof -
  let ?u = "cp_type_of cfg = CpText ''ULYSSES''"
  note c = assms [unfolded mapping_checks_def Let_def fst_conv snd_conv]
  have "set_rank (enable_attention_dp a) (world_size a) (rank a) = Inr (rank a)" using c by (auto simp: set_rank_def)
  moreover have "\<not> (dwdp_size a < 0 \<or> dwdp_size a = 1)" "\<not> (dwdp_size a > 1 \<and> (dwdp_rank a < 0 \<or> dwdp_rank a \<ge> dwdp_size a))"
      "\<not> (acp \<noteq> 1 \<and> ?u)" "\<not> (\<not> dwdp_size a > 1 \<and> mtp * mep * mcl \<noteq> (if ?u then tp_size a else tp_size a * cp_size a))"
      "\<not> (mep \<noteq> 1 \<and> cp_size a > 1 \<and> cp_type_of cfg \<noteq> CpText ''HELIX'')"
    using c by auto
  ultimately show ?thesis using c unfolding mapping_init_def Let_def by (simp add: mapping_of_def)
qed

lemma mapping_init_cases:
  assumes "mapping_init a = Inr m"
  obtains cfg moe attn where "mapping_checks a cfg moe attn" "m = mapping_of a cfg moe attn"
proof -
  show thesis
    using assms unfolding mapping_init_def Let_def checked_eq_Inr rbind_eq_Inr set_rank_def
    apply (elim conjE exE)
    apply (clarsimp simp only: prod.case checked_eq_Inr rbind_eq_Inr py_assert_eq_Inr)
    subgoal for cfg mtp mep mcl atp acp
      by (erule notE, rule that [of cfg "(mtp, mep, mcl)" "(atp, acp)"])
        (simp_all add: mapping_checks_def mapping_of_def Let_def not_less not_le)
    done
qed

lemma mapping_init_topology:
  assumes "mapping_init a = Inr m" "0 < tp_size a" "0 < pp_size a" "0 < cp_size a" "0 \<le> rank a" "rank a < world_size a"
  shows "topology m"
proof -
  obtain cfg moe attn where "mapping_checks a cfg moe attn" and m: "m = mapping_of a cfg moe attn" by (rule mapping_init_cases [OF assms(1)])
  then have "tp_size a * pp_size a * cp_size a = world_size a" by (simp add: mapping_checks_def Let_def)
  then show ?thesis using assms by (simp add: m mapping_of_def topology_def)
qed

section \<open>Coordinates\<close>

lemma mod_product:
  fixes r a b :: int
  assumes "0 < a" "0 < b"
  shows "r mod (a * b) = r mod (a * b) div b * b + r mod b" "r mod (a * b) div b < a"
proof -
  have "r mod (a * b) mod b = r mod b" by (rule mod_mod_cancel) simp
  then show "r mod (a * b) = r mod (a * b) div b * b + r mod b" using div_mult_mod_eq [of "r mod (a * b)" b] by simp
  show "r mod (a * b) div b < a" using assms by (simp add: div_less_iff)
qed

lemma coordinates:
  assumes "topology m"
  shows "rank m = pp_rank m * (tp_size m * cp_size m) + (tp_rank m * cp_size m + cp_rank m)"
    "rank m mod (tp_size m * cp_size m) = tp_rank m * cp_size m + cp_rank m"
    "0 \<le> pp_rank m" "pp_rank m < pp_size m" "0 \<le> tp_rank m" "tp_rank m < tp_size m" "0 \<le> cp_rank m" "cp_rank m < cp_size m"
proof -
  have pos: "0 < tp_size m" "0 < cp_size m" "0 < tp_size m * cp_size m" "0 \<le> rank m" "rank m < pp_size m * (tp_size m * cp_size m)"
    using assms by (auto simp: topology_def ac_simps)
  show m: "rank m mod (tp_size m * cp_size m) = tp_rank m * cp_size m + cp_rank m"
    unfolding tp_rank_def cp_rank_def by (rule mod_product [OF pos(1,2)])
  show "rank m = pp_rank m * (tp_size m * cp_size m) + (tp_rank m * cp_size m + cp_rank m)"
    unfolding m [symmetric] pp_rank_def by (rule div_mult_mod_eq [symmetric])
  show "0 \<le> pp_rank m" "pp_rank m < pp_size m"
    using pos by (simp_all add: pp_rank_def pos_imp_zdiv_nonneg_iff div_less_iff)
  show "0 \<le> tp_rank m" "tp_rank m < tp_size m"
    using pos mod_product(2) [OF pos(1,2)] by (simp_all add: tp_rank_def pos_imp_zdiv_nonneg_iff)
  show "0 \<le> cp_rank m" "cp_rank m < cp_size m" using pos by (simp_all add: cp_rank_def)
qed

text \<open>A group that is a range of \<open>n\<close> ranks, and the place of a rank in it.\<close>

definition at_place :: "int \<Rightarrow> int \<Rightarrow> int list result \<Rightarrow> int \<Rightarrow> bool" where
  "at_place r k g n \<longleftrightarrow> (\<exists>xs. g = Inr xs \<and> length xs = nat n \<and> 0 \<le> k \<and> k < n \<and> xs ! nat k = r)"

lemma at_place_range:
  assumes "0 < step" "0 \<le> k" "k < n" "start + (n - 1) * step < stop" "stop \<le> start + n * step" "r = start + k * step"
  shows "at_place r k (Inr (range_step start stop step)) n"
  using assms range_step_count [of step n start stop] by (auto simp: at_place_def)

lemma tp_group_place:
  assumes "topology m"
  shows "at_place (rank m) (tp_rank m) (tp_group m) (tp_size m)"
proof -
  note c = coordinates [OF assms]
  have pos: "0 < cp_size m" using assms by (simp add: topology_def)
  have "tp_group m = Inr (range_step (pp_rank m * tp_size m * cp_size m + cp_rank m)
      ((pp_rank m + 1) * tp_size m * cp_size m + cp_rank m) (cp_size m))"
    unfolding tp_group_def tp_groups_def by (rule py_nth_grid [OF c(3,4,7,8)])
  moreover have "at_place (rank m) (tp_rank m) \<dots> (tp_size m)"
    by (rule at_place_range) (use c pos in \<open>auto simp: algebra_simps\<close>)
  ultimately show ?thesis by simp
qed

lemma cp_group_place:
  assumes "topology m"
  shows "at_place (rank m) (cp_rank m) (cp_group m) (cp_size m)"
proof -
  note c = coordinates [OF assms]
  have "cp_group m = Inr (range_step (pp_rank m * tp_size m * cp_size m + tp_rank m * cp_size m)
      (pp_rank m * tp_size m * cp_size m + (tp_rank m + 1) * cp_size m) 1)"
    unfolding cp_group_def cp_groups_def by (rule py_nth_grid [OF c(3-6)])
  moreover have "at_place (rank m) (cp_rank m) \<dots> (cp_size m)"
    by (rule at_place_range) (use c in \<open>auto simp: algebra_simps\<close>)
  ultimately show ?thesis by simp
qed

lemma pp_group_place:
  assumes "topology m"
  shows "at_place (rank m) (pp_rank m) (pp_group m) (pp_size m)"
proof -
  note c = coordinates [OF assms]
  let ?T = "tp_size m * cp_size m" and ?i = "tp_rank m * cp_size m + cp_rank m"
  have pos: "0 < ?T" using assms by (simp add: topology_def)
  have i: "0 \<le> ?i" "?i < ?T" unfolding c(2) [symmetric] using pos by simp_all
  have w: "world_size m = pp_size m * ?T" using assms by (simp add: topology_def)
  have "pp_group m = Inr (range_step ?i (world_size m) ?T)"
    unfolding pp_group_def pp_groups_def by (rule py_nth_range [OF i])
  moreover have "at_place (rank m) (pp_rank m) \<dots> (pp_size m)"
    by (rule at_place_range) (use c(1,3,4) pos i w in \<open>auto simp: algebra_simps\<close>)
  ultimately show ?thesis by simp
qed

section \<open>The groups divide the world\<close>

lemma length_row: "\<forall>j. 0 \<le> j \<longrightarrow> j < b \<longrightarrow> length (F j) = n \<Longrightarrow> length (concat (map F (py_range b))) = nat b * n"
  using length_concat_uniform [of "nat b" "\<lambda>j. F (int j)" n] by (simp add: py_range_map comp_def)

lemma concat_rows: "concat (concat (map (\<lambda>i. map (F i) ys) xs)) = concat (map (\<lambda>i. concat (map (F i) ys)) xs)"
  by (induction xs) simp_all

lemma length_grid:
  assumes "\<forall>i j. 0 \<le> i \<longrightarrow> i < a \<longrightarrow> 0 \<le> j \<longrightarrow> j < b \<longrightarrow> length (F i j) = n"
  shows "length (concat (concat (map (\<lambda>i. map (F i) (py_range b)) (py_range a)))) = nat a * (nat b * n)"
  unfolding concat_rows using assms by (intro length_row) (auto intro!: length_row)

lemma length_range_step:
  assumes "0 < step" "0 \<le> n" "start + (n - 1) * step < stop" "stop \<le> start + n * step"
  shows "length (range_step start stop step) = nat n"
  using range_step_count [OF assms] by simp

text \<open>
  If every rank has a place in its group, and the groups do not depend on the rank, then they have all the ranks.
\<close>

lemma rank_in_groups:
  assumes "at_place r k g n" "g = py_nth gs i"
  shows "r \<in> set (concat gs)"
proof -
  obtain xs where xs: "g = Inr xs" "xs ! nat k = r" "length xs = nat n" "0 \<le> k" "k < n" using assms(1) by (auto simp: at_place_def)
  then have "r \<in> set xs" by (metis nat_less_eq_zless nth_mem)
  moreover have "xs \<in> set gs" using py_nth_mem xs(1) assms(2) by metis
  ultimately show ?thesis by auto
qed

lemma topology_rank: "topology m \<Longrightarrow> 0 \<le> r \<Longrightarrow> r < world_size m \<Longrightarrow> topology (m\<lparr>rank := r\<rparr>)"
  by (simp add: topology_def)

definition divides_world :: "mapping \<Rightarrow> int list list \<Rightarrow> bool" where
  "divides_world m gs \<longleftrightarrow> distinct (concat gs) \<and> set (concat gs) = {0..<world_size m}"

lemma divides_worldI:
  assumes "\<And>r. 0 \<le> r \<Longrightarrow> r < world_size m \<Longrightarrow> r \<in> set (concat gs)" "length (concat gs) = nat (world_size m)"
  shows "divides_world m gs"
  unfolding divides_world_def using assms by (intro all_ranks_once) auto

lemma tp_groups_divide:
  assumes "topology m"
  shows "divides_world m (tp_groups m)"
proof (rule divides_worldI)
  fix r assume r: "0 \<le> r" "r < world_size m"
  let ?m = "m\<lparr>rank := r\<rparr>"
  have "tp_group ?m = py_nth (tp_groups m) (pp_rank ?m * cp_size m + cp_rank ?m)"
    by (simp add: tp_group_def tp_groups_def)
  then show "r \<in> set (concat (tp_groups m))" using rank_in_groups [OF tp_group_place [OF topology_rank [OF assms r]]] by simp
next
  have pos: "0 < tp_size m" "0 < cp_size m" "0 < pp_size m" "world_size m = tp_size m * pp_size m * cp_size m"
    using assms by (auto simp: topology_def)
  have "length (concat (tp_groups m)) = nat (pp_size m) * (nat (cp_size m) * nat (tp_size m))"
    unfolding tp_groups_def
    by (rule length_grid, intro allI impI length_range_step) (use pos in \<open>auto simp: algebra_simps\<close>)
  then show "length (concat (tp_groups m)) = nat (world_size m)" using pos by (simp add: nat_mult_distrib)
qed

lemma cp_groups_divide:
  assumes "topology m"
  shows "divides_world m (cp_groups m)"
proof (rule divides_worldI)
  fix r assume r: "0 \<le> r" "r < world_size m"
  let ?m = "m\<lparr>rank := r\<rparr>"
  have "cp_group ?m = py_nth (cp_groups m) (pp_rank ?m * tp_size m + tp_rank ?m)"
    by (simp add: cp_group_def cp_groups_def)
  then show "r \<in> set (concat (cp_groups m))" using rank_in_groups [OF cp_group_place [OF topology_rank [OF assms r]]] by simp
next
  have pos: "0 < tp_size m" "0 < cp_size m" "0 < pp_size m" "world_size m = tp_size m * pp_size m * cp_size m"
    using assms by (auto simp: topology_def)
  have "length (concat (cp_groups m)) = nat (pp_size m) * (nat (tp_size m) * nat (cp_size m))"
    unfolding cp_groups_def
    by (rule length_grid, intro allI impI length_range_step) (use pos in \<open>auto simp: algebra_simps\<close>)
  then show "length (concat (cp_groups m)) = nat (world_size m)" using pos by (simp add: nat_mult_distrib)
qed

lemma pp_groups_divide:
  assumes "topology m"
  shows "divides_world m (pp_groups m)"
proof (rule divides_worldI)
  fix r assume r: "0 \<le> r" "r < world_size m"
  let ?m = "m\<lparr>rank := r\<rparr>"
  have "pp_group ?m = py_nth (pp_groups m) (tp_rank ?m * cp_size m + cp_rank ?m)"
    by (simp add: pp_group_def pp_groups_def)
  then show "r \<in> set (concat (pp_groups m))" using rank_in_groups [OF pp_group_place [OF topology_rank [OF assms r]]] by simp
next
  let ?T = "tp_size m * cp_size m"
  have pos: "0 < tp_size m" "0 < cp_size m" "0 < ?T" "0 < pp_size m" "world_size m = pp_size m * ?T"
    using assms by (auto simp: topology_def)
  have "length (concat (pp_groups m)) = nat ?T * nat (pp_size m)"
    unfolding pp_groups_def
    by (rule length_row, intro allI impI length_range_step) (use pos in \<open>auto simp: algebra_simps\<close>)
  then show "length (concat (pp_groups m)) = nat (world_size m)" using pos by (simp add: nat_mult_distrib)
qed

section \<open>Groups of experts\<close>

text \<open>Without context parallelism the ranks of a pipeline stage are divided among the experts.\<close>

definition moe_topology :: "mapping \<Rightarrow> bool" where
  "moe_topology m \<longleftrightarrow> topology m \<and> cp_size m = 1 \<and> \<not> dwdp_size m > 1 \<and>
     0 < moe_tp_size m \<and> 0 < moe_ep_size m \<and> 0 < moe_cluster_size m \<and>
     tp_size m = moe_tp_size m * (moe_cluster_size m * moe_ep_size m) \<and> moe_tp_cluster_ep_size m = tp_size m \<and>
     (moe_cluster_size m > 1 \<longrightarrow> moe_ep_size m = 1)"

lemma mapping_init_moe_topology:
  assumes "mapping_init a = Inr m" "0 < tp_size a" "0 < pp_size a" "cp_size a = 1" "0 \<le> rank a" "rank a < world_size a"
    "dwdp_size a = 0" "0 < moe_tp_size m" "0 < moe_ep_size m" "0 < moe_cluster_size m"
  shows "moe_topology m"
proof -
  have t: "topology m" using mapping_init_topology [OF assms(1-3)] assms(4-6) by simp
  obtain cfg moe attn where c: "mapping_checks a cfg moe attn" and m: "m = mapping_of a cfg moe attn" by (rule mapping_init_cases [OF assms(1)])
  have "fst moe * fst (snd moe) * snd (snd moe) = tp_size a" "snd (snd moe) > 1 \<longrightarrow> fst (snd moe) = 1"
    using c assms(4,7) by (simp_all add: mapping_checks_def Let_def)
  then show ?thesis using t assms(4,7-10) by (simp add: moe_topology_def m mapping_of_def ac_simps)
qed

lemma moe_coordinates:
  assumes "moe_topology m"
  defines "e \<equiv> moe_cluster_size m * moe_ep_size m"
  shows "tp_rank m = moe_tp_rank m * e + (moe_cluster_rank m * moe_ep_size m + moe_ep_rank m)"
    "0 \<le> moe_cluster_rank m * moe_ep_size m + moe_ep_rank m" "moe_cluster_rank m * moe_ep_size m + moe_ep_rank m < e"
    "0 \<le> moe_tp_rank m" "moe_tp_rank m < moe_tp_size m" "0 \<le> moe_cluster_rank m" "moe_cluster_rank m < moe_cluster_size m"
    "0 \<le> moe_ep_rank m" "moe_ep_rank m < moe_ep_size m"
proof -
  have pos: "0 < moe_ep_size m" "0 < moe_cluster_size m" "0 < e" "\<not> dwdp_size m > 1" "tp_size m = moe_tp_size m * e"
    using assms(1) by (auto simp: moe_topology_def e_def)
  have t: "0 \<le> tp_rank m" "tp_rank m < moe_tp_size m * e"
    using coordinates [of m] pos(5) assms(1) by (auto simp: moe_topology_def)
  have "moe_cluster_size m = 1 \<or> moe_ep_size m = 1" using assms(1) by (auto simp: moe_topology_def)
  then have "moe_cluster_rank m * moe_ep_size m + moe_ep_rank m = tp_rank m mod e"
    using pos(4) by (auto simp: moe_cluster_rank_def moe_ep_rank_def e_def)
  moreover have "moe_tp_rank m = tp_rank m div e" by (simp add: moe_tp_rank_def e_def mult.commute)
  ultimately show "tp_rank m = moe_tp_rank m * e + (moe_cluster_rank m * moe_ep_size m + moe_ep_rank m)"
      "0 \<le> moe_cluster_rank m * moe_ep_size m + moe_ep_rank m" "moe_cluster_rank m * moe_ep_size m + moe_ep_rank m < e"
      "0 \<le> moe_tp_rank m" "moe_tp_rank m < moe_tp_size m"
    using pos t by (simp_all add: pos_imp_zdiv_nonneg_iff div_less_iff)
  show "0 \<le> moe_cluster_rank m" "moe_cluster_rank m < moe_cluster_size m" "0 \<le> moe_ep_rank m" "moe_ep_rank m < moe_ep_size m"
    using pos by (simp_all add: moe_cluster_rank_def moe_ep_rank_def)
qed

lemma moe_rank:
  assumes "moe_topology m"
  shows "rank m = pp_rank m * moe_tp_cluster_ep_size m + tp_rank m" "0 \<le> pp_rank m" "pp_rank m < pp_size m"
    "moe_tp_cluster_ep_size m = moe_tp_size m * (moe_cluster_size m * moe_ep_size m)"
  using coordinates [of m] assms by (auto simp: moe_topology_def cp_rank_def)

lemma moe_tp_group_place:
  assumes "moe_topology m"
  shows "at_place (rank m) (moe_tp_rank m) (moe_tp_group m) (moe_tp_size m)"
proof -
  note c = moe_coordinates [OF assms] and r = moe_rank [OF assms]
  let ?e = "moe_cluster_size m * moe_ep_size m" and ?j = "moe_cluster_rank m * moe_ep_size m + moe_ep_rank m"
  have pos: "0 < ?e" using assms by (simp add: moe_topology_def)
  have "moe_tp_group m = py_nth (moe_tp_groups m) (pp_rank m * ?e + ?j)" by (simp add: moe_tp_group_def algebra_simps)
  also have "\<dots> = Inr (range_step (pp_rank m * moe_tp_cluster_ep_size m + ?j) ((pp_rank m + 1) * moe_tp_cluster_ep_size m) ?e)"
    unfolding moe_tp_groups_def by (rule py_nth_grid [OF r(2,3) c(2,3)])
  finally have eq: "moe_tp_group m = \<dots>" .
  show ?thesis unfolding eq
    by (rule at_place_range) (use c(1-5) r pos in \<open>auto simp: algebra_simps\<close>)
qed

lemma moe_cluster_group_place:
  assumes "moe_topology m"
  shows "at_place (rank m) (moe_cluster_rank m * moe_ep_size m + moe_ep_rank m) (moe_cluster_group m)
    (moe_cluster_size m * moe_ep_size m)"
proof -
  note c = moe_coordinates [OF assms] and r = moe_rank [OF assms]
  have eq: "moe_cluster_group m = Inr (range_step (pp_rank m * moe_tp_cluster_ep_size m + moe_tp_rank m * moe_cluster_size m * moe_ep_size m)
      (pp_rank m * moe_tp_cluster_ep_size m + (moe_tp_rank m + 1) * moe_cluster_size m * moe_ep_size m) 1)"
    unfolding moe_cluster_group_def moe_cluster_groups_def by (rule py_nth_grid [OF r(2,3) c(4,5)])
  show ?thesis unfolding eq
    by (rule at_place_range) (use c(1-5) r in \<open>auto simp: algebra_simps\<close>)
qed

lemma moe_ep_group_place:
  assumes "moe_topology m"
  shows "at_place (rank m) (moe_ep_rank m) (moe_ep_group m) (moe_ep_size m)"
proof -
  note c = moe_coordinates [OF assms] and r = moe_rank [OF assms]
  let ?F = "\<lambda>i j k. range_step (i * moe_tp_cluster_ep_size m + j * moe_cluster_size m * moe_ep_size m + k * moe_ep_size m)
      (i * moe_tp_cluster_ep_size m + j * moe_cluster_size m * moe_ep_size m + (k + 1) * moe_ep_size m) 1"
  let ?G = "\<lambda>i. concat (map (\<lambda>j. map (?F i j) (py_range (moe_cluster_size m))) (py_range (moe_tp_size m)))"
  let ?q = "moe_tp_rank m * moe_cluster_size m + moe_cluster_rank m"
  have pos: "0 < moe_tp_size m" "0 < moe_cluster_size m" using assms by (auto simp: moe_topology_def)
  have "length (?G i) = nat (moe_tp_size m) * nat (moe_cluster_size m)" for i by (rule length_row) simp
  then have len: "\<forall>i. length (?G i) = nat (moe_tp_size m * moe_cluster_size m)" using pos by (simp add: nat_mult_distrib)
  have "(moe_tp_rank m + 1) * moe_cluster_size m \<le> moe_tp_size m * moe_cluster_size m"
    using c(5) pos by (intro mult_right_mono) auto
  then have q: "0 \<le> ?q" "?q < moe_tp_size m * moe_cluster_size m" using c(4,6,7) pos by (auto simp: algebra_simps)
  have "moe_ep_group m = py_nth (concat (map ?G (py_range (pp_size m)))) (pp_rank m * (moe_tp_size m * moe_cluster_size m) + ?q)"
    by (simp add: moe_ep_group_def moe_ep_groups_def algebra_simps)
  also have "\<dots> = py_nth (?G (pp_rank m)) ?q" by (rule py_nth_concat [OF len r(2,3) q])
  also have "\<dots> = Inr (?F (pp_rank m) (moe_tp_rank m) (moe_cluster_rank m))" by (rule py_nth_grid [OF c(4-7)])
  finally have eq: "moe_ep_group m = \<dots>" .
  show ?thesis unfolding eq
    by (rule at_place_range) (use c r in \<open>auto simp: algebra_simps\<close>)
qed

section \<open>Layers of a pipeline stage\<close>

text \<open>The documented behaviour of \<open>torch.split\<close> with a list of sizes and of \<open>torch.tensor_split\<close>.\<close>

definition section_sizes :: "int \<Rightarrow> int \<Rightarrow> int list" where
  "section_sizes k n = map (\<lambda>i. n div k + (if int i < n mod k then 1 else 0)) [0..<nat k]"

definition splits_by_sizes :: "torch_split \<Rightarrow> bool" where
  "splits_by_sizes ops \<longleftrightarrow> (\<forall>ns xs. (\<forall>n \<in> set ns. 0 \<le> n) \<and> sum_list ns = int (length xs) \<longrightarrow>
     (\<exists>ps. split_sizes ops ns xs = Inr ps \<and> concat ps = xs \<and> map (\<lambda>p. int (length p)) ps = ns))"

definition splits_by_sections :: "torch_split \<Rightarrow> bool" where
  "splits_by_sections ops \<longleftrightarrow> (\<forall>k xs. 0 < k \<longrightarrow>
     concat (split_sections ops k xs) = xs \<and> map (\<lambda>p. int (length p)) (split_sections ops k xs) = section_sizes k (int (length xs)))"

text \<open>Part \<open>i\<close> of parts with the sizes \<open>ns\<close> has the number \<open>l\<close>.\<close>

definition in_part :: "int \<Rightarrow> int list \<Rightarrow> nat \<Rightarrow> bool" where
  "in_part l ns i \<longleftrightarrow> sum_list (take i ns) \<le> l \<and> l < sum_list (take (Suc i) ns)"

lemma sum_take_mono:
  assumes "\<forall>n \<in> set ns. 0 \<le> (n :: int)" "i \<le> j"
  shows "sum_list (take i ns) \<le> sum_list (take j ns)"
proof -
  have "take j ns = take i ns @ take (j - i) (drop i ns)" using assms(2) by (metis le_add_diff_inverse take_add)
  moreover have "0 \<le> sum_list (take (j - i) (drop i ns))" using assms(1) by (intro sum_list_nonneg) (auto dest: in_set_takeD in_set_dropD)
  ultimately show ?thesis by simp
qed

lemma in_part_unique:
  assumes "\<forall>n \<in> set ns. 0 \<le> n" "in_part l ns i" "in_part l ns j"
  shows "i = j"
proof (rule ccontr)
  assume "i \<noteq> j"
  then have "Suc i \<le> j \<or> Suc j \<le> i" by auto
  then show False using sum_take_mono [OF assms(1), of "Suc i" j] sum_take_mono [OF assms(1), of "Suc j" i] assms(2,3) by (auto simp: in_part_def)
qed

lemma part_members:
  assumes "concat ps = py_range n" "r < length ps"
  shows "set (ps ! r) = {l. in_part l (map (\<lambda>p. int (length p)) ps) r}"
proof -
  let ?s = "length (concat (take r ps))"
  have eq: "py_range n = concat (take r ps) @ ps ! r @ concat (drop (Suc r) ps)"
    using assms by (metis concat.simps(2) concat_append id_take_nth_drop)
  have "length (py_range n) = ?s + (length (ps ! r) + length (concat (drop (Suc r) ps)))"
    using arg_cong [OF eq, of length] by (simp only: length_append)
  then have le: "?s + length (ps ! r) \<le> nat n" unfolding length_py_range by linarith
  have "take (length (ps ! r)) (drop ?s (py_range n)) = ps ! r" unfolding eq by simp
  moreover have "take (length (ps ! r)) (drop ?s (py_range n)) = map int [?s..<?s + length (ps ! r)]"
    using le by (simp add: py_range_map drop_map take_map drop_upt take_upt)
  ultimately have set: "set (ps ! r) = int ` {?s..<?s + length (ps ! r)}" by (metis set_map set_upt)
  have sum: "int (length (concat xs)) = sum_list (map (\<lambda>p. int (length p)) xs)" for xs :: "int list list" by (induction xs) auto
  have parts: "sum_list (take r (map (\<lambda>p. int (length p)) ps)) = int ?s"
      "sum_list (take (Suc r) (map (\<lambda>p. int (length p)) ps)) = int (?s + length (ps ! r))"
    using assms(2) unfolding sum take_map by (simp_all add: take_Suc_conv_app_nth sum [symmetric] del: length_concat)
  show ?thesis unfolding set in_part_def parts image_int_atLeastLessThan by auto
qed

lemma rank_by_partition_ok:
  "e \<le> l \<Longrightarrow> l < e + sum_list ns \<Longrightarrow> \<exists>i < length ns. rank_by_partition l e r ns = Inr (r + int i) \<and> in_part (l - e) ns i"
proof (induction ns arbitrary: e r)
  case (Cons n ns)
  show ?case
  proof (cases "l < e + n")
    case True
    then show ?thesis using Cons.prems by (intro exI [of _ 0]) (simp add: in_part_def)
  next
    case False
    then obtain i where "i < length ns" "rank_by_partition l (e + n) (r + 1) ns = Inr (r + 1 + int i)" "in_part (l - (e + n)) ns i"
      using Cons.IH [of "e + n" "r + 1"] Cons.prems by auto
    then show ?thesis using False by (intro exI [of _ "Suc i"]) (auto simp: in_part_def algebra_simps)
  qed
qed simp

lemma sum_take_sections:
  assumes "0 < k" "0 \<le> n"
  shows "int i \<le> k \<Longrightarrow> sum_list (take i (section_sizes k n)) = int i * (n div k) + min (int i) (n mod k)"
proof (induction i)
  case 0
  then show ?case using assms by simp
next
  case (Suc i)
  then have "i < nat k" by simp
  then have "take (Suc i) (section_sizes k n) = take i (section_sizes k n) @ [n div k + (if int i < n mod k then 1 else 0)]"
    by (simp add: section_sizes_def take_Suc_conv_app_nth)
  then show ?case using Suc by (auto simp: algebra_simps)
qed

lemma section_sizes_nonneg: "0 < k \<Longrightarrow> 0 \<le> n \<Longrightarrow> \<forall>x \<in> set (section_sizes k n). 0 \<le> x"
  by (auto simp: section_sizes_def pos_imp_zdiv_nonneg_iff)

definition section_rank :: "int \<Rightarrow> int \<Rightarrow> int \<Rightarrow> int" where
  "section_rank k n l =
     (let base = n div k; rem = n mod k in
      if base = 0 then l
      else let cutoff = (base + 1) * rem in
        if l < cutoff then l div (base + 1) else rem + (l - cutoff) div base)"

lemma section_rank_ok:
  assumes "0 < k" "0 \<le> l" "l < n"
  shows "0 \<le> section_rank k n l \<and> section_rank k n l < k \<and> in_part l (section_sizes k n) (nat (section_rank k n l))"
proof -
  define base rem q where "base = n div k" and "rem = n mod k" and "q = section_rank k n l"
  have n: "n = k * base + rem" "0 \<le> rem" "rem < k" "0 \<le> base" "0 \<le> n"
    using assms by (auto simp: base_def rem_def pos_imp_zdiv_nonneg_iff)
  have "0 \<le> q \<and> q < k \<and> q * base + min q rem \<le> l \<and> l < (q + 1) * base + min (q + 1) rem"
  proof (cases "base = 0")
    case True
    then have "q = l" by (simp add: q_def section_rank_def base_def)
    then show ?thesis using True n assms by auto
  next
    case False
    then have pos: "0 < base" using n(4) by simp
    show ?thesis
    proof (cases "l < (base + 1) * rem")
      case True
      then have q: "q = l div (base + 1)" using False by (simp add: q_def section_rank_def base_def rem_def Let_def)
      have "q < rem" using True pos by (simp add: q div_less_iff mult.commute)
      moreover have "q * (base + 1) \<le> l" "l < (q + 1) * (base + 1)"
        using div_le_iff [of "base + 1" q l] div_less_iff [of "base + 1" l "q + 1"] pos by (simp_all add: q)
      moreover have "0 \<le> q" using pos assms by (simp add: q pos_imp_zdiv_nonneg_iff)
      ultimately show ?thesis using n by (simp add: algebra_simps)
    next
      case F: False
      define d where "d = (l - (base + 1) * rem) div base"
      have q: "q = rem + d" using False F by (simp add: q_def section_rank_def base_def rem_def Let_def d_def)
      have d: "d * base \<le> l - (base + 1) * rem" "l - (base + 1) * rem < (d + 1) * base" "0 \<le> d"
        using div_le_iff [OF pos, of d "l - (base + 1) * rem"] div_less_iff [OF pos, of "l - (base + 1) * rem" "d + 1"] F pos
        by (simp_all add: d_def pos_imp_zdiv_nonneg_iff)
      have "d < k - rem" unfolding d_def div_less_iff [OF pos] using n(1) assms(3) by (simp add: algebra_simps)
      then show ?thesis using q d n by (simp add: algebra_simps)
    qed
  qed
  then show ?thesis
    using sum_take_sections [OF assms(1) n(5), of "nat q"] sum_take_sections [OF assms(1) n(5), of "Suc (nat q)"]
    by (simp add: in_part_def q_def [symmetric] base_def [symmetric] rem_def [symmetric] add.commute)
qed

text \<open>The sizes of the stages, and that a partition given by the user fits.\<close>

definition stage_sizes :: "mapping \<Rightarrow> int \<Rightarrow> int list" where
  "stage_sizes m n = (case pp_partition m of None \<Rightarrow> section_sizes (pp_size m) n | Some ns \<Rightarrow> ns)"

definition partition_fits :: "mapping \<Rightarrow> int \<Rightarrow> bool" where
  "partition_fits m n =
     (case pp_partition m of None \<Rightarrow> True
      | Some ns \<Rightarrow> int (length ns) = pp_size m \<and> sum_list ns = n \<and> list_all (\<lambda>x. 0 \<le> x) ns)"

lemma stage_sizes_nonneg:
  "0 < pp_size m \<Longrightarrow> 0 \<le> n \<Longrightarrow> partition_fits m n \<Longrightarrow> \<forall>x \<in> set (stage_sizes m n). 0 \<le> x"
  using section_sizes_nonneg by (auto simp: stage_sizes_def partition_fits_def list_all_iff split: option.splits)

lemma pp_layers_members:
  assumes "topology m" "splits_by_sizes ops" "splits_by_sections ops" "0 \<le> n" "partition_fits m n"
  shows "\<exists>ls. pp_layers ops m n = Inr ls \<and> set ls = {l. in_part l (stage_sizes m n) (nat (pp_rank m))}"
proof -
  note c = coordinates [OF assms(1)]
  have pos: "0 < pp_size m" using assms(1) by (simp add: topology_def)
  obtain ps where ps: "concat ps = py_range n" "map (\<lambda>p. int (length p)) ps = stage_sizes m n" "int (length ps) = pp_size m"
    and run: "pp_layers ops m n = py_nth ps (pp_rank m)"
  proof (cases "pp_partition m")
    case None
    then have "concat (split_sections ops (pp_size m) (py_range n)) = py_range n"
        "map (\<lambda>p. int (length p)) (split_sections ops (pp_size m) (py_range n)) = stage_sizes m n"
      using assms(3,4) pos by (auto simp: splits_by_sections_def stage_sizes_def)
    moreover from arg_cong [OF this(2), of length]
    have "int (length (split_sections ops (pp_size m) (py_range n))) = pp_size m" using None pos by (simp add: stage_sizes_def section_sizes_def)
    ultimately show ?thesis using that None by (simp add: pp_layers_def)
  next
    case (Some ns)
    then have fits: "int (length ns) = pp_size m" "sum_list ns = n" "\<forall>x \<in> set ns. 0 \<le> x"
      using assms(5) by (auto simp: partition_fits_def list_all_iff)
    then obtain ps where ps: "split_sizes ops ns (py_range n) = Inr ps" "concat ps = py_range n" "map (\<lambda>p. int (length p)) ps = ns"
      using assms(2,4) unfolding splits_by_sizes_def by (metis int_nat_eq length_py_range)
    then have "length ps = length ns" by (metis length_map)
    then show ?thesis using that [of ps] ps Some fits by (simp add: pp_layers_def check_partition_def stage_sizes_def)
  qed
  have "nat (pp_rank m) < length ps" using c(3,4) ps(3) by simp
  then show ?thesis using run ps(1,2) part_members [of ps n "nat (pp_rank m)"] c(3) py_nth_nat [of "nat (pp_rank m)" ps] by auto
qed

lemma pp_rank_of_layer_ok:
  assumes "topology m" "0 \<le> l" "l < n" "partition_fits m n"
  shows "\<exists>r. pp_rank_of_layer m l n = Inr r \<and> 0 \<le> r \<and> r < pp_size m \<and> in_part l (stage_sizes m n) (nat r)"
proof -
  have pos: "0 < pp_size m" using assms(1) by (simp add: topology_def)
  show ?thesis
  proof (cases "pp_partition m")
    case None
    have ok: "0 \<le> section_rank (pp_size m) n l \<and> section_rank (pp_size m) n l < pp_size m \<and>
        in_part l (section_sizes (pp_size m) n) (nat (section_rank (pp_size m) n l))"
      by (rule section_rank_ok [OF pos assms(2,3)])
    then have "pp_rank_of_layer m l n = Inr (section_rank (pp_size m) n l)"
      using assms(2,3) None pos by (auto simp: pp_rank_of_layer_def section_rank_def Let_def)
    then show ?thesis using ok None by (simp add: stage_sizes_def)
  next
    case (Some ns)
    then have fits: "int (length ns) = pp_size m" "sum_list ns = n" using assms(4) by (auto simp: partition_fits_def)
    obtain i where i: "i < length ns" "rank_by_partition l 0 0 ns = Inr (int i)" "in_part l ns i"
      using rank_by_partition_ok [of 0 l ns 0] assms(2,3) fits by auto
    have "pp_rank_of_layer m l n = Inr (int i)"
      using i fits Some assms(2,3) by (auto simp: pp_rank_of_layer_def check_partition_def)
    then show ?thesis using i fits Some by (simp add: stage_sizes_def)
  qed
qed

section \<open>Constructing a mapping again\<close>

lemma upper_idem [simp]: "upper (upper s) = upper s"
  by (auto simp: upper_def upper_char_def)

lemma normalize_again:
  assumes "normalize_cp_config cfg0 = Inr cfg"
  defines "d \<equiv> case cfg of None \<Rightarrow> [] | Some d \<Rightarrow> d"
  shows "normalize_cp_config (Some d) = Inr (Some d)" "cp_type_of (Some d) = cp_type_of cfg"
proof -
  have "normalize_cp_config (Some d) = Inr (Some d) \<and> cp_type_of (Some d) = cp_type_of cfg"
  proof (cases cfg0)
    case None
    then show ?thesis using assms by (simp add: normalize_cp_config_def cp_type_of_def)
  next
    case (Some d0)
    show ?thesis
    proof (cases "map_of d0 ''cp_type''")
      case None
      then show ?thesis using assms Some by (auto simp: normalize_cp_config_def cp_type_of_def)
    next
      case v: (Some v)
      show ?thesis
        using assms Some v by (cases v) (auto simp: normalize_cp_config_def cp_type_of_def update_conv' update_triv split: if_splits)
    qed
  qed
  then show "normalize_cp_config (Some d) = Inr (Some d)" "cp_type_of (Some d) = cp_type_of cfg" by auto
qed

lemma moe_sizes_again:
  assumes "moe_sizes dw w (if cl = -1 then 1 else cl) tp ep = Inr (mtp, mep, mcl)"
  shows "moe_sizes dw w (if mcl = -1 then 1 else mcl) mtp mep = Inr (mtp, mep, mcl)"
  using assms by (auto simp: moe_sizes_def floordiv_def rbind_eq_Inr split: if_splits)

lemma attn_sizes_again:
  assumes "attn_sizes u tp cp atp0 acp0 = Inr (atp, acp)" "0 < tp" "0 < cp"
  shows "attn_sizes u tp cp atp acp = Inr (atp, acp)"
  using assms by (auto simp: attn_sizes_def floordiv_def rbind_eq_Inr split: if_splits)

section \<open>Neighbours\<close>

lemma div_mod_unique:
  fixes p i T :: int
  assumes "0 \<le> i" "i < T"
  shows "(p * T + i) div T = p" "(p * T + i) mod T = i"
  using assms by simp_all

lemma coordinates_unique:
  assumes "rank m = p * (tp_size m * cp_size m) + (t * cp_size m + c)"
    "0 \<le> t" "t < tp_size m" "0 \<le> c" "c < cp_size m"
  shows "pp_rank m = p \<and> tp_rank m = t \<and> cp_rank m = c"
proof -
  have "(t + 1) * cp_size m \<le> tp_size m * cp_size m" using assms(3-5) by (intro mult_right_mono) auto
  then have i: "0 \<le> t * cp_size m + c" "t * cp_size m + c < tp_size m * cp_size m" using assms(2-5) by (auto simp: algebra_simps)
  have "rank m div (tp_size m * cp_size m) = p" "rank m mod (tp_size m * cp_size m) = t * cp_size m + c"
    unfolding assms(1) by (rule div_mod_unique [OF i])+
  moreover have "cp_rank m = c"
  proof -
    have "rank m = c + (p * tp_size m + t) * cp_size m" unfolding assms(1) by (simp add: algebra_simps)
    then show ?thesis using assms(4,5) by (simp add: cp_rank_def)
  qed
  ultimately show ?thesis using assms(4,5) by (simp add: pp_rank_def tp_rank_def)
qed

lemma next_mod: "0 \<le> p \<Longrightarrow> p < n \<Longrightarrow> (p + 1) mod n = (if p = n - 1 then 0 else p + 1)" for p n :: int
  by auto

lemma next_pp_rank_ok:
  assumes "topology m"
  defines "m' \<equiv> m\<lparr>rank := next_pp_rank m\<rparr>"
  shows "topology m' \<and> pp_rank m' = (pp_rank m + 1) mod pp_size m \<and> tp_rank m' = tp_rank m \<and> cp_rank m' = cp_rank m \<and> prev_pp_rank m' = rank m"
proof -
  note c = coordinates [OF assms(1)]
  define T where "T = tp_size m * cp_size m"
  have pos: "0 < T" "world_size m = pp_size m * T" "0 \<le> rank m" "rank m < world_size m"
    using assms(1) by (auto simp: topology_def T_def)
  define i where "i = tp_rank m * cp_size m + cp_rank m"
  have i: "0 \<le> i" "i < T" unfolding i_def T_def c(2) [symmetric] using pos(1) by (simp_all add: T_def)
  have r: "rank m = pp_rank m * T + i" using c(1) by (simp add: T_def i_def)
  have wrap: "rank m + T \<ge> world_size m \<longleftrightarrow> pp_rank m = pp_size m - 1"
  proof
    assume "rank m + T \<ge> world_size m"
    then have "pp_size m * T < (pp_rank m + 2) * T" using i(2) by (simp add: pos(2) r algebra_simps)
    then show "pp_rank m = pp_size m - 1" using c(4) pos(1) by (simp add: mult_less_cancel_right)
  next
    assume "pp_rank m = pp_size m - 1"
    then have "pp_size m = pp_rank m + 1" by simp
    then show "rank m + T \<ge> world_size m" using i(1) unfolding pos(2) r by (simp add: distrib_right)
  qed
  have "pp_size m = pp_rank m + 1 \<Longrightarrow> world_size m = pp_rank m * T + T" unfolding pos(2) by (simp only: distrib_right mult_1)
  then have nxt: "next_pp_rank m = (pp_rank m + 1) mod pp_size m * T + i"
    unfolding next_pp_rank_def Let_def next_mod [OF c(3,4)] T_def [symmetric] wrap using r by (auto simp: distrib_right)
  have "pp_rank m' = (pp_rank m + 1) mod pp_size m \<and> tp_rank m' = tp_rank m \<and> cp_rank m' = cp_rank m"
    by (rule coordinates_unique) (use c(5-8) nxt in \<open>simp_all add: m'_def T_def i_def\<close>)
  moreover have "1 * T \<le> pp_size m * T" using c(3,4) pos(1) by (intro mult_right_mono) auto
  then have le: "T \<le> world_size m" by (simp add: pos(2))
  then have "0 \<le> next_pp_rank m" "next_pp_rank m < world_size m"
    using pos(1,3,4) by (auto simp: next_pp_rank_def Let_def T_def [symmetric] not_le)
  moreover have "prev_pp_rank m' = rank m"
    using pos(1,3,4) by (auto simp: prev_pp_rank_def next_pp_rank_def m'_def Let_def T_def [symmetric])
  ultimately show ?thesis using assms(1) by (simp add: topology_def m'_def)
qed

lemma next_cp_rank_ok:
  assumes "topology m"
  defines "m' \<equiv> m\<lparr>rank := next_cp_rank m\<rparr>"
  shows "topology m' \<and> cp_rank m' = (cp_rank m + 1) mod cp_size m \<and> tp_rank m' = tp_rank m \<and> pp_rank m' = pp_rank m \<and> prev_cp_rank m' = rank m"
proof -
  note c = coordinates [OF assms(1)]
  have pos: "0 < cp_size m" using assms(1) by (simp add: topology_def)
  let ?c = "(cp_rank m + 1) mod cp_size m"
  have cb: "0 \<le> ?c" "?c < cp_size m" using pos by simp_all
  have nxt: "next_cp_rank m = pp_rank m * (tp_size m * cp_size m) + (tp_rank m * cp_size m + ?c)"
    using c(1) unfolding next_cp_rank_def next_mod [OF c(7,8)] by auto
  have co: "pp_rank m' = pp_rank m \<and> tp_rank m' = tp_rank m \<and> cp_rank m' = ?c"
    by (rule coordinates_unique) (use c(5,6) cb nxt in \<open>simp_all add: m'_def\<close>)
  have "(tp_rank m + 1) * cp_size m \<le> tp_size m * cp_size m" "(pp_rank m + 1) * (tp_size m * cp_size m) \<le> pp_size m * (tp_size m * cp_size m)"
    using c(4,6) pos assms(1) by (auto intro!: mult_right_mono simp: topology_def)
  moreover have "0 \<le> pp_rank m * (tp_size m * cp_size m)" "0 \<le> tp_rank m * cp_size m" using c(3,5) assms(1) by (auto simp: topology_def)
  ultimately have "0 \<le> next_cp_rank m" "next_cp_rank m < pp_size m * (tp_size m * cp_size m)"
    unfolding nxt using cb by (auto simp: algebra_simps)
  then have "topology m'" using assms(1) by (simp add: topology_def m'_def ac_simps)
  moreover have "prev_cp_rank m' = rank m"
    using co c(7) next_mod [OF c(7,8)] by (auto simp: prev_cp_rank_def m'_def next_cp_rank_def split: if_splits)
  ultimately show ?thesis using co by simp
qed

lemma part_in_range:
  assumes "topology m" "0 \<le> n" "partition_fits m n" "in_part l (stage_sizes m n) i"
  shows "0 \<le> l \<and> l < n"
proof -
  have pos: "0 < pp_size m" using assms(1) by (simp add: topology_def)
  have nn: "\<forall>x \<in> set (stage_sizes m n). 0 \<le> x" using stage_sizes_nonneg assms(2,3) pos by simp
  have len: "int (length (stage_sizes m n)) = pp_size m"
    using pos assms(3) by (auto simp: stage_sizes_def section_sizes_def partition_fits_def split: option.splits)
  have "sum_list (stage_sizes m n) = n"
  proof (cases "pp_partition m")
    case None
    then have "sum_list (take (nat (pp_size m)) (stage_sizes m n)) = pp_size m * (n div pp_size m) + min (pp_size m) (n mod pp_size m)"
      using sum_take_sections [OF pos assms(2), of "nat (pp_size m)"] pos by (simp add: stage_sizes_def)
    moreover have "min (pp_size m) (n mod pp_size m) = n mod pp_size m" using pos_mod_bound [OF pos, of n] by (simp add: min_def)
    ultimately show ?thesis using len by simp
  qed (use assms(3) in \<open>auto simp: stage_sizes_def partition_fits_def\<close>)
  moreover have "0 \<le> sum_list (take i (stage_sizes m n))" using sum_take_mono [OF nn, of 0 i] by simp
  moreover have "sum_list (take (Suc i) (stage_sizes m n)) \<le> sum_list (stage_sizes m n)"
    using sum_take_mono [OF nn, of "Suc i" "max (Suc i) (length (stage_sizes m n))"] by simp
  ultimately show ?thesis using assms(4) by (simp add: in_part_def)
qed

lemma set_range_one: "set (range_step a b 1) = {a..<b}"
proof (cases "a \<le> b")
  case True
  have "e \<in> (\<lambda>i. a + int i) ` {0..<nat (b - a)}" if "a \<le> e" "e < b" for e
    using that by (intro image_eqI [of _ _ "nat (e - a)"]) auto
  then show ?thesis using True by (auto simp: range_step_one)
qed (simp add: range_step_def)

lemma share_of_rank:
  fixes r p k :: int
  assumes "0 \<le> r" "r < p" "0 \<le> k"
  shows "r * k \<le> e \<and> e < (r + 1) * k \<longleftrightarrow> 0 \<le> e \<and> e < p * k \<and> e div k = r"
proof (cases "k = 0")
  case False
  then have k: "0 < k" using assms(3) by simp
  have "e div k = r \<longleftrightarrow> r * k \<le> e \<and> e < (r + 1) * k"
    using div_le_iff [OF k, of r e] div_less_iff [OF k, of e "r + 1"] by auto
  moreover have "0 \<le> r * k" "(r + 1) * k \<le> p * k" using assms by (auto intro!: mult_right_mono)
  ultimately show ?thesis by auto
qed auto

section \<open>Properties\<close>

text \<open>
  C11. The ranks of a mapping are the triples of a pipeline stage, a tensor rank and a context rank: the rank is made of its
  three coordinates, stands in its tensor, pipeline and context group at its coordinate, every group of a
  kind has the size of that kind, and the groups of each kind have every rank of the world exactly once.
\<close>

theorem parallel_groups_correct:
  assumes "mapping_init a = Inr m" "0 < tp_size a" "0 < pp_size a" "0 < cp_size a" "0 \<le> rank a" "rank a < world_size a"
  shows "rank m = pp_rank m * tp_size m * cp_size m + tp_rank m * cp_size m + cp_rank m \<and>
    at_place (rank m) (tp_rank m) (tp_group m) (tp_size m) \<and>
    at_place (rank m) (pp_rank m) (pp_group m) (pp_size m) \<and>
    at_place (rank m) (cp_rank m) (cp_group m) (cp_size m) \<and>
    divides_world m (tp_groups m) \<and> divides_world m (pp_groups m) \<and> divides_world m (cp_groups m)"
proof -
  have t: "topology m" by (rule mapping_init_topology [OF assms])
  show ?thesis
    using coordinates(1) [OF t] tp_group_place [OF t] pp_group_place [OF t] cp_group_place [OF t]
      tp_groups_divide [OF t] pp_groups_divide [OF t] cp_groups_divide [OF t]
    by (simp add: ac_simps)
qed

definition example_args :: mapping_args where
  "example_args = default_args\<lparr>world_size := 8, rank := 5, tp_size := 2, pp_size := 2, cp_size := 2,
     cp_config := Some [(''cp_type'', CpText ''helix'')]\<rparr>"

theorem parallel_groups_correct_witness:
  "\<exists>m. mapping_init example_args = Inr m \<and> tp_group m = Inr [5, 7] \<and> tp_rank m = 0 \<and> at_place 5 0 (tp_group m) 2 \<and>
     divides_world m (tp_groups m)"
proof -
  have "\<not> isl (mapping_init example_args)" by code_simp
  then obtain m where m: "mapping_init example_args = Inr m" by (cases "mapping_init example_args") auto
  have "map_sum id (\<lambda>m. (rank m, tp_rank m, tp_size m, tp_group m)) (mapping_init example_args) = Inr (5, 0, 2, Inr [5, 7])" by code_simp
  then have "rank m = 5" "tp_rank m = 0" "tp_size m = 2" "tp_group m = Inr [5, 7]" by (simp_all add: m)
  moreover have "0 < tp_size example_args" "0 < pp_size example_args" "0 < cp_size example_args" "0 \<le> rank example_args"
      "rank example_args < world_size example_args"
    by (simp_all add: example_args_def)
  ultimately show ?thesis using parallel_groups_correct [OF m] m by auto
qed

text \<open>
  The neighbours in the pipeline and in the ring of context parallelism: the next rank differs only in its stage (context
  rank), which is the next one modulo their number, and going back from it leads to where one came from.
\<close>

theorem neighbours_correct:
  assumes "mapping_init a = Inr m" "0 < tp_size a" "0 < pp_size a" "0 < cp_size a" "0 \<le> rank a" "rank a < world_size a"
  defines "p \<equiv> m\<lparr>rank := next_pp_rank m\<rparr>" and "c \<equiv> m\<lparr>rank := next_cp_rank m\<rparr>"
  shows "pp_rank p = (pp_rank m + 1) mod pp_size m \<and> tp_rank p = tp_rank m \<and> cp_rank p = cp_rank m \<and> prev_pp_rank p = rank m \<and>
    cp_rank c = (cp_rank m + 1) mod cp_size m \<and> tp_rank c = tp_rank m \<and> pp_rank c = pp_rank m \<and> prev_cp_rank c = rank m"
  using next_pp_rank_ok [OF mapping_init_topology [OF assms(1-6)]] next_cp_rank_ok [OF mapping_init_topology [OF assms(1-6)]]
  by (simp add: p_def c_def)

theorem neighbours_correct_witness:
  "\<exists>m. mapping_init example_args = Inr m \<and> next_pp_rank m = 1 \<and> pp_rank (m\<lparr>rank := 1\<rparr>) = (pp_rank m + 1) mod pp_size m \<and>
     prev_pp_rank (m\<lparr>rank := 1\<rparr>) = rank m"
proof -
  have "\<not> isl (mapping_init example_args)" by code_simp
  then obtain m where m: "mapping_init example_args = Inr m" by (cases "mapping_init example_args") auto
  have "map_sum id next_pp_rank (mapping_init example_args) = Inr 1" by code_simp
  then have "next_pp_rank m = 1" by (simp add: m)
  moreover have "0 < tp_size example_args" "0 < pp_size example_args" "0 < cp_size example_args" "0 \<le> rank example_args"
      "rank example_args < world_size example_args"
    by (simp_all add: example_args_def)
  ultimately show ?thesis using neighbours_correct [OF m] m by auto
qed

text \<open>
  C22. Mixture-of-experts layers under Helix parallelism: the context ranks can be made tensor ranks, which
  keeps the rank and its stage; then the rank stands in its groups of tensor parallel experts, of clusters and of expert parallelism
  at its place, and each of them has the size it was given.
\<close>

theorem helix_repurposed_correct:
  assumes "mapping_init a = Inr m" "has_cp_helix m" "0 < tp_size a" "0 < pp_size a" "0 \<le> rank a" "rank a < world_size a"
    "dwdp_size a = 0" "0 < moe_tp_size m" "0 < moe_ep_size m" "0 < moe_cluster_size m"
  shows "\<exists>m'. repurpose_helix_cp_to_tp m = Inr m' \<and> rank m' = rank m \<and> pp_rank m' = pp_rank m \<and>
    tp_rank m' = tp_rank m * cp_size m + cp_rank m \<and>
    at_place (rank m) (moe_tp_rank m') (moe_tp_group m') (moe_tp_size m) \<and>
    at_place (rank m) (moe_cluster_rank m' * moe_ep_size m + moe_ep_rank m') (moe_cluster_group m') (moe_cluster_size m * moe_ep_size m) \<and>
    at_place (rank m) (moe_ep_rank m') (moe_ep_group m') (moe_ep_size m)"
proof -
  obtain cfg moe attn where c: "mapping_checks a cfg moe attn" and m: "m = mapping_of a cfg moe attn" by (rule mapping_init_cases [OF assms(1)])
  have cp: "cp_size a > 1" "cp_type_of cfg = CpText ''HELIX''"
    using assms(2) by (auto simp: has_cp_helix_def cp_type_is_def cp_type_of_def m mapping_of_def split: option.splits)
  let ?a = "(mapping_args.truncate m)\<lparr>cp_size := 1, cp_config := Some [], tp_size := tp_size m * cp_size m, attn_tp_size := -1, attn_cp_size := -1\<rparr>"
  let ?m = "mapping_of ?a (Some []) moe (tp_size m * cp_size m, 1)"
  have a: "tp_size ?a = tp_size a * cp_size a" "pp_size ?a = pp_size a" "cp_size ?a = 1" "cp_config ?a = Some []" "rank ?a = rank a"
      "world_size ?a = world_size a" "dwdp_size ?a = 0" "moe_tp_size ?a = fst moe" "moe_ep_size ?a = fst (snd moe)" "moe_cluster_size ?a = snd (snd moe)"
      "attn_tp_size ?a = -1" "attn_cp_size ?a = -1" "enable_attention_dp ?a = enable_attention_dp a"
      "enable_lm_head_tp_in_adp ?a = enable_lm_head_tp_in_adp a"
    using assms(7) by (simp_all add: mapping_args.truncate_def m mapping_of_def)
  have n: "normalize_cp_config (Some []) = Inr (Some [])" "cp_type_of (Some []) = CpText ''ULYSSES''" by (simp_all add: normalize_cp_config_def cp_type_of_def)
  have "moe_sizes 0 (tp_size a * cp_size a) (if moe_cluster_size a = -1 then 1 else moe_cluster_size a) (moe_tp_size a) (moe_ep_size a) =
      Inr (fst moe, fst (snd moe), snd (snd moe))"
    using c cp(2) assms(7) by (simp add: mapping_checks_def Let_def)
  from moe_sizes_again [OF this]
  have "mapping_checks ?a (Some []) moe (tp_size m * cp_size m, 1)"
    using c cp assms(7) unfolding mapping_checks_def Let_def a n by (simp add: attn_sizes_def m mapping_of_def ac_simps)
  then have run: "mapping_init ?a = Inr ?m" using mapping_init_passes [of ?a _ "fst moe" "fst (snd moe)" "snd (snd moe)"] by simp
  then have moe: "moe_topology ?m"
    by (rule mapping_init_moe_topology) (use assms cp a in \<open>simp_all add: m mapping_of_def\<close>)
  have t: "topology m" by (rule mapping_init_topology [OF assms(1)]) (use assms cp in auto)
  have f: "rank ?m = rank m" "tp_size ?m = tp_size m * cp_size m" "cp_size ?m = 1" "moe_tp_size ?m = moe_tp_size m"
      "moe_ep_size ?m = moe_ep_size m" "moe_cluster_size ?m = moe_cluster_size m"
    using a by (simp_all add: m mapping_of_def)
  have "pp_rank ?m = pp_rank m" "tp_rank ?m = tp_rank m * cp_size m + cp_rank m"
    using coordinates(2) [OF t] by (simp_all add: pp_rank_def tp_rank_def [of ?m] f(1-3))
  moreover have "repurpose_helix_cp_to_tp m = Inr ?m" using run assms(2) by (simp add: repurpose_helix_cp_to_tp_def)
  ultimately show ?thesis
    using moe_tp_group_place [OF moe] moe_cluster_group_place [OF moe] moe_ep_group_place [OF moe] unfolding f(1,4-6) using f(1) by blast
qed

definition example_moe_args :: mapping_args where
  "example_moe_args = example_args\<lparr>moe_ep_size := 2\<rparr>"

theorem helix_repurposed_correct_witness:
  "\<exists>m m'. mapping_init example_moe_args = Inr m \<and> repurpose_helix_cp_to_tp m = Inr m' \<and> tp_rank m' = 1 \<and>
     moe_tp_group m' = Inr [5, 7] \<and> moe_ep_group m' = Inr [4, 5] \<and> at_place 5 (moe_ep_rank m') (moe_ep_group m') 2"
proof -
  have "\<not> isl (mapping_init example_moe_args)" by code_simp
  then obtain m where m: "mapping_init example_moe_args = Inr m" by (cases "mapping_init example_moe_args") auto
  have "map_sum id (\<lambda>m. (rank m, has_cp_helix m, moe_tp_size m, moe_ep_size m, moe_cluster_size m)) (mapping_init example_moe_args) =
      Inr (5, True, 2, 2, 1)"
    by code_simp
  then have f: "rank m = 5" "has_cp_helix m" "moe_tp_size m = 2" "moe_ep_size m = 2" "moe_cluster_size m = 1" by (simp_all add: m)
  have "0 < tp_size example_moe_args" "0 < pp_size example_moe_args" "0 \<le> rank example_moe_args"
      "rank example_moe_args < world_size example_moe_args" "dwdp_size example_moe_args = 0"
    by (simp_all add: example_moe_args_def example_args_def default_args_def)
  then obtain m' where m': "repurpose_helix_cp_to_tp m = Inr m'" "at_place 5 (moe_ep_rank m') (moe_ep_group m') 2"
    using helix_repurposed_correct [OF m f(2)] f by auto
  have "map_sum id (\<lambda>m. (tp_rank m, moe_tp_group m, moe_ep_group m)) (rbind (mapping_init example_moe_args) repurpose_helix_cp_to_tp) =
      Inr (1, Inr [5, 7], Inr [4, 5])"
    by code_simp
  then show ?thesis using m m' by (simp add: m)
qed

text \<open>
  Mixture-of-experts layers without context parallelism: the rank stands in its groups of tensor parallel experts, of
  clusters and of expert parallelism at its place. When the experts can be divided evenly, every expert is on exactly one
  rank of a group of expert parallelism.
\<close>

theorem expert_groups_correct:
  assumes "mapping_init a = Inr m" "0 < tp_size a" "0 < pp_size a" "cp_size a = 1" "0 \<le> rank a" "rank a < world_size a"
    "dwdp_size a = 0" "0 < moe_tp_size m" "0 < moe_ep_size m" "0 < moe_cluster_size m" "0 \<le> n" "moe_ep_size m dvd n"
  shows "at_place (rank m) (moe_tp_rank m) (moe_tp_group m) (moe_tp_size m) \<and>
    at_place (rank m) (moe_cluster_rank m * moe_ep_size m + moe_ep_rank m) (moe_cluster_group m) (moe_cluster_size m * moe_ep_size m) \<and>
    at_place (rank m) (moe_ep_rank m) (moe_ep_group m) (moe_ep_size m) \<and>
    (\<exists>es. ep_experts m n = Inr es \<and> (\<forall>e. e \<in> set es \<longleftrightarrow> 0 \<le> e \<and> e < n \<and> e div (n div moe_ep_size m) = moe_ep_rank m))"
proof -
  have moe: "moe_topology m" by (rule mapping_init_moe_topology [OF assms(1-10)])
  note c = moe_coordinates(8,9) [OF moe]
  obtain k where k: "n = moe_ep_size m * k" "0 \<le> k" using assms(9,11,12) by (auto simp: zero_le_mult_iff)
  have "ep_experts m n = Inr (range_step (moe_ep_rank m * k) ((moe_ep_rank m + 1) * k) 1)"
    using moe assms(9) k by (simp add: ep_experts_def floordiv_def moe_topology_def)
  moreover have "e \<in> set (range_step (moe_ep_rank m * k) ((moe_ep_rank m + 1) * k) 1) \<longleftrightarrow>
      0 \<le> e \<and> e < n \<and> e div (n div moe_ep_size m) = moe_ep_rank m" for e
  proof -
    have "set (range_step (moe_ep_rank m * k) ((moe_ep_rank m + 1) * k) 1) = {moe_ep_rank m * k..<(moe_ep_rank m + 1) * k}"
      by (rule set_range_one)
    moreover have "moe_ep_rank m * k \<le> e \<and> e < (moe_ep_rank m + 1) * k \<longleftrightarrow> 0 \<le> e \<and> e < n \<and> e div k = moe_ep_rank m"
      using share_of_rank [OF c k(2)] by (simp add: k(1) mult.commute)
    ultimately show ?thesis using assms(9) by (simp add: k(1))
  qed
  ultimately show ?thesis
    using moe_tp_group_place [OF moe] moe_cluster_group_place [OF moe] moe_ep_group_place [OF moe] by blast
qed

theorem expert_groups_correct_witness:
  "\<exists>m. mapping_init (default_args\<lparr>world_size := 8, rank := 6, tp_size := 8, moe_ep_size := 4\<rparr>) = Inr m \<and>
     moe_tp_group m = Inr [2, 6] \<and> at_place 6 (moe_ep_rank m) (moe_ep_group m) 4 \<and> ep_experts m 16 = Inr [8, 9, 10, 11]"
proof -
  let ?a = "default_args\<lparr>world_size := 8, rank := 6, tp_size := 8, moe_ep_size := 4\<rparr>"
  have "\<not> isl (mapping_init ?a)" by code_simp
  then obtain m where m: "mapping_init ?a = Inr m" by (cases "mapping_init ?a") auto
  have "map_sum id (\<lambda>m. (rank m, moe_tp_size m, moe_ep_size m, moe_cluster_size m, moe_tp_group m, ep_experts m 16)) (mapping_init ?a) =
      Inr (6, 2, 4, 1, Inr [2, 6], Inr [8, 9, 10, 11])"
    by code_simp
  then have f: "rank m = 6" "moe_tp_size m = 2" "moe_ep_size m = 4" "moe_cluster_size m = 1" "moe_tp_group m = Inr [2, 6]"
      "ep_experts m 16 = Inr [8, 9, 10, 11]"
    by (simp_all add: m)
  have "at_place (rank m) (moe_ep_rank m) (moe_ep_group m) (moe_ep_size m)"
    using expert_groups_correct [OF m, of 16] f(2-4) by (simp add: default_args_def)
  then show ?thesis using m f by simp
qed

text \<open>
  C17. The two ways to find out where a layer runs agree: a stage has a layer exactly when the layer is said to belong to that
  stage, for the even division as well as for one that the user gives, and every layer belongs to a stage.
\<close>

theorem pp_layers_correct:
  assumes "mapping_init a = Inr m" "0 < tp_size a" "0 < pp_size a" "0 < cp_size a" "0 \<le> rank a" "rank a < world_size a"
    and "splits_by_sizes ops" "splits_by_sections ops" "0 \<le> n" "partition_fits m n"
  shows "(\<exists>ls. pp_layers ops m n = Inr ls \<and> (\<forall>l. l \<in> set ls \<longleftrightarrow> pp_rank_of_layer m l n = Inr (pp_rank m))) \<and>
    (\<forall>l. 0 \<le> l \<and> l < n \<longrightarrow> (\<exists>r. pp_rank_of_layer m l n = Inr r \<and> 0 \<le> r \<and> r < pp_size m))"
proof -
  have t: "topology m" by (rule mapping_init_topology [OF assms(1-6)])
  have nn: "\<forall>x \<in> set (stage_sizes m n). 0 \<le> x" using stage_sizes_nonneg [of m n] assms(9,10) t by (simp add: topology_def)
  obtain ls where ls: "pp_layers ops m n = Inr ls" "set ls = {l. in_part l (stage_sizes m n) (nat (pp_rank m))}"
    using pp_layers_members [OF t assms(7-10)] by blast
  have "l \<in> set ls \<longleftrightarrow> pp_rank_of_layer m l n = Inr (pp_rank m)" for l
  proof (cases "0 \<le> l \<and> l < n")
    case True
    then obtain r where r: "pp_rank_of_layer m l n = Inr r" "0 \<le> r" "in_part l (stage_sizes m n) (nat r)"
      using pp_rank_of_layer_ok [OF t _ _ assms(10)] by blast
    then have "in_part l (stage_sizes m n) (nat (pp_rank m)) \<longleftrightarrow> nat r = nat (pp_rank m)" 
      using in_part_unique [OF nn r(3), of "nat (pp_rank m)"] r(3) by metis
    also have "\<dots> \<longleftrightarrow> r = pp_rank m" using r(2) coordinates(3) [OF t] by (rule eq_nat_nat_iff)
    finally show ?thesis using r(1) ls(2) by simp
  next
    case False
    then have "l \<notin> set ls" using part_in_range [OF t assms(9,10), of l] ls(2) by blast
    moreover have "pp_rank_of_layer m l n = Inl ValueError" using False by (auto simp: pp_rank_of_layer_def)
    ultimately show ?thesis by simp
  qed
  moreover have "\<exists>r. pp_rank_of_layer m l n = Inr r \<and> 0 \<le> r \<and> r < pp_size m" if "0 \<le> l" "l < n" for l
    using pp_rank_of_layer_ok [OF t that assms(10)] by blast
  ultimately show ?thesis using ls(1) by simp
qed

text \<open>The two operations of torch written out.\<close>

fun cut_at :: "int list \<Rightarrow> int list \<Rightarrow> int list list" where
  "cut_at [] xs = []"
| "cut_at (n # ns) xs = take (nat n) xs # cut_at ns (drop (nat n) xs)"

definition plain_torch :: torch_split where
  "plain_torch = \<lparr>split_sizes = (\<lambda>ns xs. Inr (cut_at ns xs)), split_sections = (\<lambda>k xs. cut_at (section_sizes k (int (length xs))) xs)\<rparr>"

lemma cut_at_ok:
  "\<forall>n \<in> set ns. 0 \<le> n \<Longrightarrow> sum_list ns = int (length xs) \<Longrightarrow> concat (cut_at ns xs) = xs \<and> map (\<lambda>p. int (length p)) (cut_at ns xs) = ns"
proof (induction ns arbitrary: xs)
  case (Cons n ns)
  have "0 \<le> sum_list ns" using Cons.prems(1) by (intro sum_list_nonneg) simp
  then have "n \<le> int (length xs)" "0 \<le> n" using Cons.prems by auto
  then show ?case using Cons.IH [of "drop (nat n) xs"] Cons.prems by auto
qed simp

lemma plain_torch_laws: "splits_by_sizes plain_torch" "splits_by_sections plain_torch"
proof -
  show "splits_by_sizes plain_torch" using cut_at_ok by (simp add: splits_by_sizes_def plain_torch_def)
  have sum: "sum_list (section_sizes k n) = n" if "0 < k" "0 \<le> n" for k n
  proof -
    have "sum_list (take (nat k) (section_sizes k n)) = k * (n div k) + min k (n mod k)"
      using sum_take_sections [OF that, of "nat k"] that by simp
    moreover have "min k (n mod k) = n mod k" using pos_mod_bound [OF that(1), of n] by (simp add: min_def)
    moreover have "length (section_sizes k n) = nat k" by (simp add: section_sizes_def)
    ultimately show ?thesis by simp
  qed
  have "concat (cut_at (section_sizes k (int (length xs))) xs) = xs \<and>
      map (\<lambda>p. int (length p)) (cut_at (section_sizes k (int (length xs))) xs) = section_sizes k (int (length xs))" if "0 < k" for k xs
    by (rule cut_at_ok [OF section_sizes_nonneg [OF that of_nat_0_le_iff] sum [OF that of_nat_0_le_iff]])
  then show "splits_by_sections plain_torch" by (simp add: splits_by_sections_def plain_torch_def)
qed

theorem pp_layers_correct_witness:
  "\<exists>m. mapping_init example_args = Inr m \<and> pp_layers plain_torch m 5 = Inr [3, 4] \<and>
     (\<forall>l. l \<in> set [3, 4] \<longleftrightarrow> pp_rank_of_layer m l 5 = Inr (pp_rank m))"
proof -
  have "\<not> isl (mapping_init example_args)" by code_simp
  then obtain m where m: "mapping_init example_args = Inr m" by (cases "mapping_init example_args") auto
  have "map_sum id (\<lambda>m. (pp_layers plain_torch m 5, partition_fits m 5)) (mapping_init example_args) = Inr (Inr [3, 4], True)" by code_simp
  then have f: "pp_layers plain_torch m 5 = Inr [3, 4]" "partition_fits m 5" by (simp_all add: m)
  have "0 < tp_size example_args" "0 < pp_size example_args" "0 < cp_size example_args" "0 \<le> rank example_args"
      "rank example_args < world_size example_args"
    by (simp_all add: example_args_def)
  then have "\<exists>ls. pp_layers plain_torch m 5 = Inr ls \<and> (\<forall>l. l \<in> set ls \<longleftrightarrow> pp_rank_of_layer m l 5 = Inr (pp_rank m))"
    using pp_layers_correct [OF m, of plain_torch 5] plain_torch_laws f(2) by simp
  then show ?thesis using m f(1) by simp
qed

text \<open>
  C30. Writing a mapping to a dictionary and reading it again gives the same mapping, except that a pipeline partition that the
  user gave is lost: the layers are then divided evenly.
\<close>

theorem to_dict_loses_partition:
  assumes "mapping_init a = Inr m" "0 < tp_size a" "0 < cp_size a"
  shows "from_dict (to_dict m) = Inr (m\<lparr>pp_partition := None\<rparr>)"
proof -
  obtain cfg moe attn where c: "mapping_checks a cfg moe attn" and m: "m = mapping_of a cfg moe attn" by (rule mapping_init_cases [OF assms(1)])
  obtain mtp mep mcl atp acp where t: "moe = (mtp, mep, mcl)" "attn = (atp, acp)" by (metis prod.collapse)
  let ?d = "case cfg of None \<Rightarrow> [] | Some d \<Rightarrow> d" and ?a = "to_dict m"
  have n: "normalize_cp_config (Some ?d) = Inr (Some ?d)" "cp_type_of (Some ?d) = cp_type_of cfg"
    using normalize_again [of "cp_config a" cfg] c by (simp_all add: mapping_checks_def Let_def)
  have a: "world_size ?a = world_size a" "rank ?a = rank a" "cp_size ?a = cp_size a" "cp_config ?a = Some ?d" "tp_size ?a = tp_size a"
      "pp_size ?a = pp_size a" "moe_cluster_size ?a = mcl" "moe_tp_size ?a = mtp" "moe_ep_size ?a = mep" "attn_tp_size ?a = atp" "attn_cp_size ?a = acp"
      "enable_attention_dp ?a = enable_attention_dp a" "enable_lm_head_tp_in_adp ?a = enable_lm_head_tp_in_adp a"
      "dwdp_size ?a = dwdp_size a" "dwdp_rank ?a = dwdp_rank a" "gpus_per_node ?a = gpus_per_node a" "pp_partition ?a = None"
    by (simp_all add: to_dict_def mapping_args.truncate_def m mapping_of_def t)
  note again = moe_sizes_again [of "dwdp_size a" _ "moe_cluster_size a" "moe_tp_size a" "moe_ep_size a" mtp mep mcl]
    attn_sizes_again [of _ "tp_size a" "cp_size a" "attn_tp_size a" "attn_cp_size a" atp acp]
  have "mapping_checks ?a (Some ?d) (mtp, mep, mcl) (atp, acp)"
    using c assms(2,3) again unfolding mapping_checks_def Let_def a n t fst_conv snd_conv by simp
  then have "mapping_init ?a = Inr (mapping_of ?a (Some ?d) (mtp, mep, mcl) (atp, acp))" by (rule mapping_init_passes)
  also have "mapping_of ?a (Some ?d) (mtp, mep, mcl) (atp, acp) = m\<lparr>pp_partition := None\<rparr>"
    unfolding mapping_of_def a by (simp add: m mapping_of_def t)
  finally show ?thesis by (simp add: from_dict_def)
qed

theorem to_dict_loses_partition_witness:
  "\<exists>m m'. mapping_init (default_args\<lparr>world_size := 2, pp_size := 2, pp_partition := Some [1, 3]\<rparr>) = Inr m \<and> from_dict (to_dict m) = Inr m' \<and>
     m' = m\<lparr>pp_partition := None\<rparr> \<and> pp_layers plain_torch m 4 = Inr [0] \<and> pp_layers plain_torch m' 4 = Inr [0, 1]"
proof -
  let ?a = "default_args\<lparr>world_size := 2, pp_size := 2, pp_partition := Some [1, 3]\<rparr>"
  have "\<not> isl (mapping_init ?a)" by code_simp
  then obtain m where m: "mapping_init ?a = Inr m" by (cases "mapping_init ?a") auto
  have "map_sum id (\<lambda>m. (pp_layers plain_torch m 4, pp_layers plain_torch (m\<lparr>pp_partition := None\<rparr>) 4)) (mapping_init ?a) =
      Inr (Inr [0], Inr [0, 1])"
    by code_simp
  moreover have "from_dict (to_dict m) = Inr (m\<lparr>pp_partition := None\<rparr>)"
    by (rule to_dict_loses_partition [OF m]) (simp_all add: default_args_def)
  ultimately show ?thesis using m by simp
qed

text \<open>
  With \<open>ULYSSES\<close> the groups of experts cover only as many ranks of a stage as it has tensor ranks, and are
  numbered as if there were no others: a rank need not be a member of the group it is given.
\<close>

lemma ulysses_rank_outside_its_expert_group:
  "\<exists>m. mapping_init (default_args\<lparr>world_size := 4, rank := 3, tp_size := 2, cp_size := 2\<rparr>) = Inr m \<and> moe_tp_group m = Inr [0, 1]"
proof -
  let ?a = "default_args\<lparr>world_size := 4, rank := 3, tp_size := 2, cp_size := 2\<rparr>"
  have "map_sum id moe_tp_group (mapping_init ?a) = Inr (Inr [0, 1])" by code_simp
  then show ?thesis by (cases "mapping_init ?a") auto
qed

end
