(* ===== verification/SchedulerV2.thy ===== *)
theory SchedulerV2
  imports UnifiedScheduler
begin

text \<open>
  \<open>KVCacheV2Scheduler\<close> of \<^verbatim>\<open>_torch/pyexecutor/scheduler/scheduler_v2.py\<close>, the scheduler for the second KV cache manager: one
  loop takes requests, allocates their cache on the spot and suspends later requests when there is no room.

  The cache managers are parameters: operations on a state \<open>'s\<close> that they share. \<open>v2_cleared\<close> has the requests
  whose \<open>py_batch_idx\<close> was set to \<open>None\<close>. A request that the manager updates while it is tried is returned
  when it is scheduled; the updates of one that is passed over stay in the active requests of the executor and are not read
  again in the same call.
\<close>

section \<open>Parameters and state\<close>

text \<open>
  A request with what only this scheduler looks at: the length of the encoder output if it is known,
  \<open>py_skip_cross_kv_projection\<close>, and the running sums over the mask of multimodal tokens, when the model asks for intact blocks.
\<close>

record v2_request =
  v2_req :: llm_request
  v2_encoder_output_len :: "int option"
  v2_skip_cross :: bool
  v2_cumsum :: "int list option"

record 's v2_manager =
  prepare_context :: "llm_request \<Rightarrow> 's \<Rightarrow> (bool \<times> llm_request \<times> 's) result"
  resize_context :: "llm_request \<Rightarrow> int \<Rightarrow> 's \<Rightarrow> bool \<times> 's"
  try_allocate_generation :: "llm_request \<Rightarrow> 's \<Rightarrow> bool \<times> 's"
  is_request_active :: "int \<Rightarrow> 's \<Rightarrow> bool"
  suspend_request :: "llm_request \<Rightarrow> 's \<Rightarrow> 's"

text \<open>
  The parts of a cross-attention manager of the second kind that the scheduler uses directly. \<open>cv_create\<close> answers
  whether \<open>_create_kv_cache\<close> returned a cache.
\<close>

record 's cross_v2 =
  cv_find :: "int \<Rightarrow> 's \<Rightarrow> bool"
  cv_create :: "llm_request \<Rightarrow> 's \<Rightarrow> bool \<times> 's"
  cv_enable_block_reuse :: bool
  cv_stop_committing :: "int \<Rightarrow> 's \<Rightarrow> 's"
  cv_resume_and_restore :: "int \<Rightarrow> 's \<Rightarrow> bool \<times> 's"
  cv_num_extra_kv_tokens :: int
  cv_capacity :: "int \<Rightarrow> 's \<Rightarrow> int"
  cv_resize :: "int \<Rightarrow> int \<Rightarrow> 's \<Rightarrow> bool \<times> 's"
  cv_suspend :: "int \<Rightarrow> 's \<Rightarrow> 's"

datatype 's cross_manager = CrossV2 "'s cross_v2" | CrossOther "'s v2_manager"

record 's v2_scheduler =
  v2_max_num_tokens :: "int option"
  v2_max_num_requests :: int
  v2_kv :: "'s v2_manager"
  v2_draft_suspend :: "(llm_request \<Rightarrow> 's \<Rightarrow> 's) option"
  v2_cross :: "'s cross_manager option"
  v2_peft :: "peft_manager option"
  v2_chunking_enabled :: bool
  v2_chunk_unit_size :: int
  v2_max_context_length :: "int option"
  v2_until :: int
  v2_after :: int

text \<open>The constructor. Every policy becomes \<open>MAX_UTILIZATION\<close>, the only one there is.\<close>

definition v2_init ::
  "int \<Rightarrow> int option \<Rightarrow> 's v2_manager \<Rightarrow> int option \<Rightarrow> peft_manager option \<Rightarrow> int option \<Rightarrow> llm_request_state \<Rightarrow> llm_request_state
     \<Rightarrow> (llm_request \<Rightarrow> 's \<Rightarrow> 's) option \<Rightarrow> 's cross_manager option \<Rightarrow> 's v2_scheduler" where
  "v2_init max_batch max_tokens kv unit_of_chunks peft capacity until after draft cross =
     \<lparr>v2_max_num_tokens = max_tokens, v2_max_num_requests = (case capacity of None \<Rightarrow> max_batch | Some c \<Rightarrow> c), v2_kv = kv,
      v2_draft_suspend = draft, v2_cross = cross, v2_peft = peft, v2_chunking_enabled = (unit_of_chunks \<noteq> None),
      v2_chunk_unit_size = (case unit_of_chunks of None \<Rightarrow> 0 | Some u \<Rightarrow> u), v2_max_context_length = max_tokens,
      v2_until = state_code until, v2_after = state_code after\<rparr>"

record 's v2_state =
  v2_caches :: 's
  v2_cleared :: "int list"

section \<open>The budget of an iteration\<close>

record budget_tracker =
  bt_max_num_tokens :: "int option"
  bt_max_num_requests :: int
  bt_num_tokens :: int
  bt_num_requests :: int
  bt_peft :: "peft_manager option"
  bt_max_peft_pages :: int
  bt_claimed :: int
  bt_seen :: "int list"

definition bt_init :: "int option \<Rightarrow> int \<Rightarrow> peft_manager option \<Rightarrow> budget_tracker" where
  "bt_init max_tokens max_requests peft =
     \<lparr>bt_max_num_tokens = max_tokens, bt_max_num_requests = max_requests, bt_num_tokens = 0, bt_num_requests = 0,
      bt_peft = peft, bt_max_peft_pages = (case peft of None \<Rightarrow> 0 | Some p \<Rightarrow> max_device_pages p), bt_claimed = 0, bt_seen = []\<rparr>"

definition requests_full :: "budget_tracker \<Rightarrow> bool" where
  "requests_full b = (bt_num_requests b \<ge> bt_max_num_requests b)"

definition can_fit_tokens :: "int \<Rightarrow> budget_tracker \<Rightarrow> bool" where
  "can_fit_tokens n b = (case bt_max_num_tokens b of None \<Rightarrow> True | Some m \<Rightarrow> \<not> (bt_num_tokens b + n > m))"

definition remaining_tokens :: "budget_tracker \<Rightarrow> int option" where
  "remaining_tokens b = map_option (\<lambda>m. m - bt_num_tokens b) (bt_max_num_tokens b)"

definition commit_peft :: "llm_request \<Rightarrow> int \<Rightarrow> budget_tracker \<Rightarrow> budget_tracker" where
  "commit_peft r pages b =
     b\<lparr>bt_claimed := bt_claimed b + pages, bt_seen := add_key (lora_task_id r) (bt_seen b)\<rparr>"

definition commit :: "llm_request \<Rightarrow> int \<Rightarrow> int \<Rightarrow> budget_tracker \<Rightarrow> budget_tracker" where
  "commit r n pages b =
     (let b' = b\<lparr>bt_num_tokens := bt_num_tokens b + n, bt_num_requests := bt_num_requests b + 1\<rparr>
      in if pages > 0 then commit_peft r pages b' else b')"

definition already_claimed :: "llm_request \<Rightarrow> budget_tracker \<Rightarrow> bool" where
  "already_claimed r b = (case lora_task_id r of None \<Rightarrow> True | Some i \<Rightarrow> i \<in> set (bt_seen b))"

definition peft_pages_needed :: "llm_request \<Rightarrow> budget_tracker \<Rightarrow> int option" where
  "peft_pages_needed r b =
     (case bt_peft b of
        None \<Rightarrow> Some 0
      | Some p \<Rightarrow>
          if already_claimed r b then Some 0
          else if bt_claimed b + determine_num_pages p r > bt_max_peft_pages b then None
          else Some (determine_num_pages p r))"

definition pre_claim_peft :: "llm_request \<Rightarrow> budget_tracker \<Rightarrow> budget_tracker" where
  "pre_claim_peft r b =
     (case bt_peft b of
        None \<Rightarrow> b
      | Some p \<Rightarrow> if already_claimed r b then b else commit_peft r (determine_num_pages p r) b)"

section \<open>Multimodal blocks\<close>

text \<open>
  \<open>_align_chunk_to_mm_block\<close>. Position \<open>i\<close> holds a multimodal token when the running sum grows there. The walks find the block
  around the end of the chunk; then the chunk is extended over it, or ends before it, or the answer is 0.
\<close>

definition cumsum_at :: "int list \<Rightarrow> int \<Rightarrow> int result" where
  "cumsum_at cs i = rbind (py_index (length cs) i) (\<lambda>k. Inr (cs ! k))"

definition grows_at :: "int list \<Rightarrow> int \<Rightarrow> bool result" where
  "grows_at cs i = rbind (cumsum_at cs i) (\<lambda>a. rbind (cumsum_at cs (i - 1)) (\<lambda>b. Inr (a - b = 1)))"

function block_end_walk :: "int list \<Rightarrow> int \<Rightarrow> int \<Rightarrow> int result" where
  "block_end_walk cs prompt e =
     (if e < prompt then rbind (grows_at cs e) (\<lambda>mm. if mm then block_end_walk cs prompt (e + 1) else Inr e) else Inr e)"
  by pat_completeness auto
termination
  by (relation "measure (\<lambda>(_, prompt, e). nat (prompt - e))") auto

declare block_end_walk.simps [simp del]

function block_start_walk :: "int list \<Rightarrow> int \<Rightarrow> int result" where
  "block_start_walk cs b =
     (if b > 1 then rbind (grows_at cs (b - 1)) (\<lambda>mm. if mm then block_start_walk cs (b - 1) else Inr b) else Inr b)"
  by pat_completeness auto
termination
  by (relation "measure (\<lambda>(_, b). nat b)") auto

declare block_start_walk.simps [simp del]

text \<open>The end of the chunk lies between two tokens of a block.\<close>

definition splits_block :: "int list \<Rightarrow> int \<Rightarrow> bool result" where
  "splits_block cs e =
     rbind (cumsum_at cs (e - 1)) (\<lambda>prev.
     rbind (cumsum_at cs e) (\<lambda>cur.
       if cur - prev \<noteq> 1 then Inr False
       else if e = 1 then Inr (prev = 1)
       else rbind (cumsum_at cs (e - 2)) (\<lambda>before. Inr (prev - before = 1))))"

text \<open>The chunk that starts at \<open>lo\<close> has \<open>n\<close> tokens and ends inside the block from \<open>block_start\<close> to \<open>block_end\<close>.\<close>

definition snap_chunk :: "int \<Rightarrow> int option \<Rightarrow> int \<Rightarrow> int \<Rightarrow> int option \<Rightarrow> int \<Rightarrow> int \<Rightarrow> int \<Rightarrow> int result" where
  "snap_chunk unit_size max_context lo n remaining_budget context_remaining block_start block_end =
     (if (case max_context of None \<Rightarrow> False | Some m \<Rightarrow> block_end - block_start > m) then Inl ValueError
      else
        let prompt = lo + context_remaining;
            up_end = min (if unit_size > 0 \<and> block_end < prompt
                          then (block_end + unit_size - 1) div unit_size * unit_size else block_end) prompt;
            up = up_end - lo
        in if (case remaining_budget of None \<Rightarrow> True | Some m \<Rightarrow> up \<le> m) \<and> (case max_context of None \<Rightarrow> True | Some m \<Rightarrow> up \<le> m)
              \<and> up \<le> context_remaining \<and> up > n
           then Inr up
           else
             let down = (if unit_size > 0 then block_start div unit_size * unit_size else block_start)
             in if down \<le> lo then Inr 0 else Inr (down - lo))"

definition align_chunk_to_mm_block ::
  "int \<Rightarrow> int option \<Rightarrow> int list option \<Rightarrow> llm_request \<Rightarrow> int \<Rightarrow> int option \<Rightarrow> int \<Rightarrow> int result" where
  "align_chunk_to_mm_block unit_size max_context cumsum r n remaining_budget context_remaining =
     (case cumsum of
        None \<Rightarrow> Inr n
      | Some cs \<Rightarrow>
          let lo = context_position r; end_abs = lo + n; prompt = lo + context_remaining in
          if end_abs \<ge> prompt \<or> end_abs \<le> 0 then Inr n
          else
            rbind (splits_block cs end_abs) (\<lambda>splits.
            if \<not> splits then Inr n
            else
              rbind (block_end_walk cs prompt end_abs) (\<lambda>block_end.
              rbind (block_start_walk cs end_abs) (\<lambda>start1.
              rbind (if start1 = 1 then rbind (cumsum_at cs 0) (\<lambda>c. Inr (if c = 1 then 0 else start1)) else Inr start1) (\<lambda>block_start.
                snap_chunk unit_size max_context lo n remaining_budget context_remaining block_start block_end)))))"

section \<open>Trying a request\<close>

datatype schedule_action = SCHEDULED | SKIP | STOP

definition v2_suspend :: "'s v2_scheduler \<Rightarrow> llm_request \<Rightarrow> 's v2_state \<Rightarrow> 's v2_state" where
  "v2_suspend s r st =
     (let st1 = st\<lparr>v2_cleared := v2_cleared st @ [request_id r], v2_caches := suspend_request (v2_kv s) r (v2_caches st)\<rparr>
      in case v2_draft_suspend s of None \<Rightarrow> st1 | Some f \<Rightarrow> st1\<lparr>v2_caches := f r (v2_caches st1)\<rparr>)"

text \<open>Applying an operation of a manager.\<close>

definition on_caches :: "('s \<Rightarrow> bool \<times> 's) \<Rightarrow> 's v2_state \<Rightarrow> bool \<times> 's v2_state" where
  "on_caches f st = (case f (v2_caches st) of (ok, x) \<Rightarrow> (ok, st\<lparr>v2_caches := x\<rparr>))"

definition prepare :: "'s v2_manager \<Rightarrow> llm_request \<Rightarrow> 's v2_state \<Rightarrow> (bool \<times> llm_request \<times> 's v2_state) result" where
  "prepare kv r st = rbind (prepare_context kv r (v2_caches st)) (\<lambda>(ok, r', x). Inr (ok, r', st\<lparr>v2_caches := x\<rparr>))"

definition try_schedule_encoder :: "'s v2_scheduler \<Rightarrow> llm_request \<Rightarrow> budget_tracker \<Rightarrow> (schedule_action \<times> int) result" where
  "try_schedule_encoder s r b =
     (if v2_cross s = None then Inl RuntimeError
      else if \<not> can_fit_tokens (encoder_output_len r) b then Inr (STOP, 0)
      else py_assert (case v2_max_context_length s of None \<Rightarrow> True | Some m \<Rightarrow> encoder_output_len r \<le> m)
             (Inr (SCHEDULED, encoder_output_len r)))"

definition try_schedule_disagg_gen_init ::
  "'s v2_scheduler \<Rightarrow> llm_request \<Rightarrow> 's v2_state \<Rightarrow> (schedule_action \<times> llm_request \<times> 's v2_state) result" where
  "try_schedule_disagg_gen_init s r st =
     rbind (prepare (v2_kv s) r st) (\<lambda>(ok, r1, st1).
       if \<not> ok then Inr (SKIP, r1, st1)
       else case on_caches (resize_context (v2_kv s) r1 (context_remaining_length r1 + num_draft_tokens r1)) st1 of
         (ok2, st2) \<Rightarrow> Inr (if ok2 then SCHEDULED else SKIP, r1, st2))"

subsection \<open>Cross attention\<close>

definition try_schedule_cross_context_v2 ::
  "'s cross_v2 \<Rightarrow> llm_request \<Rightarrow> int \<Rightarrow> 's v2_state \<Rightarrow> (bool \<times> 's v2_state) result" where
  "try_schedule_cross_context_v2 c r n st =
     rbind (if cv_find c (request_id r) (v2_caches st) then Inr (True, st)
            else if \<not> is_first_context_chunk r then Inr (False, st)
            else case on_caches (cv_create c r) st of (made, st1) \<Rightarrow> if made then Inr (True, st1) else Inl AttributeError)
       (\<lambda>(found, st1).
        if \<not> found then Inr (False, st1)
        else
          let st2 = (if cv_enable_block_reuse c then st1 else st1\<lparr>v2_caches := cv_stop_committing c (request_id r) (v2_caches st1)\<rparr>)
          in case on_caches (cv_resume_and_restore c (request_id r)) st2 of (resumed, st3) \<Rightarrow>
             if \<not> resumed then Inr (False, st3)
             else case on_caches (cv_resize c (request_id r)
                         (max (cv_capacity c (request_id r) (v2_caches st3)) (n + cv_num_extra_kv_tokens c))) st3 of (ok, st4) \<Rightarrow>
               if ok then Inr (True, st4)
               else Inr (False, if is_first_context_chunk r
                                then st4\<lparr>v2_caches := cv_suspend c (request_id r) (v2_caches st4)\<rparr> else st4))"

definition needs_cross_context_allocation :: "v2_request \<Rightarrow> bool" where
  "needs_cross_context_allocation q = (if v2_encoder_output_len q = None then False else \<not> v2_skip_cross q)"

definition try_schedule_cross_context ::
  "'s v2_scheduler \<Rightarrow> v2_request \<Rightarrow> llm_request \<Rightarrow> 's v2_state \<Rightarrow> (schedule_action \<times> llm_request \<times> 's v2_state) result" where
  "try_schedule_cross_context s q r st =
     (if \<not> needs_cross_context_allocation q then Inr (SCHEDULED, r, st)
      else case v2_cross s of
        None \<Rightarrow> Inr (STOP, r, st)
      | Some cross \<Rightarrow>
          (case v2_encoder_output_len q of
             None \<Rightarrow> Inr (SCHEDULED, r, st)
           | Some n \<Rightarrow>
               (case cross of
                  CrossV2 c \<Rightarrow> rbind (try_schedule_cross_context_v2 c r n st) (\<lambda>(ok, st1).
                    Inr (if ok then SCHEDULED else SKIP, r, st1))
                | CrossOther c \<Rightarrow> rbind (prepare c r st) (\<lambda>(ok, r1, st1).
                    if \<not> ok then Inr (SKIP, r1, st1)
                    else case on_caches (resize_context c r1 n) st1 of (ok2, st2) \<Rightarrow>
                      Inr (if ok2 then SCHEDULED else SKIP, r1, st2)))))"

subsection \<open>Context requests\<close>

text \<open>The answer: what to do, the request as it is then, the tokens it takes, and whether it was chunked.\<close>

type_synonym 's context_answer = "schedule_action \<times> llm_request \<times> int \<times> bool \<times> 's v2_state"

text \<open>The last steps of both ways: the cache is resized and the cross cache reserved, or the request suspended.\<close>

definition reserve_context ::
  "'s v2_scheduler \<Rightarrow> v2_request \<Rightarrow> llm_request \<Rightarrow> int \<Rightarrow> bool \<Rightarrow> 's v2_state \<Rightarrow> 's context_answer result" where
  "reserve_context s q r n chunked st =
     (case on_caches (resize_context (v2_kv s) r n) st of (ok, st1) \<Rightarrow>
        if \<not> ok then Inr (SKIP, r, 0, False, st1)
        else rbind (try_schedule_cross_context s q r st1) (\<lambda>(act, r1, st2).
          if act \<noteq> SCHEDULED then Inr (act, r1, 0, False, v2_suspend s r1 st2)
          else Inr (SCHEDULED, r1, n, chunked \<and> chunk_size r1 < context_remaining_length r1, st2)))"

definition try_schedule_context_full ::
  "'s v2_scheduler \<Rightarrow> v2_request \<Rightarrow> budget_tracker \<Rightarrow> 's v2_state \<Rightarrow> 's context_answer result" where
  "try_schedule_context_full s q b st =
     rbind (prepare (v2_kv s) (v2_req q) st) (\<lambda>(ok, r, st1).
       if \<not> ok then Inr (STOP, r, 0, False, st1)
       else
         let n = context_remaining_length r + num_draft_tokens r in
         if \<not> can_fit_tokens n b then Inr (STOP, r, 0, False, st1)
         else py_assert (case v2_max_context_length s of None \<Rightarrow> True | Some m \<Rightarrow> context_remaining_length r \<le> m)
                (reserve_context s q r n False st1))"

text \<open>The size of a chunk before multimodal blocks are looked at.\<close>

definition first_chunk_size :: "'s v2_scheduler \<Rightarrow> int option \<Rightarrow> int \<Rightarrow> int result" where
  "first_chunk_size s remaining_budget context_remaining =
     (let n1 = (case remaining_budget of None \<Rightarrow> context_remaining | Some m \<Rightarrow> min m context_remaining);
          n2 = (case v2_max_context_length s of None \<Rightarrow> n1 | Some m \<Rightarrow> min n1 m)
      in if n2 < context_remaining
         then if v2_chunk_unit_size s = 0 then Inl ZeroDivisionError
              else Inr (n2 div v2_chunk_unit_size s * v2_chunk_unit_size s)
         else Inr n2)"

definition try_schedule_context_chunked ::
  "'s v2_scheduler \<Rightarrow> v2_request \<Rightarrow> budget_tracker \<Rightarrow> 's v2_state \<Rightarrow> 's context_answer result" where
  "try_schedule_context_chunked s q b st =
     (let rb = remaining_tokens b in
      if (case rb of None \<Rightarrow> False | Some m \<Rightarrow> m < v2_chunk_unit_size s) then Inr (SKIP, v2_req q, 0, False, st)
      else
        rbind (prepare (v2_kv s) (v2_req q) st) (\<lambda>(ok, r, st1).
          if \<not> ok then Inr (SKIP, r, 0, False, st1)
          else
            rbind (first_chunk_size s rb (context_remaining_length r)) (\<lambda>n.
            if n \<le> 0 then Inr (SKIP, r, 0, False, st1)
            else
              rbind (align_chunk_to_mm_block (v2_chunk_unit_size s) (v2_max_context_length s) (v2_cumsum q) r n rb
                       (context_remaining_length r)) (\<lambda>n.
              if n \<le> 0 then Inr (SKIP, r, 0, False, st1)
              else
                rbind (set_context_chunk_size n r) (\<lambda>r1.
                let tokens = (if is_last_context_chunk r1 \<and> num_draft_tokens r1 > 0 then n + num_draft_tokens r1 else n)
                in reserve_context s q r1 tokens True st1)))))"

definition try_schedule_context ::
  "'s v2_scheduler \<Rightarrow> v2_request \<Rightarrow> budget_tracker \<Rightarrow> 's v2_state \<Rightarrow> 's context_answer result" where
  "try_schedule_context s q b st =
     (if v2_chunking_enabled s then try_schedule_context_chunked s q b st else try_schedule_context_full s q b st)"

subsection \<open>Generation requests\<close>

definition v2_is_started_request :: "llm_request \<Rightarrow> bool" where
  "v2_is_started_request r = (is_context_init_state r \<and> \<not> is_first_context_chunk r \<or> is_generation_in_progress_state r)"

definition is_evictable :: "'s v2_scheduler \<Rightarrow> 's v2_state \<Rightarrow> llm_request \<Rightarrow> bool" where
  "is_evictable s st r = (if \<not> v2_is_started_request r then False else is_request_active (v2_kv s) (request_id r) (v2_caches st))"

text \<open>\<open>_try_evict_for_gen\<close>: the new end of the range, whether the allocation succeeded, the evicted requests and the state.\<close>

definition find_victim :: "'s v2_scheduler \<Rightarrow> 's v2_state \<Rightarrow> llm_request list \<Rightarrow> nat \<Rightarrow> nat \<Rightarrow> nat option" where
  "find_victim s st rs req_it req_it_end = List.find (\<lambda>i. is_evictable s st (rs ! i)) (rev [Suc req_it..<req_it_end])"

lemma find_Some_member: "List.find P xs = Some x \<Longrightarrow> x \<in> set xs \<and> P x"
  by (induction xs) (auto split: if_splits)

lemma find_victim_range: "find_victim s st rs i e = Some v \<Longrightarrow> i < v \<and> v < e \<and> is_evictable s st (rs ! v)"
  by (auto simp: find_victim_def dest!: find_Some_member)

function try_evict_for_gen ::
  "'s v2_scheduler \<Rightarrow> llm_request \<Rightarrow> llm_request list \<Rightarrow> nat \<Rightarrow> nat \<Rightarrow> llm_request list \<Rightarrow> 's v2_state
     \<Rightarrow> nat \<times> bool \<times> llm_request list \<times> 's v2_state" where
  "try_evict_for_gen s r rs req_it req_it_end evicted st =
     (if req_it_end > req_it
      then case find_victim s st rs req_it req_it_end of
        None \<Rightarrow> (req_it_end, False, evicted, st)
      | Some v \<Rightarrow>
          (case on_caches (try_allocate_generation (v2_kv s) r) (v2_suspend s (rs ! v) st) of (ok, st1) \<Rightarrow>
             if ok then (v, True, evicted @ [rs ! v], st1)
             else try_evict_for_gen s r rs req_it v (evicted @ [rs ! v]) st1)
      else (req_it_end, False, evicted, st))"
  by pat_completeness auto
termination
  by (relation "measure (\<lambda>(_, _, _, _, e, _, _). e)") (auto dest: find_victim_range)

declare try_evict_for_gen.simps [simp del]

text \<open>The answer: what to do, the tokens, the beam width and the end of the range from then on.\<close>

definition try_schedule_generation ::
  "'s v2_scheduler \<Rightarrow> llm_request \<Rightarrow> budget_tracker \<Rightarrow> llm_request list \<Rightarrow> nat \<Rightarrow> nat \<Rightarrow> llm_request list \<Rightarrow> int \<Rightarrow> 's v2_state
     \<Rightarrow> schedule_action \<times> int \<times> int \<times> nat \<times> llm_request list \<times> 's v2_state" where
  "try_schedule_generation s r b rs req_it req_it_end evicted beam st =
     (let n = beam_width_by_iter r + num_draft_tokens r in
      if \<not> can_fit_tokens n b then (STOP, 0, beam, req_it_end, evicted, st)
      else if beam \<noteq> 0 \<and> beam \<noteq> beam_width_by_iter r then (SKIP, 0, beam, req_it_end, evicted, st)
      else
        let beam = beam_width_by_iter r in
        case on_caches (try_allocate_generation (v2_kv s) r) st of (ok, st1) \<Rightarrow>
        (case (if ok then (req_it_end, True, evicted, st1) else try_evict_for_gen s r rs req_it req_it_end evicted st1) of
           (e, ok2, ev, st2) \<Rightarrow>
             if ok2 then (SCHEDULED, n, beam, e, ev, st2)
             else if is_request_active (v2_kv s) (request_id r) (v2_caches st2)
             then (STOP, 0, beam, e, ev @ [r], v2_suspend s r st2)
             else (STOP, 0, beam, e, ev, st2)))"

section \<open>The loop\<close>

record 's v2_loop =
  vl_gen :: "llm_request list"
  vl_evicted :: "llm_request list"
  vl_disagg :: "llm_request list"
  vl_pending :: "v2_request list"
  vl_beam :: int
  vl_end :: nat
  vl_budget :: budget_tracker
  vl_state :: "'s v2_state"

text \<open>Generation requests and those that wait for a cache from elsewhere; context and encoder requests are put off.\<close>

fun v2_phase1 ::
  "'s v2_scheduler \<Rightarrow> int list \<Rightarrow> llm_request list \<Rightarrow> nat \<Rightarrow> v2_request list \<Rightarrow> 's v2_loop \<Rightarrow> 's v2_loop result" where
  "v2_phase1 s inflight rs req_it [] l = Inr l"
| "v2_phase1 s inflight rs req_it (q # qs) l =
     (let r = v2_req q; v = state_code (request_state r); b = vl_budget l in
      if \<not> req_it < vl_end l then Inr l
      else if request_id r \<in> set inflight then v2_phase1 s inflight rs (Suc req_it) qs l
      else if v = state_code DISAGG_GENERATION_INIT
      then case peft_pages_needed r b of
             None \<Rightarrow> Inr l
           | Some pages \<Rightarrow>
               rbind (try_schedule_disagg_gen_init s r (vl_state l)) (\<lambda>(act, r1, st).
                 if act = STOP then Inr (l\<lparr>vl_state := st\<rparr>)
                 else if act = SKIP then v2_phase1 s inflight rs (Suc req_it) qs (l\<lparr>vl_state := st\<rparr>)
                 else v2_phase1 s inflight rs (Suc req_it) qs
                   (l\<lparr>vl_state := st, vl_disagg := vl_disagg l @ [r1],
                      vl_budget := (if pages > 0 then commit_peft r1 pages b else b)\<rparr>))
      else if requests_full b then Inr l
      else if \<not> (v \<ge> v2_until s \<and> v < v2_after s) then v2_phase1 s inflight rs (Suc req_it) qs l
      else if v = state_code ENCODER_INIT \<or> v = state_code CONTEXT_INIT
      then v2_phase1 s inflight rs (Suc req_it) qs (l\<lparr>vl_pending := vl_pending l @ [q]\<rparr>)
      else case peft_pages_needed r b of
             None \<Rightarrow> Inr l
           | Some pages \<Rightarrow>
               (case try_schedule_generation s r b rs req_it (vl_end l) (vl_evicted l) (vl_beam l) (vl_state l) of
                  (act, n, beam, e, ev, st) \<Rightarrow>
                    let l1 = l\<lparr>vl_beam := beam, vl_end := e, vl_evicted := ev, vl_state := st\<rparr> in
                    if act = STOP then Inr l1
                    else if act = SKIP then v2_phase1 s inflight rs (Suc req_it) qs l1
                    else v2_phase1 s inflight rs (Suc req_it) qs
                      (l1\<lparr>vl_gen := vl_gen l @ [r], vl_budget := commit r n pages b\<rparr>)))"

text \<open>The requests that were put off: scheduled encoder and context requests, whether one was chunked, the budget and the state.\<close>

fun v2_phase2 ::
  "'s v2_scheduler \<Rightarrow> v2_request list \<Rightarrow> llm_request list \<times> llm_request list \<times> bool \<Rightarrow> budget_tracker \<Rightarrow> 's v2_state
     \<Rightarrow> ((llm_request list \<times> llm_request list \<times> bool) \<times> budget_tracker \<times> 's v2_state) result" where
  "v2_phase2 s [] acc b st = Inr (acc, b, st)"
| "v2_phase2 s (q # qs) acc b st =
     (case acc of (enc, ctx, chunked) \<Rightarrow>
      let r = v2_req q in
      if requests_full b then Inr (acc, b, st)
      else case peft_pages_needed r b of
        None \<Rightarrow> v2_phase2 s qs acc b st
      | Some pages \<Rightarrow>
          if state_code (request_state r) = state_code ENCODER_INIT
          then rbind (try_schedule_encoder s r b) (\<lambda>(act, n).
                 if act = STOP then Inr (acc, b, st)
                 else v2_phase2 s qs (enc @ [r], ctx, chunked) (commit r n pages b) st)
          else rbind (try_schedule_context s q b st) (\<lambda>(act, r1, n, flag, st1).
                 if act = STOP then Inr (acc, b, st1)
                 else if act = SKIP then v2_phase2 s qs acc b st1
                 else v2_phase2 s qs (enc, ctx @ [r1], chunked \<or> flag) (commit r1 n pages b) st1))"

definition is_gen_candidate :: "int list \<Rightarrow> llm_request \<Rightarrow> bool" where
  "is_gen_candidate inflight r =
     (is_generation_in_progress_state r \<and> request_state r \<noteq> GENERATION_TO_COMPLETE \<and> request_id r \<notin> set inflight)"

definition v2_start :: "'s v2_scheduler \<Rightarrow> v2_request list \<Rightarrow> 's v2_state \<Rightarrow> 's v2_loop" where
  "v2_start s qs st =
     \<lparr>vl_gen = [], vl_evicted = [], vl_disagg = [], vl_pending = [], vl_beam = 0, vl_end = length qs,
      vl_budget = fold (\<lambda>q b. if request_state (v2_req q) = GENERATION_TO_COMPLETE then pre_claim_peft (v2_req q) b else b) qs
        (bt_init (v2_max_num_tokens s) (v2_max_num_requests s) (v2_peft s)),
      vl_state = st\<rparr>"

definition v2_schedule_loop ::
  "'s v2_scheduler \<Rightarrow> v2_request list \<Rightarrow> int list \<Rightarrow> 's v2_state
     \<Rightarrow> (llm_request list \<times> llm_request list \<times> bool \<times> 's v2_loop) result" where
  "v2_schedule_loop s qs inflight st =
     rbind (v2_phase1 s inflight (map v2_req qs) 0 qs (v2_start s qs st)) (\<lambda>l.
     rbind (v2_phase2 s (vl_pending l) ([], [], False) (vl_budget l) (vl_state l)) (\<lambda>((enc, ctx, chunked), b, st2).
       if vl_gen l = [] \<and> ctx = [] \<and> list_ex (is_gen_candidate inflight) (map v2_req qs) \<and> vl_evicted l = []
       then Inl RuntimeError
       else Inr (enc, ctx, chunked, l\<lparr>vl_budget := b, vl_state := st2\<rparr>)))"

definition v2_sort_requests :: "llm_request list \<Rightarrow> llm_request list \<Rightarrow> bool \<Rightarrow> llm_request list \<times> llm_request list" where
  "v2_sort_requests ctx gen chunked =
     (if chunked
      then sort_key get_lora_task_id (filter (\<lambda>r. \<not> is_last_context_chunk r) ctx)
        @ sort_key get_lora_task_id (filter is_last_context_chunk ctx)
      else sort_key get_lora_task_id ctx,
      sort_key get_lora_task_id gen)"

definition v2_schedule_request ::
  "'s v2_scheduler \<Rightarrow> v2_request list \<Rightarrow> int list \<Rightarrow> 's v2_state \<Rightarrow> (scheduler_output \<times> 's v2_state) result" where
  "v2_schedule_request s qs inflight st =
     (let qs' = filter (\<lambda>q. \<not> is_decoder_context_request_waiting_for_encoder_output (v2_req q)) qs in
      rbind (v2_schedule_loop s qs' inflight st) (\<lambda>(enc, ctx, chunked, l).
        case v2_sort_requests ctx (vl_gen l) chunked of (ctx', gen') \<Rightarrow>
          Inr (\<lparr>so_encoder_requests = sort_key get_lora_task_id enc, so_context_requests = ctx', so_generation_requests = gen',
                so_paused_requests = vl_evicted l, so_fitting_disagg_gen_init_requests = vl_disagg l,
                so_num_fitting_requests = int (length enc + length ctx' + length gen')\<rparr>, vl_state l)))"

definition v2_can_schedule :: "llm_request list \<Rightarrow> bool" where
  "v2_can_schedule rs = True"

end
