(* ===== verification/V2Alignment.thy ===== *)
theory V2Alignment
  imports SchedulerV2
begin

text \<open>
  Chunks of a prompt and blocks of multimodal tokens: what \<open>_align_chunk_to_mm_block\<close> of the second scheduler makes of the size of a
  chunk. The positions of multimodal tokens are a list of booleans, of which the code has the running sums.
\<close>

section \<open>Running sums of a mask\<close>

definition running_sums :: "bool list \<Rightarrow> int list" where
  "running_sums ms = map (\<lambda>i. int (length (filter id (take (Suc i) ms)))) [0..<length ms]"

lemma running_sums_nth: "i < length ms \<Longrightarrow> running_sums ms ! i = int (length (filter id (take (Suc i) ms)))"
  by (simp add: running_sums_def)

lemma length_running_sums [simp]: "length (running_sums ms) = length ms"
  by (simp add: running_sums_def)

lemma cumsum_at_ok: "0 \<le> i \<Longrightarrow> i < int (length cs) \<Longrightarrow> cumsum_at cs i = Inr (cs ! nat i)"
  by (simp add: cumsum_at_def py_index_def)

lemma sum_step: "Suc i < length ms \<Longrightarrow> running_sums ms ! Suc i - running_sums ms ! i = (if ms ! Suc i then 1 else 0)"
  by (simp add: running_sums_nth take_Suc_conv_app_nth)

lemma grows_at_ok:
  assumes "0 < i" "i < int (length ms)"
  shows "grows_at (running_sums ms) i = Inr (ms ! nat i)"
proof -
  obtain k where k: "nat i = Suc k" "nat (i - 1) = k" "Suc k < length ms" using assms by (cases "nat i") auto
  then show ?thesis using assms sum_step [of k ms] by (simp add: grows_at_def cumsum_at_ok split: if_splits)
qed

text \<open>A boundary is inside a block when the tokens on both sides of it are multimodal.\<close>

definition inside_block :: "bool list \<Rightarrow> int \<Rightarrow> bool" where
  "inside_block ms e \<longleftrightarrow> 0 < e \<and> e < int (length ms) \<and> ms ! nat (e - 1) \<and> ms ! nat e"

lemma first_sum: "0 < length ms \<Longrightarrow> running_sums ms ! 0 = (if ms ! 0 then 1 else 0)"
  by (cases ms) (simp_all add: running_sums_nth)

lemma splits_block_ok:
  assumes "0 < e" "e < int (length ms)"
  shows "splits_block (running_sums ms) e = Inr (inside_block ms e)"
proof (cases "e = 1")
  case True
  have "0 < length ms" using assms by linarith
  then have "cumsum_at (running_sums ms) 0 = Inr (running_sums ms ! 0)" "running_sums ms ! 0 = (if ms ! 0 then 1 else 0)"
    using cumsum_at_ok [of 0 "running_sums ms"] first_sum [of ms] by simp_all
  then show ?thesis using True assms sum_step [of 0 ms]
    by (auto simp: splits_block_def cumsum_at_ok inside_block_def nat_1 split: if_splits)
next
  case False
  then obtain k where k: "nat e = Suc (Suc k)" "nat (e - 1) = Suc k" "nat (e - 2) = k" "Suc (Suc k) < length ms"
    using assms by (cases "nat e"; cases "nat e - 1") auto
  then show ?thesis using False assms sum_step [of k ms] sum_step [of "Suc k" ms]
    by (auto simp: splits_block_def cumsum_at_ok inside_block_def split: if_splits)
qed

lemma block_end_walk_ok:
  assumes "prompt \<le> int (length ms)"
  shows "0 < e \<Longrightarrow> e \<le> prompt \<Longrightarrow> \<exists>x. block_end_walk (running_sums ms) prompt e = Inr x \<and> e \<le> x \<and> x \<le> prompt \<and>
    (\<forall>i. e \<le> i \<and> i < x \<longrightarrow> ms ! nat i) \<and> (x < prompt \<longrightarrow> \<not> ms ! nat x)"
proof (induction "nat (prompt - e)" arbitrary: e rule: less_induct)
  case less
  show ?case
  proof (cases "e < prompt")
    case True
    have g: "grows_at (running_sums ms) e = Inr (ms ! nat e)" using grows_at_ok less.prems True assms by simp
    show ?thesis
    proof (cases "ms ! nat e")
      case mm: True
      obtain x where x: "block_end_walk (running_sums ms) prompt (e + 1) = Inr x" "e + 1 \<le> x" "x \<le> prompt"
          "\<forall>i. e + 1 \<le> i \<and> i < x \<longrightarrow> ms ! nat i" "x < prompt \<longrightarrow> \<not> ms ! nat x"
        using less.hyps [of "e + 1"] less.prems True by auto
      have "block_end_walk (running_sums ms) prompt e = Inr x" by (subst block_end_walk.simps) (simp add: True g mm x(1))
      moreover have "ms ! nat i" if "e \<le> i" "i < x" for i using that mm x(4) by (cases "i = e") auto
      ultimately show ?thesis using x by auto
    next
      case False
      then show ?thesis using True g by (subst block_end_walk.simps) auto
    qed
  next
    case False
    then show ?thesis using less.prems by (subst block_end_walk.simps) auto
  qed
qed

lemma block_start_walk_ok:
  "0 < b \<Longrightarrow> b \<le> int (length ms) \<Longrightarrow> \<exists>x. block_start_walk (running_sums ms) b = Inr x \<and> 0 < x \<and> x \<le> b \<and>
    (\<forall>i. x \<le> i \<and> i < b \<longrightarrow> ms ! nat i) \<and> (1 < x \<longrightarrow> \<not> ms ! nat (x - 1))"
proof (induction "nat b" arbitrary: b rule: less_induct)
  case less
  show ?case
  proof (cases "b > 1")
    case True
    have g: "grows_at (running_sums ms) (b - 1) = Inr (ms ! nat (b - 1))" using grows_at_ok less.prems True by simp
    show ?thesis
    proof (cases "ms ! nat (b - 1)")
      case mm: True
      obtain x where x: "block_start_walk (running_sums ms) (b - 1) = Inr x" "0 < x" "x \<le> b - 1"
          "\<forall>i. x \<le> i \<and> i < b - 1 \<longrightarrow> ms ! nat i" "1 < x \<longrightarrow> \<not> ms ! nat (x - 1)"
        using less.hyps [of "b - 1"] less.prems True by auto
      have "block_start_walk (running_sums ms) b = Inr x" by (subst block_start_walk.simps) (simp add: True g mm x(1))
      moreover have "ms ! nat i" if "x \<le> i" "i < b" for i using that mm x(4) by (cases "i = b - 1") auto
      ultimately show ?thesis using x by auto
    next
      case False
      then show ?thesis using True g less.prems by (subst block_start_walk.simps) auto
    qed
  next
    case False
    then show ?thesis using less.prems by (subst block_start_walk.simps) auto
  qed
qed

text \<open>Blocks that are at least \<open>u\<close> apart: \<open>u - 1\<close> other tokens at least between two of them.\<close>

definition spaced :: "int \<Rightarrow> bool list \<Rightarrow> bool" where
  "spaced u ms \<longleftrightarrow> (\<forall>p < length ms. \<forall>k < length ms. p + 1 < k \<and> int k < int p + u \<and> ms ! p \<and> \<not> ms ! (p + 1) \<longrightarrow> \<not> ms ! k)"

lemma spacedD:
  assumes "spaced u ms" "0 \<le> p" "p + 1 < k" "k < p + u" "k < int (length ms)" "ms ! nat p" "\<not> ms ! nat (p + 1)"
  shows "\<not> ms ! nat k"
proof -
  have "nat p < length ms" "nat k < length ms" "nat p + 1 < nat k" "int (nat k) < int (nat p) + u" "nat (p + 1) = nat p + 1"
    using assms by auto
  then show ?thesis using assms(1,6,7) unfolding spaced_def by metis
qed

lemma round_up: "0 < u \<Longrightarrow> x \<le> (x + u - 1) div u * u \<and> (x + u - 1) div u * u < x + u" for x u :: int
  using div_le_iff [of u "(x + u - 1) div u" "x + u - 1"] div_less_iff [of u "x + u - 1" "(x + u - 1) div u + 1"]
  by (simp add: algebra_simps)

lemma round_down: "0 < u \<Longrightarrow> x div u * u \<le> x \<and> x < x div u * u + u" for x u :: int
  using div_le_iff [of u "x div u" x] div_less_iff [of u x "x div u + 1"] by (simp add: algebra_simps)

lemma after_block:
  assumes "spaced u ms" "0 < x" "ms ! nat (x - 1)" "\<not> ms ! nat x" "x \<le> e" "e < x + u"
  shows "\<not> inside_block ms e"
proof
  assume in_block: "inside_block ms e"
  show False
  proof (cases "e = x \<or> e = x + 1")
    case True
    then show ?thesis using in_block assms(4) by (auto simp: inside_block_def)
  next
    case False
    have "\<not> ms ! nat (e - 1)"
      by (rule spacedD [OF assms(1), of "x - 1"]) (use assms False in_block in \<open>auto simp: inside_block_def\<close>)
    then show ?thesis using in_block by (simp add: inside_block_def)
  qed
qed

text \<open>A set position before a position that is not set is followed by a last one.\<close>

lemma last_set_position:
  fixes a b :: int
  assumes "a < b" "M a" "\<not> M b"
  shows "\<exists>p. a \<le> p \<and> p < b \<and> M p \<and> \<not> M (p + 1)"
  using assms
proof (induction "nat (b - a)" arbitrary: a rule: less_induct)
  case less
  show ?case
  proof (cases "M (a + 1)")
    case True
    then have "a + 1 < b" using less.prems by (cases "a + 1 = b") auto
    then obtain p where "a + 1 \<le> p" "p < b" "M p" "\<not> M (p + 1)" using less.hyps [of "a + 1"] less.prems True by auto
    then show ?thesis by (intro exI [of _ p]) auto
  next
    case False
    then show ?thesis using less.prems by blast
  qed
qed

lemma before_block:
  assumes "spaced u ms" "0 \<le> x" "x < int (length ms)" "ms ! nat x" "x = 0 \<or> \<not> ms ! nat (x - 1)" "e \<le> x" "x < e + u"
  shows "\<not> inside_block ms e"
proof
  assume in_block: "inside_block ms e"
  then have e: "0 < e" "ms ! nat (e - 1)" "ms ! nat e" by (auto simp: inside_block_def)
  then have ne: "e < x" "\<not> ms ! nat (x - 1)" using assms(5,6) by (cases "e = x"; auto)+
  then have "e < x - 1" using e(3) by (cases "e = x - 1") auto
  then obtain p where p: "e \<le> p" "p < x - 1" "ms ! nat p" "\<not> ms ! nat (p + 1)"
    using last_set_position [of e "x - 1" "\<lambda>i. ms ! nat i"] e(3) ne(2) by auto
  have "\<not> ms ! nat x" by (rule spacedD [OF assms(1), of p]) (use p e assms in auto)
  then show False using assms(4) by simp
qed

text \<open>The block around a boundary.\<close>

lemma block_found:
  assumes "inside_block ms e" "prompt = int (length ms)"
  shows "\<exists>x y z. block_end_walk (running_sums ms) prompt e = Inr x \<and> block_start_walk (running_sums ms) e = Inr y \<and>
    (if y = 1 then rbind (cumsum_at (running_sums ms) 0) (\<lambda>c. Inr (if c = 1 then 0 else y)) else Inr y) = Inr z \<and>
    0 \<le> z \<and> z < e \<and> e < x \<and> x \<le> prompt \<and> (\<forall>i. z \<le> i \<and> i < x \<longrightarrow> ms ! nat i) \<and>
    (z = 0 \<or> \<not> ms ! nat (z - 1)) \<and> (x < prompt \<longrightarrow> \<not> ms ! nat x)"
proof -
  have e: "0 < e" "e < prompt" "ms ! nat (e - 1)" "ms ! nat e" using assms by (auto simp: inside_block_def)
  obtain x where x: "block_end_walk (running_sums ms) prompt e = Inr x" "e \<le> x" "x \<le> prompt"
      "\<forall>i. e \<le> i \<and> i < x \<longrightarrow> ms ! nat i" "x < prompt \<longrightarrow> \<not> ms ! nat x"
    using block_end_walk_ok [of prompt ms e] e assms(2) by auto
  obtain y where y: "block_start_walk (running_sums ms) e = Inr y" "0 < y" "y \<le> e"
      "\<forall>i. y \<le> i \<and> i < e \<longrightarrow> ms ! nat i" "1 < y \<longrightarrow> \<not> ms ! nat (y - 1)"
    using block_start_walk_ok [of e ms] e assms(2) by auto
  have len: "0 < length ms" using e assms(2) by linarith
  have c0: "cumsum_at (running_sums ms) 0 = Inr (if ms ! 0 then 1 else 0)"
    using cumsum_at_ok [of 0 "running_sums ms"] first_sum [OF len] len by simp
  define z where "z = (if y = 1 \<and> ms ! 0 then 0 else y)"
  have ex: "e < x" using x(2,5) e by (cases "e = x") auto
  have ye: "y < e \<or> e = 1" using y(2,3,5) e(3) by (cases "y = e") auto
  have "z < e" using ye y(2,3) e(1,3) unfolding z_def by (auto simp: nat_0)
  moreover have "ms ! nat i" if "z \<le> i" "i < x" for i
  proof (cases "i < e")
    case True
    show ?thesis using that True y(4) unfolding z_def by (cases "i = 0") (auto split: if_splits)
  qed (use that x(4) in auto)
  moreover have "z = 0 \<or> \<not> ms ! nat (z - 1)" using y(2,5) unfolding z_def by (cases "y = 1") auto
  moreover have "(if y = 1 then rbind (cumsum_at (running_sums ms) 0) (\<lambda>c. Inr (if c = 1 then 0 else y)) else Inr y) = Inr z"
    using c0 by (simp add: z_def)
  moreover have "0 \<le> z" using y(2) by (simp add: z_def)
  ultimately show ?thesis using x y(1) ex by blast
qed

section \<open>Chunks and multimodal blocks\<close>

definition within :: "int \<Rightarrow> int option \<Rightarrow> bool" where
  "within n limit = (case limit of None \<Rightarrow> True | Some m \<Rightarrow> n \<le> m)"

text \<open>What is asked of the aligned size of a chunk.\<close>

definition aligned_chunk :: "int \<Rightarrow> bool list \<Rightarrow> int \<Rightarrow> int option \<Rightarrow> int option \<Rightarrow> int \<Rightarrow> bool" where
  "aligned_chunk u ms lo budget limit c \<longleftrightarrow> 0 \<le> c \<and> lo + c \<le> int (length ms) \<and> within c budget \<and> within c limit \<and>
     (0 < c \<and> spaced u ms \<longrightarrow> \<not> inside_block ms (lo + c))"

text \<open>Around the block from \<open>z\<close> to \<open>x\<close>, extending and shortening.\<close>

lemma extended_chunk:
  fixes u lo n rest x :: int
  assumes "0 < u" "0 < n" "0 < x" "ms ! nat (x - 1)" "x < lo + rest \<longrightarrow> \<not> ms ! nat x" "int (length ms) = lo + rest"
  defines "up \<equiv> min (if 0 < u \<and> x < lo + rest then (x + u - 1) div u * u else x) (lo + rest) - lo"
  assumes "within up budget" "within up limit" "up \<le> rest" "up > n"
  shows "aligned_chunk u ms lo budget limit up"
proof -
  have "\<not> inside_block ms (lo + up)" if s: "spaced u ms"
  proof (cases "lo + up < lo + rest")
    case True
    then have x: "x < lo + rest" "lo + up = (x + u - 1) div u * u" using assms(1) by (auto simp: up_def split: if_splits)
    then show ?thesis using after_block [OF s, of x "lo + up"] assms(3-5) round_up [OF assms(1), of x] by auto
  next
    case False
    then show ?thesis using assms(6) by (simp add: inside_block_def)
  qed
  then show ?thesis using assms by (simp add: aligned_chunk_def)
qed

lemma shortened_chunk:
  fixes u lo n z :: int
  assumes "0 < u" "0 \<le> z" "z < lo + n" "lo + n < int (length ms)" "ms ! nat z" "z = 0 \<or> \<not> ms ! nat (z - 1)"
    "within n budget" "within n limit" "lo < z div u * u"
  shows "aligned_chunk u ms lo budget limit (z div u * u - lo)"
proof -
  have d: "z div u * u \<le> z" "z < z div u * u + u" using round_down [OF assms(1), of z] by auto
  then have "\<not> inside_block ms (z div u * u)" if "spaced u ms"
    using before_block [OF that, of z "z div u * u"] assms by auto
  moreover have "z div u * u - lo \<le> n" using d assms(3) by simp
  then have "within (z div u * u - lo) budget" "within (z div u * u - lo) limit"
    using assms(7,8) by (auto simp: within_def split: option.splits)
  ultimately show ?thesis using assms(3,4,9) d by (auto simp: aligned_chunk_def)
qed

lemma snap_chunk_cases:
  fixes u lo n rest z x :: int
  defines "up \<equiv> min (if 0 < u \<and> x < lo + rest then (x + u - 1) div u * u else x) (lo + rest) - lo" 
    and "down \<equiv> (if 0 < u then z div u * u else z)"
  shows "snap_chunk u limit lo n budget rest z x =
    (if \<not> within (x - z) limit then Inl ValueError
     else if within up budget \<and> within up limit \<and> up \<le> rest \<and> up > n then Inr up
     else if down \<le> lo then Inr 0 else Inr (down - lo))"
  unfolding snap_chunk_def Let_def up_def down_def within_def
  by (cases limit; cases budget) (simp_all only: option.case not_le not_True_eq_False simp_thms if_False if_True)

lemma align_chunk_ok:
  fixes u lo n rest :: int
  assumes "0 < u" "0 \<le> lo" "0 < n" "n \<le> rest" "int (length ms) = lo + rest" "context_position r = lo"
    "within n budget" "within n limit"
  defines "result \<equiv> align_chunk_to_mm_block u limit (Some (running_sums ms)) r n budget rest"
  shows "(\<exists>c. result = Inr c \<and> aligned_chunk u ms lo budget limit c \<and> (\<not> inside_block ms (lo + n) \<longrightarrow> c = n)) \<or>
    (\<exists>z x. result = Inl ValueError \<and> \<not> within (x - z) limit \<and> 0 \<le> z \<and> x \<le> int (length ms) \<and> (\<forall>i. z \<le> i \<and> i < x \<longrightarrow> ms ! nat i))"
proof (cases "inside_block ms (lo + n)")
  case False
  have "result = Inr n"
  proof (cases "n < rest")
    case True
    then have "splits_block (running_sums ms) (lo + n) = Inr False" using splits_block_ok [of "lo + n" ms] False assms by simp
    then show ?thesis using True assms by (simp add: result_def align_chunk_to_mm_block_def Let_def)
  qed (use assms in \<open>simp add: result_def align_chunk_to_mm_block_def Let_def\<close>)
  then show ?thesis using False assms by (simp add: aligned_chunk_def)
next
  case True
  have e: "lo + n < lo + rest" "0 < lo + n" using True assms(5) by (auto simp: inside_block_def)
  have sp: "splits_block (running_sums ms) (lo + n) = Inr True" using splits_block_ok [of "lo + n" ms] True e assms(5) by simp
  obtain x y z where w: "block_end_walk (running_sums ms) (lo + rest) (lo + n) = Inr x" "block_start_walk (running_sums ms) (lo + n) = Inr y"
      "(if y = 1 then rbind (cumsum_at (running_sums ms) 0) (\<lambda>c. Inr (if c = 1 then 0 else y)) else Inr y) = Inr z"
    and b: "0 \<le> z" "z < lo + n" "lo + n < x" "x \<le> lo + rest" "\<forall>i. z \<le> i \<and> i < x \<longrightarrow> ms ! nat i" "z = 0 \<or> \<not> ms ! nat (z - 1)"
      "x < lo + rest \<longrightarrow> \<not> ms ! nat x"
    using block_found [OF True assms(5) [symmetric]] by blast
  have run: "result = snap_chunk u limit lo n budget rest z x"
    using e sp w assms(6) by (simp add: result_def align_chunk_to_mm_block_def Let_def)
  have mm: "ms ! nat (x - 1)" "ms ! nat z" "0 < x" using b e by auto
  note up = extended_chunk [OF assms(1,3) mm(3,1) b(7) assms(5)]
    and down = shortened_chunk [OF assms(1) b(1,2) _ mm(2) b(6) assms(7,8)]
  have zero: "aligned_chunk u ms lo budget limit 0"
    using assms(2-5,7,8) by (auto simp: aligned_chunk_def within_def split: option.splits)
  show ?thesis
  proof (cases "within (x - z) limit")
    case False
    then show ?thesis using run b assms(5) unfolding snap_chunk_cases by (intro disjI2 exI [of _ z] exI [of _ x]) auto
  next
    case fits: True
    have "\<exists>c. result = Inr c \<and> aligned_chunk u ms lo budget limit c"
      using run fits up down zero e assms(1,5) unfolding snap_chunk_cases by auto
    then show ?thesis using True by blast
  qed
qed

text \<open>
  C15: \<open>_align_chunk_to_mm_block\<close>, for a chunk of \<open>n\<close> tokens from \<open>lo\<close> on that is within the remaining budget and the limit, and
  for the mask \<open>ms\<close> of the prompt, of which the code has the running sums. It returns a size \<open>c\<close> that is not negative, ends within the
  prompt, and is within budget and limit. If \<open>c\<close> is positive and blocks are at least a chunk unit apart, the chunk does not end inside a
  block. A chunk that does not end inside a block is left alone. The only other outcome is \<open>ValueError\<close>, and then there is a
  run of multimodal tokens that is longer than the limit.
\<close>

theorem mm_blocks_kept:
  fixes u lo n rest :: int
  assumes "0 < u" "0 \<le> lo" "0 < n" "n \<le> rest" "int (length ms) = lo + rest" "context_position r = lo"
    "within n budget" "within n limit"
  defines "result \<equiv> align_chunk_to_mm_block u limit (Some (running_sums ms)) r n budget rest"
  shows "(\<exists>c. result = Inr c \<and> 0 \<le> c \<and> lo + c \<le> int (length ms) \<and> within c budget \<and> within c limit \<and>
      (0 < c \<and> spaced u ms \<longrightarrow> \<not> inside_block ms (lo + c)) \<and> (\<not> inside_block ms (lo + n) \<longrightarrow> c = n)) \<or>
    (\<exists>z x. result = Inl ValueError \<and> \<not> within (x - z) limit \<and> 0 \<le> z \<and> x \<le> int (length ms) \<and> (\<forall>i. z \<le> i \<and> i < x \<longrightarrow> ms ! nat i))"
  using align_chunk_ok [OF assms(1-8)] unfolding result_def aligned_chunk_def by blast

definition demo_mask :: "bool list" where
  "demo_mask = [False, False, True, True, True, True, True, False, False, False, False, False]"

theorem mm_blocks_kept_witness:
  "align_chunk_to_mm_block 4 (Some 10) (Some (running_sums demo_mask)) (demo_request 1 CONTEXT_INIT 12) 4 None 12 = Inr 8 \<and>
     \<not> inside_block demo_mask 8"
proof -
  have run: "align_chunk_to_mm_block 4 (Some 10) (Some (running_sums demo_mask)) (demo_request 1 CONTEXT_INIT 12) 4 None 12 = Inr 8"
    by code_simp
  have "spaced 4 demo_mask" by (simp add: spaced_def demo_mask_def All_less_Suc eval_nat_numeral)
  then show ?thesis
    using run mm_blocks_kept [of 4 0 4 12 demo_mask "demo_request 1 CONTEXT_INIT 12" None "Some 10"]
    by (simp add: demo_mask_def within_def)
qed

text \<open>
  With blocks closer together the chunk may end inside one: rounded up to the unit, the end of the first block is inside the
  second.
\<close>

theorem mm_block_split_by_rounding:
  "let ms = [False, False, True, True, True, True, False, True, True, True, True, True, False, False, False, False] in
   align_chunk_to_mm_block 4 None (Some (running_sums ms)) (demo_request 1 CONTEXT_INIT 16) 4 None 16 = Inr 8 \<and> inside_block ms 8"
  by code_simp

text \<open>
  A block that fits the limit but not with its end rounded up is put off although nothing else is scheduled: with the whole
  limit of ten tokens as the budget, a block of nine at the start of the prompt gets no chunk.
\<close>

theorem mm_block_never_scheduled:
  "align_chunk_to_mm_block 4 (Some 10) (Some (running_sums (replicate 9 True @ replicate 11 False))) (demo_request 1 CONTEXT_INIT 20) 8 (Some 10) 20
     = Inr 0"
  by code_simp

end
