(* ===== verification/V2Scheduling.thy ===== *)
theory V2Scheduling
  imports V2Alignment
begin

text \<open>
  What one call of \<open>KVCacheV2Scheduler.schedule_request\<close> guarantees: the answers of the single attempts, the budget, the two phases of
  the loop as invariants, and the schedule that is returned.
\<close>

section \<open>What the managers keep\<close>

text \<open>
  Preparing the cache of a request moves its position but leaves it the request it was; a cross manager of another kind leaves it
  as it is.
\<close>

definition keeps_requests :: "'s v2_scheduler \<Rightarrow> bool" where
  "keeps_requests s \<longleftrightarrow>
     (\<forall>r x ok r' x'. prepare_context (v2_kv s) r x = Inr (ok, r', x') \<longrightarrow> request_id r' = request_id r) \<and>
     (\<forall>c r x ok r' x'. v2_cross s = Some (CrossOther c) \<and> prepare_context c r x = Inr (ok, r', x') \<longrightarrow> r' = r)"

lemma prepare_id: "keeps_requests s \<Longrightarrow> prepare (v2_kv s) r st = Inr (ok, r', st') \<Longrightarrow> request_id r' = request_id r"
  unfolding prepare_def rbind_eq_Inr keeps_requests_def by fastforce

lemma cross_prepare_keeps:
  "keeps_requests s \<Longrightarrow> v2_cross s = Some (CrossOther c) \<Longrightarrow> prepare c r st = Inr (ok, r', st') \<Longrightarrow> r' = r"
  unfolding prepare_def rbind_eq_Inr keeps_requests_def by fastforce

lemma cross_keeps:
  assumes "keeps_requests s" "try_schedule_cross_context s q r st = Inr (act, r', st')"
  shows "r' = r"
  using assms(2) cross_prepare_keeps [OF assms(1)]
  by (auto simp: try_schedule_cross_context_def rbind_eq_Inr split: if_splits option.splits cross_manager.splits prod.splits)

lemma reserve_keeps:
  assumes "keeps_requests s" "reserve_context s q r n ch st = Inr (act, r', n', flag, st')"
  shows "r' = r" "act = SCHEDULED \<Longrightarrow> n' = n"
  using assms(2) cross_keeps [OF assms(1)]
  by (auto simp: reserve_context_def rbind_eq_Inr split: if_splits prod.splits)

section \<open>Sizes of chunks\<close>

lemma block_start_walk_le: "block_start_walk cs b = Inr y \<Longrightarrow> y \<le> b"
proof (induction cs b arbitrary: y rule: block_start_walk.induct)
  case (1 cs b)
  then show ?case
    by (subst (asm) (2) block_start_walk.simps) (force simp: rbind_eq_Inr split: if_splits)
qed

lemma snap_bounds:
  assumes "snap_chunk u limit lo n budget rest z x = Inr c" "within n budget" "n \<le> rest" "z \<le> lo + n"
  shows "within c budget \<and> c \<le> rest \<or> c = 0"
proof -
  have "(if u > 0 then z div u * u else z) \<le> z" using round_down [of u z] by auto
  then have "within c budget \<and> c \<le> rest \<or> c \<le> n \<or> c = 0"
    using assms(1,4) unfolding snap_chunk_cases by (auto simp only: sum.inject sum.distinct split: if_splits)
  then show ?thesis using assms(2,3) by (auto simp: within_def split: option.splits)
qed

lemma align_bounds:
  assumes "align_chunk_to_mm_block u limit cumsum r n budget rest = Inr c" "within n budget" "n \<le> rest"
  shows "within c budget \<and> c \<le> rest \<or> c = 0"
proof (cases "c = n")
  case True
  then show ?thesis using assms by simp
next
  case False
  then obtain cs where cs: "cumsum = Some cs" using assms(1) by (cases cumsum) (auto simp: align_chunk_to_mm_block_def)
  obtain x y z where w: "block_start_walk cs (context_position r + n) = Inr y" "z = y \<or> z = 0 \<and> y = 1"
      "snap_chunk u limit (context_position r) n budget rest z x = Inr c"
    using assms(1) False unfolding cs align_chunk_to_mm_block_def Let_def option.case
    by (auto simp: rbind_eq_Inr split: if_splits)
  have "z \<le> context_position r + n" using w(2) block_start_walk_le [OF w(1)] by auto
  then show ?thesis by (rule snap_bounds [OF w(3) assms(2,3)])
qed

lemma first_chunk_bounds:
  assumes "first_chunk_size s budget rest = Inr n" "0 < v2_chunk_unit_size s"
  shows "within n budget" "n \<le> rest"
proof -
  define n2 where "n2 = (let n1 = (case budget of None \<Rightarrow> rest | Some m \<Rightarrow> min m rest) in case v2_max_context_length s of None \<Rightarrow> n1 | Some m \<Rightarrow> min n1 m)"
  have "n \<le> n2" using assms round_down [OF assms(2), of n2] by (auto simp: first_chunk_size_def n2_def Let_def split: if_splits)
  moreover have "within n2 budget" "n2 \<le> rest" by (auto simp: n2_def within_def Let_def min_def split: option.splits)
  ultimately show "within n budget" "n \<le> rest" by (auto simp: within_def split: option.splits)
qed

section \<open>Tokens of a batch\<close>

definition v2_gen_tokens :: "llm_request \<Rightarrow> int" where
  "v2_gen_tokens r = beam_width_by_iter r + num_draft_tokens r"

definition v2_ctx_tokens :: "'s v2_scheduler \<Rightarrow> llm_request \<Rightarrow> int" where
  "v2_ctx_tokens s r =
     (if v2_chunking_enabled s then chunk_size r + (if is_last_context_chunk r \<and> num_draft_tokens r > 0 then num_draft_tokens r else 0)
      else context_remaining_length r + num_draft_tokens r)"

text \<open>Within the limit, apart from the draft tokens of one last chunk.\<close>

definition nearly_within :: "'s v2_scheduler \<Rightarrow> llm_request list \<Rightarrow> int \<Rightarrow> bool" where
  "nearly_within s ctx n \<longleftrightarrow> within n (v2_max_num_tokens s) \<or>
     v2_chunking_enabled s \<and> (\<exists>r \<in> set ctx. is_last_context_chunk r \<and> 0 < num_draft_tokens r \<and> within (n - num_draft_tokens r) (v2_max_num_tokens s))"

lemma can_fit_within: "can_fit_tokens n b \<longleftrightarrow> within (bt_num_tokens b + n) (bt_max_num_tokens b)"
  by (simp add: can_fit_tokens_def within_def not_less split: option.splits)

lemma remaining_within: "within n (remaining_tokens b) \<longleftrightarrow> within (bt_num_tokens b + n) (bt_max_num_tokens b)"
  by (auto simp: remaining_tokens_def within_def split: option.splits)

lemma context_full_answer:
  assumes "keeps_requests s" "try_schedule_context_full s q b st = Inr (act, r, n, flag, st')"
  shows "request_id r = request_id (v2_req q)"
    "act = SCHEDULED \<Longrightarrow> n = context_remaining_length r + num_draft_tokens r \<and> within (bt_num_tokens b + n) (bt_max_num_tokens b)"
proof -
  obtain ok r0 st1 where p: "prepare (v2_kv s) (v2_req q) st = Inr (ok, r0, st1)"
    and cases: "act = STOP \<and> r = r0 \<or>
      can_fit_tokens (context_remaining_length r0 + num_draft_tokens r0) b \<and>
      reserve_context s q r0 (context_remaining_length r0 + num_draft_tokens r0) False st1 = Inr (act, r, n, flag, st')"
    using assms(2) by (auto simp: try_schedule_context_full_def rbind_eq_Inr Let_def py_assert_eq_Inr split: if_splits)
  have id: "request_id r0 = request_id (v2_req q)" by (rule prepare_id [OF assms(1) p])
  show "request_id r = request_id (v2_req q)" using cases id reserve_keeps(1) [OF assms(1)] by blast
  show "n = context_remaining_length r + num_draft_tokens r \<and> within (bt_num_tokens b + n) (bt_max_num_tokens b)" if "act = SCHEDULED"
  proof -
    have fit: "can_fit_tokens (context_remaining_length r0 + num_draft_tokens r0) b"
      and run: "reserve_context s q r0 (context_remaining_length r0 + num_draft_tokens r0) False st1 = Inr (act, r, n, flag, st')"
      using cases that by auto
    show ?thesis using fit reserve_keeps(1) [OF assms(1) run] reserve_keeps(2) [OF assms(1) run that] by (simp add: can_fit_within)
  qed
qed

lemma context_chunked_answer:
  assumes "keeps_requests s" "0 < v2_chunk_unit_size s" "try_schedule_context_chunked s q b st = Inr (act, r, n, flag, st')"
  shows "request_id r = request_id (v2_req q)"
    "act = SCHEDULED \<Longrightarrow> n = chunk_size r + (if is_last_context_chunk r \<and> num_draft_tokens r > 0 then num_draft_tokens r else 0) \<and>
       within (bt_num_tokens b + chunk_size r) (bt_max_num_tokens b)"
proof -
  consider (skip) "act = SKIP" "r = v2_req q"
    | (skip2) ok st1 where "prepare (v2_kv s) (v2_req q) st = Inr (ok, r, st1)" "act = SKIP"
    | (run) ok r0 st1 k c r1 where "prepare (v2_kv s) (v2_req q) st = Inr (ok, r0, st1)"
        "first_chunk_size s (remaining_tokens b) (context_remaining_length r0) = Inr k"
        "align_chunk_to_mm_block (v2_chunk_unit_size s) (v2_max_context_length s) (v2_cumsum q) r0 k (remaining_tokens b)
           (context_remaining_length r0) = Inr c" "c > 0" "set_context_chunk_size c r0 = Inr r1"
        "reserve_context s q r1 (if is_last_context_chunk r1 \<and> num_draft_tokens r1 > 0 then c + num_draft_tokens r1 else c) True st1 =
           Inr (act, r, n, flag, st')"
    using assms(3) unfolding try_schedule_context_chunked_def Let_def
    by (auto simp: rbind_eq_Inr not_le split: if_splits)
  then have "request_id r = request_id (v2_req q) \<and> (act = SCHEDULED \<longrightarrow>
      n = chunk_size r + (if is_last_context_chunk r \<and> num_draft_tokens r > 0 then num_draft_tokens r else 0) \<and>
      within (bt_num_tokens b + chunk_size r) (bt_max_num_tokens b))"
  proof cases
    case run
    have "within c (remaining_tokens b) \<and> c \<le> context_remaining_length r0"
      using align_bounds [OF run(3)] first_chunk_bounds [OF run(2) assms(2)] run(4) by auto
    moreover have r1: "r1 = r0\<lparr>chunk_size := min c (context_remaining_length r0)\<rparr>" using set_chunk_fields [OF run(5)] by simp
    ultimately have c: "chunk_size r1 = c" "within (bt_num_tokens b + c) (bt_max_num_tokens b)" by (simp_all add: remaining_within)
    have "r = r1" "act = SCHEDULED \<Longrightarrow> n = (if is_last_context_chunk r1 \<and> num_draft_tokens r1 > 0 then c + num_draft_tokens r1 else c)"
      using reserve_keeps [OF assms(1) run(6)] by auto
    then show ?thesis using prepare_id [OF assms(1) run(1)] r1 c by auto
  qed (use prepare_id [OF assms(1)] in auto)
  then show "request_id r = request_id (v2_req q)"
      "act = SCHEDULED \<Longrightarrow> n = chunk_size r + (if is_last_context_chunk r \<and> num_draft_tokens r > 0 then num_draft_tokens r else 0) \<and>
       within (bt_num_tokens b + chunk_size r) (bt_max_num_tokens b)"
    by blast+
qed

lemma context_answer:
  assumes "keeps_requests s" "v2_chunking_enabled s \<longrightarrow> 0 < v2_chunk_unit_size s" "try_schedule_context s q b st = Inr (act, r, n, flag, st')"
    "bt_max_num_tokens b = v2_max_num_tokens s"
  shows "request_id r = request_id (v2_req q)"
    "act = SCHEDULED \<Longrightarrow> n = v2_ctx_tokens s r \<and> nearly_within s (ctx @ [r]) (bt_num_tokens b + n)"
proof -
  show "request_id r = request_id (v2_req q)"
    using assms context_full_answer(1) [OF assms(1)] context_chunked_answer(1) [OF assms(1)]
    by (auto simp: try_schedule_context_def split: if_splits)
  assume act: "act = SCHEDULED"
  show "n = v2_ctx_tokens s r \<and> nearly_within s (ctx @ [r]) (bt_num_tokens b + n)"
  proof (cases "v2_chunking_enabled s")
    case True
    then have run: "try_schedule_context_chunked s q b st = Inr (act, r, n, flag, st')" and u: "0 < v2_chunk_unit_size s"
      using assms(2,3) by (simp_all add: try_schedule_context_def)
    have n: "n = chunk_size r + (if is_last_context_chunk r \<and> num_draft_tokens r > 0 then num_draft_tokens r else 0)"
        "within (bt_num_tokens b + chunk_size r) (v2_max_num_tokens s)"
      using context_chunked_answer(2) [OF assms(1) u run act] assms(4) by simp_all
    show ?thesis
    proof (cases "is_last_context_chunk r \<and> num_draft_tokens r > 0")
      case draft: True
      then have "within (bt_num_tokens b + n - num_draft_tokens r) (v2_max_num_tokens s)" using n by (simp add: add.assoc)
      then show ?thesis using True draft n(1) by (auto simp: v2_ctx_tokens_def nearly_within_def)
    qed (use n True in \<open>auto simp: v2_ctx_tokens_def nearly_within_def\<close>)
  next
    case False
    then have run: "try_schedule_context_full s q b st = Inr (act, r, n, flag, st')" using assms(3) by (simp add: try_schedule_context_def)
    show ?thesis
      using context_full_answer(2) [OF assms(1) run act] False unfolding v2_ctx_tokens_def nearly_within_def assms(4) by auto
  qed
qed

section \<open>The second phase\<close>

definition v2_enc_tokens :: "llm_request \<Rightarrow> int" where
  "v2_enc_tokens r = encoder_output_len r"

text \<open>The budget agrees with the lists, and its limits are those of the scheduler.\<close>

definition budget_ok :: "'s v2_scheduler \<Rightarrow> llm_request list \<Rightarrow> llm_request list \<Rightarrow> llm_request list \<Rightarrow> budget_tracker \<Rightarrow> bool" where
  "budget_ok s gen enc ctx b \<longleftrightarrow> bt_max_num_tokens b = v2_max_num_tokens s \<and> bt_max_num_requests b = v2_max_num_requests s \<and>
     bt_num_requests b = int (length (gen @ enc @ ctx)) \<and> bt_num_requests b \<le> v2_max_num_requests s \<and>
     bt_num_tokens b = sum_list (map v2_gen_tokens gen) + sum_list (map v2_enc_tokens enc) + sum_list (map (v2_ctx_tokens s) ctx) \<and>
     nearly_within s ctx (bt_num_tokens b)"

lemma commit_fields [simp]:
  "bt_num_tokens (commit r n p b) = bt_num_tokens b + n" "bt_num_requests (commit r n p b) = bt_num_requests b + 1"
  "bt_max_num_tokens (commit r n p b) = bt_max_num_tokens b" "bt_max_num_requests (commit r n p b) = bt_max_num_requests b"
  by (simp_all add: commit_def commit_peft_def Let_def)

lemma commit_peft_fields [simp]:
  "bt_num_tokens (commit_peft r p b) = bt_num_tokens b" "bt_num_requests (commit_peft r p b) = bt_num_requests b"
  "bt_max_num_tokens (commit_peft r p b) = bt_max_num_tokens b" "bt_max_num_requests (commit_peft r p b) = bt_max_num_requests b"
  by (simp_all add: commit_peft_def)

lemma budget_commit_enc:
  assumes "budget_ok s gen enc ctx b" "\<not> requests_full b" "can_fit_tokens (encoder_output_len r) b"
  shows "budget_ok s gen (enc @ [r]) ctx (commit r (encoder_output_len r) p b)"
  using assms by (auto simp: budget_ok_def requests_full_def can_fit_within nearly_within_def v2_enc_tokens_def)

lemma budget_commit_ctx:
  assumes "budget_ok s gen enc ctx b" "\<not> requests_full b" "n = v2_ctx_tokens s r" "nearly_within s (ctx @ [r]) (bt_num_tokens b + n)"
  shows "budget_ok s gen enc (ctx @ [r]) (commit r n p b)"
  using assms by (auto simp: budget_ok_def requests_full_def)

lemma budget_commit_gen:
  assumes "budget_ok s gen [] [] b" "\<not> requests_full b" "can_fit_tokens (v2_gen_tokens r) b"
  shows "budget_ok s (gen @ [r]) [] [] (commit r (v2_gen_tokens r) p b)"
  using assms by (auto simp: budget_ok_def requests_full_def can_fit_within nearly_within_def)

lemma v2_phase2_step:
  assumes "v2_phase2 s (q # qs) (enc, ctx, ch) b st = Inr res"
  obtains (stop) st1 where "res = ((enc, ctx, ch), b, st1)"
  | (skip) st1 where "v2_phase2 s qs (enc, ctx, ch) b st1 = Inr res"
  | (enc) p where "\<not> requests_full b" "can_fit_tokens (encoder_output_len (v2_req q)) b"
      "v2_phase2 s qs (enc @ [v2_req q], ctx, ch) (commit (v2_req q) (encoder_output_len (v2_req q)) p b) st = Inr res"
  | (ctx) p r n flag st1 where "\<not> requests_full b" "try_schedule_context s q b st = Inr (SCHEDULED, r, n, flag, st1)"
      "v2_phase2 s qs (enc, ctx @ [r], ch \<or> flag) (commit r n p b) st1 = Inr res"
proof (cases "requests_full b \<or> peft_pages_needed (v2_req q) b = None")
  case True
  then show ?thesis using assms that(1,2) by (auto simp: Let_def split: if_splits)
next
  case False
  then obtain p where go: "\<not> requests_full b" "peft_pages_needed (v2_req q) b = Some p" by auto
  show ?thesis
  proof (cases "state_code (request_state (v2_req q)) = state_code ENCODER_INIT")
    case True
    then have "rbind (try_schedule_encoder s (v2_req q) b) (\<lambda>(act, n). if act = STOP then Inr ((enc, ctx, ch), b, st)
        else v2_phase2 s qs (enc @ [v2_req q], ctx, ch) (commit (v2_req q) n p b) st) = Inr res"
      using assms go by (simp add: Let_def)
    then show ?thesis using that(1,3) go(1)
      by (auto simp: rbind_eq_Inr try_schedule_encoder_def py_assert_eq_Inr split: if_splits)
  next
    case False
    then obtain act r n flag st1 where c: "try_schedule_context s q b st = Inr (act, r, n, flag, st1)"
      and k: "(if act = STOP then Inr ((enc, ctx, ch), b, st1) else if act = SKIP then v2_phase2 s qs (enc, ctx, ch) b st1
        else v2_phase2 s qs (enc, ctx @ [r], ch \<or> flag) (commit r n p b) st1) = Inr res"
      using assms go by (auto simp: Let_def rbind_eq_Inr)
    show ?thesis using that(1,2,4) c k go(1) by (cases act) auto
  qed
qed

lemma v2_phase2_ok:
  assumes "keeps_requests s" "v2_chunking_enabled s \<longrightarrow> 0 < v2_chunk_unit_size s"
  shows "v2_phase2 s qs (enc, ctx, ch) b st = Inr ((enc', ctx', ch'), b', st') \<Longrightarrow> budget_ok s gen enc ctx b \<Longrightarrow>
    budget_ok s gen enc' ctx' b' \<and>
    mset (map request_id (enc' @ ctx')) \<subseteq># mset (map request_id (enc @ ctx)) + mset (map (\<lambda>q. request_id (v2_req q)) qs)"
proof (induction qs arbitrary: enc ctx ch b st)
  case (Cons q qs)
  from Cons.prems(1) show ?case
  proof (cases rule: v2_phase2_step)
    case (stop st1)
    then show ?thesis using Cons.prems(2) by auto
  next
    case (skip st1)
    have "mset (map request_id (enc' @ ctx')) \<subseteq># mset (map request_id (enc @ ctx)) + mset (map (\<lambda>q. request_id (v2_req q)) qs)"
        "budget_ok s gen enc' ctx' b'"
      using Cons.IH [OF skip Cons.prems(2)] by auto
    then show ?thesis by (auto intro: subset_mset.order_trans)
  next
    case (enc p)
    then show ?thesis using Cons.IH [OF enc(3) budget_commit_enc [OF Cons.prems(2) enc(1,2)]] by (simp add: ac_simps)
  next
    case (ctx p r n flag st1)
    have max: "bt_max_num_tokens b = v2_max_num_tokens s" using Cons.prems(2) by (simp add: budget_ok_def)
    note a = context_answer [OF assms ctx(2) max]
    have "budget_ok s gen enc (ctx @ [r]) (commit r n p b)"
      using a(2) [OF HOL.refl, of ctx] budget_commit_ctx [OF Cons.prems(2) ctx(1)] by blast
    then show ?thesis using Cons.IH [OF ctx(3)] a(1) by (simp add: ac_simps)
  qed
qed simp

section \<open>Making room\<close>

text \<open>The requests from position \<open>i\<close> up to \<open>e\<close>, by their identifiers.\<close>

definition seg :: "llm_request list \<Rightarrow> nat \<Rightarrow> nat \<Rightarrow> int multiset" where
  "seg rs i e = mset (map request_id (take (e - i) (drop i rs)))"

lemma seg_Suc: "i < e \<Longrightarrow> e \<le> length rs \<Longrightarrow> seg rs i e = {#request_id (rs ! i)#} + seg rs (Suc i) e"
  by (simp add: seg_def Cons_nth_drop_Suc [symmetric] Suc_diff_Suc [symmetric])

lemma seg_split:
  assumes "i \<le> v" "v < e" "e \<le> length rs"
  shows "seg rs i v + {#request_id (rs ! v)#} \<subseteq># seg rs i e"
proof -
  have "take (Suc (v - i)) (drop i rs) = take (v - i) (drop i rs) @ [drop i rs ! (v - i)]"
    using assms by (intro take_Suc_conv_app_nth) simp
  then have "take (Suc v - i) (drop i rs) = take (v - i) (drop i rs) @ [rs ! v]" using assms by (simp add: Suc_diff_le)
  moreover have "take (e - i) (drop i rs) = take (Suc v - i) (drop i rs) @ take (e - Suc v) (drop (Suc v - i) (drop i rs))"
    using assms take_add [of "Suc v - i" "e - Suc v" "drop i rs"] by simp
  ultimately show ?thesis by (simp add: seg_def)
qed

lemma try_evict_ok:
  "try_evict_for_gen s r rs i e ev st = (e', ok, ev', st') \<Longrightarrow> i < e \<Longrightarrow> e \<le> length rs \<Longrightarrow>
    i < e' \<and> e' \<le> e \<and> (\<exists>vs. ev' = ev @ vs \<and> seg rs i e' + mset (map request_id vs) \<subseteq># seg rs i e \<and> (\<forall>v \<in> set vs. v2_is_started_request v))"
proof (induction s r rs i e ev st arbitrary: e' ok ev' st' rule: try_evict_for_gen.induct)
  case (1 s r rs i e ev st)
  show ?case
  proof (cases "find_victim s st rs i e")
    case None
    then have "(e', ok, ev', st') = (e, False, ev, st)" using "1.prems" by (subst (asm) try_evict_for_gen.simps) simp
    then show ?thesis using "1.prems"(2) by simp
  next
    case (Some v)
    have v: "i < v" "v < e" "is_evictable s st (rs ! v)" using find_victim_range [OF Some] by auto
    have started: "v2_is_started_request (rs ! v)" using v(3) by (auto simp: is_evictable_def split: if_splits)
    have one: "seg rs i v + {#request_id (rs ! v)#} \<subseteq># seg rs i e" using seg_split [of i v e rs] v "1.prems"(3) by simp
    obtain ok1 st1 where a: "on_caches (try_allocate_generation (v2_kv s) r) (v2_suspend s (rs ! v) st) = (ok1, st1)" by force
    have run: "(if ok1 then (v, True, ev @ [rs ! v], st1) else try_evict_for_gen s r rs i v (ev @ [rs ! v]) st1) = (e', ok, ev', st')"
      using "1.prems"(1,2) Some a by (subst (asm) try_evict_for_gen.simps) simp
    show ?thesis
    proof (cases ok1)
      case True
      then show ?thesis using run v started one by auto
    next
      case False
      then have "i < e' \<and> e' \<le> v \<and> (\<exists>vs. ev' = (ev @ [rs ! v]) @ vs \<and> seg rs i e' + mset (map request_id vs) \<subseteq># seg rs i v \<and>
          (\<forall>v \<in> set vs. v2_is_started_request v))"
        using "1.IH" [OF "1.prems"(2) Some a [symmetric] False, of e' ok ev' st'] run v "1.prems"(3) by simp
      then obtain vs where vs: "i < e'" "e' \<le> v" "ev' = ev @ rs ! v # vs" "seg rs i e' + mset (map request_id vs) \<subseteq># seg rs i v"
          "\<forall>v \<in> set vs. v2_is_started_request v"
        by auto
      have "seg rs i e' + mset (map request_id (rs ! v # vs)) \<subseteq># seg rs i e"
        using subset_mset.order_trans [OF subset_mset.add_right_mono [OF vs(4), of "{#request_id (rs ! v)#}"] one] by (simp add: ac_simps)
      then show ?thesis using vs v started by (intro conjI exI [of _ "rs ! v # vs"]) auto
    qed
  qed
qed

text \<open>The answers for a generation request.\<close>

lemma generation_answer:
  assumes "try_schedule_generation s r b rs i e ev beam st = (act, n, beam', e', ev', st')" "i < e" "e \<le> length rs" "rs ! i = r"
  obtains (scheduled) vs where "act = SCHEDULED" "n = v2_gen_tokens r" "can_fit_tokens n b" "beam' = beam_width_by_iter r"
      "beam = 0 \<or> beam = beam_width_by_iter r" "i < e'" "e' \<le> e" "ev' = ev @ vs" "seg rs i e' + mset (map request_id vs) \<subseteq># seg rs i e"
  | (skip) "act = SKIP" "beam' = beam" "e' = e" "ev' = ev"
  | (stop) vs where "act = STOP" "beam = 0 \<or> beam' = beam" "e' \<le> e" "ev' = ev @ vs" "mset (map request_id vs) \<subseteq># seg rs i e"
proof (cases "\<not> can_fit_tokens (v2_gen_tokens r) b \<or> beam \<noteq> 0 \<and> beam \<noteq> beam_width_by_iter r")
  case True
  then show ?thesis using assms(1) that(2,3) by (auto simp: try_schedule_generation_def v2_gen_tokens_def Let_def split: if_splits)
next
  case False
  then have fit: "can_fit_tokens (v2_gen_tokens r) b" "beam = 0 \<or> beam = beam_width_by_iter r" by auto
  obtain ok st1 where a: "on_caches (try_allocate_generation (v2_kv s) r) st = (ok, st1)" by force
  obtain e2 ok2 ev2 st2 where x: "(if ok then (e, True, ev, st1) else try_evict_for_gen s r rs i e ev st1) = (e2, ok2, ev2, st2)"
    by (metis prod.exhaust)
  have run: "(act, n, beam', e', ev', st') = (if ok2 then (SCHEDULED, v2_gen_tokens r, beam_width_by_iter r, e2, ev2, st2)
      else if is_request_active (v2_kv s) (request_id r) (v2_caches st2) then (STOP, 0, beam_width_by_iter r, e2, ev2 @ [r], v2_suspend s r st2)
      else (STOP, 0, beam_width_by_iter r, e2, ev2, st2))"
    using assms(1) fit a x by (auto simp: try_schedule_generation_def v2_gen_tokens_def Let_def split: if_splits)
  have ev: "i < e2 \<and> e2 \<le> e \<and> (\<exists>vs. ev2 = ev @ vs \<and> seg rs i e2 + mset (map request_id vs) \<subseteq># seg rs i e)"
    using x try_evict_ok [of s r rs i e ev st1] assms(2,3) by (cases ok) auto
  then obtain vs where vs: "i < e2" "e2 \<le> e" "ev2 = ev @ vs" "seg rs i e2 + mset (map request_id vs) \<subseteq># seg rs i e" by blast
  have "{#request_id r#} \<subseteq># seg rs i e2" using seg_Suc [of i e2 rs] vs assms(3,4) by simp
  then have "mset (map request_id (vs @ [r])) \<subseteq># seg rs i e2 + mset (map request_id vs)" by simp
  then have self: "mset (map request_id (vs @ [r])) \<subseteq># seg rs i e" using vs(4) by (rule subset_mset.order_trans)
  have self': "mset (map request_id vs) \<subseteq># seg rs i e" by (rule subset_mset.order_trans [OF mset_subset_eq_add_right vs(4)])
  show ?thesis
    using run vs self self' fit that(1) [of vs] that(3) [of vs] that(3) [of "vs @ [r]"] by (auto split: if_splits)
qed

section \<open>The first phase\<close>

lemmas phase1_Cons = v2_phase1.simps(2) [unfolded Let_def]

lemma v2_phase1_step:
  assumes "v2_phase1 s inflight rs i (q # qs) l = Inr l'"
  obtains (stop) st where "l' = l\<lparr>vl_state := st\<rparr>"
  | (skip) st where "i < vl_end l" "v2_phase1 s inflight rs (Suc i) qs (l\<lparr>vl_state := st\<rparr>) = Inr l'"
  | (disagg) r1 st p where "i < vl_end l" "request_id (v2_req q) \<notin> set inflight"
      "try_schedule_disagg_gen_init s (v2_req q) (vl_state l) = Inr (SCHEDULED, r1, st)"
      "v2_phase1 s inflight rs (Suc i) qs (l\<lparr>vl_state := st, vl_disagg := vl_disagg l @ [r1],
         vl_budget := (if p > 0 then commit_peft r1 p (vl_budget l) else vl_budget l)\<rparr>) = Inr l'"
  | (pending) "i < vl_end l" "request_id (v2_req q) \<notin> set inflight"
      "v2_phase1 s inflight rs (Suc i) qs (l\<lparr>vl_pending := vl_pending l @ [q]\<rparr>) = Inr l'"
  | (gen) act n beam e ev st p where "i < vl_end l" "request_id (v2_req q) \<notin> set inflight" "\<not> requests_full (vl_budget l)"
      "try_schedule_generation s (v2_req q) (vl_budget l) rs i (vl_end l) (vl_evicted l) (vl_beam l) (vl_state l) = (act, n, beam, e, ev, st)"
      "(if act = STOP then Inr (l\<lparr>vl_beam := beam, vl_end := e, vl_evicted := ev, vl_state := st\<rparr>)
        else if act = SKIP then v2_phase1 s inflight rs (Suc i) qs (l\<lparr>vl_beam := beam, vl_end := e, vl_evicted := ev, vl_state := st\<rparr>)
        else v2_phase1 s inflight rs (Suc i) qs
          (l\<lparr>vl_beam := beam, vl_end := e, vl_evicted := ev, vl_state := st, vl_gen := vl_gen l @ [v2_req q], vl_budget := commit (v2_req q) n p (vl_budget l)\<rparr>)) = Inr l'"
proof (cases "\<not> i < vl_end l \<or> request_id (v2_req q) \<in> set inflight")
  case True
  have "l\<lparr>vl_state := vl_state l\<rparr> = l" by simp
  then show ?thesis using True assms that(1) [of "vl_state l"] that(2) [of "vl_state l"] unfolding phase1_Cons
    by (cases "i < vl_end l") simp_all
next
  case False
  then have go: "i < vl_end l" "request_id (v2_req q) \<notin> set inflight" by auto
  have inside: "\<not> \<not> i < vl_end l" using go(1) by simp
  have same: "l\<lparr>vl_state := vl_state l\<rparr> = l" by simp
  let ?v = "state_code (request_state (v2_req q))"
  show ?thesis
  proof (cases "?v = state_code DISAGG_GENERATION_INIT")
    case True
    note eq = assms [unfolded phase1_Cons if_not_P [OF inside] if_not_P [OF go(2)] if_P [OF True]]
    show ?thesis
    proof (cases "peft_pages_needed (v2_req q) (vl_budget l)")
      case None
      then show ?thesis using eq that(1) [of "vl_state l"] by simp
    next
      case (Some p)
      then obtain act r1 st where a: "try_schedule_disagg_gen_init s (v2_req q) (vl_state l) = Inr (act, r1, st)"
        and k: "(if act = STOP then Inr (l\<lparr>vl_state := st\<rparr>)
           else if act = SKIP then v2_phase1 s inflight rs (Suc i) qs (l\<lparr>vl_state := st\<rparr>)
           else v2_phase1 s inflight rs (Suc i) qs (l\<lparr>vl_state := st, vl_disagg := vl_disagg l @ [r1],
             vl_budget := (if p > 0 then commit_peft r1 p (vl_budget l) else vl_budget l)\<rparr>)) = Inr l'"
        using eq by (auto simp only: rbind_eq_Inr option.case prod.case)
      show ?thesis using that(1) [of st] that(2) [of st] that(3) [of r1 st p] a k go by (cases act) auto
    qed
  next
    case False
    note eq = assms [unfolded phase1_Cons if_not_P [OF inside] if_not_P [OF go(2)] if_not_P [OF False]]
    show ?thesis
    proof (cases "requests_full (vl_budget l) \<or> \<not> (?v \<ge> v2_until s \<and> ?v < v2_after s)")
      case True
      then show ?thesis using eq go that(1) [of "vl_state l"] that(2) [of "vl_state l"] unfolding same
        by (cases "requests_full (vl_budget l)") simp_all
    next
      case ready: False
      then have full: "\<not> requests_full (vl_budget l)" and range: "\<not> \<not> (?v \<ge> v2_until s \<and> ?v < v2_after s)" by blast+
      note eq = eq [unfolded if_not_P [OF full] if_not_P [OF range]]
      show ?thesis
      proof (cases "?v = state_code ENCODER_INIT \<or> ?v = state_code CONTEXT_INIT")
        case True
        show ?thesis by (rule that(4) [OF go eq [unfolded if_P [OF True]]])
      next
        case gen: False
        note eq = eq [unfolded if_not_P [OF gen]]
        show ?thesis
        proof (cases "peft_pages_needed (v2_req q) (vl_budget l)")
          case None
          then show ?thesis using eq that(1) [of "vl_state l"] by simp
        next
          case (Some p)
          obtain act n beam e ev st where
            g: "try_schedule_generation s (v2_req q) (vl_budget l) rs i (vl_end l) (vl_evicted l) (vl_beam l) (vl_state l) = (act, n, beam, e, ev, st)"
            by (metis prod.exhaust)
          show ?thesis by (rule that(5) [OF go full g eq [unfolded Some option.case g prod.case]])
        qed
      qed
    qed
  qed
qed

text \<open>Everything the loop has put into one of its lists, and the invariant.\<close>

definition taken :: "'s v2_loop \<Rightarrow> int multiset" where
  "taken l = mset (map request_id (vl_gen l @ vl_evicted l @ vl_disagg l @ map v2_req (vl_pending l)))"

definition loop_inv :: "'s v2_scheduler \<Rightarrow> int list \<Rightarrow> 's v2_loop \<Rightarrow> bool" where
  "loop_inv s inflight l \<longleftrightarrow> budget_ok s (vl_gen l) [] [] (vl_budget l) \<and>
     (\<forall>r \<in> set (vl_gen l). beam_width_by_iter r = vl_beam l \<and> 0 < beam_width_by_iter r) \<and>
     (\<forall>r \<in> set (vl_gen l @ vl_disagg l @ map v2_req (vl_pending l)). request_id r \<notin> set inflight)"

lemma disagg_keeps: "keeps_requests s \<Longrightarrow> try_schedule_disagg_gen_init s r st = Inr (act, r1, st') \<Longrightarrow> request_id r1 = request_id r"
  by (auto simp: try_schedule_disagg_gen_init_def rbind_eq_Inr dest: prepare_id split: if_splits prod.splits)

lemma budget_commit_peft: "budget_ok s gen enc ctx b \<Longrightarrow> budget_ok s gen enc ctx (if p > 0 then commit_peft r p b else b)"
  by (auto simp: budget_ok_def)

lemma phase1_gen:
  assumes "loop_inv s inflight l" "vl_end l \<le> length rs" "i < vl_end l" "request_id r \<notin> set inflight" "\<not> requests_full (vl_budget l)"
    and g: "try_schedule_generation s r (vl_budget l) rs i (vl_end l) (vl_evicted l) (vl_beam l) (vl_state l) = (act, n, beam, e, ev, st)"
    and "rs ! i = r" "0 < beam_width_by_iter r"
    and run: "(if act = STOP then Inr (l\<lparr>vl_beam := beam, vl_end := e, vl_evicted := ev, vl_state := st\<rparr>)
        else if act = SKIP then f (l\<lparr>vl_beam := beam, vl_end := e, vl_evicted := ev, vl_state := st\<rparr>)
        else f (l\<lparr>vl_beam := beam, vl_end := e, vl_evicted := ev, vl_state := st, vl_gen := vl_gen l @ [r], vl_budget := commit r n p (vl_budget l)\<rparr>)) = Inr l'"
    and IH: "\<And>l1. f l1 = Inr l' \<Longrightarrow> vl_end l1 \<le> length rs \<Longrightarrow> loop_inv s inflight l1 \<Longrightarrow>
      loop_inv s inflight l' \<and> taken l' \<subseteq># taken l1 + seg rs (Suc i) (vl_end l1)"
  shows "loop_inv s inflight l' \<and> taken l' \<subseteq># taken l + seg rs i (vl_end l)"
proof -
  have beams: "vl_gen l = [] \<or> vl_beam l \<noteq> 0" using assms(1) by (cases "vl_gen l") (auto simp: loop_inv_def)
  have first: "seg rs i (vl_end l) = {#request_id r#} + seg rs (Suc i) (vl_end l)" using seg_Suc assms(2,3,7) by metis
  from g assms(3,2,7) show ?thesis
  proof (cases rule: generation_answer)
    case (scheduled vs)
    let ?l1 = "l\<lparr>vl_beam := beam, vl_end := e, vl_evicted := ev, vl_state := st, vl_gen := vl_gen l @ [r], vl_budget := commit r n p (vl_budget l)\<rparr>"
    have "budget_ok s (vl_gen l @ [r]) [] [] (commit r n p (vl_budget l))"
      using budget_commit_gen [of s "vl_gen l" "vl_budget l" r p] assms(1,5) scheduled(2,3) by (simp add: loop_inv_def)
    then have l1: "loop_inv s inflight ?l1" using assms(1,4,8) beams scheduled(4,5) by (auto simp: loop_inv_def)
    have t: "taken ?l1 = taken l + {#request_id r#} + mset (map request_id vs)" by (simp add: taken_def scheduled(8))
    have "seg rs i e = {#request_id r#} + seg rs (Suc i) e" using seg_Suc [of i e rs] scheduled(6,7) assms(2,7) by simp
    then have "taken ?l1 + seg rs (Suc i) e = taken l + (seg rs i e + mset (map request_id vs))" by (simp add: t ac_simps)
    also have "\<dots> \<subseteq># taken l + seg rs i (vl_end l)" using scheduled(9) by simp
    finally have le: "taken ?l1 + seg rs (Suc i) e \<subseteq># taken l + seg rs i (vl_end l)" .
    have "f ?l1 = Inr l'" using run scheduled(1) by simp
    from IH [OF this] l1 scheduled(7) assms(2) have "loop_inv s inflight l' \<and> taken l' \<subseteq># taken ?l1 + seg rs (Suc i) e" by simp
    then show ?thesis using le subset_mset.order_trans by blast
  next
    case skip
    let ?l1 = "l\<lparr>vl_beam := beam, vl_end := e, vl_evicted := ev, vl_state := st\<rparr>"
    have l1: "loop_inv s inflight ?l1" "taken ?l1 = taken l" "vl_end ?l1 = vl_end l" using assms(1) skip by (auto simp: loop_inv_def taken_def)
    have "f ?l1 = Inr l'" using run skip(1) by simp
    from IH [OF this] l1 assms(2) have "loop_inv s inflight l' \<and> taken l' \<subseteq># taken l + seg rs (Suc i) (vl_end l)" by simp
    moreover have "taken l + seg rs (Suc i) (vl_end l) \<subseteq># taken l + seg rs i (vl_end l)" by (simp add: first)
    ultimately show ?thesis using subset_mset.order_trans by blast
  next
    case (stop vs)
    have l': "l' = l\<lparr>vl_beam := beam, vl_end := e, vl_evicted := ev, vl_state := st\<rparr>" using run stop(1) by simp
    have t: "taken l' = taken l + mset (map request_id vs)" by (simp add: taken_def l' stop(4))
    have "loop_inv s inflight l'" using assms(1) beams stop(2) by (auto simp: loop_inv_def l')
    then show ?thesis using stop(5) by (simp add: t)
  qed
qed

lemma v2_phase1_ok:
  assumes "keeps_requests s"
  shows "v2_phase1 s inflight rs i qs l = Inr l' \<Longrightarrow> map v2_req qs = drop i rs \<Longrightarrow> vl_end l \<le> length rs \<Longrightarrow>
    \<forall>q \<in> set qs. 0 < beam_width_by_iter (v2_req q) \<Longrightarrow> loop_inv s inflight l \<Longrightarrow>
    loop_inv s inflight l' \<and> taken l' \<subseteq># taken l + seg rs i (vl_end l)"
proof (induction qs arbitrary: i l)
  case Nil
  then show ?case by simp
next
  case (Cons q qs)
  have i: "i < length rs" using Cons.prems(2) by (metis drop_eq_Nil2 leI list.distinct(1) list.simps(9))
  then have ri: "rs ! i = v2_req q" "map v2_req qs = drop (Suc i) rs" using Cons.prems(2) by (simp_all add: Cons_nth_drop_Suc [symmetric])
  note IH = Cons.IH [of "Suc i", OF _ ri(2)] and seg = seg_Suc [of i _ rs, unfolded ri(1)]
  have beams: "\<forall>q \<in> set qs. 0 < beam_width_by_iter (v2_req q)" "0 < beam_width_by_iter (v2_req q)" using Cons.prems(4) by auto
  have inv: "loop_inv s inflight l" and e: "vl_end l \<le> length rs" using Cons.prems by auto
  from Cons.prems(1) show ?case
  proof (cases rule: v2_phase1_step)
    case (stop st)
    then show ?thesis using inv by (auto simp: loop_inv_def taken_def)
  next
    case (skip st)
    have l1: "loop_inv s inflight (l\<lparr>vl_state := st\<rparr>)" "taken (l\<lparr>vl_state := st\<rparr>) = taken l" using inv by (auto simp: loop_inv_def taken_def)
    show ?thesis using IH [OF skip(2) _ beams(1) l1(1)] e seg [OF skip(1) e] subset_mset.order_trans by (fastforce simp: l1(2))
  next
    case (disagg r1 st p)
    let ?l1 = "l\<lparr>vl_state := st, vl_disagg := vl_disagg l @ [r1], vl_budget := (if p > 0 then commit_peft r1 p (vl_budget l) else vl_budget l)\<rparr>"
    have "request_id r1 = request_id (v2_req q)" by (rule disagg_keeps [OF assms disagg(3)])
    then have l1: "loop_inv s inflight ?l1" "taken ?l1 = taken l + {#request_id (v2_req q)#}"
      using inv budget_commit_peft [of s "vl_gen l" "[]" "[]" "vl_budget l" p r1] disagg(2) by (auto simp: loop_inv_def taken_def)
    show ?thesis using IH [OF disagg(4) _ beams(1) l1(1)] e seg [OF disagg(1) e] by (simp add: l1(2) ac_simps)
  next
    case pending
    let ?l1 = "l\<lparr>vl_pending := vl_pending l @ [q]\<rparr>"
    have l1: "loop_inv s inflight ?l1" "taken ?l1 = taken l + {#request_id (v2_req q)#}"
      using inv pending(2) by (auto simp: loop_inv_def taken_def)
    show ?thesis using IH [OF pending(3) _ beams(1) l1(1)] e seg [OF pending(1) e] by (simp add: l1(2) ac_simps)
  next
    case (gen act n beam e' ev st p)
    show ?thesis by (rule phase1_gen [OF inv e gen(1-4) ri(1) beams(2) gen(5) IH [OF _ _ beams(1)]])
  qed
qed

section \<open>One scheduling step\<close>

lemma pre_claim_budget: "budget_ok s gen enc ctx b \<Longrightarrow> budget_ok s gen enc ctx (pre_claim_peft r b)"
  by (auto simp: pre_claim_peft_def budget_ok_def split: option.splits)

lemma start_budget:
  assumes "0 \<le> v2_max_num_requests s" "within 0 (v2_max_num_tokens s)"
  shows "budget_ok s [] [] [] (vl_budget (v2_start s qs st))"
proof -
  have "budget_ok s [] [] [] (fold (\<lambda>q b. if request_state (v2_req q) = GENERATION_TO_COMPLETE then pre_claim_peft (v2_req q) b else b) qs b)"
    if "budget_ok s [] [] [] b" for b
    using that by (induction qs arbitrary: b) (simp_all add: pre_claim_budget)
  moreover have "budget_ok s [] [] [] (bt_init (v2_max_num_tokens s) (v2_max_num_requests s) (v2_peft s))"
    using assms by (simp add: budget_ok_def bt_init_def nearly_within_def)
  ultimately show ?thesis by (simp add: v2_start_def)
qed

lemma start_inv:
  assumes "0 \<le> v2_max_num_requests s" "within 0 (v2_max_num_tokens s)"
  shows "loop_inv s inflight (v2_start s qs st)" "taken (v2_start s qs st) = {#}" "vl_end (v2_start s qs st) = length qs"
proof -
  have "vl_gen (v2_start s qs st) = []" "vl_disagg (v2_start s qs st) = []" "vl_pending (v2_start s qs st) = []" "vl_evicted (v2_start s qs st) = []"
    by (simp_all add: v2_start_def)
  then show "loop_inv s inflight (v2_start s qs st)" "taken (v2_start s qs st) = {#}"
    using start_budget [OF assms, of qs st] by (simp_all add: loop_inv_def taken_def)
qed (simp add: v2_start_def)

text \<open>What the loop answers.\<close>

definition loop_answer_ok where
  "loop_answer_ok s qs inflight enc ctx l \<longleftrightarrow> budget_ok s (vl_gen l) enc ctx (vl_budget l) \<and>
     (\<exists>w. \<forall>r \<in> set (vl_gen l). beam_width_by_iter r = w) \<and>
     (\<forall>r \<in> set (enc @ ctx @ vl_gen l @ vl_disagg l). request_id r \<notin> set inflight) \<and>
     mset (map request_id (enc @ ctx @ vl_gen l @ vl_evicted l @ vl_disagg l)) \<subseteq># mset (map (\<lambda>q. request_id (v2_req q)) qs) \<and>
     (list_ex (is_gen_candidate inflight) (map v2_req qs) \<longrightarrow> vl_gen l \<noteq> [] \<or> ctx \<noteq> [] \<or> vl_evicted l \<noteq> [])"

lemma v2_schedule_loop_ok:
  assumes "keeps_requests s" "0 \<le> v2_max_num_requests s" "within 0 (v2_max_num_tokens s)"
    "v2_chunking_enabled s \<longrightarrow> 0 < v2_chunk_unit_size s" "\<forall>q \<in> set qs. 0 < beam_width_by_iter (v2_req q)"
    "v2_schedule_loop s qs inflight st = Inr (enc, ctx, chunked, l)"
  shows "loop_answer_ok s qs inflight enc ctx l"
proof -
  obtain l1 b st2 where p1: "v2_phase1 s inflight (map v2_req qs) 0 qs (v2_start s qs st) = Inr l1"
    and p2: "v2_phase2 s (vl_pending l1) ([], [], False) (vl_budget l1) (vl_state l1) = Inr ((enc, ctx, chunked), b, st2)"
    and l: "l = l1\<lparr>vl_budget := b, vl_state := st2\<rparr>"
    and progress: "\<not> (vl_gen l1 = [] \<and> ctx = [] \<and> list_ex (is_gen_candidate inflight) (map v2_req qs) \<and> vl_evicted l1 = [])"
    using assms(6) by (auto simp: v2_schedule_loop_def rbind_eq_Inr split: if_splits prod.splits)
  note start = start_inv [OF assms(2,3)]
  have one: "loop_inv s inflight l1 \<and> taken l1 \<subseteq># mset (map (\<lambda>q. request_id (v2_req q)) qs)"
    using v2_phase1_ok [OF assms(1) p1 _ _ assms(5) start(1)] by (simp add: start seg_def o_def)
  then have two: "budget_ok s (vl_gen l1) enc ctx b"
    and sub: "mset (map request_id (enc @ ctx)) \<subseteq># mset (map (\<lambda>q. request_id (v2_req q)) (vl_pending l1))"
    using v2_phase2_ok [OF assms(1,4) p2] by (auto simp: loop_inv_def)
  have "mset (map request_id (enc @ ctx @ vl_gen l1 @ vl_evicted l1 @ vl_disagg l1)) =
      mset (map request_id (enc @ ctx)) + mset (map request_id (vl_gen l1 @ vl_evicted l1 @ vl_disagg l1))" by simp
  also have "\<dots> \<subseteq># mset (map (\<lambda>q. request_id (v2_req q)) (vl_pending l1)) + mset (map request_id (vl_gen l1 @ vl_evicted l1 @ vl_disagg l1))"
    using sub by simp
  also have "\<dots> = taken l1" by (simp add: taken_def o_def ac_simps)
  finally have ids: "mset (map request_id (enc @ ctx @ vl_gen l1 @ vl_evicted l1 @ vl_disagg l1)) \<subseteq># mset (map (\<lambda>q. request_id (v2_req q)) qs)"
    using one subset_mset.order_trans by blast
  have "request_id ` set (enc @ ctx) \<subseteq> (\<lambda>q. request_id (v2_req q)) ` set (vl_pending l1)"
    using set_mset_mono [OF sub] by (simp add: image_Un)
  then have "\<forall>r \<in> set (enc @ ctx). request_id r \<notin> set inflight" using one by (fastforce simp: loop_inv_def)
  then show ?thesis using one two ids progress unfolding loop_answer_ok_def l by (auto simp: loop_inv_def)
qed

lemma v2_sort_mset:
  "v2_sort_requests ctx gen chunked = (ctx', gen') \<Longrightarrow> mset ctx' = mset ctx \<and> mset gen' = mset gen"
  by (auto simp: v2_sort_requests_def multiset_partition [symmetric] split: if_splits)

lemma mset_facts:
  fixes f :: "'a \<Rightarrow> int"
  assumes "mset xs = mset ys"
  shows "set xs = set ys" "length xs = length ys" "sum_list (map f xs) = sum_list (map f ys)" "xs = [] \<longleftrightarrow> ys = []"
    "mset (map g xs) = mset (map g ys)"
proof -
  show "set xs = set ys" "length xs = length ys" by (rule mset_eq_setD [OF assms], rule mset_eq_length [OF assms])
  show "mset (map g xs) = mset (map g ys)" using assms by simp
  show "xs = [] \<longleftrightarrow> ys = []" using mset_eq_length [OF assms] by auto
  have "mset (map f xs) = mset (map f ys)" using assms by simp
  then show "sum_list (map f xs) = sum_list (map f ys)" by (metis sum_mset_sum_list)
qed

lemma candidate_not_waiting: "is_gen_candidate inflight r \<Longrightarrow> \<not> is_decoder_context_request_waiting_for_encoder_output r"
  unfolding is_gen_candidate_def is_generation_in_progress_state_def is_decoder_context_request_waiting_for_encoder_output_def is_context_init_state_def
  by (cases "request_state r") simp_all

text \<open>A schedule \<open>out\<close> that is right for the active requests \<open>qs\<close>.\<close>

definition v2_batch_ok :: "'s v2_scheduler \<Rightarrow> v2_request list \<Rightarrow> int list \<Rightarrow> scheduler_output \<Rightarrow> bool" where
  "v2_batch_ok s qs inflight out \<longleftrightarrow>
     (let enc = so_encoder_requests out; ctx = so_context_requests out; gen = so_generation_requests out;
          paused = so_paused_requests out; disagg = so_fitting_disagg_gen_init_requests out in
      so_num_fitting_requests out = int (length (enc @ ctx @ gen)) \<and> so_num_fitting_requests out \<le> v2_max_num_requests s \<and>
      distinct (map request_id (enc @ ctx @ gen @ paused @ disagg)) \<and>
      request_id ` set (enc @ ctx @ gen @ paused @ disagg) \<subseteq> (\<lambda>q. request_id (v2_req q)) ` set qs \<and>
      (\<forall>r \<in> set (enc @ ctx @ gen @ disagg). request_id r \<notin> set inflight) \<and>
      (\<exists>w. \<forall>r \<in> set gen. beam_width_by_iter r = w) \<and>
      nearly_within s ctx (sum_list (map v2_gen_tokens gen) + sum_list (map v2_enc_tokens enc) + sum_list (map (v2_ctx_tokens s) ctx)) \<and>
      ((\<exists>q \<in> set qs. is_gen_candidate inflight (v2_req q)) \<longrightarrow> gen \<noteq> [] \<or> ctx \<noteq> [] \<or> paused \<noteq> []))"

lemma v2_schedule_result:
  fixes s :: "'a v2_scheduler"
  assumes "keeps_requests s" "0 \<le> v2_max_num_requests s" "within 0 (v2_max_num_tokens s)"
    "v2_chunking_enabled s \<longrightarrow> 0 < v2_chunk_unit_size s"
    "\<forall>q \<in> set qs. 0 < beam_width_by_iter (v2_req q)" "distinct (map (\<lambda>q. request_id (v2_req q)) qs)"
    "v2_schedule_request s qs inflight st = Inr (out, st')"
  shows "v2_batch_ok s qs inflight out"
proof -
  define enc ctx gen paused disagg where lists: "enc = so_encoder_requests out" "ctx = so_context_requests out"
    "gen = so_generation_requests out" "paused = so_paused_requests out" "disagg = so_fitting_disagg_gen_init_requests out"
  let ?qs = "filter (\<lambda>q. \<not> is_decoder_context_request_waiting_for_encoder_output (v2_req q)) qs"
  let ?ids = "map (\<lambda>q. request_id (v2_req q))"
  obtain enc0 ctx0 ch l where run: "v2_schedule_loop s ?qs inflight st = Inr (enc0, ctx0, ch, l)"
    and o: "(case v2_sort_requests ctx0 (vl_gen l) ch of (ctx', gen') \<Rightarrow>
      Inr (\<lparr>so_encoder_requests = sort_key get_lora_task_id enc0, so_context_requests = ctx', so_generation_requests = gen',
        so_paused_requests = vl_evicted l, so_fitting_disagg_gen_init_requests = vl_disagg l,
        so_num_fitting_requests = int (length enc0 + length ctx' + length gen')\<rparr>, vl_state l)) = (Inr (out, st') :: (scheduler_output \<times> 'a v2_state) result)"
    using assms(7) unfolding v2_schedule_request_def Let_def rbind_eq_Inr by (auto simp only: prod.case)
  obtain ctx1 gen1 where so: "v2_sort_requests ctx0 (vl_gen l) ch = (ctx1, gen1)" by force
  have sorted: "v2_sort_requests ctx0 (vl_gen l) ch = (ctx, gen)"
    and out: "enc = sort_key get_lora_task_id enc0" "paused = vl_evicted l" "disagg = vl_disagg l"
      "so_num_fitting_requests out = int (length enc0 + length ctx + length gen)"
    using o [unfolded so] by (auto simp: so lists)
  have "loop_answer_ok s ?qs inflight enc0 ctx0 l"
    by (rule v2_schedule_loop_ok [OF assms(1-4) _ run]) (use assms(5) in simp)
  then have ok: "budget_ok s (vl_gen l) enc0 ctx0 (vl_budget l)" "\<exists>w. \<forall>r \<in> set (vl_gen l). beam_width_by_iter r = w"
      "\<forall>r \<in> set (enc0 @ ctx0 @ vl_gen l @ vl_disagg l). request_id r \<notin> set inflight"
      "mset (map request_id (enc0 @ ctx0 @ vl_gen l @ vl_evicted l @ vl_disagg l)) \<subseteq># mset (?ids ?qs)"
      "list_ex (is_gen_candidate inflight) (map v2_req ?qs) \<longrightarrow> vl_gen l \<noteq> [] \<or> ctx0 \<noteq> [] \<or> vl_evicted l \<noteq> []"
    unfolding loop_answer_ok_def by blast+
  have m: "mset enc = mset enc0" "mset ctx = mset ctx0" "mset gen = mset (vl_gen l)" using v2_sort_mset [OF sorted] by (simp_all add: out)
  note e = mset_facts [OF m(1)] and c = mset_facts [OF m(2)] and g = mset_facts [OF m(3)]
  have eq: "mset (map request_id (enc @ ctx @ gen @ paused @ disagg)) = mset (map request_id (enc0 @ ctx0 @ vl_gen l @ vl_evicted l @ vl_disagg l))"
    by (simp add: m out(2,3))
  have "mset (?ids ?qs) \<subseteq># mset (?ids qs)" by (simp add: image_mset_subseteq_mono)
  then have sub: "mset (map request_id (enc @ ctx @ gen @ paused @ disagg)) \<subseteq># mset (?ids qs)"
    unfolding eq by (rule subset_mset.order_trans [OF ok(4)])
  have dist: "distinct (map request_id (enc @ ctx @ gen @ paused @ disagg))"
    using distinct_submset [OF assms(6) sub] .
  have cand: "list_ex (is_gen_candidate inflight) (map v2_req ?qs)" if "q \<in> set qs" "is_gen_candidate inflight (v2_req q)" for q
  proof -
    have "q \<in> set ?qs" using that(1) candidate_not_waiting [OF that(2)] by simp
    then show ?thesis unfolding list_ex_iff using that(2) by auto
  qed
  show ?thesis unfolding v2_batch_ok_def Let_def lists [symmetric]
  proof (intro conjI impI)
    show "so_num_fitting_requests out = int (length (enc @ ctx @ gen))" by (simp add: e(2) out(4))
    show "so_num_fitting_requests out \<le> v2_max_num_requests s" using ok(1) by (simp add: c(2) g(2) out(4) budget_ok_def)
    show "distinct (map request_id (enc @ ctx @ gen @ paused @ disagg))" by (rule dist)
    show "request_id ` set (enc @ ctx @ gen @ paused @ disagg) \<subseteq> (\<lambda>q. request_id (v2_req q)) ` set qs"
      using set_mset_mono [OF sub] by (simp add: image_Un)
    show "\<forall>r \<in> set (enc @ ctx @ gen @ disagg). request_id r \<notin> set inflight" using ok(3) by (simp only: set_append e(1) c(1) g(1) out(3))
    show "\<exists>w. \<forall>r \<in> set gen. beam_width_by_iter r = w" using ok(2) by (simp only: g(1))
    show "nearly_within s ctx (sum_list (map v2_gen_tokens gen) + sum_list (map v2_enc_tokens enc) + sum_list (map (v2_ctx_tokens s) ctx))"
    proof -
      have "nearly_within s ctx0 (sum_list (map v2_gen_tokens (vl_gen l)) + sum_list (map v2_enc_tokens enc0) + sum_list (map (v2_ctx_tokens s) ctx0))"
        using ok(1) unfolding budget_ok_def by metis
      then show ?thesis by (simp only: e(3) c(3) g(3) c(1) nearly_within_def)
    qed
    show "gen \<noteq> [] \<or> ctx \<noteq> [] \<or> paused \<noteq> []" if "\<exists>q \<in> set qs. is_gen_candidate inflight (v2_req q)"
      using that cand ok(5) unfolding c(4) g(4) out(2) by blast
  qed
qed

section \<open>When a schedule is returned\<close>

text \<open>A request whose cursor is inside its prompt, as the executor has them, and one whose multimodal blocks fit a chunk.\<close>

definition v2_wf :: "llm_request \<Rightarrow> bool" where
  "v2_wf r \<longleftrightarrow> 0 \<le> context_position r \<and> context_position r \<le> prompt_len r \<and> 0 \<le> num_draft_tokens r \<and>
     0 \<le> encoder_output_len r \<and> 0 < beam_width_by_iter r"

definition mm_fits :: "int option \<Rightarrow> v2_request \<Rightarrow> bool" where
  "mm_fits limit q \<longleftrightarrow> (case v2_cumsum q of None \<Rightarrow> True | Some cs \<Rightarrow>
     \<exists>ms. cs = running_sums ms \<and> int (length ms) = prompt_len (v2_req q) \<and>
       (\<forall>z x. 0 \<le> z \<and> x \<le> int (length ms) \<and> (\<forall>i. z \<le> i \<and> i < x \<longrightarrow> ms ! nat i) \<longrightarrow> within (x - z) limit))"

definition v2_serves :: "'s v2_scheduler \<Rightarrow> v2_request \<Rightarrow> bool" where
  "v2_serves s q \<longleftrightarrow> v2_wf (v2_req q) \<and> mm_fits (v2_max_num_tokens s) q \<and>
     (request_state (v2_req q) = ENCODER_INIT \<longrightarrow> v2_cross s \<noteq> None)"

text \<open>
  Managers that do their work: preparing a request does not raise and moves nothing but the cursor and what was prepared of the prompt, and a
  cross cache can always be made.
\<close>

definition managers_work :: "'s v2_scheduler \<Rightarrow> bool" where
  "managers_work s \<longleftrightarrow> keeps_requests s \<and>
     (\<forall>r x. v2_wf r \<longrightarrow> (\<exists>ok r' x'. prepare_context (v2_kv s) r x = Inr (ok, r', x') \<and> v2_wf r' \<and>
        request_state r' = request_state r \<and> prompt_len r' = prompt_len r)) \<and>
     (\<forall>c. v2_cross s = Some (CrossOther c) \<longrightarrow> (\<forall>r x. \<exists>y. prepare_context c r x = Inr y)) \<and>
     (\<forall>c. v2_cross s = Some (CrossV2 c) \<longrightarrow> (\<forall>r x. fst (cv_create c r x)))"

text \<open>The limits are those that the constructor sets.\<close>

definition v2_config_ok :: "'s v2_scheduler \<Rightarrow> bool" where
  "v2_config_ok s \<longleftrightarrow> 0 \<le> v2_max_num_requests s \<and> within 0 (v2_max_num_tokens s) \<and> v2_max_context_length s = v2_max_num_tokens s \<and>
     (v2_chunking_enabled s \<longrightarrow> 0 < v2_chunk_unit_size s)"

lemma prepare_returns:
  assumes "managers_work s" "v2_wf r"
  shows "\<exists>ok r' st'. prepare (v2_kv s) r st = Inr (ok, r', st') \<and> v2_wf r' \<and> request_state r' = request_state r \<and> prompt_len r' = prompt_len r"
proof -
  obtain ok r' x' where "prepare_context (v2_kv s) r (v2_caches st) = Inr (ok, r', x')" "v2_wf r'"
      "request_state r' = request_state r" "prompt_len r' = prompt_len r"
    using assms unfolding managers_work_def by blast
  then show ?thesis by (simp add: prepare_def)
qed

lemma cross_returns:
  assumes "managers_work s"
  shows "\<exists>act r' st'. try_schedule_cross_context s q r st = Inr (act, r', st')"
proof (cases "needs_cross_context_allocation q \<and> (\<exists>c. v2_cross s = Some c)")
  case False
  then show ?thesis by (auto simp: try_schedule_cross_context_def split: option.splits)
next
  case True
  then obtain c n where c: "needs_cross_context_allocation q" "v2_cross s = Some c" "v2_encoder_output_len q = Some n"
    by (auto simp: needs_cross_context_allocation_def split: if_splits)
  show ?thesis
  proof (cases c)
    case (CrossOther m)
    then obtain ok r1 x1 where "prepare_context m r (v2_caches st) = Inr (ok, r1, x1)"
      using assms c(2) unfolding managers_work_def by (metis prod.exhaust)
    then show ?thesis using c CrossOther by (auto simp: try_schedule_cross_context_def prepare_def split: prod.splits)
  next
    case (CrossV2 m)
    have "fst (cv_create m r x)" for x using assms c(2) CrossV2 by (simp add: managers_work_def)
    then have "\<exists>x. (if cv_find m (request_id r) (v2_caches st) then Inr (True, st)
        else if \<not> is_first_context_chunk r then Inr (False, st)
        else case on_caches (cv_create m r) st of (made, st1) \<Rightarrow> if made then Inr (True, st1) else Inl AttributeError) = Inr x"
      by (cases "cv_create m r (v2_caches st)") (simp add: on_caches_def, metis fst_conv)
    then obtain found st1 where "(if cv_find m (request_id r) (v2_caches st) then Inr (True, st)
        else if \<not> is_first_context_chunk r then Inr (False, st)
        else case on_caches (cv_create m r) st of (made, st1) \<Rightarrow> if made then Inr (True, st1) else Inl AttributeError) = Inr (found, st1)" by force
    then have "\<exists>y. try_schedule_cross_context_v2 m r n st = Inr y"
      unfolding try_schedule_cross_context_v2_def by (simp only: rbind_Inr prod.case Let_def split: prod.split if_split) blast
    then have "\<exists>ok st'. try_schedule_cross_context_v2 m r n st = Inr (ok, st')" by auto
    then show ?thesis using c CrossV2 by (auto simp: try_schedule_cross_context_def)
  qed
qed

lemma reserve_returns:
  assumes "managers_work s" "0 \<le> n"
  shows "\<exists>act r' n' flag st'. reserve_context s q r n ch st = Inr (act, r', n', flag, st') \<and> 0 \<le> n'"
proof (cases "on_caches (resize_context (v2_kv s) r n) st")
  case (Pair ok st1)
  obtain act r' st' where "try_schedule_cross_context s q r st1 = Inr (act, r', st')" using cross_returns [OF assms(1)] by blast
  then show ?thesis using Pair assms(2) by (cases ok; cases "act = SCHEDULED") (auto simp: reserve_context_def)
qed

lemma context_full_returns:
  assumes "managers_work s" "v2_config_ok s" "v2_wf (v2_req q)" "0 \<le> bt_num_tokens b" "bt_max_num_tokens b = v2_max_num_tokens s"
  shows "\<exists>act r n flag st'. try_schedule_context_full s q b st = Inr (act, r, n, flag, st') \<and> 0 \<le> n"
proof -
  obtain ok r st1 where p: "prepare (v2_kv s) (v2_req q) st = Inr (ok, r, st1)" "v2_wf r" using prepare_returns [OF assms(1,3)] by blast
  let ?n = "context_remaining_length r + num_draft_tokens r"
  have n: "0 \<le> ?n" "context_remaining_length r \<le> ?n" using p(2) by (auto simp: v2_wf_def context_remaining_length_def)
  show ?thesis
  proof (cases "ok \<and> can_fit_tokens ?n b")
    case True
    then have "within (bt_num_tokens b + ?n) (v2_max_num_tokens s)" using assms(5) by (simp add: can_fit_within)
    then have "case v2_max_context_length s of None \<Rightarrow> True | Some m \<Rightarrow> context_remaining_length r \<le> m"
      using assms(2,4) n by (auto simp: v2_config_ok_def within_def split: option.splits)
    then show ?thesis using True p(1) reserve_returns [OF assms(1) n(1), of q r False st1]
      by (simp add: try_schedule_context_full_def py_assert_def)
  qed (use p(1) in \<open>auto simp: try_schedule_context_full_def\<close>)
qed

lemma first_chunk_returns:
  assumes "0 < v2_chunk_unit_size s"
  shows "\<exists>n. first_chunk_size s budget rest = Inr n \<and> within n (v2_max_context_length s)"
proof -
  define n2 where "n2 = (let n1 = (case budget of None \<Rightarrow> rest | Some m \<Rightarrow> min m rest) in case v2_max_context_length s of None \<Rightarrow> n1 | Some m \<Rightarrow> min n1 m)"
  have "first_chunk_size s budget rest = Inr (if n2 < rest then n2 div v2_chunk_unit_size s * v2_chunk_unit_size s else n2)"
    using assms by (simp add: first_chunk_size_def n2_def Let_def)
  moreover have "within n2 (v2_max_context_length s)" by (auto simp: n2_def within_def Let_def min_def split: option.splits)
  ultimately show ?thesis using round_down [OF assms, of n2] by (auto simp: within_def split: option.splits)
qed

lemma align_returns:
  assumes "0 < u" "v2_wf r" "0 < n" "n \<le> context_remaining_length r" "within n budget" "within n limit"
    "mm_fits limit q" "prompt_len r = prompt_len (v2_req q)"
  shows "\<exists>c. align_chunk_to_mm_block u limit (v2_cumsum q) r n budget (context_remaining_length r) = Inr c"
proof (cases "v2_cumsum q")
  case None
  then show ?thesis by (simp add: align_chunk_to_mm_block_def)
next
  case (Some cs)
  then obtain ms where ms: "cs = running_sums ms" "int (length ms) = prompt_len r"
      "\<forall>z x. 0 \<le> z \<and> x \<le> int (length ms) \<and> (\<forall>i. z \<le> i \<and> i < x \<longrightarrow> ms ! nat i) \<longrightarrow> within (x - z) limit"
    using assms(7,8) by (auto simp: mm_fits_def)
  have "0 \<le> context_position r" "int (length ms) = context_position r + context_remaining_length r"
    using assms(2) ms(2) by (simp_all add: v2_wf_def context_remaining_length_def)
  from align_chunk_ok [OF assms(1) this(1) assms(3,4) this(2) HOL.refl assms(5,6)] show ?thesis
    using ms(3) unfolding Some ms(1) by blast
qed

lemma context_chunked_returns:
  assumes "managers_work s" "v2_config_ok s" "v2_chunking_enabled s" "v2_serves s q" "request_state (v2_req q) = CONTEXT_INIT"
  shows "\<exists>act r n flag st'. try_schedule_context_chunked s q b st = Inr (act, r, n, flag, st') \<and> 0 \<le> n"
proof -
  let ?u = "v2_chunk_unit_size s"
  have cfg: "0 < ?u" "v2_max_context_length s = v2_max_num_tokens s" using assms(2,3) by (auto simp: v2_config_ok_def)
  have q: "v2_wf (v2_req q)" "mm_fits (v2_max_num_tokens s) q" using assms(4) by (auto simp: v2_serves_def)
  obtain ok r st1 where p: "prepare (v2_kv s) (v2_req q) st = Inr (ok, r, st1)" "v2_wf r" "request_state r = CONTEXT_INIT"
      "prompt_len r = prompt_len (v2_req q)" using prepare_returns [OF assms(1) q(1)] assms(5) by metis
  obtain n where n: "first_chunk_size s (remaining_tokens b) (context_remaining_length r) = Inr n" "within n (v2_max_context_length s)"
    using first_chunk_returns [OF cfg(1)] by blast
  note bounds = first_chunk_bounds [OF n(1) cfg(1)]
  show ?thesis
  proof (cases "(case remaining_tokens b of None \<Rightarrow> False | Some m \<Rightarrow> m < ?u) \<or> \<not> ok \<or> n \<le> 0")
    case True
    then show ?thesis using p(1) n(1) unfolding try_schedule_context_chunked_def Let_def by (cases ok) auto
  next
    case False
    then obtain c where c: "align_chunk_to_mm_block ?u (v2_max_context_length s) (v2_cumsum q) r n (remaining_tokens b) (context_remaining_length r) = Inr c"
      using align_returns [OF cfg(1) p(2) _ bounds(2,1) n(2), of q] q(2) cfg(2) p(4) by auto
    have set: "\<exists>r1. set_context_chunk_size c r = Inr r1 \<and> num_draft_tokens r1 = num_draft_tokens r" if "0 < c"
      using that p(3) by (simp add: set_context_chunk_size_def is_context_init_state_def)
    show ?thesis
    proof (cases "0 < c")
      case True
      then obtain r1 where r1: "set_context_chunk_size c r = Inr r1" "num_draft_tokens r1 = num_draft_tokens r" using set by blast
      let ?t = "if is_last_context_chunk r1 \<and> num_draft_tokens r1 > 0 then c + num_draft_tokens r1 else c"
      have "0 \<le> ?t" using True by simp
      then obtain act r' n' flag st' where "reserve_context s q r1 ?t True st1 = Inr (act, r', n', flag, st')" "0 \<le> n'"
        using reserve_returns [OF assms(1), of ?t q r1 True st1] by blast
      then show ?thesis using False True p(1) n(1) c r1(1)
        unfolding try_schedule_context_chunked_def Let_def by (simp only: rbind_Inr prod.case if_False not_le HOL.simp_thms) auto
    next
      case stop: False
      then show ?thesis using False p(1) n(1) c unfolding try_schedule_context_chunked_def Let_def by auto
    qed
  qed
qed

lemma context_returns:
  assumes "managers_work s" "v2_config_ok s" "v2_serves s q" "request_state (v2_req q) = CONTEXT_INIT"
    "0 \<le> bt_num_tokens b" "bt_max_num_tokens b = v2_max_num_tokens s"
  shows "\<exists>act r n flag st'. try_schedule_context s q b st = Inr (act, r, n, flag, st') \<and> 0 \<le> n"
  using context_chunked_returns [OF assms(1,2) _ assms(3,4)] context_full_returns [OF assms(1,2) _ assms(5,6), of q st] assms(3)
  by (simp add: try_schedule_context_def v2_serves_def)

lemma encoder_returns:
  assumes "v2_config_ok s" "v2_cross s \<noteq> None" "0 \<le> bt_num_tokens b" "bt_max_num_tokens b = v2_max_num_tokens s"
  shows "\<exists>act. try_schedule_encoder s r b = Inr (act, 0) \<or> try_schedule_encoder s r b = Inr (act, encoder_output_len r)"
proof -
  have "case v2_max_context_length s of None \<Rightarrow> True | Some m \<Rightarrow> encoder_output_len r \<le> m" if "can_fit_tokens (encoder_output_len r) b"
    using assms(1,3,4) that by (auto simp: v2_config_ok_def can_fit_within within_def split: option.splits)
  then show ?thesis using assms(2) by (auto simp: try_schedule_encoder_def py_assert_def)
qed

text \<open>What the first phase puts off.\<close>

definition put_off :: "'s v2_scheduler \<Rightarrow> v2_request \<Rightarrow> bool" where
  "put_off s q \<longleftrightarrow> v2_serves s q \<and> (request_state (v2_req q) = ENCODER_INIT \<or> request_state (v2_req q) = CONTEXT_INIT)"

lemma v2_phase2_returns:
  assumes "managers_work s" "v2_config_ok s"
  shows "\<forall>q \<in> set qs. put_off s q \<Longrightarrow> 0 \<le> bt_num_tokens b \<Longrightarrow> bt_max_num_tokens b = v2_max_num_tokens s \<Longrightarrow>
    \<exists>res. v2_phase2 s qs (enc, ctx, ch) b st = Inr res"
proof (induction qs arbitrary: enc ctx ch b st)
  case (Cons q qs)
  let ?r = "v2_req q"
  have q: "put_off s q" "\<forall>q \<in> set qs. put_off s q" using Cons.prems(1) by auto
  show ?case
  proof (cases "requests_full b \<or> peft_pages_needed ?r b = None")
    case True
    then show ?thesis using Cons.IH [OF q(2) Cons.prems(2,3), of enc ctx ch st] by (cases "requests_full b") (simp_all add: Let_def)
  next
    case False
    then obtain p where go: "\<not> requests_full b" "peft_pages_needed ?r b = Some p" by auto
    show ?thesis
    proof (cases "request_state ?r = ENCODER_INIT")
      case True
      then have "v2_cross s \<noteq> None" "0 \<le> encoder_output_len ?r" using q(1) by (auto simp: put_off_def v2_serves_def v2_wf_def)
      then obtain act n where e: "try_schedule_encoder s ?r b = Inr (act, n)" "0 \<le> n"
        using encoder_returns [OF assms(2) _ Cons.prems(2,3), of ?r] by force
      show ?thesis
        using Cons.IH [OF q(2), of "commit ?r n p b" "enc @ [?r]" ctx ch st] Cons.prems(2,3) e go True
        by (cases "act = STOP") (auto simp: Let_def)
    next
      case False
      then have ctx: "request_state ?r = CONTEXT_INIT" "v2_serves s q" using q(1) by (auto simp: put_off_def)
      obtain act r1 n flag st1 where c: "try_schedule_context s q b st = Inr (act, r1, n, flag, st1)" "0 \<le> n"
        using context_returns [OF assms ctx(2,1) Cons.prems(2,3), of st] by blast
      show ?thesis
        using Cons.IH [OF q(2), of "commit r1 n p b" enc "ctx @ [r1]" "ch \<or> flag" st1] Cons.IH [OF q(2) Cons.prems(2,3), of enc ctx ch st1]
          Cons.prems(2,3) c go ctx(1)
        by (cases act) (simp_all add: Let_def)
    qed
  qed
qed simp

lemma disagg_returns:
  assumes "managers_work s" "v2_wf r"
  shows "\<exists>act r1 st'. try_schedule_disagg_gen_init s r st = Inr (act, r1, st')"
proof -
  obtain ok r1 st1 where "prepare (v2_kv s) r st = Inr (ok, r1, st1)" using prepare_returns [OF assms] by blast
  then show ?thesis by (cases ok) (auto simp: try_schedule_disagg_gen_init_def split: prod.splits)
qed

lemma state_code_inject: "state_code a = state_code b \<Longrightarrow> a = b"
  by (cases a; cases b) simp_all

text \<open>The first phase does not raise, puts off what \<open>put_off\<close> says, and keeps the token count from becoming negative.\<close>

definition phase1_ready :: "'s v2_scheduler \<Rightarrow> 's v2_loop \<Rightarrow> bool" where
  "phase1_ready s l \<longleftrightarrow> (\<forall>q \<in> set (vl_pending l). put_off s q) \<and> 0 \<le> bt_num_tokens (vl_budget l)"

lemma generation_tokens:
  "try_schedule_generation s r b rs i e ev beam st = (act, n, beam', e', ev', st') \<Longrightarrow> n = 0 \<or> n = v2_gen_tokens r"
  by (auto simp: try_schedule_generation_def v2_gen_tokens_def Let_def split: if_splits prod.splits)

lemma v2_phase1_returns:
  assumes "managers_work s"
  shows "\<forall>q \<in> set qs. v2_serves s q \<Longrightarrow> phase1_ready s l \<Longrightarrow> \<exists>l'. v2_phase1 s inflight rs i qs l = Inr l' \<and> phase1_ready s l'"
proof (induction qs arbitrary: i l)
  case (Cons q qs)
  let ?r = "v2_req q" and ?v = "state_code (request_state (v2_req q))" and ?b = "vl_budget l"
  have q: "v2_serves s q" "v2_wf ?r" and qs: "\<forall>q \<in> set qs. v2_serves s q" using Cons.prems(1) by (auto simp: v2_serves_def)
  have rec: "\<exists>l'. v2_phase1 s inflight rs (Suc i) qs l1 = Inr l' \<and> phase1_ready s l'" if "phase1_ready s l1" for l1
    using Cons.IH [OF qs that] .
  note ready = Cons.prems(2)
  consider (stop) "\<not> i < vl_end l" | (skip) "i < vl_end l" "request_id ?r \<in> set inflight"
    | (disagg) "i < vl_end l" "request_id ?r \<notin> set inflight" "?v = state_code DISAGG_GENERATION_INIT"
    | (full) "i < vl_end l" "request_id ?r \<notin> set inflight" "?v \<noteq> state_code DISAGG_GENERATION_INIT" "requests_full ?b"
    | (out) "i < vl_end l" "request_id ?r \<notin> set inflight" "?v \<noteq> state_code DISAGG_GENERATION_INIT" "\<not> requests_full ?b"
        "\<not> (?v \<ge> v2_until s \<and> ?v < v2_after s)"
    | (pending) "i < vl_end l" "request_id ?r \<notin> set inflight" "?v \<noteq> state_code DISAGG_GENERATION_INIT" "\<not> requests_full ?b"
        "?v \<ge> v2_until s \<and> ?v < v2_after s" "?v = state_code ENCODER_INIT \<or> ?v = state_code CONTEXT_INIT"
    | (gen) "i < vl_end l" "request_id ?r \<notin> set inflight" "?v \<noteq> state_code DISAGG_GENERATION_INIT" "\<not> requests_full ?b"
        "?v \<ge> v2_until s \<and> ?v < v2_after s" "\<not> (?v = state_code ENCODER_INIT \<or> ?v = state_code CONTEXT_INIT)" by blast
  then show ?case
  proof cases
    case disagg
    show ?thesis
    proof (cases "peft_pages_needed ?r ?b")
      case None
      then show ?thesis using ready disagg unfolding phase1_Cons by (simp only: option.case if_True if_False HOL.simp_thms) simp
    next
      case (Some p)
      obtain act r1 st where d: "try_schedule_disagg_gen_init s ?r (vl_state l) = Inr (act, r1, st)"
        using disagg_returns [OF assms q(2)] by blast
      let ?l1 = "l\<lparr>vl_state := st, vl_disagg := vl_disagg l @ [r1], vl_budget := (if p > 0 then commit_peft r1 p ?b else ?b)\<rparr>"
      have "phase1_ready s (l\<lparr>vl_state := st\<rparr>)" "phase1_ready s ?l1" using ready by (simp_all add: phase1_ready_def)
      then show ?thesis using rec [of "l\<lparr>vl_state := st\<rparr>"] rec [of ?l1] disagg Some d unfolding phase1_Cons
        by (cases act) (simp_all only: option.case rbind_Inr prod.case if_True if_False HOL.simp_thms schedule_action.distinct, blast)
    qed
  next
    case pending
    have "phase1_ready s (l\<lparr>vl_pending := vl_pending l @ [q]\<rparr>)"
      using ready q(1) pending(6) state_code_inject by (auto simp: phase1_ready_def put_off_def)
    from rec [OF this] show ?thesis using pending unfolding phase1_Cons by (simp only: if_True if_False HOL.simp_thms)
  next
    case gen
    show ?thesis
    proof (cases "peft_pages_needed ?r ?b")
      case None
      then show ?thesis using ready gen unfolding phase1_Cons by (simp only: option.case if_True if_False HOL.simp_thms) simp
    next
      case (Some p)
      obtain act n beam e ev st where
        g: "try_schedule_generation s ?r ?b rs i (vl_end l) (vl_evicted l) (vl_beam l) (vl_state l) = (act, n, beam, e, ev, st)"
        by (metis prod.exhaust)
      have n: "0 \<le> n" using generation_tokens [OF g] q(2) by (auto simp: v2_gen_tokens_def v2_wf_def)
      let ?l1 = "l\<lparr>vl_beam := beam, vl_end := e, vl_evicted := ev, vl_state := st\<rparr>"
      let ?l2 = "?l1\<lparr>vl_gen := vl_gen l @ [?r], vl_budget := commit ?r n p ?b\<rparr>"
      have "phase1_ready s ?l1" "phase1_ready s ?l2" using ready n by (simp_all add: phase1_ready_def)
      then show ?thesis using rec [of ?l1] rec [of ?l2] gen Some g unfolding phase1_Cons
        by (cases act) (simp_all only: option.case prod.case if_True if_False HOL.simp_thms schedule_action.distinct, blast)
    qed
  next
    case skip
    show ?thesis using rec [OF ready] skip unfolding phase1_Cons by (simp only: if_True if_False HOL.simp_thms)
  next
    case out
    show ?thesis using rec [OF ready] out unfolding phase1_Cons by (simp only: if_True if_False HOL.simp_thms)
  qed (use ready in \<open>simp_all only: phase1_Cons if_True if_False HOL.simp_thms, simp_all\<close>)
qed simp

text \<open>
  C5: One call of \<open>KVCacheV2Scheduler.schedule_request\<close>, for cache managers that do their work, limits as the constructor sets them, and
  requests with distinct identifiers that can be served. Either it returns a schedule or it reports a deadlock, which it does only
  if a generation request is waiting. Of the schedule: the batch has at most \<open>max_num_requests\<close> requests and
  \<open>num_fitting_requests\<close> is their number. Every active request is in at most one of the five lists, and nothing else is in
  them. No request in flight is scheduled. All generation requests of the batch have one beam width. The tokens of the batch are within
  \<open>max_num_tokens\<close>, apart from the draft tokens of one last chunk. And if a generation request is waiting,
  something is scheduled or suspended, so that the executor does not spin.
\<close>

theorem v2_schedule_correct:
  assumes "managers_work s" "v2_config_ok s" "\<forall>q \<in> set qs. v2_serves s q" "distinct (map (\<lambda>q. request_id (v2_req q)) qs)"
  shows "(\<exists>out st'. v2_schedule_request s qs inflight st = Inr (out, st') \<and> v2_batch_ok s qs inflight out) \<or>
    v2_schedule_request s qs inflight st = Inl RuntimeError \<and> (\<exists>q \<in> set qs. is_gen_candidate inflight (v2_req q))"
proof -
  let ?qs = "filter (\<lambda>q. \<not> is_decoder_context_request_waiting_for_encoder_output (v2_req q)) qs"
  have keeps: "keeps_requests s" using assms(1) by (simp add: managers_work_def)
  have cfg: "0 \<le> v2_max_num_requests s" "within 0 (v2_max_num_tokens s)" "v2_chunking_enabled s \<longrightarrow> 0 < v2_chunk_unit_size s"
    using assms(2) by (auto simp: v2_config_ok_def)
  have beams: "\<forall>q \<in> set qs. 0 < beam_width_by_iter (v2_req q)" using assms(3) by (auto simp: v2_serves_def v2_wf_def)
  have start: "loop_inv s inflight (v2_start s ?qs st)" "taken (v2_start s ?qs st) = {#}" "vl_end (v2_start s ?qs st) = length ?qs"
    by (rule start_inv [OF cfg(1,2)])+
  have "bt_num_tokens (vl_budget (v2_start s ?qs st)) = 0" using start_budget [OF cfg(1,2), of ?qs st] by (simp add: budget_ok_def)
  then have "phase1_ready s (v2_start s ?qs st)" using start(2) by (simp add: phase1_ready_def taken_def)
  moreover have "\<forall>q \<in> set ?qs. v2_serves s q" using assms(3) by simp
  ultimately obtain l where l: "v2_phase1 s inflight (map v2_req ?qs) 0 ?qs (v2_start s ?qs st) = Inr l" "phase1_ready s l"
    using v2_phase1_returns [OF assms(1)] by blast
  have "\<forall>q \<in> set ?qs. 0 < beam_width_by_iter (v2_req q)" using beams by simp
  then have "loop_inv s inflight l" using v2_phase1_ok [OF keeps l(1) _ _ _ start(1)] start(3) by simp
  then have "bt_max_num_tokens (vl_budget l) = v2_max_num_tokens s" by (simp add: loop_inv_def budget_ok_def)
  then obtain enc ctx ch b st2 where p2: "v2_phase2 s (vl_pending l) ([], [], False) (vl_budget l) (vl_state l) = Inr ((enc, ctx, ch), b, st2)"
    using v2_phase2_returns [OF assms(1,2), of "vl_pending l" "vl_budget l" "[]" "[]" False "vl_state l"] l(2)
    by (auto simp: phase1_ready_def)
  show ?thesis
  proof (cases "vl_gen l = [] \<and> ctx = [] \<and> list_ex (is_gen_candidate inflight) (map v2_req ?qs) \<and> vl_evicted l = []")
    case True
    then have "v2_schedule_request s qs inflight st = Inl RuntimeError"
      using l(1) p2 by (simp add: v2_schedule_request_def v2_schedule_loop_def Let_def)
    moreover have "\<exists>q \<in> set qs. is_gen_candidate inflight (v2_req q)" using True by (auto simp: list_ex_iff)
    ultimately show ?thesis by simp
  next
    case False
    then have "v2_schedule_loop s ?qs inflight st = Inr (enc, ctx, ch, l\<lparr>vl_budget := b, vl_state := st2\<rparr>)"
      using l(1) p2 by (auto simp: v2_schedule_loop_def)
    then have "\<exists>out st'. v2_schedule_request s qs inflight st = Inr (out, st')"
      by (cases "v2_sort_requests ctx (vl_gen l) ch") (simp add: v2_schedule_request_def Let_def)
    then show ?thesis using v2_schedule_result [OF keeps cfg beams assms(4)] by blast
  qed
qed

text \<open>A scheduler for the examples: chunks of four, eight tokens, and managers that always find room.\<close>

definition demo_v2_manager :: "unit v2_manager" where
  "demo_v2_manager = \<lparr>prepare_context = (\<lambda>r x. Inr (True, r, x)), resize_context = (\<lambda>r n x. (True, x)),
     try_allocate_generation = (\<lambda>r x. (True, x)), is_request_active = (\<lambda>i x. False), suspend_request = (\<lambda>r x. x)\<rparr>"

definition demo_v2 :: "unit v2_scheduler" where
  "demo_v2 = v2_init 4 (Some 8) demo_v2_manager (Some 4) None None CONTEXT_INIT GENERATION_TO_COMPLETE None None"

definition demo_v2_request :: "int \<Rightarrow> llm_request_state \<Rightarrow> int \<Rightarrow> int \<Rightarrow> v2_request" where
  "demo_v2_request i state n draft = \<lparr>v2_req = (demo_request i state n)\<lparr>num_draft_tokens := draft\<rparr>,
     v2_encoder_output_len = None, v2_skip_cross = False, v2_cumsum = None\<rparr>"

definition demo_v2_state :: "unit v2_state" where
  "demo_v2_state = \<lparr>v2_caches = (), v2_cleared = []\<rparr>"

lemma demo_v2_works: "managers_work demo_v2" "v2_config_ok demo_v2"
  by (auto simp: managers_work_def keeps_requests_def demo_v2_def v2_init_def demo_v2_manager_def v2_config_ok_def within_def)

definition v2_ids :: "(scheduler_output \<times> 's v2_state) result \<Rightarrow> (int list \<times> int list) option" where
  "v2_ids x = (case x of Inl _ \<Rightarrow> None
     | Inr (out, _) \<Rightarrow> Some (map request_id (so_context_requests out), map request_id (so_generation_requests out)))"

theorem v2_schedule_correct_witness:
  "\<exists>out st'. v2_schedule_request demo_v2 [demo_v2_request 1 CONTEXT_INIT 100 0, demo_v2_request 2 GENERATION_IN_PROGRESS 20 1] [] demo_v2_state
       = Inr (out, st') \<and>
     v2_batch_ok demo_v2 [demo_v2_request 1 CONTEXT_INIT 100 0, demo_v2_request 2 GENERATION_IN_PROGRESS 20 1] [] out \<and>
     map request_id (so_context_requests out) = [1] \<and> map request_id (so_generation_requests out) = [2]"
proof -
  let ?qs = "[demo_v2_request 1 CONTEXT_INIT 100 0, demo_v2_request 2 GENERATION_IN_PROGRESS 20 1]"
  have "\<forall>q \<in> set ?qs. v2_serves demo_v2 q" "distinct (map (\<lambda>q. request_id (v2_req q)) ?qs)"
    by (simp_all add: v2_serves_def v2_wf_def mm_fits_def demo_v2_request_def)
  from v2_schedule_correct [OF demo_v2_works this, of "[]" demo_v2_state]
  have "isl (v2_schedule_request demo_v2 ?qs [] demo_v2_state) \<or>
      (\<exists>out st'. v2_schedule_request demo_v2 ?qs [] demo_v2_state = Inr (out, st') \<and> v2_batch_ok demo_v2 ?qs [] out)" by auto
  moreover have "v2_ids (v2_schedule_request demo_v2 ?qs [] demo_v2_state) = Some ([1], [2])" by code_simp
  ultimately show ?thesis by (auto simp: v2_ids_def isl_def split: sum.splits prod.splits)
qed

text \<open>
  The draft tokens of the last chunk are not checked against the budget: a prompt of eight tokens with three draft
  tokens is scheduled although the limit is eight.
\<close>

theorem v2_draft_tokens_over_limit:
  "case v2_schedule_request demo_v2 [demo_v2_request 1 CONTEXT_INIT 8 3] [] demo_v2_state of
     Inl _ \<Rightarrow> False
   | Inr (out, _) \<Rightarrow> v2_max_num_tokens demo_v2 = Some 8 \<and> sum_list (map (v2_ctx_tokens demo_v2) (so_context_requests out)) = 11"
  by code_simp

end
