(* ===== verification/Spec2Isabelle.thy ===== *)
theory Spec2Isabelle
  imports SlotAllocator FetchRequests ExecutorSchedule Eviction StorageConfig PoolSizing RadixMatch ParallelGroups V2Scheduling
begin

text \<open>
  A verification of the host-side decisions of TensorRT-LLM: which requests an executor takes in, on which rank they run,
  which of them form the next batch, and how the memory of the KV cache is laid out, handed out and reclaimed. All file
  names are relative to \<^verbatim>\<open>src/tensorrt_llm\<close> unless they start with \<^verbatim>\<open>cpp\<close>.

  \<^bold>\<open>The path of a request.\<close> A client thread puts a request into the queue of rank 0, where it and its children get
  identifiers. Once per iteration the executor moves what has arrived into the waiting queue, pops as many requests as the
  instance has room for, distributes them over the ranks of attention data parallelism, divides their prompts over the ranks
  of context parallelism, and adds them to the active requests. Then the scheduler chooses among the active requests: the
  capacity scheduler those for which the KV cache has blocks, the micro-batch scheduler among these the ones that fit into the
  token budget, and the executor may hold context requests back to get fuller batches. Below this, the second KV cache manager
  groups layers by life cycle, lays their buffers out in pools, divides memory among the pool groups, hands out slots and
  evicts pages.

  \<^bold>\<open>The theories.\<close>

  \<^item> \<open>Prelude\<close>: exceptions as values (\<open>'a result\<close> is an error or a value), sequencing of fallible steps, Python indexing,
    and the facts on lists, folds and division that the components share.

  \<^item> \<open>RequestQueue\<close>: \<^verbatim>\<open>_torch/pyexecutor/executor_request_queue.py\<close>, the identifiers of \<^verbatim>\<open>llmapi/disagg_utils.py\<close>, and the
    special items and Python attributes of \<^verbatim>\<open>_torch/pyexecutor/request_utils.py\<close>. No identifier is given twice over
    the whole life of a queue, also between local and disaggregated requests; attributes survive the broadcast.

  \<^item> \<open>WaitingQueue\<close>: \<^verbatim>\<open>_torch/pyexecutor/scheduler/waiting_queue.py\<close> and \<open>get_from_waiting_queue\<close>. Both policies satisfy the
    laws of the locale \<open>waiting_queue_laws\<close>, from which the order of service and the admission follow.

  \<^item> \<open>AdpRouter\<close>, \<open>AdpRouting\<close>: \<^verbatim>\<open>_torch/pyexecutor/scheduler/adp_router.py\<close>, the definitions and the proofs. The first loop of
    both routers is the locale \<open>target_phase\<close>. Every request goes to one rank, limits and pinned ranks are respected.

  \<^item> \<open>ContextPartition\<close>: the partitioning for Helix and Star Attention and \<open>merge_requests\<close> of \<^verbatim>\<open>request_utils.py\<close>. A rank gets
    exactly its blocks with their positions and without padding; for Star Attention if there are at least as many blocks as
    ranks and a query.

  \<^item> \<open>FetchRequests\<close>: \<open>_fetch_new_requests\<close> of \<^verbatim>\<open>_torch/pyexecutor/py_executor.py\<close>, which composes the theories above.

  \<^item> \<open>Topology\<close>, \<open>ParallelGroups\<close>: \<^verbatim>\<open>mapping.py\<close>, the ranks and groups of tensor, pipeline, context and expert parallelism. Every rank
    is in its groups at its coordinate, the groups of a kind divide the world, stages agree on who has which layer.

  \<^item> \<open>LlmRequest\<close>: the part of \<^verbatim>\<open>cpp/include/tensorrt_llm/batch_manager/llmRequest.h\<close> that the schedulers use.

  \<^item> \<open>MicroBatch\<close>, \<open>CapacityScheduler\<close>, \<open>UnifiedScheduler\<close>: the Python schedulers of
    \<^verbatim>\<open>_torch/pyexecutor/scheduler/scheduler.py\<close>, with all chunking and capacity policies, and the message by which one
    pipeline rank tells the others its schedule. Limits hold, the no-evict policy can always run to completion, the
    maximum-utilisation loop ends, pauses only started requests, and finds blocks for what it schedules.

  \<^item> \<open>SchedulerV2\<close>, \<open>V2Alignment\<close>, \<open>V2Scheduling\<close>: \<^verbatim>\<open>_torch/pyexecutor/scheduler/scheduler_v2.py\<close>, the scheduler for the second cache
    manager. Definitions, the alignment of chunks to blocks of multimodal tokens, and what one call guarantees: it returns a
    schedule within its limits in which nothing is twice and something moves on, or it reports a deadlock.

  \<^item> \<open>ExecutorSchedule\<close>: \<open>_schedule\<close> and what it calls in \<^verbatim>\<open>py_executor.py\<close>: balancing and batch waiting let every request
    through after a bounded number of calls.

  \<^item> \<open>KvUtils\<close>, \<open>Bitset\<close>, \<open>SlotAllocator\<close>: \<^verbatim>\<open>runtime/kv_cache_manager_v2/_utils.py\<close> and the allocator of
    \<^verbatim>\<open>_storage/_core.py\<close>. The bitset is 64-bit words and refines a finite set (locale \<open>index_set\<close>) as long as no resize drops set bits; no slot is held twice.

  \<^item> \<open>LifeCycle\<close>, \<open>StorageConfig\<close>, \<open>PoolSizing\<close>, \<open>Eviction\<close>: \<^verbatim>\<open>_config.py\<close>, \<^verbatim>\<open>_life_cycle_registry.py\<close>,
    \<^verbatim>\<open>_storage/_config.py\<close>, \<open>CacheLevelStorage\<close> of \<^verbatim>\<open>_storage/_core.py\<close> and \<^verbatim>\<open>_eviction_controller.py\<close> of the second KV cache
    manager. Stale blocks are exactly the ones no longer read, buffers do not overlap, the sizes respect minimums and the
    quota, and eviction is all or nothing.

  \<^item> \<open>RadixTree\<close>, \<open>RadixPrune\<close>, \<open>RadixMatch\<close>: the tree of cached blocks, \<^verbatim>\<open>_block_radix_tree.py\<close>. Definitions, the pruning of a
    match to what can be reused, and the rest: the tree is walked by hashes of tokens and finds what a walk by tokens
    finds, new blocks are found again, scopes do not see each other, and the answer to a prompt is the longest prefix that every layer can continue from.

  This theory has the properties that span the schedulers.

  \<^bold>\<open>Conventions.\<close> Objects are records, mutation is the updated record in the result, exceptions are \<open>Inl\<close>. Dictionaries are
  association lists in insertion order; a heap is the sorted list of its entries, whose keys are distinct. Python integers are
  \<open>int\<close>, or \<open>nat\<close> where the code keeps them non-negative; only the bitset wraps, at 64 bits. Time and fractions are exact
  numbers where the code has floats; where rounding could matter (the share of a pool, the tie between ranks) the theorem
  holds for every value of the parameter. Where the code mutates requests in place, the model returns updated copies.
  That includes the estimate of reusable tokens (\<open>note_reuse\<close>) which \<^verbatim>\<open>kvCacheManager.cpp\<close> writes into a request when asked for its blocks.
  Assertions are branches that raise, except \<open>assert NDEBUG or \<dots>\<close>, which the code skips by default.

  \<^bold>\<open>Loops.\<close> Loops over lists are structural; the chunking loop, the maximum-utilisation loop, the loop over the waiting queue,
  the pruning of a match, the removal of a subtree, the walks to the ends of a multimodal block and the loop that evicts for
  generation have termination proofs by the measure that shrinks. The search for a slot count and the polling of events are partial
  functions; theorems show that they return, for the polling once the driver reports the events complete.

  \<^bold>\<open>Parameters.\<close> The C++ cache managers and the PEFT cache are the records \<open>kv_manager\<close> and the like, those of the second
  kind the records \<open>v2_manager\<close> and \<open>cross_v2\<close> of operations on a shared state, with what they promise as
  hypotheses; the CUDA driver is the set of completed events; \<open>torch.split\<close> and \<open>torch.tensor_split\<close> are the records
  \<open>torch_ops\<close> and \<open>torch_split\<close> with the documented laws \<open>splits_evenly\<close>, \<open>splits_in_sections\<close>, \<open>splits_by_sizes\<close> and
  \<open>splits_by_sections\<close>; the shuffle by \<open>random.Random\<close> is any
  permutation; SHA-256 is the record \<open>hashlib\<close>, idealised as free of collisions; the collectives, the broadcast and the clock
  are functions. Each of them has a concrete instance in a witness.

  \<^bold>\<open>Not modelled.\<close> Forward passes, sampling and all tensor code; threads, locks and the order in which clients call the queue
  (its operations are taken as atomic, as the lock makes them); pages, KV cache objects and the storage manager,
  which rest on weak references, CUDA streams and the garbage collector, and the finalizers by which they prune the block
  tree (the scheduler that drives them has them as parameters); the device mesh of PyTorch; the C++ schedulers that the
  Python ones replace; transfers between servers; statistics, events and logging; the serving front end.
\<close>

section \<open>Properties of the components together\<close>

text \<open>
  C1. One pass of \<open>SimpleUnifiedScheduler\<close>, with any capacity policy and any chunking policy, returns a
  schedule in which capacity and micro-batching agree. Let \<open>fit\<close> be the requests that the capacity scheduler finds
  fitting. The batch is drawn from \<open>fit\<close>, by identifiers; \<open>num_fitting_requests\<close> is their number and at most
  \<open>max_num_requests\<close>. The batch respects the token and size limits of the micro-batch scheduler, counted with the
  estimates of reusable tokens that the capacity pass has written. No request is in two of the five lists, and
  no request in them was waiting for its encoder output. The requests have to be such that the limits of the
  micro-batch scheduler do not rule them out for ever, with these estimates.
\<close>

theorem unified_schedule_correct:
  assumes "serviceable (micro_batch_scheduler s)"
    and "\<forall>r \<in> set active. admissible (micro_batch_scheduler s) (note_reuse (capacity_scheduler s) r)"
    and "distinct (map request_id active)" "well_managed (capacity_scheduler s) active"
  shows "\<exists>out fit dis paused. sus_schedule_request s active inflight = Inr out \<and>
     cap_schedule_request (capacity_scheduler s) (drop_decoder_context_requests_waiting_for_encoder_output active)
       = Inr (fit, dis, paused) \<and>
     mset (map request_id (so_encoder_requests out @ so_context_requests out @ so_generation_requests out))
       \<subseteq># mset (map request_id fit) \<and>
     so_num_fitting_requests out = int (length fit) \<and> so_num_fitting_requests out \<le> max_num_requests (capacity_scheduler s) \<and>
     \<not> over (max_num_tokens (micro_batch_scheduler s)) (batch_tokens (micro_batch_scheduler s)
         (so_encoder_requests out, so_context_requests out, so_generation_requests out)) \<and>
     int (length (so_encoder_requests out @ so_context_requests out @ so_generation_requests out))
       \<le> min (max_batch_size (micro_batch_scheduler s)) (so_num_fitting_requests out) \<and>
     distinct (map request_id (so_encoder_requests out @ so_context_requests out @ so_generation_requests out
         @ so_fitting_disagg_gen_init_requests out @ so_paused_requests out)) \<and>
     request_id ` set (so_encoder_requests out @ so_context_requests out @ so_generation_requests out
         @ so_fitting_disagg_gen_init_requests out @ so_paused_requests out)
       \<subseteq> request_id ` {r \<in> set active. \<not> is_decoder_context_request_waiting_for_encoder_output r}"
proof -
  let ?rs = "drop_decoder_context_requests_waiting_for_encoder_output active"
  let ?note = "note_reuse (capacity_scheduler s)"
  have rs: "set ?rs = {r \<in> set active. \<not> is_decoder_context_request_waiting_for_encoder_output r}"
      "distinct (map request_id ?rs)"
    using assms(3) by (auto simp: drop_waiting_filter distinct_map_filter)
  then have "well_managed (capacity_scheduler s) ?rs"
    using assms(4) unfolding well_managed_def by blast
  then obtain fit dis paused where cap: "cap_schedule_request (capacity_scheduler s) ?rs = Inr (fit, dis, paused)"
      "mset fit + mset dis + mset paused \<subseteq># mset ?rs" "int (length fit) \<le> max_num_requests (capacity_scheduler s)"
    using cap_schedule_sub by blast
  have "set fit \<subseteq> set ?rs" using set_mset_mono [OF cap(2)] by auto
  then have "\<forall>r \<in> set (map ?note fit). admissible (micro_batch_scheduler s) r" using assms(2) rs(1) by auto
  then obtain enc ctx gen where mb: "mb_schedule (micro_batch_scheduler s) (map ?note fit) inflight = Inr (enc, ctx, gen)"
      "\<not> over (max_num_tokens (micro_batch_scheduler s)) (batch_tokens (micro_batch_scheduler s) (enc, ctx, gen))"
      "int (length (enc @ ctx @ gen)) \<le> max_batch_size (micro_batch_scheduler s)"
    and sub': "mset (map request_id (enc @ ctx @ gen)) \<subseteq># mset (map request_id (map ?note fit))"
    using mb_schedule_ok [OF assms(1), of "map ?note fit" inflight] by blast
  have sub: "mset (map request_id (enc @ ctx @ gen)) \<subseteq># mset (map request_id fit)" using sub' by (simp add: o_def)
  have len: "length (enc @ ctx @ gen) \<le> length fit" using size_mset_mono [OF sub] by simp
  have "mset (map request_id fit) + mset (map request_id dis) + mset (map request_id paused)
      \<subseteq># mset (map request_id ?rs)"
    using image_mset_subseteq_mono [OF cap(2), of request_id] by simp
  moreover have "mset (map request_id (enc @ ctx @ gen @ map ?note dis @ paused)) \<subseteq>#
      mset (map request_id fit) + mset (map request_id dis) + mset (map request_id paused)"
    using sub by (simp add: o_def)
  ultimately have ids: "mset (map request_id (enc @ ctx @ gen @ map ?note dis @ paused)) \<subseteq># mset (map request_id ?rs)"
    using subset_mset.order_trans by blast
  have dist: "distinct (map request_id (enc @ ctx @ gen @ map ?note dis @ paused))"
    using rs(2) ids by (rule distinct_submset)
  have set: "request_id ` set (enc @ ctx @ gen @ map ?note dis @ paused) \<subseteq> request_id ` set ?rs"
    using set_mset_mono [OF ids] by (simp add: image_Un image_image)
  let ?out = "\<lparr>so_encoder_requests = enc, so_context_requests = ctx, so_generation_requests = gen, so_paused_requests = paused,
    so_fitting_disagg_gen_init_requests = map ?note dis, so_num_fitting_requests = int (length fit)\<rparr>"
  show ?thesis
    using cap(1,3) mb len sub dist set unfolding rs(1)
    by (intro exI [of _ ?out] exI [of _ fit] exI [of _ dis] exI [of _ paused]) (simp add: sus_schedule_request_def)
qed

theorem unified_schedule_correct_witness:
  "\<exists>out. sus_schedule_request demo_unified [demo_ctx 1 100 3, demo_ctx 2 200 0] [] = Inr out \<and>
     so_num_fitting_requests out \<le> 4"
proof -
  let ?active = "[demo_ctx 1 100 3, demo_ctx 2 200 0]"
  have "serviceable (micro_batch_scheduler demo_unified)"
    by (simp add: serviceable_def over_def demo_unified_def sus_init_def policy_enum_def)
  moreover have "\<forall>r \<in> set ?active. admissible (micro_batch_scheduler demo_unified) (note_reuse (capacity_scheduler demo_unified) r)"
    by (simp add: admissible_def sane_def context_remaining_length_def demo_unified_def sus_init_def note_reuse_def asked_def
        reuse_estimate_def demo_kv_def)
  moreover have "distinct (map request_id ?active)" by simp
  moreover have "well_managed (capacity_scheduler demo_unified) ?active"
    by (simp add: well_managed_def demo_unified_def sus_init_def demo_kv_def removal_frees_def is_encoder_init_state_def)
  ultimately show ?thesis
    using unified_schedule_correct [of demo_unified ?active "[]"] by (auto simp: demo_unified_def sus_init_def)
qed

end
